(* ===== verification/Prelude.thy ===== *)
theory Prelude
  imports Main "HOL-Library.Word"
begin

section \<open>Prelude: machine types, failure values and shared lemmas\<close>

text \<open>
  The types and lemmas every component of the development uses: the fixed-width integers of
  \<^verbatim>\<open>src/src/buffer_mgr/types.hpp\<close>, the failure values that stand for the program's
  \<^verbatim>\<open>ensure\<close> checks, the collections of rewrite rules the component proofs share, and
  generic facts on power-of-two masks, array windows and list updates.
\<close>

unbundle bit_operations_syntax

subsection \<open>Machine integers\<close>

type_synonym u8 = "8 word"
type_synonym u16 = "16 word"
type_synonym u32 = "32 word"
type_synonym u64 = "64 word"
type_synonym PID = u64
type_synonym BID = u64

subsection \<open>Failure values\<close>

text \<open>
  \<open>fail\<close> lists the ways an operation of the program can stop instead of returning: a failed
  \<^verbatim>\<open>ensure\<close> (with the text or a name of the check), a failed \<^verbatim>\<open>assert\<close>, a
  C++ exception, and a bounded loop of the model that ran out of steps. Every theorem that speaks of a result proves that the
  last case does not arise.
\<close>

datatype fail = Ensure string | Assert string | Throw string | OutOfSteps

type_synonym 'a result = "fail + 'a"

text \<open>Sequencing of steps that may fail, and a check.\<close>

definition rbind :: "'a result \<Rightarrow> ('a \<Rightarrow> 'b result) \<Rightarrow> 'b result" where
  "rbind x f = (case x of Inl e \<Rightarrow> Inl e | Inr y \<Rightarrow> f y)"

definition check :: "bool \<Rightarrow> fail \<Rightarrow> unit result" where
  "check c e = (if c then Inr () else Inl e)"

lemma rbind_simps [simp]: "rbind (Inl e) f = Inl e" "rbind (Inr y) f = f y"
  by (simp_all add: rbind_def)

lemma rbind_Inr [simp]: "rbind x f = Inr z \<longleftrightarrow> (\<exists>y. x = Inr y \<and> f y = Inr z)"
  by (cases x) auto

lemma check_simps [simp]: "check True e = Inr ()" "check False e = Inl e"
  by (simp_all add: check_def)

lemma check_Inr [simp]: "check c e = Inr u \<longleftrightarrow> c"
  by (simp add: check_def)

named_theorems ring_simps \<open>index arithmetic of power-of-two rings\<close>
named_theorems arr_simps \<open>reads and writes of arrays kept as lists\<close>

subsection \<open>Power-of-two masks\<close>

definition is_power_of_two :: "nat \<Rightarrow> bool" where
  "is_power_of_two n \<longleftrightarrow> n \<noteq> 0 \<and> (n AND (n - 1)) = 0"

lemma pow2_and_pred: "(2 ^ k AND (2 ^ k - 1 :: nat)) = 0"
proof -
  have "(2 ^ k AND (2 ^ k - 1 :: nat)) = take_bit k (2 ^ k)"
    by (simp add: take_bit_eq_mask mask_eq_exp_minus_1)
  then show ?thesis by (simp add: take_bit_eq_mod)
qed

lemma and_pred_nonzero:
  fixes n :: nat
  assumes "2 ^ k < n" and "n < 2 ^ Suc k"
  shows "(n AND (n - 1)) \<noteq> 0"
proof -
  have "bit n k" and "bit (n - 1) k"
  proof -
    from assms have "n div 2 ^ k = 1"
      by (intro div_nat_eqI) auto
    then show "bit n k" by (simp add: bit_iff_odd)
    from assms have "(n - 1) div 2 ^ k = 1"
      by (intro div_nat_eqI) auto
    then show "bit (n - 1) k" by (simp add: bit_iff_odd)
  qed
  then have "bit (n AND (n - 1)) k" by (simp add: bit_and_iff)
  then show ?thesis by (metis bit_0_eq bot_apply bot_bool_def)
qed

lemma is_power_of_two_iff: "is_power_of_two n \<longleftrightarrow> (\<exists>k. n = 2 ^ k)"
proof
  assume p: "is_power_of_two n"
  then have "0 < n" by (simp add: is_power_of_two_def)
  then obtain k where k: "2 ^ k \<le> n" "n < 2 ^ Suc k"
    using ex_power_ivl1 [of 2 n] by auto
  show "\<exists>k. n = 2 ^ k"
  proof (cases "n = 2 ^ k")
    case False
    with k have "(n AND (n - 1)) \<noteq> 0" by (intro and_pred_nonzero [of k]) auto
    with p show ?thesis by (simp add: is_power_of_two_def)
  qed blast
next
  assume "\<exists>k. n = 2 ^ k"
  then show "is_power_of_two n" using pow2_and_pred by (auto simp: is_power_of_two_def)
qed

lemma is_power_of_two_pos [dest]: "is_power_of_two n \<Longrightarrow> 0 < n"
  by (simp add: is_power_of_two_def)

lemma and_pow2_pred:
  fixes n :: nat
  assumes "is_power_of_two n"
  shows "(i AND (n - 1)) = i mod n"
proof -
  from assms obtain k where "n = 2 ^ k" by (auto simp: is_power_of_two_iff)
  then have "n - 1 = mask k" by (simp add: mask_eq_exp_minus_1)
  then have "(i AND (n - 1)) = take_bit k i" by (simp add: take_bit_eq_mask)
  with \<open>n = 2 ^ k\<close> show ?thesis by (simp add: take_bit_eq_mod)
qed

lemma and_pow2_pred_less: "is_power_of_two n \<Longrightarrow> (i AND (n - 1)) < (n :: nat)"
  using and_pow2_pred [of n i] is_power_of_two_pos [of n] by simp

lemma word_and_pow2_pred:
  fixes x :: "'a::len word"
  assumes "is_power_of_two n" and "n < 2 ^ LENGTH('a)"
  shows "unat (x AND (of_nat n - 1)) = unat x mod n"
proof -
  from assms(1) obtain k where n: "n = 2 ^ k" by (auto simp: is_power_of_two_iff)
  have "(of_nat n - 1 :: 'a word) = mask k"
    by (simp add: n mask_eq_exp_minus_1)
  then have "unat (x AND (of_nat n - 1)) = unat (take_bit k x)"
    by (simp add: take_bit_eq_mask)
  also have "\<dots> = unat x mod n"
    by (metis n unsigned_take_bit_eq take_bit_eq_mod)
  finally show ?thesis .
qed

text \<open>A power of two below the word size divides it, so counters may wrap freely.\<close>

lemma pow2_dvd_word:
  assumes "is_power_of_two n" and "n < 2 ^ w"
  shows "n dvd 2 ^ w"
proof -
  from assms(1) obtain k where n: "n = 2 ^ k" by (auto simp: is_power_of_two_iff)
  with assms(2) have "k \<le> w"
    by (metis linorder_not_le nat_less_le one_less_numeral_iff power_strict_increasing_iff semiring_norm(76))
  with n show ?thesis by (simp add: le_imp_power_dvd)
qed

lemma mod_ring_inj:
  fixes i j n :: nat
  assumes "i < n" and "j < n" and "(a + i) mod n = (a + j) mod n"
  shows "i = j"
proof -
  have "i mod n = j mod n"
  proof (cases "i \<le> j")
    case True
    with assms(3) have "n dvd (a + j) - (a + i)"
      using mod_eq_dvd_iff_nat [of "a + i" "a + j" n] by simp
    with True show ?thesis using mod_eq_dvd_iff_nat [of i j n] by simp
  next
    case False
    with assms(3) have "n dvd (a + i) - (a + j)"
      using mod_eq_dvd_iff_nat [of "a + j" "a + i" n] by simp
    with False show ?thesis using mod_eq_dvd_iff_nat [of j i n] by simp
  qed
  with assms(1,2) show ?thesis by simp
qed

lemma mod_ring_cover:
  fixes e n :: nat
  assumes "e < n"
  shows "\<exists>d < n. (h + d) mod n = e"
proof -
  let ?d = "(e + (n - h mod n)) mod n"
  have "(h + ?d) mod n = (h mod n + (e + (n - h mod n))) mod n" by (simp add: mod_simps)
  also have "h mod n + (e + (n - h mod n)) = e + n"
  proof -
    have "h mod n < n" using assms by simp
    then show ?thesis by simp
  qed
  finally have "(h + ?d) mod n = e" using assms by simp
  moreover have "?d < n" using assms by simp
  ultimately show ?thesis by blast
qed

lemma Suc_mod_ring: "Suc ((a + i) mod n) mod n = (a + Suc i) mod (n :: nat)"
  by (simp add: mod_Suc_eq)

lemma mod_ring_pred:
  fixes n :: nat
  assumes "j < n" and "Suc j mod n = (a + Suc i) mod n"
  shows "j = (a + i) mod n"
proof -
  have "(j + 1) mod n = (a + i + 1) mod n" using assms(2) by simp
  then have "j mod n = (a + i) mod n"
    using mod_ring_inj [of "j mod n" n "(a + i) mod n" 1] assms(1)
    by (metis add.commute add.right_neutral less_nat_zero_code mod_add_right_eq mod_less_divisor
        not_gr_zero)
  with assms(1) show ?thesis by simp
qed

subsection \<open>Sums over updated arrays\<close>

lemma sum_list_map_update [arr_simps]:
  fixes f :: "'a \<Rightarrow> nat"
  assumes "i < length xs"
  shows "sum_list (map f (xs[i := y])) + f (xs ! i) = sum_list (map f xs) + f y"
  using assms
proof (induction xs arbitrary: i)
  case (Cons x xs)
  then show ?case by (cases i) (auto simp: algebra_simps)
qed simp

lemma nth_le_sum_list_map:
  fixes f :: "'a \<Rightarrow> nat"
  shows "i < length xs \<Longrightarrow> f (xs ! i) \<le> sum_list (map f xs)"
  using member_le_sum_list [of "f (xs ! i)" "map f xs"] by simp

lemma sum_list_map_bound:
  fixes f :: "'a \<Rightarrow> nat"
  assumes "\<And>x. x \<in> set xs \<Longrightarrow> f x \<le> b"
  shows "sum_list (map f xs) \<le> b * length xs"
  using assms by (induction xs) (auto simp: add_mono)

lemma word_less_next: "(p :: u64) < n \<Longrightarrow> n \<noteq> NOT 0 \<Longrightarrow> p < n + 1" "(n :: u64) \<noteq> NOT 0 \<Longrightarrow> n < n + 1"
proof -
  have "n < n + 1" if n: "n \<noteq> NOT 0" for n :: u64
  proof -
    have "unat n \<noteq> unat (NOT 0 :: u64)" using n by (simp add: word_unat_eq_iff)
    moreover have "unat (NOT 0 :: u64) = 2 ^ 64 - 1" by (simp add: unsigned_minus_1_eq_mask mask_eq_exp_minus_1)
    moreover have "unat n < 2 ^ 64" using unsigned_less [of n] by simp
    ultimately have "unat n + 1 < 2 ^ 64" by linarith
    then have "unat (n + 1) = unat n + 1" by (simp add: unat_word_ariths)
    then show "n < n + 1" by (simp add: word_less_nat_alt)
  qed
  then show "p < n \<Longrightarrow> n \<noteq> NOT 0 \<Longrightarrow> p < n + 1" "n \<noteq> NOT 0 \<Longrightarrow> n < n + 1" by (auto intro: less_trans)
qed

end
