(* ===== verification/Ring_Buffers.thy ===== *)
theory Ring_Buffers
  imports Prelude
begin

section \<open>Bounded queues and stacks\<close>

text \<open>
  The three fixed-capacity containers of the program: \<^verbatim>\<open>SpscRing\<close>
  (\<^verbatim>\<open>src/src/buffer_mgr/spsc_ring.hpp\<close>), \<^verbatim>\<open>StackRing\<close>
  (\<^verbatim>\<open>src/src/utils/ring.hpp\<close>) and \<^verbatim>\<open>Stack\<close> (\<^verbatim>\<open>src/src/utils/stack.hpp\<close>).
  The two rings keep a read and a write counter of 64 bits that are never reduced; only the
  array index is masked. The interface they promise is the locale \<open>bounded_fifo\<close>, whose
  client lemma says that any sequence of insertions and removals delivers what a bounded
  list queue delivers. Both rings interpret it, with the wrap-around of the counters.
\<close>

subsection \<open>The interface: a queue of bounded capacity\<close>

datatype 'a qop = Enq 'a | Deq

text \<open>What a caller sees of one operation: accepted or refused, delivered or empty.\<close>

datatype 'a qret = Accepted | Refused | Delivered 'a | Nothing

fun queue_run :: "('a \<Rightarrow> 'q \<Rightarrow> 'q option) \<Rightarrow> ('q \<Rightarrow> ('a \<times> 'q) option) \<Rightarrow>
    'a qop list \<Rightarrow> 'q \<Rightarrow> 'a qret list \<times> 'q" where
  "queue_run enq deq [] q = ([], q)"
| "queue_run enq deq (Enq x # os) q =
     (case enq x q of
        None \<Rightarrow> (let (rs, q') = queue_run enq deq os q in (Refused # rs, q'))
      | Some q1 \<Rightarrow> (let (rs, q') = queue_run enq deq os q1 in (Accepted # rs, q')))"
| "queue_run enq deq (Deq # os) q =
     (case deq q of
        None \<Rightarrow> (let (rs, q') = queue_run enq deq os q in (Nothing # rs, q'))
      | Some (x, q1) \<Rightarrow> (let (rs, q') = queue_run enq deq os q1 in (Delivered x # rs, q')))"

text \<open>The reference: a list that holds at most \<open>cap\<close> elements.\<close>

definition list_enq :: "nat \<Rightarrow> 'a \<Rightarrow> 'a list \<Rightarrow> 'a list option" where
  "list_enq cap x xs = (if length xs < cap then Some (xs @ [x]) else None)"

definition list_deq :: "'a list \<Rightarrow> ('a \<times> 'a list) option" where
  "list_deq xs = (case xs of [] \<Rightarrow> None | x # ys \<Rightarrow> Some (x, ys))"

locale bounded_fifo =
  fixes enq :: "'a \<Rightarrow> 'q \<Rightarrow> 'q option"
    and deq :: "'q \<Rightarrow> ('a \<times> 'q) option"
    and cap :: "'q \<Rightarrow> nat"
    and abs :: "'q \<Rightarrow> 'a list"
    and inv :: "'q \<Rightarrow> bool"
  assumes enq_abs: "inv q \<Longrightarrow> map_option abs (enq x q) = list_enq (cap q) x (abs q)"
    and deq_abs: "inv q \<Longrightarrow> map_option (map_prod id abs) (deq q) = list_deq (abs q)"
    and enq_inv: "inv q \<Longrightarrow> enq x q = Some q' \<Longrightarrow> inv q' \<and> cap q' = cap q"
    and deq_inv: "inv q \<Longrightarrow> deq q = Some (x, q') \<Longrightarrow> inv q' \<and> cap q' = cap q"
begin

lemma run_refines:
  assumes "inv q"
  shows "fst (queue_run enq deq os q) = fst (queue_run (list_enq (cap q)) list_deq os (abs q))
    \<and> abs (snd (queue_run enq deq os q)) = snd (queue_run (list_enq (cap q)) list_deq os (abs q))
    \<and> inv (snd (queue_run enq deq os q)) \<and> cap (snd (queue_run enq deq os q)) = cap q"
  using assms
proof (induction os arbitrary: q)
  case Nil
  then show ?case by simp
next
  case (Cons op os)
  show ?case
  proof (cases op)
    case (Enq x)
    show ?thesis
    proof (cases "enq x q")
      case None
      with enq_abs [OF Cons.prems, of x] have "list_enq (cap q) x (abs q) = None" by simp
      with None Enq Cons.IH [OF Cons.prems] show ?thesis by (simp add: case_prod_beta Let_def)
    next
      case (Some q1)
      with enq_abs [OF Cons.prems, of x] have "list_enq (cap q) x (abs q) = Some (abs q1)" by simp
      moreover from enq_inv [OF Cons.prems Some] have "inv q1" "cap q1 = cap q" by simp_all
      ultimately show ?thesis
        using Some Enq Cons.IH [of q1] by (simp add: case_prod_beta Let_def)
    qed
  next
    case Deq
    show ?thesis
    proof (cases "deq q")
      case None
      with deq_abs [OF Cons.prems] have "list_deq (abs q) = None" by simp
      with None Deq Cons.IH [OF Cons.prems] show ?thesis by (simp add: case_prod_beta Let_def)
    next
      case (Some p)
      then obtain x q1 where p: "deq q = Some (x, q1)" by (cases p) auto
      with deq_abs [OF Cons.prems] have "list_deq (abs q) = Some (x, abs q1)" by simp
      moreover from deq_inv [OF Cons.prems p] have "inv q1" "cap q1 = cap q" by simp_all
      ultimately show ?thesis
        using p Deq Cons.IH [of q1] by (simp add: case_prod_beta Let_def)
    qed
  qed
qed

end

subsection \<open>Windows of a power-of-two array\<close>

text \<open>
  The elements from counter \<open>lo\<close> up to counter \<open>hi\<close>: the shared abstraction of the two
  rings. The counters are 64-bit words; the number of elements is their wrapping difference.
\<close>

definition window :: "'a list \<Rightarrow> u64 \<Rightarrow> u64 \<Rightarrow> 'a list" where
  "window a lo hi = map (\<lambda>i. a ! ((unat lo + i) mod length a)) [0..<unat (hi - lo)]"

definition ring_ok :: "'a list \<Rightarrow> u64 \<Rightarrow> u64 \<Rightarrow> bool" where
  "ring_ok a lo hi \<longleftrightarrow> is_power_of_two (length a) \<and> length a < 2 ^ 64 \<and> unat (hi - lo) \<le> length a"

lemma length_window [simp]: "length (window a lo hi) = unat (hi - lo)"
  by (simp add: window_def)

lemma ring_ok_pos: "ring_ok a lo hi \<Longrightarrow> 0 < length a"
  by (auto simp: ring_ok_def)

lemma ring_index [ring_simps]:
  fixes x :: u64
  shows "ring_ok a lo hi \<Longrightarrow> unat (x AND (of_nat (length a) - 1)) = unat x mod length a"
  unfolding ring_ok_def by (rule word_and_pow2_pred) simp_all

lemma ring_ok_dvd: "ring_ok a lo hi \<Longrightarrow> length a dvd 2 ^ 64"
  unfolding ring_ok_def by (rule pow2_dvd_word) simp_all

lemma unat_mod_add:
  assumes "n dvd 2 ^ 64"
  shows "unat ((x :: u64) + y) mod n = (unat x + unat y) mod n"
  using assms by (simp add: unat_word_ariths mod_mod_cancel)

lemma window_push:
  assumes ok: "ring_ok a lo hi" and room: "unat (hi - lo) \<noteq> length a"
  shows "window (a[unat hi mod length a := x]) lo (hi + 1) = window a lo hi @ [x]"
    and "ring_ok (a[unat hi mod length a := x]) lo (hi + 1)"
proof -
  let ?n = "length a" and ?m = "unat (hi - lo)"
  from ok have dvd: "?n dvd 2 ^ 64" and n0: "0 < ?n" and n64: "?n < 2 ^ 64"
    using ring_ok_dvd ring_ok_pos ring_ok_def by (blast, blast, blast)
  from ok room have m: "?m < ?n" by (simp add: ring_ok_def)
  have "unat (hi - lo + 1) = ?m + 1"
    using m n64 by (simp add: unat_word_ariths)
  then have len: "unat (hi + 1 - lo) = Suc ?m" by (simp add: algebra_simps)
  have hi: "unat hi mod ?n = (unat lo + ?m) mod ?n"
    using unat_mod_add [OF dvd, of lo "hi - lo"] by simp
  have "i < ?m \<Longrightarrow> (unat lo + i) mod ?n \<noteq> unat hi mod ?n" for i
    using mod_ring_inj [of i ?n ?m "unat lo"] m hi by auto
  then have "i < ?m \<Longrightarrow> a[unat hi mod ?n := x] ! ((unat lo + i) mod ?n) = a ! ((unat lo + i) mod ?n)"
    for i by (metis nth_list_update_neq)
  moreover have "a[unat hi mod ?n := x] ! ((unat lo + ?m) mod ?n) = x"
    using n0 by (simp add: hi)
  ultimately show "window (a[unat hi mod ?n := x]) lo (hi + 1) = window a lo hi @ [x]"
    by (simp add: window_def len)
  from ok m len show "ring_ok (a[unat hi mod ?n := x]) lo (hi + 1)"
    by (simp add: ring_ok_def)
qed

lemma window_pop:
  assumes ok: "ring_ok a lo hi" and ne: "lo \<noteq> hi"
  shows "window a lo hi = a ! (unat lo mod length a) # window a (lo + 1) hi"
    and "ring_ok a (lo + 1) hi"
proof -
  let ?n = "length a" and ?m = "unat (hi - lo)"
  from ok have dvd: "?n dvd 2 ^ 64" by (rule ring_ok_dvd)
  from ne have m0: "0 < ?m" by (simp add: unat_gt_0)
  have "unat (hi - lo - 1) = ?m - 1"
    using ne by (intro unat_minus_one) simp
  then have len: "unat (hi - (lo + 1)) = ?m - 1" by (simp add: algebra_simps)
  have idx: "(unat (lo + 1) + i) mod ?n = (unat lo + Suc i) mod ?n" for i
  proof -
    have "(unat (lo + 1) + i) mod ?n = (unat (lo + 1) mod ?n + i) mod ?n" by (simp add: mod_simps)
    also have "\<dots> = ((unat lo + 1) mod ?n + i) mod ?n"
      using unat_mod_add [OF dvd, of lo 1] by simp
    finally show ?thesis by (simp add: mod_simps)
  qed
  have "[0..<?m] = 0 # map Suc [0..<?m - 1]"
    using m0 by (simp add: map_Suc_upt upt_conv_Cons)
  then show "window a lo hi = a ! (unat lo mod ?n) # window a (lo + 1) hi"
    by (simp add: window_def len idx comp_def)
  from ok len show "ring_ok a (lo + 1) hi" by (auto simp: ring_ok_def)
qed

lemma window_empty: "window a lo lo = []"
  by (simp add: window_def)

subsection \<open>\<^verbatim>\<open>SpscRing\<close>\<close>

record 'a SpscRing =
  spsc_buf :: "'a list"
  spsc_head :: u64
  spsc_tail :: u64

definition spsc_mask :: "'a SpscRing \<Rightarrow> u64" where
  "spsc_mask r = of_nat (length (spsc_buf r)) - 1"

definition spsc_size :: "'a SpscRing \<Rightarrow> u64" where
  "spsc_size r = spsc_tail r - spsc_head r"

definition spsc_empty :: "'a SpscRing \<Rightarrow> bool" where
  "spsc_empty r \<longleftrightarrow> spsc_head r = spsc_tail r"

definition spsc_full :: "'a SpscRing \<Rightarrow> bool" where
  "spsc_full r \<longleftrightarrow> spsc_size r = of_nat (length (spsc_buf r))"

definition spsc_push :: "'a \<Rightarrow> 'a SpscRing \<Rightarrow> bool \<times> 'a SpscRing" where
  "spsc_push v r =
     (if spsc_full r then (False, r)
      else (True, r\<lparr>spsc_buf := (spsc_buf r)[unat (spsc_tail r AND spsc_mask r) := v], spsc_tail := spsc_tail r + 1\<rparr>))"

definition spsc_pop :: "'a SpscRing \<Rightarrow> 'a option \<times> 'a SpscRing" where
  "spsc_pop r =
     (if spsc_empty r then (None, r)
      else (Some (spsc_buf r ! unat (spsc_head r AND spsc_mask r)), r\<lparr>spsc_head := spsc_head r + 1\<rparr>))"

definition spsc_new :: "'a list \<Rightarrow> 'a SpscRing" where
  "spsc_new b = \<lparr>spsc_buf = b, spsc_head = 0, spsc_tail = 0\<rparr>"

definition spsc_inv :: "'a SpscRing \<Rightarrow> bool" where
  "spsc_inv r \<longleftrightarrow> ring_ok (spsc_buf r) (spsc_head r) (spsc_tail r)"

definition spsc_list :: "'a SpscRing \<Rightarrow> 'a list" where
  "spsc_list r = window (spsc_buf r) (spsc_head r) (spsc_tail r)"

definition spsc_enq :: "'a \<Rightarrow> 'a SpscRing \<Rightarrow> 'a SpscRing option" where
  "spsc_enq v r = (case spsc_push v r of (b, r') \<Rightarrow> if b then Some r' else None)"

definition spsc_deq :: "'a SpscRing \<Rightarrow> ('a \<times> 'a SpscRing) option" where
  "spsc_deq r = (case spsc_pop r of (x, r') \<Rightarrow> map_option (\<lambda>v. (v, r')) x)"

lemma spsc_full_iff: "spsc_inv r \<Longrightarrow> spsc_full r \<longleftrightarrow> length (spsc_list r) = length (spsc_buf r)"
  by (simp add: spsc_full_def spsc_size_def spsc_inv_def spsc_list_def ring_ok_def
      word_unat_eq_iff unat_of_nat)

lemma spsc_empty_iff: "spsc_empty r \<longleftrightarrow> spsc_list r = []"
  by (auto simp: spsc_empty_def spsc_list_def unat_eq_zero simp flip: length_0_conv)

interpretation spsc: bounded_fifo spsc_enq spsc_deq "\<lambda>r. length (spsc_buf r)" spsc_list spsc_inv
proof
  fix x :: 'a and q :: "'a SpscRing"
  assume inv: "spsc_inv q"
  then have ok: "ring_ok (spsc_buf q) (spsc_head q) (spsc_tail q)" by (simp add: spsc_inv_def)
  have le: "unat (spsc_tail q - spsc_head q) \<le> length (spsc_buf q)" using ok by (simp add: ring_ok_def)
  show "map_option spsc_list (spsc_enq x q) = list_enq (length (spsc_buf q)) x (spsc_list q)"
  proof (cases "spsc_full q")
    case True
    then show ?thesis using spsc_full_iff [OF inv]
      by (simp add: spsc_enq_def spsc_push_def list_enq_def)
  next
    case False
    then have "unat (spsc_tail q - spsc_head q) \<noteq> length (spsc_buf q)"
      using spsc_full_iff [OF inv] by (simp add: spsc_list_def)
    with False le window_push [OF ok this, of x] ring_index [OF ok] show ?thesis
      by (simp add: spsc_enq_def spsc_push_def spsc_mask_def spsc_list_def list_enq_def)
  qed
  show "map_option (map_prod id spsc_list) (spsc_deq q) = list_deq (spsc_list q)"
  proof (cases "spsc_empty q")
    case True
    then show ?thesis
      by (simp add: spsc_deq_def spsc_pop_def list_deq_def spsc_empty_iff)
  next
    case False
    then have "spsc_head q \<noteq> spsc_tail q" by (simp add: spsc_empty_def)
    with False window_pop [OF ok] ring_index [OF ok] show ?thesis
      by (simp add: spsc_deq_def spsc_pop_def spsc_mask_def spsc_list_def list_deq_def)
  qed
next
  fix x :: 'a and q q' :: "'a SpscRing"
  assume inv: "spsc_inv q" and e: "spsc_enq x q = Some q'"
  from inv have ok: "ring_ok (spsc_buf q) (spsc_head q) (spsc_tail q)" by (simp add: spsc_inv_def)
  from e have nf: "\<not> spsc_full q" by (auto simp: spsc_enq_def spsc_push_def)
  then have "unat (spsc_tail q - spsc_head q) \<noteq> length (spsc_buf q)"
    using spsc_full_iff [OF inv] by (simp add: spsc_list_def)
  with e nf window_push(2) [OF ok this] ring_index [OF ok]
  show "spsc_inv q' \<and> length (spsc_buf q') = length (spsc_buf q)"
    by (auto simp: spsc_enq_def spsc_push_def spsc_mask_def spsc_inv_def)
next
  fix x :: 'a and q q' :: "'a SpscRing"
  assume inv: "spsc_inv q" and e: "spsc_deq q = Some (x, q')"
  from inv have ok: "ring_ok (spsc_buf q) (spsc_head q) (spsc_tail q)" by (simp add: spsc_inv_def)
  from e have "spsc_head q \<noteq> spsc_tail q" by (auto simp: spsc_deq_def spsc_pop_def spsc_empty_def)
  with e window_pop(2) [OF ok] show "spsc_inv q' \<and> length (spsc_buf q') = length (spsc_buf q)"
    by (auto simp: spsc_deq_def spsc_pop_def spsc_empty_def spsc_inv_def)
qed

subsection \<open>\<^verbatim>\<open>StackRing\<close>\<close>

record 'a StackRing =
  sr_read :: u64
  sr_write :: u64
  sr_array :: "'a list"

definition sr_mask :: "'a StackRing \<Rightarrow> u64 \<Rightarrow> u64" where
  "sr_mask r val = val AND (of_nat (length (sr_array r)) - 1)"

definition sr_size :: "'a StackRing \<Rightarrow> u64" where
  "sr_size r = sr_write r - sr_read r"

definition sr_empty :: "'a StackRing \<Rightarrow> bool" where
  "sr_empty r \<longleftrightarrow> sr_read r = sr_write r"

definition sr_full :: "'a StackRing \<Rightarrow> bool" where
  "sr_full r \<longleftrightarrow> sr_size r = of_nat (length (sr_array r))"

definition sr_push :: "'a \<Rightarrow> 'a StackRing \<Rightarrow> 'a StackRing result" where
  "sr_push val r =
     (if sr_full r then Inl (Ensure ''!full()'')
      else Inr (r\<lparr>sr_array := (sr_array r)[unat (sr_mask r (sr_write r)) := val],
                  sr_write := sr_write r + 1\<rparr>))"

definition sr_pop :: "'a StackRing \<Rightarrow> ('a \<times> 'a StackRing) result" where
  "sr_pop r =
     (if sr_empty r then Inl (Ensure ''!empty()'')
      else Inr (sr_array r ! unat (sr_mask r (sr_read r)), r\<lparr>sr_read := sr_read r + 1\<rparr>))"

definition sr_inv :: "'a StackRing \<Rightarrow> bool" where
  "sr_inv r \<longleftrightarrow> ring_ok (sr_array r) (sr_read r) (sr_write r)"

definition sr_list :: "'a StackRing \<Rightarrow> 'a list" where
  "sr_list r = window (sr_array r) (sr_read r) (sr_write r)"

definition ok_part :: "'a result \<Rightarrow> 'a option" where
  "ok_part x = (case x of Inl _ \<Rightarrow> None | Inr v \<Rightarrow> Some v)"

lemma ok_part_simps [simp]: "ok_part (Inl e) = None" "ok_part (Inr v) = Some v"
  by (simp_all add: ok_part_def)

text \<open>\<open>StackRing\<close> is \<open>SpscRing\<close> with refusals turned into failed checks.\<close>

definition sr_spsc :: "'a StackRing \<Rightarrow> 'a SpscRing" where
  "sr_spsc r = \<lparr>spsc_buf = sr_array r, spsc_head = sr_read r, spsc_tail = sr_write r\<rparr>"

lemma sr_spsc_push: "map_option sr_spsc (ok_part (sr_push x r)) = spsc_enq x (sr_spsc r)"
  by (simp add: sr_push_def spsc_enq_def spsc_push_def sr_full_def spsc_full_def sr_size_def
      spsc_size_def sr_mask_def spsc_mask_def sr_spsc_def)

lemma sr_spsc_pop: "map_option (map_prod id sr_spsc) (ok_part (sr_pop r)) = spsc_deq (sr_spsc r)"
  by (simp add: sr_pop_def spsc_deq_def spsc_pop_def sr_empty_def spsc_empty_def
      sr_mask_def spsc_mask_def sr_spsc_def)

lemma sr_spsc_abs [simp]:
  "spsc_inv (sr_spsc r) = sr_inv r" "spsc_list (sr_spsc r) = sr_list r"
  "length (spsc_buf (sr_spsc r)) = length (sr_array r)"
  by (simp_all add: sr_spsc_def spsc_inv_def sr_inv_def spsc_list_def sr_list_def)

interpretation sr: bounded_fifo "\<lambda>x r. ok_part (sr_push x r)" "\<lambda>r. ok_part (sr_pop r)"
  "\<lambda>r. length (sr_array r)" sr_list sr_inv
proof
  fix x :: 'a and q :: "'a StackRing"
  assume inv: "sr_inv q"
  have "map_option sr_list (ok_part (sr_push x q))
      = map_option spsc_list (map_option sr_spsc (ok_part (sr_push x q)))"
    by (simp add: option.map_comp comp_def)
  then show "map_option sr_list (ok_part (sr_push x q))
      = list_enq (length (sr_array q)) x (sr_list q)"
    using spsc.enq_abs [of "sr_spsc q" x] inv by (simp add: sr_spsc_push)
  have "map_option (map_prod id sr_list) (ok_part (sr_pop q))
      = map_option (map_prod id spsc_list) (map_option (map_prod id sr_spsc) (ok_part (sr_pop q)))"
    by (cases "ok_part (sr_pop q)") (auto simp: comp_def)
  then show "map_option (map_prod id sr_list) (ok_part (sr_pop q)) = list_deq (sr_list q)"
    using spsc.deq_abs [of "sr_spsc q"] inv by (simp add: sr_spsc_pop)
next
  fix x :: 'a and q q' :: "'a StackRing"
  assume inv: "sr_inv q" and e: "ok_part (sr_push x q) = Some q'"
  from e have "spsc_enq x (sr_spsc q) = Some (sr_spsc q')" by (simp flip: sr_spsc_push)
  with spsc.enq_inv [of "sr_spsc q"] inv
  show "sr_inv q' \<and> length (sr_array q') = length (sr_array q)" by fastforce
next
  fix x :: 'a and q q' :: "'a StackRing"
  assume inv: "sr_inv q" and e: "ok_part (sr_pop q) = Some (x, q')"
  from e have "spsc_deq (sr_spsc q) = Some (x, sr_spsc q')" by (simp flip: sr_spsc_pop)
  with spsc.deq_inv [of "sr_spsc q"] inv
  show "sr_inv q' \<and> length (sr_array q') = length (sr_array q)" by fastforce
qed

subsection \<open>\<^verbatim>\<open>Stack\<close>\<close>

record 'a Stack =
  stk_idx :: nat
  stk_array :: "'a list"

definition stk_full :: "'a Stack \<Rightarrow> bool" where
  "stk_full s \<longleftrightarrow> stk_idx s = length (stk_array s)"

definition stk_empty :: "'a Stack \<Rightarrow> bool" where
  "stk_empty s \<longleftrightarrow> stk_idx s = 0"

definition stk_push :: "'a \<Rightarrow> 'a Stack \<Rightarrow> 'a Stack result" where
  "stk_push val s =
     (if stk_full s then Inl (Ensure ''!full()'')
      else Inr (s\<lparr>stk_array := (stk_array s)[stk_idx s := val], stk_idx := stk_idx s + 1\<rparr>))"

definition stk_pop :: "'a Stack \<Rightarrow> ('a \<times> 'a Stack) result" where
  "stk_pop s =
     (if stk_empty s then Inl (Ensure ''!empty()'')
      else Inr (stk_array s ! (stk_idx s - 1), s\<lparr>stk_idx := stk_idx s - 1\<rparr>))"

definition stk_list :: "'a Stack \<Rightarrow> 'a list" where
  "stk_list s = rev (take (stk_idx s) (stk_array s))"

definition stk_inv :: "'a Stack \<Rightarrow> bool" where
  "stk_inv s \<longleftrightarrow> stk_idx s \<le> length (stk_array s)"

lemma stk_push_list:
  "stk_inv s \<Longrightarrow> stk_push x s = Inr s' \<Longrightarrow> stk_list s' = x # stk_list s \<and> stk_inv s'"
  by (auto simp: stk_push_def stk_full_def stk_list_def stk_inv_def take_Suc_conv_app_nth
      split: if_splits)

lemma stk_pop_list:
  assumes "stk_inv s" and "stk_pop s = Inr (x, s')"
  shows "stk_list s = x # stk_list s' \<and> stk_inv s'"
proof -
  from assms(2) obtain m where "stk_idx s = Suc m"
    by (cases "stk_idx s") (auto simp: stk_pop_def stk_empty_def)
  with assms show ?thesis
    by (auto simp: stk_pop_def stk_empty_def stk_list_def stk_inv_def take_Suc_conv_app_nth)
qed

subsection \<open>Properties\<close>

text \<open>
  C21. Any sequence of \<open>push\<close> and \<open>pop\<close> calls on an \<open>SpscRing\<close> returns exactly what a first-in
  first-out list queue of the ring's capacity returns (accepted, refused, delivered value or
  nothing), whatever the values of the two counters, their wrap-around at \<open>2 ^ 64\<close> included;
  afterwards the ring holds the elements of that queue.
\<close>

theorem spsc_ring_is_bounded_fifo:
  assumes "spsc_inv r"
  shows "fst (queue_run spsc_enq spsc_deq ops r)
      = fst (queue_run (list_enq (length (spsc_buf r))) list_deq ops (spsc_list r))
    \<and> spsc_list (snd (queue_run spsc_enq spsc_deq ops r))
      = snd (queue_run (list_enq (length (spsc_buf r))) list_deq ops (spsc_list r))
    \<and> spsc_inv (snd (queue_run spsc_enq spsc_deq ops r))"
  using spsc.run_refines [OF assms, of ops] by simp

text \<open>Witness of C1: a ring of two slots whose counters stand just below the wrap-around.\<close>

theorem spsc_ring_is_bounded_fifo_witness:
  "fst (queue_run spsc_enq spsc_deq [Enq 7, Enq 8, Enq 9, Deq, Enq 9, Deq, Deq, Deq]
     \<lparr>spsc_buf = [0, 0 :: nat], spsc_head = - 1, spsc_tail = - 1\<rparr>)
   = [Accepted, Accepted, Refused, Delivered 7, Accepted, Delivered 8, Delivered 9, Nothing]"
proof -
  have "spsc_inv \<lparr>spsc_buf = [0, 0 :: nat], spsc_head = - 1, spsc_tail = - 1\<rparr>"
    by (simp add: spsc_inv_def ring_ok_def is_power_of_two_def)
  from spsc_ring_is_bounded_fifo [OF this,
      of "[Enq 7, Enq 8, Enq 9, Deq, Enq 9, Deq, Deq, Deq]"]
  show ?thesis by (simp add: list_enq_def list_deq_def spsc_list_def window_def)
qed

text \<open>
  \<open>StackRing\<close> is the same queue with refusals turned into failed checks: \<open>push\<close> on a full
  ring and \<open>pop\<close> on an empty one fail their \<open>ensure\<close>, and every other call behaves as the
  bounded list queue.
\<close>

lemma stack_ring_push_pop:
  assumes "sr_inv r"
  shows "(\<exists>r'. sr_push x r = Inr r' \<and> sr_list r' = sr_list r @ [x] \<and> sr_inv r')
      \<or> (length (sr_list r) = length (sr_array r) \<and> sr_push x r = Inl (Ensure ''!full()''))"
    and "(\<exists>y r'. sr_pop r = Inr (y, r') \<and> sr_list r = y # sr_list r' \<and> sr_inv r')
      \<or> (sr_list r = [] \<and> sr_pop r = Inl (Ensure ''!empty()''))"
proof -
  have "length (sr_list r) \<le> length (sr_array r)"
    using assms by (simp add: sr_inv_def sr_list_def ring_ok_def)
  then show "(\<exists>r'. sr_push x r = Inr r' \<and> sr_list r' = sr_list r @ [x] \<and> sr_inv r')
      \<or> (length (sr_list r) = length (sr_array r) \<and> sr_push x r = Inl (Ensure ''!full()''))"
    using sr.enq_abs [OF assms, of x] sr.enq_inv [OF assms, of x]
    by (cases "sr_push x r") (auto simp: list_enq_def sr_push_def split: if_splits)
  show "(\<exists>y r'. sr_pop r = Inr (y, r') \<and> sr_list r = y # sr_list r' \<and> sr_inv r')
      \<or> (sr_list r = [] \<and> sr_pop r = Inl (Ensure ''!empty()''))"
    using sr.deq_abs [OF assms] sr.deq_inv [OF assms]
    by (cases "sr_pop r") (auto simp: list_deq_def sr_pop_def split: if_splits list.splits)
qed

end
