(* ===== verification/Rh_Map.thy ===== *)
theory Rh_Map
  imports Prelude
begin

section \<open>\<^verbatim>\<open>RHBSU64Map\<close>: robin-hood hashing with backshift deletion\<close>

text \<open>
  The page table of the single-threaded buffer manager,
  \<^verbatim>\<open>src/src/buffer_mgr/rh_backshift_u64_map.hpp\<close>: an array of entries and an array of
  8-bit probe distances (0 for an empty slot). The array of entries is a list of pairs, the
  probe distances keep their width. The pointer \<^verbatim>\<open>find\<close> returns is the index of the
  entry, through which the buffer manager updates the value.

  The probe loops of \<^verbatim>\<open>find\<close> and \<^verbatim>\<open>erase\<close> stop because the 8-bit distance
  reaches 255. The loops of \<^verbatim>\<open>insert\<close> and \<^verbatim>\<open>backshift_delete\<close> are given
  \<open>255 * (n + 1)\<close> steps: each step of the first raises the sum of all probe distances and of
  the carried one by one, each step of the second lowers the sum of the distances outside the
  hole by one, and every distance is at most 254 (lemmas \<open>rh_insert_loop_steps\<close> and
  \<open>rh_backshift_loop_ok\<close>).
\<close>

subsection \<open>Hash function and index\<close>

definition EMPTY_KEY :: u64 where
  "EMPTY_KEY = - 1"

definition splitmix_hash :: "u64 \<Rightarrow> u64" where
  "splitmix_hash x0 =
     (let x1 = x0 + 0x9e3779b97f4a7c15;
          x2 = (x1 XOR drop_bit 30 x1) * 0xbf58476d1ce4e5b9;
          x3 = (x2 XOR drop_bit 27 x2) * 0x94d049bb133111eb
      in x3 XOR drop_bit 31 x3)"

text \<open>The alternatives to \<open>hash\<close> the class keeps: murmur, and the hash of ScaleStore.\<close>

definition hash2 :: "u64 \<Rightarrow> u64" where
  "hash2 k0 =
     (let m = 0xc6a4a7935bd1e995;
          h0 = 0x8445d61a4e774912 XOR (8 * m);
          k1 = k0 * m;
          k2 = k1 XOR drop_bit 47 k1;
          k3 = k2 * m;
          h1 = h0 XOR k3;
          h2 = h1 * m;
          h3 = h2 XOR drop_bit 47 h2;
          h4 = h3 * m
      in h4 XOR drop_bit 47 h4)"

definition hash3 :: "u64 \<Rightarrow> u64" where
  "hash3 input =
     (let h0 = 8;
          h1 = 40343 * h0 + (input AND 0xFFFF);
          h2 = 40343 * h1 + (drop_bit 16 input AND 0xFFFF);
          h3 = 40343 * h2 + (drop_bit 32 input AND 0xFFFF);
          h4 = 40343 * h3 + drop_bit 48 input
      in 40343 * h4)"

record 'v RHMap =
  rh_entries :: "(u64 \<times> 'v) list"
  rh_ctrl :: "u8 list"
  rh_n :: nat
  rh_mask :: nat
  rh_sz :: nat
  rh_sweep :: nat

definition rh_new :: "'v \<Rightarrow> nat \<Rightarrow> 'v RHMap result" where
  "rh_new v0 capacity =
     (if capacity = 0 \<or> (capacity AND (capacity - 1)) \<noteq> 0
      then Inl (Throw ''capacity must be power of two'')
      else Inr \<lparr>rh_entries = replicate capacity (EMPTY_KEY, v0), rh_ctrl = replicate capacity 0,
                rh_n = capacity, rh_mask = capacity - 1, rh_sz = 0, rh_sweep = 0\<rparr>)"

definition rh_index :: "'v RHMap \<Rightarrow> u64 \<Rightarrow> nat" where
  "rh_index m h = (unat h AND rh_mask m)"

subsection \<open>Operations\<close>

fun rh_insert_loop :: "nat \<Rightarrow> 'v RHMap \<Rightarrow> u64 \<Rightarrow> 'v \<Rightarrow> nat \<Rightarrow> u8 \<Rightarrow> (bool \<times> 'v RHMap) result" where
  "rh_insert_loop 0 m k v i dist = Inl OutOfSteps"
| "rh_insert_loop (Suc steps) m k v i dist =
     (let c = rh_ctrl m ! i in
      if c = 0 then
        Inr (True, m\<lparr>rh_entries := (rh_entries m)[i := (k, v)], rh_ctrl := (rh_ctrl m)[i := dist],
                     rh_sz := rh_sz m + 1\<rparr>)
      else if fst (rh_entries m ! i) = k then
        Inr (False, m\<lparr>rh_entries := (rh_entries m)[i := (fst (rh_entries m ! i), v)]\<rparr>)
      else
        let (m', k', v', dist') =
              (if c < dist
               then (m\<lparr>rh_entries := (rh_entries m)[i := (k, v)], rh_ctrl := (rh_ctrl m)[i := dist]\<rparr>,
                     fst (rh_entries m ! i), snd (rh_entries m ! i), c)
               else (m, k, v, dist));
            i' = ((i + 1) AND rh_mask m)
        in if dist' + 1 = 255 then Inl (Ensure ''probe distance overflow; table too full'')
           else rh_insert_loop steps m' k' v' i' (dist' + 1))"

definition rh_insert :: "u64 \<Rightarrow> 'v \<Rightarrow> 'v RHMap \<Rightarrow> (bool \<times> 'v RHMap) result" where
  "rh_insert k v m =
     (if k = EMPTY_KEY then Inl (Ensure ''key equals EMPTY_KEY sentinel'')
      else rh_insert_loop (255 * (rh_n m + 1)) m k v (rh_index m (splitmix_hash k)) 1)"

function rh_find_loop :: "'v RHMap \<Rightarrow> u64 \<Rightarrow> nat \<Rightarrow> u8 \<Rightarrow> nat option" where
  "rh_find_loop m k i dist =
     (let c = rh_ctrl m ! i in
      if c = 0 then None
      else if c < dist then None
      else if fst (rh_entries m ! i) = k then Some i
      else if dist + 1 = 255 then None
      else rh_find_loop m k ((i + 1) AND rh_mask m) (dist + 1))"
  by pat_completeness auto

text \<open>The 8-bit distance moves towards 255 in every round, from any start.\<close>

lemma u8_dist_decreases: "(d :: u8) \<noteq> 254 \<Longrightarrow> unat (253 - d) < unat (254 - d)"
  using unat_minus_one [of "254 - d"] unat_gt_0 [of "254 - d"] by (simp add: algebra_simps)

termination rh_find_loop
  by (relation "measure (\<lambda>(m, k, i, dist). unat (254 - dist))") (auto simp: u8_dist_decreases)

declare rh_find_loop.simps [simp del]

definition rh_find :: "u64 \<Rightarrow> 'v RHMap \<Rightarrow> nat option" where
  "rh_find k m =
     (if k = EMPTY_KEY then None
      else rh_find_loop m k (rh_index m (splitmix_hash k)) 1)"

fun rh_backshift_loop :: "nat \<Rightarrow> 'v RHMap \<Rightarrow> nat \<Rightarrow> nat \<Rightarrow> 'v RHMap result" where
  "rh_backshift_loop 0 m j k = Inl OutOfSteps"
| "rh_backshift_loop (Suc steps) m j k =
     (let ck = rh_ctrl m ! k in
      if ck \<le> 1 then
        Inr (m\<lparr>rh_ctrl := (rh_ctrl m)[j := 0],
               rh_entries := (rh_entries m)[j := (EMPTY_KEY, snd (rh_entries m ! j))]\<rparr>)
      else rh_backshift_loop steps
             (m\<lparr>rh_entries := (rh_entries m)[j := rh_entries m ! k],
                rh_ctrl := (rh_ctrl m)[j := ck - 1]\<rparr>) k ((k + 1) AND rh_mask m))"

definition rh_backshift_delete :: "nat \<Rightarrow> 'v RHMap \<Rightarrow> 'v RHMap result" where
  "rh_backshift_delete hole m =
     rh_backshift_loop (255 * (rh_n m + 1)) m hole ((hole + 1) AND rh_mask m)"

function rh_erase_loop :: "'v RHMap \<Rightarrow> u64 \<Rightarrow> nat \<Rightarrow> u8 \<Rightarrow> (bool \<times> 'v RHMap) result" where
  "rh_erase_loop m k i dist =
     (let c = rh_ctrl m ! i in
      if c = 0 then Inr (False, m)
      else if c < dist then Inr (False, m)
      else if fst (rh_entries m ! i) = k then
        (case rh_backshift_delete i m of
           Inl e \<Rightarrow> Inl e
         | Inr m' \<Rightarrow> Inr (True, m'\<lparr>rh_sz := rh_sz m' - 1\<rparr>))
      else if dist + 1 = 255 then Inr (False, m)
      else rh_erase_loop m k ((i + 1) AND rh_mask m) (dist + 1))"
  by pat_completeness auto
termination rh_erase_loop
  by (relation "measure (\<lambda>(m, k, i, dist). unat (254 - dist))") (auto simp: u8_dist_decreases)

declare rh_erase_loop.simps [simp del]

definition rh_erase :: "u64 \<Rightarrow> 'v RHMap \<Rightarrow> (bool \<times> 'v RHMap) result" where
  "rh_erase k m =
     (if k = EMPTY_KEY then Inr (False, m)
      else rh_erase_loop m k (rh_index m (splitmix_hash k)) 1)"

text \<open>
  \<open>clock_sweep_next\<close>: the callback sees the key and the value, may change the value and its own
  state, may fail a check, and accepts by returning true. The loop counter \<open>scanned\<close> counts
  up to \<open>n\<close>; the model counts the slots left.
\<close>

fun rh_sweep_loop :: "nat \<Rightarrow> (u64 \<Rightarrow> 'v \<Rightarrow> 's \<Rightarrow> (bool \<times> 'v \<times> 's) result) \<Rightarrow>
    'v RHMap \<Rightarrow> 's \<Rightarrow> (bool \<times> 'v RHMap \<times> 's) result" where
  "rh_sweep_loop 0 cb m s = Inr (False, m, s)"
| "rh_sweep_loop (Suc left) cb m s =
     (let idx = rh_sweep m;
          m1 = m\<lparr>rh_sweep := ((rh_sweep m + 1) AND rh_mask m)\<rparr>
      in if rh_ctrl m1 ! idx \<noteq> 0 then
           (case cb (fst (rh_entries m1 ! idx)) (snd (rh_entries m1 ! idx)) s of
              Inl e \<Rightarrow> Inl e
            | Inr (accepted, v', s') \<Rightarrow>
                let m2 = m1\<lparr>rh_entries := (rh_entries m1)[idx := (fst (rh_entries m1 ! idx), v')]\<rparr>
                in if accepted then Inr (True, m2, s') else rh_sweep_loop left cb m2 s')
         else rh_sweep_loop left cb m1 s)"

definition rh_clock_sweep_next :: "(u64 \<Rightarrow> 'v \<Rightarrow> 's \<Rightarrow> (bool \<times> 'v \<times> 's) result) \<Rightarrow>
    'v RHMap \<Rightarrow> 's \<Rightarrow> (bool \<times> 'v RHMap \<times> 's) result" where
  "rh_clock_sweep_next cb m s =
     (if rh_sz m = 0 then Inr (False, m, s) else rh_sweep_loop (rh_n m) cb m s)"

definition rh_dump :: "'v RHMap \<Rightarrow> (u64 \<times> 'v \<times> nat \<times> nat) list" where
  "rh_dump m =
     [(fst (rh_entries m ! idx), snd (rh_entries m ! idx),
       rh_index m (splitmix_hash (fst (rh_entries m ! idx))), idx).
      idx \<leftarrow> [0..<rh_n m], rh_ctrl m ! idx \<noteq> 0]"

end
