(* ===== verification/Map_Interface.thy ===== *)
theory Map_Interface
  imports Prelude
begin

section \<open>The interface of the 64-bit hash maps\<close>

text \<open>
  What the buffer manager and the hash join rely on: the three tables of the program
  (\<^verbatim>\<open>RHBSU64Map\<close>, \<^verbatim>\<open>RHCHU64Map\<close> and \<^verbatim>\<open>ChainedHT\<close>) offer the same
  \<^verbatim>\<open>insert\<close>, \<^verbatim>\<open>find\<close> and \<^verbatim>\<open>erase\<close>. The locale \<open>u64_map\<close> states their
  contract over an abstraction to a partial function; its client lemma runs any sequence of
  calls against that function. The theories of the tables interpret it.
\<close>

datatype 'v mop = Insert u64 'v | Find u64 | Erase u64

datatype 'v mret = Bool bool | Value "'v option"

text \<open>Run a sequence of calls; a failing call stops the run, as the exception would.\<close>

fun map_run :: "(u64 \<Rightarrow> 'v \<Rightarrow> 'm \<Rightarrow> (bool \<times> 'm) result) \<Rightarrow> (u64 \<Rightarrow> 'm \<Rightarrow> 'v option) \<Rightarrow>
    (u64 \<Rightarrow> 'm \<Rightarrow> (bool \<times> 'm) result) \<Rightarrow> 'v mop list \<Rightarrow> 'm \<Rightarrow> ('v mret list \<times> 'm) result" where
  "map_run ins fnd era [] m = Inr ([], m)"
| "map_run ins fnd era (Insert k v # os) m =
     (case ins k v m of
        Inl e \<Rightarrow> Inl e
      | Inr (b, m1) \<Rightarrow> map_sum id (apfst ((#) (Bool b))) (map_run ins fnd era os m1))"
| "map_run ins fnd era (Find k # os) m =
     map_sum id (apfst ((#) (Value (fnd k m)))) (map_run ins fnd era os m)"
| "map_run ins fnd era (Erase k # os) m =
     (case era k m of
        Inl e \<Rightarrow> Inl e
      | Inr (b, m1) \<Rightarrow> map_sum id (apfst ((#) (Bool b))) (map_run ins fnd era os m1))"

text \<open>The reference: a partial function from keys to values.\<close>

fun fun_run :: "'v mop list \<Rightarrow> (u64 \<Rightarrow> 'v option) \<Rightarrow> 'v mret list \<times> (u64 \<Rightarrow> 'v option)" where
  "fun_run [] f = ([], f)"
| "fun_run (Insert k v # os) f = apfst ((#) (Bool (f k = None))) (fun_run os (f(k \<mapsto> v)))"
| "fun_run (Find k # os) f = apfst ((#) (Value (f k))) (fun_run os f)"
| "fun_run (Erase k # os) f = apfst ((#) (Bool (f k \<noteq> None))) (fun_run os (f(k := None)))"

lemma map_sum_eq_Inr: "map_sum id f x = Inr y \<longleftrightarrow> (\<exists>z. x = Inr z \<and> y = f z)"
  by (cases x) auto

locale u64_map =
  fixes ins :: "u64 \<Rightarrow> 'v \<Rightarrow> 'm \<Rightarrow> (bool \<times> 'm) result"
    and fnd :: "u64 \<Rightarrow> 'm \<Rightarrow> 'v option"
    and era :: "u64 \<Rightarrow> 'm \<Rightarrow> (bool \<times> 'm) result"
    and abs :: "'m \<Rightarrow> u64 \<Rightarrow> 'v option"
    and inv :: "'m \<Rightarrow> bool"
  assumes find_abs: "inv m \<Longrightarrow> fnd k m = abs m k"
    and insert_abs: "inv m \<Longrightarrow> ins k v m = Inr (b, m') \<Longrightarrow>
      inv m' \<and> abs m' = (abs m)(k \<mapsto> v) \<and> (b \<longleftrightarrow> abs m k = None)"
    and insert_ends: "inv m \<Longrightarrow> ins k v m \<noteq> Inl OutOfSteps"
    and erase_abs: "inv m \<Longrightarrow>
      \<exists>m'. era k m = Inr (abs m k \<noteq> None, m') \<and> inv m' \<and> abs m' = (abs m)(k := None)"
begin

lemma run_abs:
  assumes "inv m" and "map_run ins fnd era ops m = Inr (rs, m')"
  shows "rs = fst (fun_run ops (abs m)) \<and> abs m' = snd (fun_run ops (abs m)) \<and> inv m'"
  using assms
proof (induction ops arbitrary: m rs)
  case (Cons op ops)
  show ?case
  proof (cases op)
    case (Insert k v)
    with Cons.prems(2) obtain b m1 rs1 where i: "ins k v m = Inr (b, m1)"
      and r: "map_run ins fnd era ops m1 = Inr (rs1, m')" "rs = Bool b # rs1"
      by (auto simp: map_sum_eq_Inr split: sum.splits)
    from insert_abs [OF Cons.prems(1) i] have a: "inv m1" "abs m1 = (abs m)(k \<mapsto> v)"
      and b: "b \<longleftrightarrow> abs m k = None" by auto
    from Cons.IH [OF a(1) r(1), unfolded a(2)] b r(2) Insert show ?thesis
      by (simp del: fun_upd_apply)
  next
    case (Find k)
    with Cons.prems(2) obtain rs1 where r: "map_run ins fnd era ops m = Inr (rs1, m')"
      "rs = Value (fnd k m) # rs1" by (auto simp: map_sum_eq_Inr)
    from Cons.IH [OF Cons.prems(1) r(1)] r(2) find_abs [OF Cons.prems(1)] Find
    show ?thesis by simp
  next
    case (Erase k)
    from erase_abs [OF Cons.prems(1), of k] obtain m1 where e: "era k m = Inr (abs m k \<noteq> None, m1)"
      and a: "inv m1" "abs m1 = (abs m)(k := None)" by blast
    from e Cons.prems(2) Erase obtain rs1 where r: "map_run ins fnd era ops m1 = Inr (rs1, m')"
      "rs = Bool (abs m k \<noteq> None) # rs1" by (auto simp: map_sum_eq_Inr)
    from Cons.IH [OF a(1) r(1), unfolded a(2)] r(2) Erase show ?thesis
      by (simp del: fun_upd_apply)
  qed
qed simp

lemma run_ends:
  assumes "inv m"
  shows "map_run ins fnd era ops m \<noteq> Inl OutOfSteps"
  using assms
proof (induction ops arbitrary: m)
  case (Cons op ops)
  show ?case
  proof (cases op)
    case (Insert k v)
    show ?thesis
    proof (cases "ins k v m")
      case (Inl e)
      with insert_ends [OF Cons.prems] Insert show ?thesis by auto
    next
      case (Inr p)
      then obtain b m1 where "ins k v m = Inr (b, m1)" by (cases p) auto
      with insert_abs [OF Cons.prems this] Cons.IH [of m1] Insert show ?thesis
        by (cases "map_run ins fnd era ops m1") auto
    qed
  next
    case (Find k)
    with Cons.IH [OF Cons.prems] show ?thesis by (cases "map_run ins fnd era ops m") auto
  next
    case (Erase k)
    from erase_abs [OF Cons.prems, of k] obtain m1 where
      "era k m = Inr (abs m k \<noteq> None, m1)" "inv m1" by blast
    with Cons.IH [of m1] Erase show ?thesis by (cases "map_run ins fnd era ops m1") auto
  qed
qed simp

end

end
