(* ===== verification/Rh_Map_Proofs.thy ===== *)
theory Rh_Map_Proofs
  imports Rh_Map Map_Interface
begin

section \<open>Correctness of \<^verbatim>\<open>RHBSU64Map\<close>\<close>

text \<open>
  The representation invariant of the robin-hood table, the abstraction to a finite map, and the
  proofs that every operation keeps the first and commutes with the second.
\<close>

subsection \<open>Invariant and abstraction\<close>

definition rh_home :: "nat \<Rightarrow> u64 \<Rightarrow> nat" where
  "rh_home n k = unat (splitmix_hash k) mod n"

text \<open>
  Slot \<open>i\<close> is well placed: its key is no sentinel and its probe distance says how far it stands
  from its home slot. \<open>rh_wf\<close> is the shape of the table, \<open>rh_step_bound\<close> the robin-hood
  property: from one slot to the next the probe distance grows by at most one.
\<close>

definition rh_placed :: "'v RHMap \<Rightarrow> nat \<Rightarrow> bool" where
  "rh_placed m i \<longleftrightarrow>
     (rh_ctrl m ! i \<noteq> 0 \<longrightarrow>
        fst (rh_entries m ! i) \<noteq> EMPTY_KEY \<and> unat (rh_ctrl m ! i) \<le> 254 \<and>
        i = (rh_home (rh_n m) (fst (rh_entries m ! i)) + (unat (rh_ctrl m ! i) - 1)) mod rh_n m)"

definition rh_wf :: "'v RHMap \<Rightarrow> bool" where
  "rh_wf m \<longleftrightarrow> is_power_of_two (rh_n m) \<and> rh_mask m = rh_n m - 1 \<and>
     length (rh_entries m) = rh_n m \<and> length (rh_ctrl m) = rh_n m \<and> rh_sweep m < rh_n m"

definition rh_occ :: "u8 list \<Rightarrow> nat" where
  "rh_occ cs = sum_list (map (\<lambda>c. if c = 0 then 0 else 1) cs)"

definition rh_distinct :: "'v RHMap \<Rightarrow> bool" where
  "rh_distinct m \<longleftrightarrow>
     (\<forall>i < rh_n m. \<forall>j < rh_n m. rh_ctrl m ! i \<noteq> 0 \<longrightarrow> rh_ctrl m ! j \<noteq> 0 \<longrightarrow>
        fst (rh_entries m ! i) = fst (rh_entries m ! j) \<longrightarrow> i = j)"

definition rh_inv :: "'v RHMap \<Rightarrow> bool" where
  "rh_inv m \<longleftrightarrow> rh_wf m \<and> (\<forall>i < rh_n m. rh_placed m i) \<and>
     (\<forall>i < rh_n m. unat (rh_ctrl m ! (Suc i mod rh_n m)) \<le> unat (rh_ctrl m ! i) + 1) \<and>
     rh_distinct m \<and> rh_sz m = rh_occ (rh_ctrl m)"

definition rh_abs :: "'v RHMap \<Rightarrow> u64 \<Rightarrow> 'v option" where
  "rh_abs m k = map_option (\<lambda>i. snd (rh_entries m ! i))
     (find (\<lambda>i. rh_ctrl m ! i \<noteq> 0 \<and> fst (rh_entries m ! i) = k) [0..<rh_n m])"

definition rh_lookup :: "u64 \<Rightarrow> 'v RHMap \<Rightarrow> 'v option" where
  "rh_lookup k m = map_option (\<lambda>i. snd (rh_entries m ! i)) (rh_find k m)"

lemma rh_distinctD:
  "rh_distinct m \<Longrightarrow> i < rh_n m \<Longrightarrow> j < rh_n m \<Longrightarrow> rh_ctrl m ! i \<noteq> 0 \<Longrightarrow> rh_ctrl m ! j \<noteq> 0 \<Longrightarrow>
    fst (rh_entries m ! i) = fst (rh_entries m ! j) \<Longrightarrow> i = j"
  by (simp add: rh_distinct_def)

lemma rh_distinctI:
  "(\<And>i j. i < rh_n m \<Longrightarrow> j < rh_n m \<Longrightarrow> rh_ctrl m ! i \<noteq> 0 \<Longrightarrow> rh_ctrl m ! j \<noteq> 0 \<Longrightarrow>
    fst (rh_entries m ! i) = fst (rh_entries m ! j) \<Longrightarrow> i = j) \<Longrightarrow> rh_distinct m"
  by (simp add: rh_distinct_def)

lemma rh_wf_index: "rh_wf m \<Longrightarrow> rh_index m (splitmix_hash k) = rh_home (rh_n m) k"
  using and_pow2_pred [of "rh_n m" "unat (splitmix_hash k)"]
  by (simp add: rh_wf_def rh_index_def rh_home_def)

lemma rh_wf_next:
  "rh_wf m \<Longrightarrow> (Suc i AND rh_mask m) = Suc i mod rh_n m"
  "rh_wf m \<Longrightarrow> (i + 1 AND rh_mask m) = Suc i mod rh_n m"
  using and_pow2_pred [of "rh_n m" "i + 1"] by (simp_all add: rh_wf_def)

lemma rh_wf_pos: "rh_wf m \<Longrightarrow> 0 < rh_n m"
  by (auto simp: rh_wf_def)

lemma rh_abs_Some:
  assumes "rh_distinct m"
  shows "rh_abs m k = Some v \<longleftrightarrow> (\<exists>i < rh_n m. rh_ctrl m ! i \<noteq> 0 \<and> rh_entries m ! i = (k, v))"
proof
  assume "rh_abs m k = Some v"
  then obtain i where "find (\<lambda>i. rh_ctrl m ! i \<noteq> 0 \<and> fst (rh_entries m ! i) = k) [0..<rh_n m] = Some i"
    and "v = snd (rh_entries m ! i)" by (auto simp: rh_abs_def)
  then show "\<exists>i < rh_n m. rh_ctrl m ! i \<noteq> 0 \<and> rh_entries m ! i = (k, v)"
    by (auto simp: find_Some_iff intro!: exI [of _ i] prod_eqI)
next
  assume "\<exists>i < rh_n m. rh_ctrl m ! i \<noteq> 0 \<and> rh_entries m ! i = (k, v)"
  then obtain i where i: "i < rh_n m" "rh_ctrl m ! i \<noteq> 0" "rh_entries m ! i = (k, v)" by blast
  obtain j where j: "find (\<lambda>i. rh_ctrl m ! i \<noteq> 0 \<and> fst (rh_entries m ! i) = k) [0..<rh_n m] = Some j"
    using i by (cases "find (\<lambda>i. rh_ctrl m ! i \<noteq> 0 \<and> fst (rh_entries m ! i) = k) [0..<rh_n m]")
      (auto simp: find_None_iff)
  then have "j < rh_n m" "rh_ctrl m ! j \<noteq> 0" "fst (rh_entries m ! j) = k"
    by (auto simp: find_Some_iff)
  with i assms have "j = i" unfolding rh_distinct_def by (metis fst_conv)
  with i j show "rh_abs m k = Some v" by (simp add: rh_abs_def)
qed

lemma rh_abs_None:
  "rh_abs m k = None \<longleftrightarrow> (\<forall>i < rh_n m. rh_ctrl m ! i \<noteq> 0 \<longrightarrow> fst (rh_entries m ! i) \<noteq> k)"
  by (auto simp: rh_abs_def find_None_iff)

lemma rh_abs_eqI:
  assumes "rh_distinct m"
    and "\<And>k v. f k = Some v \<longleftrightarrow> (\<exists>i < rh_n m. rh_ctrl m ! i \<noteq> 0 \<and> rh_entries m ! i = (k, v))"
  shows "rh_abs m = f"
proof
  fix k
  show "rh_abs m k = f k"
    using assms(2) [of k] rh_abs_Some [OF assms(1), of k] by (metis not_Some_eq)
qed

subsection \<open>The probe path of a key\<close>

lemma rh_path_step:
  assumes "\<forall>i < n. unat (cs ! (Suc i mod n)) \<le> unat (cs ! i :: u8) + 1" and "0 < n"
  shows "unat (cs ! ((h + d + t) mod n)) \<le> unat (cs ! ((h + d) mod n)) + t"
proof (induction t)
  case (Suc t)
  have "unat (cs ! (Suc ((h + d + t) mod n) mod n)) \<le> unat (cs ! ((h + d + t) mod n)) + 1"
    using assms by simp
  with Suc.IH show ?case using Suc_mod_ring [of "h + d" t n] by simp
qed simp

text \<open>On the way from the home of a stored key to its slot no slot has a smaller distance.\<close>

lemma rh_path_occupied:
  assumes inv: "rh_inv m" and j: "j < rh_n m" "rh_ctrl m ! j \<noteq> 0"
    and d: "1 \<le> d" "d \<le> unat (rh_ctrl m ! j)"
  shows "d \<le> unat (rh_ctrl m ! ((rh_home (rh_n m) (fst (rh_entries m ! j)) + (d - 1)) mod rh_n m))"
proof -
  let ?n = "rh_n m" and ?h = "rh_home (rh_n m) (fst (rh_entries m ! j))"
  let ?c = "unat (rh_ctrl m ! j)"
  from inv have step: "\<forall>i < ?n. unat (rh_ctrl m ! (Suc i mod ?n)) \<le> unat (rh_ctrl m ! i) + 1"
    and pos: "0 < ?n" and pl: "rh_placed m j"
    using rh_wf_pos j by (auto simp: rh_inv_def)
  have "j = (?h + (?c - 1)) mod ?n" using pl j by (simp add: rh_placed_def)
  moreover have "(?h + (d - 1) + (?c - d)) = ?h + (?c - 1)" using d by simp
  ultimately have "?c \<le> unat (rh_ctrl m ! ((?h + (d - 1)) mod ?n)) + (?c - d)"
    using rh_path_step [OF step pos, of ?h "d - 1" "?c - d"] by metis
  with d show ?thesis by simp
qed

subsection \<open>Lookup\<close>

lemma u8_inc: "unat (d :: u8) < 255 \<Longrightarrow> unat (d + 1) = unat d + 1"
  by (simp add: unat_word_ariths)

lemma rh_find_loop_sound:
  "rh_find_loop m k i dist = Some j \<Longrightarrow> rh_wf m \<Longrightarrow> i < rh_n m \<Longrightarrow>
    j < rh_n m \<and> rh_ctrl m ! j \<noteq> 0 \<and> fst (rh_entries m ! j) = k"
proof (induction m k i dist rule: rh_find_loop.induct)
  case (1 m k i dist)
  have lt: "(i + 1 AND rh_mask m) < rh_n m"
    using rh_wf_pos [OF 1(3)] by (simp add: rh_wf_next [OF 1(3)])
  show ?case
  proof (cases "rh_ctrl m ! i \<noteq> 0 \<and> \<not> rh_ctrl m ! i < dist \<and> fst (rh_entries m ! i) \<noteq> k
      \<and> dist + 1 \<noteq> 255")
    case True
    then have "rh_find_loop m k i dist = rh_find_loop m k (i + 1 AND rh_mask m) (dist + 1)"
      by (subst rh_find_loop.simps) simp
    with 1(2) have "rh_find_loop m k (i + 1 AND rh_mask m) (dist + 1) = Some j" by simp
    with True lt show ?thesis using 1(1) [OF refl _ _ _ _ _ 1(3)] by blast
  next
    case False
    with 1(2,4) show ?thesis
      using rh_find_loop.simps [of m k i dist] by (auto simp: Let_def split: if_splits)
  qed
qed

lemma rh_find_loop_complete:
  assumes "rh_inv m" and "j < rh_n m" and "rh_ctrl m ! j \<noteq> 0" and "fst (rh_entries m ! j) = k"
    and "1 \<le> unat dist" and "unat dist \<le> unat (rh_ctrl m ! j)"
    and "i = (rh_home (rh_n m) k + (unat dist - 1)) mod rh_n m"
  shows "rh_find_loop m k i dist = Some j"
  using assms
proof (induction m k i dist rule: rh_find_loop.induct)
  case (1 m k i dist)
  let ?n = "rh_n m" and ?c = "rh_ctrl m ! i" and ?cj = "rh_ctrl m ! j"
  from 1(2) have wf: "rh_wf m" and pl: "rh_placed m j" using 1(3) by (auto simp: rh_inv_def)
  have i: "i < ?n" using 1(8) rh_wf_pos [OF wf] by simp
  have ge: "unat dist \<le> unat ?c"
    using rh_path_occupied [OF 1(2,3,4,6,7)] 1(5,8) by simp
  then have c0: "?c \<noteq> 0" and cd: "\<not> ?c < dist"
    using 1(6) by (auto simp: word_less_nat_alt)
  show ?case
  proof (cases "fst (rh_entries m ! i) = k")
    case True
    then have "i = j" using 1(2,3,4,5) i c0 by (auto simp: rh_inv_def rh_distinct_def)
    with True c0 cd show ?thesis by (subst rh_find_loop.simps) simp
  next
    case False
    have j: "j = (rh_home ?n k + (unat ?cj - 1)) mod ?n" and c254: "unat ?cj \<le> 254"
      using pl 1(4,5) by (auto simp: rh_placed_def)
    have "unat dist \<noteq> unat ?cj" using False 1(5,8) j by auto
    with 1(7) have lt: "unat dist < unat ?cj" by simp
    then have inc: "unat (dist + 1) = unat dist + 1" using c254 by (simp add: u8_inc)
    have ne: "dist + 1 \<noteq> 255" using inc lt c254 by auto
    have "(i + 1 AND rh_mask m) = (rh_home ?n k + (unat (dist + 1) - 1)) mod ?n"
      using 1(6,8) inc Suc_mod_ring [of "rh_home ?n k" "unat dist - 1" ?n]
      by (simp add: rh_wf_next [OF wf])
    then have "rh_find_loop m k (i + 1 AND rh_mask m) (dist + 1) = Some j"
      using 1(1) [OF refl c0 cd False ne 1(2-5)] inc lt by simp
    with c0 cd False ne show ?thesis by (simp add: rh_find_loop.simps [of m k i dist])
  qed
qed

theorem rh_lookup_correct:
  assumes "rh_inv m"
  shows "rh_lookup k m = rh_abs m k"
proof (cases "rh_find k m")
  case None
  have "rh_ctrl m ! j \<noteq> 0 \<Longrightarrow> fst (rh_entries m ! j) \<noteq> k" if j: "j < rh_n m" for j
  proof
    assume occ: "rh_ctrl m ! j \<noteq> 0" and k: "fst (rh_entries m ! j) = k"
    from assms j have wf: "rh_wf m" and "rh_placed m j" by (auto simp: rh_inv_def)
    with occ k have ne: "k \<noteq> EMPTY_KEY" by (simp add: rh_placed_def)
    have "1 \<le> unat (rh_ctrl m ! j)" using occ by (simp add: Suc_le_eq unat_gt_0)
    then have "rh_find_loop m k (rh_home (rh_n m) k) 1 = Some j"
      using rh_find_loop_complete [OF assms j occ k, of 1 "rh_home (rh_n m) k"] rh_wf_pos [OF wf]
      by (simp add: rh_home_def)
    with None ne show False by (simp add: rh_find_def rh_wf_index [OF wf])
  qed
  then have "rh_abs m k = None" by (simp add: rh_abs_None)
  with None show ?thesis by (simp add: rh_lookup_def)
next
  case (Some j)
  from assms have wf: "rh_wf m" and dist: "rh_distinct m" by (auto simp: rh_inv_def)
  from Some have "rh_find_loop m k (rh_home (rh_n m) k) 1 = Some j"
    by (simp add: rh_find_def rh_wf_index [OF wf] split: if_splits)
  from rh_find_loop_sound [OF this wf]
  have "j < rh_n m" "rh_ctrl m ! j \<noteq> 0" "fst (rh_entries m ! j) = k"
    using rh_wf_pos [OF wf] by (auto simp: rh_home_def)
  then have "rh_abs m k = Some (snd (rh_entries m ! j))"
    using rh_abs_Some [OF dist] by (metis prod.collapse)
  with Some show ?thesis by (simp add: rh_lookup_def)
qed

subsection \<open>Insertion\<close>

text \<open>
  What holds when the loop stands at slot \<open>i\<close> carrying key \<open>k\<close> at distance \<open>dist\<close>: the slot is
  the one the distance says, the slot before it has at least the distance less one, and the key
  is not stored at a slot the loop has passed.
\<close>

definition rh_carry :: "'v RHMap \<Rightarrow> u64 \<Rightarrow> nat \<Rightarrow> u8 \<Rightarrow> bool" where
  "rh_carry m k i dist \<longleftrightarrow> k \<noteq> EMPTY_KEY \<and> 1 \<le> unat dist \<and> unat dist \<le> 254 \<and>
     i = (rh_home (rh_n m) k + (unat dist - 1)) mod rh_n m \<and>
     (\<forall>p < rh_n m. Suc p mod rh_n m = i \<longrightarrow> unat dist \<le> unat (rh_ctrl m ! p) + 1) \<and>
     (\<forall>j < rh_n m. rh_ctrl m ! j \<noteq> 0 \<longrightarrow> fst (rh_entries m ! j) = k \<longrightarrow>
        unat dist \<le> unat (rh_ctrl m ! j))"

lemma rh_carry_slot: "rh_inv m \<Longrightarrow> rh_carry m k i dist \<Longrightarrow> i < rh_n m"
  using rh_wf_pos [of m] by (auto simp: rh_carry_def rh_inv_def)

lemma rh_carry_start:
  assumes "rh_inv m" and "k \<noteq> EMPTY_KEY"
  shows "rh_carry m k (rh_index m (splitmix_hash k)) 1"
proof -
  from assms(1) have wf: "rh_wf m" by (simp add: rh_inv_def)
  have "c \<noteq> 0 \<Longrightarrow> 1 \<le> unat c" for c :: u8 by (simp add: Suc_le_eq unat_gt_0)
  then show ?thesis
    using assms rh_wf_pos [OF wf] by (simp add: rh_carry_def rh_wf_index [OF wf] rh_home_def)
qed

text \<open>A slot with a smaller distance than the carried one proves that the key is not stored.\<close>

lemma rh_carry_absent:
  assumes inv: "rh_inv m" and carry: "rh_carry m k i dist" and lt: "rh_ctrl m ! i < dist"
  shows "rh_abs m k = None"
proof -
  have "fst (rh_entries m ! j) \<noteq> k" if j: "j < rh_n m" "rh_ctrl m ! j \<noteq> 0" for j
  proof
    assume k: "fst (rh_entries m ! j) = k"
    with carry j have d: "1 \<le> unat dist" "unat dist \<le> unat (rh_ctrl m ! j)"
      by (auto simp: rh_carry_def)
    from rh_path_occupied [OF inv j d] k carry have "unat dist \<le> unat (rh_ctrl m ! i)"
      by (simp add: rh_carry_def)
    with lt show False by (simp add: word_less_nat_alt)
  qed
  then show ?thesis by (simp add: rh_abs_None)
qed

definition rh_write :: "'v RHMap \<Rightarrow> nat \<Rightarrow> u64 \<Rightarrow> 'v \<Rightarrow> u8 \<Rightarrow> 'v RHMap" where
  "rh_write m i k v dist =
     m\<lparr>rh_entries := (rh_entries m)[i := (k, v)], rh_ctrl := (rh_ctrl m)[i := dist]\<rparr>"

lemma rh_write_fields [simp]:
  "rh_n (rh_write m i k v d) = rh_n m" "rh_mask (rh_write m i k v d) = rh_mask m"
  "rh_sz (rh_write m i k v d) = rh_sz m" "rh_sweep (rh_write m i k v d) = rh_sweep m"
  "rh_entries (rh_write m i k v d) = (rh_entries m)[i := (k, v)]"
  "rh_ctrl (rh_write m i k v d) = (rh_ctrl m)[i := d]"
  by (simp_all add: rh_write_def)

text \<open>
  The write both the placing step and the robin-hood swap perform. Everything but the size
  counter is preserved.
\<close>

lemma rh_write_preserves:
  fixes m :: "'v RHMap" and v :: 'v
  assumes inv: "rh_inv m" and carry: "rh_carry m k i dist" and lt: "rh_ctrl m ! i < dist"
  defines "m' \<equiv> rh_write m i k v dist"
  shows "rh_wf m'" and "\<forall>j < rh_n m. rh_placed m' j"
    and "\<forall>j < rh_n m. unat (rh_ctrl m' ! (Suc j mod rh_n m)) \<le> unat (rh_ctrl m' ! j) + 1"
    and "rh_distinct m'"
proof -
  have i: "i < rh_n m" by (rule rh_carry_slot [OF inv carry])
  from inv have len: "length (rh_ctrl m) = rh_n m" "length (rh_entries m) = rh_n m"
    by (auto simp: rh_inv_def rh_wf_def)
  show "rh_wf m'" using inv by (simp add: rh_inv_def rh_wf_def m'_def)
  show "\<forall>j < rh_n m. rh_placed m' j"
    using inv carry i len
    by (auto simp: rh_inv_def rh_placed_def rh_carry_def m'_def nth_list_update)
  have "unat (rh_ctrl m ! i) < unat dist" using lt by (simp add: word_less_nat_alt)
  then show "\<forall>j < rh_n m. unat (rh_ctrl m' ! (Suc j mod rh_n m)) \<le> unat (rh_ctrl m' ! j) + 1"
    using inv carry i len
    by (fastforce simp: rh_inv_def rh_carry_def m'_def nth_list_update)
  have "fst (rh_entries m ! j) \<noteq> k" if "j < rh_n m" "rh_ctrl m ! j \<noteq> 0" for j
    using rh_carry_absent [OF inv carry lt] that by (simp add: rh_abs_None)
  then show "rh_distinct m'"
    using inv i len by (auto simp: rh_inv_def rh_distinct_def m'_def nth_list_update)
qed

lemma rh_write_abs:
  fixes m :: "'v RHMap" and v :: 'v
  assumes inv: "rh_inv m" and carry: "rh_carry m k i dist" and lt: "rh_ctrl m ! i < dist"
  shows "rh_abs (rh_write m i k v dist)
      = (if rh_ctrl m ! i = 0 then rh_abs m else (rh_abs m)(fst (rh_entries m ! i) := None))(k \<mapsto> v)"
    and "rh_occ (rh_ctrl (rh_write m i k v dist))
      = rh_occ (rh_ctrl m) + (if rh_ctrl m ! i = 0 then 1 else 0)"
proof -
  let ?m' = "rh_write m i k v dist"
  have i: "i < rh_n m" by (rule rh_carry_slot [OF inv carry])
  from inv have len: "length (rh_ctrl m) = rh_n m" "length (rh_entries m) = rh_n m"
    and dm: "rh_distinct m" by (auto simp: rh_inv_def rh_wf_def)
  have d0: "dist \<noteq> 0" using carry by (auto simp: rh_carry_def)
  have absent: "fst (rh_entries m ! j) \<noteq> k" if "j < rh_n m" "rh_ctrl m ! j \<noteq> 0" for j
    using rh_carry_absent [OF inv carry lt] that by (simp add: rh_abs_None)
  show "rh_abs ?m'
      = (if rh_ctrl m ! i = 0 then rh_abs m else (rh_abs m)(fst (rh_entries m ! i) := None))(k \<mapsto> v)"
  proof (rule rh_abs_eqI [OF rh_write_preserves(4) [OF inv carry lt]], goal_cases)
    case (1 k' v')
    have slot: "(\<exists>j < rh_n m. rh_ctrl ?m' ! j \<noteq> 0 \<and> rh_entries ?m' ! j = (k', v'))
        \<longleftrightarrow> (k' = k \<and> v' = v) \<or> (\<exists>j < rh_n m. j \<noteq> i \<and> rh_ctrl m ! j \<noteq> 0 \<and> rh_entries m ! j = (k', v'))"
      using i len d0 by (auto simp: nth_list_update)
    have ab: "rh_abs m k' = Some v' \<longleftrightarrow> (\<exists>j < rh_n m. rh_ctrl m ! j \<noteq> 0 \<and> rh_entries m ! j = (k', v'))"
      by (rule rh_abs_Some [OF dm])
    consider "k' = k" | "k' \<noteq> k" "rh_ctrl m ! i = 0"
      | "k' \<noteq> k" "rh_ctrl m ! i \<noteq> 0" "fst (rh_entries m ! i) = k'"
      | "k' \<noteq> k" "rh_ctrl m ! i \<noteq> 0" "fst (rh_entries m ! i) \<noteq> k'" by blast
    then show ?case
    proof cases
      case 1
      then have "\<not> (\<exists>j < rh_n m. j \<noteq> i \<and> rh_ctrl m ! j \<noteq> 0 \<and> rh_entries m ! j = (k', v'))"
        using absent by force
      with 1 slot show ?thesis by auto
    next
      case 2
      then have "(\<exists>j < rh_n m. rh_ctrl m ! j \<noteq> 0 \<and> rh_entries m ! j = (k', v'))
          \<longleftrightarrow> (\<exists>j < rh_n m. j \<noteq> i \<and> rh_ctrl m ! j \<noteq> 0 \<and> rh_entries m ! j = (k', v'))" by blast
      with 2 slot ab show ?thesis by simp
    next
      case 3
      then have "\<not> (\<exists>j < rh_n m. j \<noteq> i \<and> rh_ctrl m ! j \<noteq> 0 \<and> rh_entries m ! j = (k', v'))"
        using dm i unfolding rh_distinct_def by force
      with 3 slot show ?thesis by simp
    next
      case 4
      then have "(\<exists>j < rh_n m. rh_ctrl m ! j \<noteq> 0 \<and> rh_entries m ! j = (k', v'))
          \<longleftrightarrow> (\<exists>j < rh_n m. j \<noteq> i \<and> rh_ctrl m ! j \<noteq> 0 \<and> rh_entries m ! j = (k', v'))" by force
      with 4 slot ab show ?thesis by simp
    qed
  qed
  show "rh_occ (rh_ctrl ?m') = rh_occ (rh_ctrl m) + (if rh_ctrl m ! i = 0 then 1 else 0)"
    using sum_list_map_update [of i "rh_ctrl m" "\<lambda>c. if c = 0 then 0 else 1" dist] i len d0
    by (simp add: rh_occ_def split: if_splits)
qed

lemma rh_place:
  fixes m :: "'v RHMap" and v :: 'v
  assumes inv: "rh_inv m" and carry: "rh_carry m k i dist" and c0: "rh_ctrl m ! i = 0"
  defines "m' \<equiv> m\<lparr>rh_entries := (rh_entries m)[i := (k, v)], rh_ctrl := (rh_ctrl m)[i := dist],
                     rh_sz := rh_sz m + 1\<rparr>"
  shows "rh_inv m'" and "rh_abs m' = (rh_abs m)(k \<mapsto> v)" and "rh_abs m k = None"
proof -
  have lt: "rh_ctrl m ! i < dist"
    using carry c0 by (simp add: rh_carry_def word_less_nat_alt)
  have m': "m' = (rh_write m i k v dist)\<lparr>rh_sz := rh_sz m + 1\<rparr>"
    by (simp add: m'_def rh_write_def)
  have same: "rh_abs (x\<lparr>rh_sz := z\<rparr>) = rh_abs x" for x :: "'v RHMap" and z
    by (simp add: rh_abs_def fun_eq_iff)
  show "rh_inv m'"
    using rh_write_preserves [OF inv carry lt, of v] rh_write_abs(2) [OF inv carry lt, of v] c0 inv
    by (simp add: rh_inv_def rh_wf_def rh_placed_def rh_distinct_def m')
  show "rh_abs m' = (rh_abs m)(k \<mapsto> v)"
    using rh_write_abs(1) [OF inv carry lt, of v] c0 by (simp add: m' same)
  show "rh_abs m k = None" by (rule rh_carry_absent [OF inv carry lt])
qed

lemma rh_swap:
  assumes inv: "rh_inv m" and carry: "rh_carry m k i dist" and lt: "rh_ctrl m ! i < dist"
    and c0: "rh_ctrl m ! i \<noteq> 0"
  defines "c \<equiv> rh_ctrl m ! i" and "k' \<equiv> fst (rh_entries m ! i)"
  shows "rh_inv (rh_write m i k v dist)"
    and "rh_abs (rh_write m i k v dist) = ((rh_abs m)(k' := None))(k \<mapsto> v)"
    and "rh_abs m k' = Some (snd (rh_entries m ! i))" and "k' \<noteq> k"
    and "rh_carry (rh_write m i k v dist) k' (Suc i mod rh_n m) (c + 1)" and "c + 1 \<noteq> 255"
proof -
  let ?m' = "rh_write m i k v dist"
  have i: "i < rh_n m" by (rule rh_carry_slot [OF inv carry])
  note pres = rh_write_preserves [OF inv carry lt, of v]
  from inv have wf: "rh_wf m" and pl: "rh_placed m i" and dm: "rh_distinct m"
    and len: "length (rh_ctrl m) = rh_n m" using i by (auto simp: rh_inv_def rh_wf_def)
  show "rh_inv ?m'"
    using pres rh_write_abs(2) [OF inv carry lt, of v] c0 inv by (simp add: rh_inv_def)
  show ab: "rh_abs ?m' = ((rh_abs m)(k' := None))(k \<mapsto> v)"
    using rh_write_abs(1) [OF inv carry lt, of v] c0 by (simp add: k'_def)
  show "rh_abs m k' = Some (snd (rh_entries m ! i))"
    using i c0 by (auto simp: rh_abs_Some [OF dm] k'_def intro!: exI [of _ i])
  show kk: "k' \<noteq> k" using rh_carry_absent [OF inv carry lt] i c0 by (auto simp: rh_abs_None k'_def)
  have cd: "unat c < unat dist" "unat dist \<le> 254"
    using lt carry by (auto simp: word_less_nat_alt c_def rh_carry_def)
  then have inc: "unat (c + 1) = unat c + 1" by (simp add: u8_inc)
  then show "c + 1 \<noteq> 255" using cd by auto
  have c1: "1 \<le> unat c" using c0 by (simp add: c_def Suc_le_eq unat_gt_0)
  have "Suc i mod rh_n m = (rh_home (rh_n m) k' + (unat (c + 1) - 1)) mod rh_n m"
    using pl c0 c1 inc Suc_mod_ring [of "rh_home (rh_n m) k'" "unat c - 1" "rh_n m"]
    by (simp add: rh_placed_def c_def k'_def)
  moreover have "unat (c + 1) \<le> unat (rh_ctrl ?m' ! p) + 1"
    if "p < rh_n m" "Suc p mod rh_n m = Suc i mod rh_n m" for p
  proof -
    have "p = i"
      using mod_ring_inj [of p "rh_n m" i 1] that i by simp
    then show ?thesis using cd inc i len by simp
  qed
  moreover have "fst (rh_entries ?m' ! j) \<noteq> k'" if "j < rh_n m" "rh_ctrl ?m' ! j \<noteq> 0" for j
    using that ab kk rh_abs_None [of ?m' k'] by simp
  ultimately show "rh_carry ?m' k' (Suc i mod rh_n m) (c + 1)"
    using inc cd pl c0 by (auto simp: rh_carry_def rh_placed_def k'_def c_def)
qed

lemma rh_skip:
  assumes inv: "rh_inv m" and carry: "rh_carry m k i dist" and ge: "\<not> rh_ctrl m ! i < dist"
    and ne: "fst (rh_entries m ! i) \<noteq> k" and d: "dist + 1 \<noteq> 255"
  shows "rh_carry m k (Suc i mod rh_n m) (dist + 1)"
proof -
  let ?n = "rh_n m"
  have i: "i < ?n" by (rule rh_carry_slot [OF inv carry])
  from carry have d1: "1 \<le> unat dist" "unat dist \<le> 254" by (auto simp: rh_carry_def)
  then have inc: "unat (dist + 1) = unat dist + 1" by (simp add: u8_inc)
  have "unat (dist + 1) \<noteq> 255" using d by (simp add: word_unat_eq_iff)
  with inc d1 have le: "unat (dist + 1) \<le> 254" by simp
  have "Suc i mod ?n = (rh_home ?n k + (unat (dist + 1) - 1)) mod ?n"
    using carry inc d1 Suc_mod_ring [of "rh_home ?n k" "unat dist - 1" ?n]
    by (simp add: rh_carry_def)
  moreover have "unat (dist + 1) \<le> unat (rh_ctrl m ! p) + 1"
    if "p < ?n" "Suc p mod ?n = Suc i mod ?n" for p
  proof -
    have "p = i" using mod_ring_inj [of p ?n i 1] that i by simp
    then show ?thesis using ge inc by (simp add: word_less_nat_alt)
  qed
  moreover have "unat (dist + 1) \<le> unat (rh_ctrl m ! j)"
    if j: "j < ?n" "rh_ctrl m ! j \<noteq> 0" "fst (rh_entries m ! j) = k" for j
  proof -
    have "j = (rh_home ?n k + (unat (rh_ctrl m ! j) - 1)) mod ?n"
      using inv j by (auto simp: rh_inv_def rh_placed_def)
    with carry ne j(3) have "unat dist \<noteq> unat (rh_ctrl m ! j)" by (auto simp: rh_carry_def)
    moreover have "unat dist \<le> unat (rh_ctrl m ! j)" using carry j by (auto simp: rh_carry_def)
    ultimately show ?thesis using inc by simp
  qed
  ultimately show ?thesis using carry inc le by (auto simp: rh_carry_def)
qed

text \<open>Storing a new value through the pointer \<open>find\<close> returned.\<close>

definition rh_set_val :: "nat \<Rightarrow> 'v \<Rightarrow> 'v RHMap \<Rightarrow> 'v RHMap" where
  "rh_set_val i v m = m\<lparr>rh_entries := (rh_entries m)[i := (fst (rh_entries m ! i), v)]\<rparr>"

lemma rh_set_val_fields [simp]:
  "rh_n (rh_set_val i v m) = rh_n m" "rh_ctrl (rh_set_val i v m) = rh_ctrl m"
  "rh_sz (rh_set_val i v m) = rh_sz m" "rh_mask (rh_set_val i v m) = rh_mask m"
  "rh_sweep (rh_set_val i v m) = rh_sweep m"
  by (simp_all add: rh_set_val_def)

lemma rh_set_val_keys [simp]:
  "fst (rh_entries (rh_set_val i v m) ! j) = fst (rh_entries m ! j)"
  by (cases "i = j"; cases "i < length (rh_entries m)")
    (auto simp: rh_set_val_def list_update_beyond)

lemma rh_set_val_correct:
  assumes inv: "rh_inv m" and i: "i < rh_n m" and occ: "rh_ctrl m ! i \<noteq> 0"
  shows "rh_inv (rh_set_val i v m)"
    and "rh_abs (rh_set_val i v m) = (rh_abs m)(fst (rh_entries m ! i) \<mapsto> v)"
proof -
  let ?m' = "rh_set_val i v m"
  from inv have dm: "rh_distinct m" and len: "length (rh_entries m) = rh_n m"
    by (auto simp: rh_inv_def rh_wf_def)
  show inv': "rh_inv ?m'"
    using inv by (simp add: rh_inv_def rh_wf_def rh_placed_def rh_distinct_def)
      (simp add: rh_set_val_def)
  then have dm': "rh_distinct ?m'" by (simp add: rh_inv_def)
  show "rh_abs ?m' = (rh_abs m)(fst (rh_entries m ! i) \<mapsto> v)"
  proof (rule rh_abs_eqI [OF dm'], goal_cases)
    case (1 k' v')
    have at: "rh_entries ?m' ! j = (if j = i then (fst (rh_entries m ! i), v) else rh_entries m ! j)"
      if "j < rh_n m" for j using that len by (simp add: rh_set_val_def nth_list_update)
    show ?case
    proof (cases "k' = fst (rh_entries m ! i)")
      case True
      have "j = i" if "j < rh_n m" "rh_ctrl m ! j \<noteq> 0" "fst (rh_entries m ! j) = k'" for j
        using dm i occ True that by (auto simp: rh_distinct_def)
      then have "(\<exists>j < rh_n m. rh_ctrl m ! j \<noteq> 0 \<and> rh_entries ?m' ! j = (k', v'))
          \<longleftrightarrow> rh_entries ?m' ! i = (k', v')"
        using i occ by (metis fst_conv rh_set_val_keys)
      with True at [OF i] show ?thesis by auto
    next
      case False
      then have "(\<exists>j < rh_n m. rh_ctrl m ! j \<noteq> 0 \<and> rh_entries ?m' ! j = (k', v'))
          \<longleftrightarrow> (\<exists>j < rh_n m. rh_ctrl m ! j \<noteq> 0 \<and> rh_entries m ! j = (k', v'))"
        using at by (metis fst_conv)
      with False rh_abs_Some [OF dm] show ?thesis by simp
    qed
  qed
qed

lemma rh_insert_loop_correct:
  assumes "rh_inv m" and "rh_carry m k i dist"
    and "rh_insert_loop steps m k v i dist = Inr (b, m')"
  shows "rh_inv m' \<and> rh_abs m' = (rh_abs m)(k \<mapsto> v) \<and> (b \<longleftrightarrow> rh_abs m k = None) \<and> rh_n m' = rh_n m"
  using assms
proof (induction steps arbitrary: m k v i dist)
  case (Suc steps)
  let ?c = "rh_ctrl m ! i" and ?e = "rh_entries m ! i"
  note inv = Suc.prems(1) and carry = Suc.prems(2)
  have i: "i < rh_n m" by (rule rh_carry_slot [OF inv carry])
  from inv have wf: "rh_wf m" and dm: "rh_distinct m" by (auto simp: rh_inv_def)
  consider (place) "?c = 0" | (update) "?c \<noteq> 0" "fst ?e = k"
    | (swap) "?c \<noteq> 0" "fst ?e \<noteq> k" "?c < dist" | (skip) "?c \<noteq> 0" "fst ?e \<noteq> k" "\<not> ?c < dist"
    by blast
  then show ?case
  proof cases
    case place
    with Suc.prems(3) rh_place(1,2) [OF inv carry place, of v] rh_place(3) [OF inv carry place] show ?thesis by (auto simp: Let_def)
  next
    case update
    have "rh_abs m k = Some (snd ?e)"
      using i update by (auto simp: rh_abs_Some [OF dm] intro!: exI [of _ i])
    with Suc.prems(3) update rh_set_val_correct [OF inv i update(1), of v] show ?thesis
      by (auto simp: Let_def rh_set_val_def)
  next
    case swap
    note sw = rh_swap [OF inv carry swap(3,1)]
    from Suc.prems(3) swap sw(6) have
      "rh_insert_loop steps (rh_write m i k v dist) (fst ?e) (snd ?e) (Suc i mod rh_n m) (?c + 1)
        = Inr (b, m')"
      by (simp add: Let_def rh_wf_next [OF wf] rh_write_def)
    from Suc.IH [OF sw(1) sw(5) this] sw(2) [of v] sw(3,4) rh_carry_absent [OF inv carry swap(3)]
    show ?thesis by (auto simp: fun_upd_twist fun_eq_iff)
  next
    case skip
    then have d: "dist + 1 \<noteq> 255" using Suc.prems(3) by (auto simp: Let_def)
    have "rh_insert_loop steps m k v (Suc i mod rh_n m) (dist + 1) = Inr (b, m')"
      using Suc.prems(3) skip d by (simp add: Let_def rh_wf_next [OF wf])
    from Suc.IH [OF inv rh_skip [OF inv carry skip(3,2) d] this] show ?thesis .
  qed
qed simp

definition rh_slack :: "u8 list \<Rightarrow> u8 \<Rightarrow> nat" where
  "rh_slack cs dist = sum_list (map (\<lambda>c. 254 - unat c) cs) + (254 - unat dist)"

lemma rh_insert_loop_steps:
  assumes "rh_inv m" and "rh_carry m k i dist" and "rh_slack (rh_ctrl m) dist < steps"
  shows "rh_insert_loop steps m k v i dist \<noteq> Inl OutOfSteps"
  using assms
proof (induction steps arbitrary: m k v i dist)
  case (Suc steps)
  let ?c = "rh_ctrl m ! i" and ?e = "rh_entries m ! i"
  note inv = Suc.prems(1) and carry = Suc.prems(2)
  have i: "i < rh_n m" by (rule rh_carry_slot [OF inv carry])
  from inv have wf: "rh_wf m" and len: "length (rh_ctrl m) = rh_n m" and pl: "rh_placed m i"
    using i by (auto simp: rh_inv_def rh_wf_def)
  have d: "1 \<le> unat dist" "unat dist \<le> 254" using carry by (auto simp: rh_carry_def)
  consider (stop) "?c = 0 \<or> fst ?e = k"
    | (swap) "?c \<noteq> 0" "fst ?e \<noteq> k" "?c < dist" | (skip) "?c \<noteq> 0" "fst ?e \<noteq> k" "\<not> ?c < dist"
    by blast
  then show ?case
  proof cases
    case stop
    then show ?thesis by (auto simp: Let_def)
  next
    case swap
    note sw = rh_swap [OF inv carry swap(3,1)]
    have "unat ?c < unat dist" using swap by (simp add: word_less_nat_alt)
    then have "unat (?c + 1) = unat ?c + 1" using d by (simp add: u8_inc)
    then have "Suc (rh_slack (rh_ctrl (rh_write m i k v dist)) (?c + 1)) = rh_slack (rh_ctrl m) dist"
      using sum_list_map_update [of i "rh_ctrl m" "\<lambda>c. 254 - unat c" dist] i len d
        \<open>unat ?c < unat dist\<close> by (simp add: rh_slack_def)
    then have "rh_slack (rh_ctrl (rh_write m i k v dist)) (?c + 1) < steps"
      using Suc.prems(3) by simp
    from Suc.IH [OF sw(1) sw(5) this] swap sw(6) show ?thesis
      by (simp add: Let_def rh_wf_next [OF wf] rh_write_def)
  next
    case skip
    show ?thesis
    proof (cases "dist + 1 = 255")
      case True
      with skip show ?thesis by (simp add: Let_def)
    next
      case False
      then have "unat (dist + 1) = unat dist + 1" "unat dist \<noteq> 254"
        using d by (auto simp: u8_inc word_unat_eq_iff)
      then have "rh_slack (rh_ctrl m) (dist + 1) < steps"
        using Suc.prems(3) d by (simp add: rh_slack_def)
      from Suc.IH [OF inv rh_skip [OF inv carry skip(3,2) False] this] skip False show ?thesis
        by (simp add: Let_def rh_wf_next [OF wf])
    qed
  qed
qed simp

lemma rh_insert_loop_fail:
  "rh_insert_loop steps m k v i dist = Inl e \<Longrightarrow>
     e = OutOfSteps \<or> e = Ensure ''probe distance overflow; table too full''"
  by (induction steps arbitrary: m k v i dist)
    (auto simp: Let_def case_prod_beta split: if_splits)

lemma rh_insert_result:
  assumes inv: "rh_inv m" and res: "rh_insert k v m = Inr (b, m')"
  shows "rh_inv m' \<and> rh_abs m' = (rh_abs m)(k \<mapsto> v) \<and> (b \<longleftrightarrow> rh_abs m k = None) \<and> rh_n m' = rh_n m"
proof -
  from res have "k \<noteq> EMPTY_KEY" by (auto simp: rh_insert_def)
  with res show ?thesis
    using rh_insert_loop_correct [OF inv rh_carry_start [OF inv]] by (simp add: rh_insert_def)
qed

lemma rh_insert_fail:
  assumes inv: "rh_inv m" and res: "rh_insert k v m = Inl e"
  shows "(k = EMPTY_KEY \<and> e = Ensure ''key equals EMPTY_KEY sentinel'')
    \<or> e = Ensure ''probe distance overflow; table too full''"
proof (cases "k = EMPTY_KEY")
  case True
  with res show ?thesis by (simp add: rh_insert_def)
next
  case False
  have "sum_list (map (\<lambda>c. 254 - unat c) (rh_ctrl m)) \<le> 254 * rh_n m"
    using sum_list_map_bound [of "rh_ctrl m" "\<lambda>c. 254 - unat c" 254] inv
    by (simp add: rh_inv_def rh_wf_def)
  then have "rh_slack (rh_ctrl m) 1 < 255 * (rh_n m + 1)" by (simp add: rh_slack_def)
  from rh_insert_loop_steps [OF inv rh_carry_start [OF inv False] this] rh_insert_loop_fail res False
  show ?thesis by (metis rh_insert_def)
qed

text \<open>With an empty slot left, the probe distance stays below the number of slots.\<close>

lemma rh_carry_below:
  assumes inv: "rh_inv m" and carry: "rh_carry m k i dist" and ge: "\<not> rh_ctrl m ! i < dist"
    and e: "e < rh_n m" "rh_ctrl m ! e = 0"
  shows "unat dist < rh_n m"
proof (rule ccontr)
  assume "\<not> unat dist < rh_n m"
  let ?n = "rh_n m" and ?h = "rh_home (rh_n m) k"
  obtain d where d: "d < ?n" "(?h + d) mod ?n = e" using mod_ring_cover [OF e(1)] by blast
  have step: "\<forall>i < ?n. unat (rh_ctrl m ! (Suc i mod ?n)) \<le> unat (rh_ctrl m ! i) + 1" and "0 < ?n"
    using inv rh_wf_pos by (auto simp: rh_inv_def)
  note path = rh_path_step [OF this, of ?h d "unat dist - 1 - d"]
  from carry have i: "i = (?h + (unat dist - 1)) mod ?n" and d1: "1 \<le> unat dist"
    by (simp_all add: rh_carry_def)
  have "?h + d + (unat dist - 1 - d) = ?h + (unat dist - 1)"
    using d(1) \<open>\<not> unat dist < ?n\<close> by simp
  with path d(2) i have "unat (rh_ctrl m ! i) \<le> unat (rh_ctrl m ! e) + (unat dist - 1 - d)" by metis
  moreover have "unat dist \<le> unat (rh_ctrl m ! i)" using ge by (simp add: word_less_nat_alt)
  ultimately show False using d1 e(2) by simp
qed

lemma rh_occ_card: "rh_occ cs = card {i. i < length cs \<and> cs ! i \<noteq> 0}"
proof -
  have "rh_occ cs = length (filter (\<lambda>c. c \<noteq> 0) cs)" by (induction cs) (auto simp: rh_occ_def)
  then show ?thesis by (simp add: length_filter_conv_card)
qed

text \<open>The slots a key has been carried over are occupied.\<close>

lemma rh_carry_occupied:
  assumes inv: "rh_inv m" and carry: "rh_carry m k i dist" and ge: "\<not> rh_ctrl m ! i < dist"
    and e: "e < rh_n m" "rh_ctrl m ! e = 0"
  shows "unat dist \<le> rh_sz m"
proof -
  let ?n = "rh_n m" and ?h = "rh_home (rh_n m) k"
  let ?p = "\<lambda>d. (?h + d) mod ?n"
  have small: "unat dist < ?n" by (rule rh_carry_below [OF assms])
  have step: "\<forall>i < ?n. unat (rh_ctrl m ! (Suc i mod ?n)) \<le> unat (rh_ctrl m ! i) + 1" and n: "0 < ?n" "length (rh_ctrl m) = ?n"
    using inv rh_wf_pos by (auto simp: rh_inv_def rh_wf_def)
  from carry have i: "i = ?p (unat dist - 1)" by (simp add: rh_carry_def)
  have occ: "rh_ctrl m ! ?p d \<noteq> 0" if "d < unat dist" for d
  proof
    assume z: "rh_ctrl m ! ?p d = 0"
    have "?h + d + (unat dist - 1 - d) = ?h + (unat dist - 1)" using that by simp
    with rh_path_step [OF step n(1), of ?h d "unat dist - 1 - d"] i
    have "unat (rh_ctrl m ! i) \<le> unat (rh_ctrl m ! ?p d) + (unat dist - 1 - d)" by metis
    then have "unat (rh_ctrl m ! i) \<le> unat dist - 1 - d" using z by simp
    moreover have "unat dist \<le> unat (rh_ctrl m ! i)" using ge by (simp add: word_less_nat_alt)
    ultimately show False using that by simp
  qed
  have "inj_on ?p {..<unat dist}"
  proof (rule inj_onI)
    fix x y assume "x \<in> {..<unat dist}" "y \<in> {..<unat dist}" "?p x = ?p y"
    then show "x = y" using mod_ring_inj [of x ?n y ?h] small by simp
  qed
  then have "unat dist = card (?p ` {..<unat dist})" by (simp add: card_image)
  also have "\<dots> \<le> card {i. i < length (rh_ctrl m) \<and> rh_ctrl m ! i \<noteq> 0}"
    by (rule card_mono) (use occ n in auto)
  also have "\<dots> = rh_sz m" using inv by (simp add: rh_inv_def rh_occ_card)
  finally show ?thesis .
qed

lemma rh_insert_loop_room:
  assumes "rh_inv m" and "rh_carry m k i dist" and "rh_sz m < 254"
    and "\<exists>e < rh_n m. rh_ctrl m ! e = 0"
  shows "rh_insert_loop steps m k v i dist \<noteq> Inl (Ensure ''probe distance overflow; table too full'')"
  using assms
proof (induction steps arbitrary: m k v i dist)
  case (Suc steps)
  let ?c = "rh_ctrl m ! i" and ?e = "rh_entries m ! i"
  note inv = Suc.prems(1) and carry = Suc.prems(2)
  obtain e where e: "e < rh_n m" "rh_ctrl m ! e = 0" using Suc.prems(4) by blast
  from inv have wf: "rh_wf m" and len: "length (rh_ctrl m) = rh_n m"
    by (auto simp: rh_inv_def rh_wf_def)
  consider (stop) "?c = 0 \<or> fst ?e = k"
    | (swap) "?c \<noteq> 0" "fst ?e \<noteq> k" "?c < dist" | (skip) "?c \<noteq> 0" "fst ?e \<noteq> k" "\<not> ?c < dist"
    by blast
  then show ?case
  proof cases
    case stop
    then show ?thesis by (auto simp: Let_def)
  next
    case swap
    note sw = rh_swap [OF inv carry swap(3,1)]
    have "e \<noteq> i" using e swap by auto
    then have "\<exists>e < rh_n (rh_write m i k v dist). rh_ctrl (rh_write m i k v dist) ! e = 0"
      using e by auto
    from Suc.IH [OF sw(1) sw(5) _ this] Suc.prems(3) swap sw(6) show ?thesis
      by (simp add: Let_def rh_wf_next [OF wf] rh_write_def)
  next
    case skip
    have "unat dist < 254" using rh_carry_occupied [OF inv carry skip(3) e] Suc.prems(3) by simp
    then have ne: "dist + 1 \<noteq> 255" by (auto simp: word_unat_eq_iff u8_inc)
    from Suc.IH [OF inv rh_skip [OF inv carry skip(3,2) ne] Suc.prems(3,4)] skip ne show ?thesis
      by (simp add: Let_def rh_wf_next [OF wf])
  qed
qed simp

lemma rh_occ_full:
  assumes "\<forall>c \<in> set cs. c \<noteq> 0"
  shows "rh_occ cs = length cs"
  using assms by (induction cs) (auto simp: rh_occ_def)

lemma rh_occ_zero: "rh_occ cs = 0 \<Longrightarrow> i < length cs \<Longrightarrow> cs ! i = 0"
  by (auto simp: rh_occ_def split: if_splits dest!: nth_mem)

lemma rh_insert_room:
  assumes inv: "rh_inv m" and k: "k \<noteq> EMPTY_KEY" and n: "rh_sz m < 254" and room: "rh_sz m < rh_n m"
  shows "\<exists>b m'. rh_insert k v m = Inr (b, m')"
proof -
  have "\<exists>e < rh_n m. rh_ctrl m ! e = 0"
  proof (rule ccontr)
    assume "\<not> (\<exists>e < rh_n m. rh_ctrl m ! e = 0)"
    then have "\<forall>c \<in> set (rh_ctrl m). c \<noteq> 0"
      using inv by (auto simp: in_set_conv_nth rh_inv_def rh_wf_def)
    with rh_occ_full have "rh_occ (rh_ctrl m) = length (rh_ctrl m)" by blast
    with inv room show False by (simp add: rh_inv_def rh_wf_def)
  qed
  then have "rh_insert k v m \<noteq> Inl (Ensure ''probe distance overflow; table too full'')"
    using rh_insert_loop_room [OF inv rh_carry_start [OF inv k] n] k by (simp add: rh_insert_def)
  then show ?thesis
    using rh_insert_fail [OF inv] k by (cases "rh_insert k v m") auto
qed

subsection \<open>Deletion\<close>

text \<open>
  While the backshift runs, slot \<open>j\<close> is a hole: its contents no longer count. \<open>rh_punch\<close> is the
  table with the hole taken out, and \<open>rh_hole\<close> what the loop keeps true of it.
\<close>

definition rh_punch :: "'v RHMap \<Rightarrow> nat \<Rightarrow> 'v RHMap" where
  "rh_punch m j = m\<lparr>rh_ctrl := (rh_ctrl m)[j := 0]\<rparr>"

lemma rh_punch_fields [simp]:
  "rh_n (rh_punch m j) = rh_n m" "rh_entries (rh_punch m j) = rh_entries m"
  "rh_ctrl (rh_punch m j) = (rh_ctrl m)[j := 0]"
  by (simp_all add: rh_punch_def)

definition rh_hole :: "'v RHMap \<Rightarrow> nat \<Rightarrow> bool" where
  "rh_hole m j \<longleftrightarrow> rh_wf m \<and> j < rh_n m \<and> (\<forall>i < rh_n m. rh_placed (rh_punch m j) i) \<and>
     rh_distinct (rh_punch m j) \<and>
     (\<forall>i < rh_n m. i \<noteq> j \<longrightarrow> Suc i mod rh_n m \<noteq> j \<longrightarrow>
        unat (rh_ctrl m ! (Suc i mod rh_n m)) \<le> unat (rh_ctrl m ! i) + 1) \<and>
     (\<forall>p < rh_n m. p \<noteq> j \<longrightarrow> Suc p mod rh_n m = j \<longrightarrow>
        unat (rh_ctrl m ! (Suc j mod rh_n m)) \<le> unat (rh_ctrl m ! p) + 2)"

definition rh_rest :: "'v RHMap \<Rightarrow> nat \<Rightarrow> nat" where
  "rh_rest m j = sum_list (map unat ((rh_ctrl m)[j := 0])) + (if rh_n m = 1 then unat (rh_ctrl m ! j) else 0)"

lemma rh_hole_start:
  assumes inv: "rh_inv m" and j: "j < rh_n m"
  shows "rh_hole m j"
proof -
  let ?n = "rh_n m"
  from inv have step: "\<And>i. i < ?n \<Longrightarrow> unat (rh_ctrl m ! (Suc i mod ?n)) \<le> unat (rh_ctrl m ! i) + 1"
    and len: "length (rh_ctrl m) = ?n" by (auto simp: rh_inv_def rh_wf_def)
  have "unat (rh_ctrl m ! (Suc j mod ?n)) \<le> unat (rh_ctrl m ! p) + 2"
    if "p < ?n" "Suc p mod ?n = j" for p
    using step [OF j] step [OF that(1)] that(2) by simp
  moreover have "rh_placed (rh_punch m j) i" if "i < ?n" for i
    using inv that len j by (auto simp: rh_inv_def rh_placed_def nth_list_update)
  moreover have "rh_distinct (rh_punch m j)"
    using inv len j by (auto simp: rh_inv_def rh_distinct_def nth_list_update)
  ultimately show ?thesis using inv j step by (simp add: rh_hole_def rh_inv_def)
qed

text \<open>One round of the loop: the entry of slot \<open>k\<close> moves into the hole \<open>j\<close> before it.\<close>

definition rh_shift :: "'v RHMap \<Rightarrow> nat \<Rightarrow> nat \<Rightarrow> 'v RHMap" where
  "rh_shift m j k = rh_write m j (fst (rh_entries m ! k)) (snd (rh_entries m ! k)) (rh_ctrl m ! k - 1)"

definition rh_shiftable :: "'v RHMap \<Rightarrow> nat \<Rightarrow> nat \<Rightarrow> bool" where
  "rh_shiftable m j k \<longleftrightarrow> rh_hole m j \<and> k = Suc j mod rh_n m \<and> k \<noteq> j \<and> 1 < unat (rh_ctrl m ! k)"

lemma rh_shiftable_facts:
  assumes "rh_shiftable m j k"
  shows "j < rh_n m" and "k < rh_n m" and "k \<noteq> j" and "k = Suc j mod rh_n m" and "rh_n m \<noteq> 1"
    and "rh_ctrl m ! k \<noteq> 0" and "rh_ctrl m ! k - 1 \<noteq> 0"
    and "unat (rh_ctrl m ! k - 1) = unat (rh_ctrl m ! k) - 1" and "1 < unat (rh_ctrl m ! k)"
    and "length (rh_ctrl m) = rh_n m" and "length (rh_entries m) = rh_n m"
proof -
  let ?ck = "rh_ctrl m ! k"
  from assms show j: "j < rh_n m" and k: "k < rh_n m" "k \<noteq> j" "k = Suc j mod rh_n m"
    and ck: "1 < unat ?ck" and "length (rh_ctrl m) = rh_n m" "length (rh_entries m) = rh_n m"
    by (auto simp: rh_shiftable_def rh_hole_def rh_wf_def)
  show "rh_n m \<noteq> 1" using j k by auto
  show c0: "?ck \<noteq> 0" using ck by auto
  show dec: "unat (?ck - 1) = unat ?ck - 1" using c0 by (rule unat_minus_one)
  show "?ck - 1 \<noteq> 0" using dec ck by (metis diff_is_0_eq not_less unat_0)
qed

lemma rh_shift_slots:
  assumes "rh_shiftable m j k" and "i < rh_n m"
  shows "rh_ctrl (rh_shift m j k) ! i = (if i = j then rh_ctrl m ! k - 1 else rh_ctrl m ! i)"
    and "rh_entries (rh_shift m j k) ! i = (if i = j then rh_entries m ! k else rh_entries m ! i)"
    and "rh_ctrl (rh_punch m j) ! i = (if i = j then 0 else rh_ctrl m ! i)"
    and "rh_ctrl (rh_punch (rh_shift m j k) k) ! i
      = (if i = k then 0 else if i = j then rh_ctrl m ! k - 1 else rh_ctrl m ! i)"
  using assms(2) rh_shiftable_facts [OF assms(1)]
  by (auto simp: rh_shift_def nth_list_update)

lemma rh_shift_n [simp]: "rh_n (rh_shift m j k) = rh_n m"
  by (simp add: rh_shift_def)

lemma rh_shift_placed:
  assumes sh: "rh_shiftable m j k" and i: "i < rh_n m"
  shows "rh_placed (rh_punch (rh_shift m j k) k) i"
proof -
  let ?n = "rh_n m" and ?ck = "rh_ctrl m ! k" and ?h = "rh_home (rh_n m) (fst (rh_entries m ! k))"
  note f = rh_shiftable_facts [OF sh]
  from sh have pl: "\<And>i. i < ?n \<Longrightarrow> rh_placed (rh_punch m j) i"
    by (simp add: rh_shiftable_def rh_hole_def)
  have "Suc j mod ?n = (?h + (unat ?ck - 1)) mod ?n"
    using pl [OF f(2)] rh_shift_slots(3) [OF sh f(2)] f(3,4,6) by (simp add: rh_placed_def)
  moreover have "unat ?ck - 1 = Suc (unat ?ck - 2)" using f(9) by simp
  ultimately have "Suc j mod ?n = (?h + Suc (unat ?ck - 2)) mod ?n" by metis
  then have "j = (?h + (unat ?ck - 2)) mod ?n" by (rule mod_ring_pred [OF f(1)])
  moreover have "unat (?ck - 1) - 1 = unat ?ck - 2" using f(8) by simp
  ultimately show ?thesis
    using pl [OF i] pl [OF f(2)] rh_shift_slots [OF sh i] rh_shift_slots(3) [OF sh f(2)] f(3,6,8)
    by (auto simp: rh_placed_def split: if_splits)
qed

lemma rh_shift_distinct:
  assumes sh: "rh_shiftable m j k"
  shows "rh_distinct (rh_punch (rh_shift m j k) k)"
  unfolding rh_distinct_def
proof (intro allI impI)
  let ?n = "rh_n m" and ?m' = "rh_punch (rh_shift m j k) k"
  note f = rh_shiftable_facts [OF sh]
  fix a b
  assume ab: "a < rh_n ?m'" "b < rh_n ?m'" "rh_ctrl ?m' ! a \<noteq> 0" "rh_ctrl ?m' ! b \<noteq> 0"
    "fst (rh_entries ?m' ! a) = fst (rh_entries ?m' ! b)"
  have dm: "rh_distinct (rh_punch m j)" using sh by (simp add: rh_shiftable_def rh_hole_def)
  have d: "a < ?n \<Longrightarrow> b < ?n \<Longrightarrow> a \<noteq> j \<Longrightarrow> b \<noteq> j \<Longrightarrow> rh_ctrl m ! a \<noteq> 0 \<Longrightarrow> rh_ctrl m ! b \<noteq> 0 \<Longrightarrow>
      fst (rh_entries m ! a) = fst (rh_entries m ! b) \<Longrightarrow> a = b" for a b
    using dm rh_shift_slots(3) [OF sh, of a] rh_shift_slots(3) [OF sh, of b]
    unfolding rh_distinct_def by (metis rh_punch_fields(1,2))
  from ab have n: "a < ?n" "b < ?n" by simp_all
  note sl = rh_shift_slots(2,4) [OF sh n(1)] rh_shift_slots(2,4) [OF sh n(2)]
  from ab sl have ne: "a \<noteq> k" "b \<noteq> k" by auto
  consider "a = b" | "a = j" "b \<noteq> j" | "a \<noteq> j" "b = j" | "a \<noteq> j" "b \<noteq> j" by blast
  then show "a = b"
  proof cases
    case 2
    with ab sl ne d [OF f(2) n(2) f(3) _ f(6)] show ?thesis by simp
  next
    case 3
    with ab sl ne d [OF n(1) f(2) _ f(3) _ f(6)] show ?thesis by simp
  next
    case 4
    with ab sl ne d [OF n] show ?thesis by simp
  qed
qed

lemma rh_shift_steps:
  assumes sh: "rh_shiftable m j k"
  shows "\<And>i. i < rh_n m \<Longrightarrow> i \<noteq> k \<Longrightarrow> Suc i mod rh_n m \<noteq> k \<Longrightarrow>
      unat (rh_ctrl (rh_shift m j k) ! (Suc i mod rh_n m)) \<le> unat (rh_ctrl (rh_shift m j k) ! i) + 1"
    and "\<And>p. p < rh_n m \<Longrightarrow> p \<noteq> k \<Longrightarrow> Suc p mod rh_n m = k \<Longrightarrow>
      unat (rh_ctrl (rh_shift m j k) ! (Suc k mod rh_n m)) \<le> unat (rh_ctrl (rh_shift m j k) ! p) + 2"
proof -
  let ?n = "rh_n m" and ?ck = "rh_ctrl m ! k"
  note f = rh_shiftable_facts [OF sh]
  from sh have hole: "rh_hole m j" by (simp add: rh_shiftable_def)
  fix i
  assume i: "i < ?n" "i \<noteq> k" "Suc i mod ?n \<noteq> k"
  then have ij: "i \<noteq> j" and s: "Suc i mod ?n < ?n" using f(4) by auto
  show "unat (rh_ctrl (rh_shift m j k) ! (Suc i mod ?n)) \<le> unat (rh_ctrl (rh_shift m j k) ! i) + 1"
  proof (cases "Suc i mod ?n = j")
    case True
    then have "unat ?ck \<le> unat (rh_ctrl m ! i) + 2" using hole i ij f(4) by (simp add: rh_hole_def)
    then show ?thesis
      using True ij f(8) rh_shift_slots(1) [OF sh i(1)] rh_shift_slots(1) [OF sh s] by simp
  next
    case False
    then have "unat (rh_ctrl m ! (Suc i mod ?n)) \<le> unat (rh_ctrl m ! i) + 1"
      using hole i ij by (simp add: rh_hole_def)
    then show ?thesis
      using False ij rh_shift_slots(1) [OF sh i(1)] rh_shift_slots(1) [OF sh s] by simp
  qed
next
  let ?n = "rh_n m" and ?ck = "rh_ctrl m ! k"
  note f = rh_shiftable_facts [OF sh]
  fix p
  assume p: "p < ?n" "p \<noteq> k" "Suc p mod ?n = k"
  then have pj: "p = j" using mod_ring_inj [of p ?n j 1] f(1,4) by simp
  have s: "Suc k mod ?n < ?n" using f(2) by simp
  have "unat (rh_ctrl m ! (Suc k mod ?n)) \<le> unat ?ck + 1" if "Suc k mod ?n \<noteq> j"
    using sh that f(2,3) by (auto simp: rh_shiftable_def rh_hole_def)
  then show "unat (rh_ctrl (rh_shift m j k) ! (Suc k mod ?n)) \<le> unat (rh_ctrl (rh_shift m j k) ! p) + 2"
    using rh_shift_slots(1) [OF sh s] rh_shift_slots(1) [OF sh f(1)] pj f(8,9) by auto
qed

lemma rh_shift_hole:
  assumes sh: "rh_shiftable m j k"
  shows "rh_hole (rh_shift m j k) k"
proof -
  have "rh_wf (rh_shift m j k)"
    using sh by (simp add: rh_shiftable_def rh_hole_def rh_wf_def rh_shift_def)
  then show ?thesis
    using rh_shiftable_facts(2) [OF sh] rh_shift_placed [OF sh] rh_shift_distinct [OF sh]
      rh_shift_steps [OF sh] by (simp add: rh_hole_def)
qed

lemma rh_shift_abs:
  assumes sh: "rh_shiftable m j k"
  shows "rh_abs (rh_punch (rh_shift m j k) k) = rh_abs (rh_punch m j)"
proof (rule rh_abs_eqI [OF rh_shift_distinct [OF sh]])
  let ?n = "rh_n m" and ?m' = "rh_punch (rh_shift m j k) k"
  note f = rh_shiftable_facts [OF sh]
  fix key v
  have "(\<exists>i < ?n. rh_ctrl (rh_punch m j) ! i \<noteq> 0 \<and> rh_entries m ! i = (key, v))
      \<longleftrightarrow> (\<exists>i < ?n. rh_ctrl ?m' ! i \<noteq> 0 \<and> rh_entries ?m' ! i = (key, v))" (is "?L \<longleftrightarrow> ?R")
  proof
    assume ?L
    then obtain i where i: "i < ?n" "rh_ctrl (rh_punch m j) ! i \<noteq> 0" "rh_entries m ! i = (key, v)"
      by blast
    then show ?R
      using rh_shift_slots [OF sh f(1)] rh_shift_slots [OF sh i(1)] f(1,3,7)
      by (cases "i = k") (auto split: if_splits)
  next
    assume ?R
    then obtain i where i: "i < ?n" "rh_ctrl ?m' ! i \<noteq> 0" "rh_entries ?m' ! i = (key, v)" by blast
    then show ?L
      using rh_shift_slots [OF sh f(2)] rh_shift_slots [OF sh i(1)] f(2,3,6)
      by (cases "i = j") (auto split: if_splits)
  qed
  moreover have "rh_distinct (rh_punch m j)" using sh by (simp add: rh_shiftable_def rh_hole_def)
  ultimately show "rh_abs (rh_punch m j) key = Some v
      \<longleftrightarrow> (\<exists>i < rh_n ?m'. rh_ctrl ?m' ! i \<noteq> 0 \<and> rh_entries ?m' ! i = (key, v))"
    using rh_abs_Some [of "rh_punch m j" key v] by simp
qed

lemma rh_shift_counts:
  assumes sh: "rh_shiftable m j k"
  shows "rh_occ (rh_ctrl (rh_punch (rh_shift m j k) k)) = rh_occ (rh_ctrl (rh_punch m j))"
    and "rh_rest (rh_shift m j k) k < rh_rest m j"
proof -
  let ?f = "\<lambda>c :: u8. if c = 0 then 0 else 1 :: nat" and ?c = "rh_ctrl m ! k - 1"
  note f = rh_shiftable_facts [OF sh]
  show "rh_occ (rh_ctrl (rh_punch (rh_shift m j k) k)) = rh_occ (rh_ctrl (rh_punch m j))"
    using sum_list_map_update [of j "rh_ctrl m" ?f 0] sum_list_map_update [of j "rh_ctrl m" ?f ?c]
      sum_list_map_update [of k "(rh_ctrl m)[j := ?c]" ?f 0] f
    by (simp add: rh_occ_def rh_shift_def)
  show "rh_rest (rh_shift m j k) k < rh_rest m j"
    using sum_list_map_update [of j "rh_ctrl m" unat 0] sum_list_map_update [of j "rh_ctrl m" unat ?c]
      sum_list_map_update [of k "(rh_ctrl m)[j := ?c]" unat 0] f
    by (simp add: rh_rest_def rh_shift_def)
qed

text \<open>The end of the loop: the slot after the hole is empty or at home, so the hole may be emptied.\<close>

lemma rh_hole_close:
  fixes m :: "'v RHMap"
  assumes hole: "rh_hole m j" and ck: "unat (rh_ctrl m ! (Suc j mod rh_n m)) \<le> 1"
  defines "m' \<equiv> m\<lparr>rh_ctrl := (rh_ctrl m)[j := 0],
       rh_entries := (rh_entries m)[j := (EMPTY_KEY, snd (rh_entries m ! j))]\<rparr>"
  shows "rh_inv (m'\<lparr>rh_sz := rh_occ (rh_ctrl m')\<rparr>)" and "rh_abs m' = rh_abs (rh_punch m j)"
proof -
  let ?n = "rh_n m"
  from hole have wf: "rh_wf m" and j: "j < ?n"
    and len: "length (rh_ctrl m) = ?n" "length (rh_entries m) = ?n"
    by (auto simp: rh_hole_def rh_wf_def)
  have ctrl': "rh_ctrl m' = rh_ctrl (rh_punch m j)" "rh_n m' = ?n" by (simp_all add: m'_def)
  have ent': "rh_entries m' ! i = rh_entries m ! i" if "rh_ctrl m' ! i \<noteq> 0" "i < ?n" for i
    using that j len by (auto simp: m'_def nth_list_update split: if_splits)
  have "rh_placed m' i" if "i < ?n" for i
    using hole that ent' [OF _ that] by (auto simp: rh_hole_def rh_placed_def ctrl')
  moreover have "rh_distinct m'"
  proof (rule rh_distinctI)
    fix a b
    assume ab: "a < rh_n m'" "b < rh_n m'" "rh_ctrl m' ! a \<noteq> 0" "rh_ctrl m' ! b \<noteq> 0"
      "fst (rh_entries m' ! a) = fst (rh_entries m' ! b)"
    have "rh_distinct (rh_punch m j)" using hole by (simp add: rh_hole_def)
    from rh_distinctD [OF this, of a b] ab ent' [of a] ent' [of b] ctrl' show "a = b" by simp
  qed
  moreover have "unat (rh_ctrl m' ! (Suc i mod ?n)) \<le> unat (rh_ctrl m' ! i) + 1" if i: "i < ?n" for i
  proof -
    have s: "Suc i mod ?n < ?n" using i by simp
    have "unat (rh_ctrl m ! (Suc i mod ?n)) \<le> unat (rh_ctrl m ! i) + 1" if "i \<noteq> j" "Suc i mod ?n \<noteq> j"
      using hole that i by (simp add: rh_hole_def)
    moreover have "rh_ctrl m' ! i = (if i = j then 0 else rh_ctrl m ! i)"
      and "rh_ctrl m' ! (Suc i mod ?n) = (if Suc i mod ?n = j then 0 else rh_ctrl m ! (Suc i mod ?n))"
      using i s len j by (simp_all add: m'_def nth_list_update)
    ultimately show ?thesis using ck by auto
  qed
  moreover have "rh_wf m'" using wf by (simp add: rh_wf_def m'_def)
  ultimately show "rh_inv (m'\<lparr>rh_sz := rh_occ (rh_ctrl m')\<rparr>)"
    by (simp add: rh_inv_def rh_wf_def rh_placed_def rh_distinct_def ctrl')
  show "rh_abs m' = rh_abs (rh_punch m j)"
  proof (rule rh_abs_eqI)
    show "rh_distinct m'" by fact
    fix key v
    have dp: "rh_distinct (rh_punch m j)" using hole by (simp add: rh_hole_def)
    have "(i < ?n \<and> rh_ctrl m' ! i \<noteq> 0 \<and> rh_entries m' ! i = (key, v))
        \<longleftrightarrow> (i < ?n \<and> rh_ctrl (rh_punch m j) ! i \<noteq> 0 \<and> rh_entries m ! i = (key, v))" for i
      using ent' [of i] ctrl'(1) by auto
    then show "rh_abs (rh_punch m j) key = Some v
        \<longleftrightarrow> (\<exists>i < rh_n m'. rh_ctrl m' ! i \<noteq> 0 \<and> rh_entries m' ! i = (key, v))"
      using rh_abs_Some [OF dp, of key v] ctrl'(2) by simp
  qed
qed

lemma rh_backshift_loop_ok:
  assumes "rh_hole m j" and "k = Suc j mod rh_n m" and "rh_rest m j < steps"
  shows "\<exists>m'. rh_backshift_loop steps m j k = Inr m' \<and> rh_n m' = rh_n m \<and> rh_sz m' = rh_sz m
    \<and> rh_inv (m'\<lparr>rh_sz := rh_occ (rh_ctrl m')\<rparr>) \<and> rh_abs m' = rh_abs (rh_punch m j)
    \<and> rh_occ (rh_ctrl m') = rh_occ (rh_ctrl (rh_punch m j))"
  using assms
proof (induction steps arbitrary: m j k)
  case (Suc steps)
  note hole = Suc.prems(1)
  from hole have wf: "rh_wf m" and j: "j < rh_n m" and len: "length (rh_ctrl m) = rh_n m"
    by (auto simp: rh_hole_def rh_wf_def)
  show ?case
  proof (cases "rh_ctrl m ! k \<le> 1")
    case True
    then have "unat (rh_ctrl m ! (Suc j mod rh_n m)) \<le> 1"
      using Suc.prems(2) by (simp add: word_le_nat_alt)
    with True rh_hole_close [OF hole this] show ?thesis by (simp add: Let_def)
  next
    case False
    then have ck: "1 < unat (rh_ctrl m ! k)" by (simp add: word_le_nat_alt)
    let ?m' = "rh_shift m j k"
    have next_loop: "rh_backshift_loop (Suc steps) m j k
        = rh_backshift_loop steps ?m' k (Suc k mod rh_n m)"
      using False by (simp add: Let_def rh_shift_def rh_write_def rh_wf_next [OF wf])
    show ?thesis
    proof (cases "k = j")
      case True
      then have n1: "rh_n m = 1" and j0: "j = 0"
        using Suc.prems(2) j mod_Suc [of j "rh_n m"] by (auto split: if_splits)
      have "unat (rh_ctrl m ! 0 - 1) < unat (rh_ctrl m ! 0)"
        using ck True j0 unat_minus_one [of "rh_ctrl m ! 0"] by fastforce
      then have "rh_rest ?m' k < steps"
        using Suc.prems(3) True j0 n1 len by (simp add: rh_rest_def rh_shift_def)
      moreover have "rh_hole ?m' k"
        using hole True j0 n1 len
        by (simp add: rh_hole_def rh_shift_def rh_wf_def rh_placed_def rh_distinct_def)
      moreover have "rh_punch ?m' k = rh_punch m j"
        using True by (simp add: rh_punch_def rh_shift_def rh_write_def)
      ultimately show ?thesis
        using Suc.IH [of ?m' k "Suc k mod rh_n m"] next_loop by (simp add: rh_shift_def)
    next
      case False
      with hole Suc.prems(2) ck have sh: "rh_shiftable m j k" by (simp add: rh_shiftable_def)
      have "rh_rest ?m' k < steps" using rh_shift_counts(2) [OF sh] Suc.prems(3) by simp
      from Suc.IH [OF rh_shift_hole [OF sh] _ this] rh_shift_abs [OF sh] rh_shift_counts(1) [OF sh]
        next_loop show ?thesis by (simp add: rh_shift_def)
    qed
  qed
qed simp

lemma rh_backshift_delete_ok:
  assumes inv: "rh_inv m" and i: "i < rh_n m" and occ: "rh_ctrl m ! i \<noteq> 0"
  shows "\<exists>m'. rh_backshift_delete i m = Inr m' \<and> rh_n m' = rh_n m
    \<and> rh_inv (m'\<lparr>rh_sz := rh_sz m' - 1\<rparr>)
    \<and> rh_abs (m'\<lparr>rh_sz := rh_sz m' - 1\<rparr>) = (rh_abs m)(fst (rh_entries m ! i) := None)"
proof -
  let ?n = "rh_n m"
  from inv have wf: "rh_wf m" and dm: "rh_distinct m" and len: "length (rh_ctrl m) = ?n"
    and sz: "rh_sz m = rh_occ (rh_ctrl m)" by (auto simp: rh_inv_def rh_wf_def)
  have "unat c \<le> 254" if "c \<in> set (rh_ctrl m)" for c
    using that inv by (auto simp: in_set_conv_nth rh_inv_def rh_wf_def rh_placed_def)
  then have all: "sum_list (map unat (rh_ctrl m)) \<le> 254 * ?n"
    using sum_list_map_bound [of "rh_ctrl m" unat 254] len by simp
  have ci: "unat (rh_ctrl m ! i) \<le> 254" using inv i occ by (auto simp: rh_inv_def rh_placed_def)
  have "rh_rest m i < 255 * (?n + 1)"
    using sum_list_map_update [of i "rh_ctrl m" unat 0] i len all ci by (simp add: rh_rest_def)
  from rh_backshift_loop_ok [OF rh_hole_start [OF inv i] refl this] obtain m' where
    m': "rh_backshift_delete i m = Inr m'" "rh_n m' = ?n" "rh_sz m' = rh_sz m"
      "rh_inv (m'\<lparr>rh_sz := rh_occ (rh_ctrl m')\<rparr>)" "rh_abs m' = rh_abs (rh_punch m i)"
      "rh_occ (rh_ctrl m') = rh_occ (rh_ctrl (rh_punch m i))"
    by (auto simp: rh_backshift_delete_def rh_wf_next [OF wf])
  have "rh_occ (rh_ctrl (rh_punch m i)) = rh_sz m - 1"
    using sum_list_map_update [of i "rh_ctrl m" "\<lambda>c. if c = 0 then 0 else 1" 0] i len occ sz
    by (simp add: rh_occ_def)
  then have inv': "rh_inv (m'\<lparr>rh_sz := rh_sz m' - 1\<rparr>)" using m' by simp
  have "rh_abs (rh_punch m i) = (rh_abs m)(fst (rh_entries m ! i) := None)"
  proof (rule rh_abs_eqI)
    show dp: "rh_distinct (rh_punch m i)"
      using rh_hole_start [OF inv i] by (simp add: rh_hole_def)
    fix key v
    show "((rh_abs m)(fst (rh_entries m ! i) := None)) key = Some v
        \<longleftrightarrow> (\<exists>j < rh_n (rh_punch m i). rh_ctrl (rh_punch m i) ! j \<noteq> 0 \<and> rh_entries (rh_punch m i) ! j = (key, v))"
    proof (cases "key = fst (rh_entries m ! i)")
      case True
      then have "\<not> (j < ?n \<and> rh_ctrl (rh_punch m i) ! j \<noteq> 0 \<and> rh_entries m ! j = (key, v))" for j
        using rh_distinctD [OF dm i, of j] occ len i by (cases "j = i") auto
      with True show ?thesis by auto
    next
      case False
      then have "(j < ?n \<and> rh_ctrl (rh_punch m i) ! j \<noteq> 0 \<and> rh_entries m ! j = (key, v))
          \<longleftrightarrow> (j < ?n \<and> rh_ctrl m ! j \<noteq> 0 \<and> rh_entries m ! j = (key, v))" for j
        using len by (cases "j = i") auto
      with False rh_abs_Some [OF dm, of key v] show ?thesis by simp
    qed
  qed
  moreover have "rh_abs (m'\<lparr>rh_sz := z\<rparr>) = rh_abs m'" for z by (simp add: rh_abs_def fun_eq_iff)
  ultimately show ?thesis using m' inv' by auto
qed

lemma rh_erase_loop_find:
  "rh_erase_loop m k i dist =
     (case rh_find_loop m k i dist of
        None \<Rightarrow> Inr (False, m)
      | Some j \<Rightarrow> (case rh_backshift_delete j m of
           Inl e \<Rightarrow> Inl e | Inr m' \<Rightarrow> Inr (True, m'\<lparr>rh_sz := rh_sz m' - 1\<rparr>)))"
proof (induction m k i dist rule: rh_find_loop.induct)
  case (1 m k i dist)
  show ?case
  proof (cases "rh_ctrl m ! i \<noteq> 0 \<and> \<not> rh_ctrl m ! i < dist \<and> fst (rh_entries m ! i) \<noteq> k
      \<and> dist + 1 \<noteq> 255")
    case True
    then have "rh_find_loop m k i dist = rh_find_loop m k (i + 1 AND rh_mask m) (dist + 1)"
      and "rh_erase_loop m k i dist = rh_erase_loop m k (i + 1 AND rh_mask m) (dist + 1)"
      using rh_find_loop.simps [of m k i dist] rh_erase_loop.simps [of m k i dist]
      by (auto simp: Let_def)
    with True 1 [OF refl] show ?thesis by simp
  next
    case False
    then show ?thesis
      using rh_find_loop.simps [of m k i dist] rh_erase_loop.simps [of m k i dist]
      by (auto simp: Let_def)
  qed
qed

lemma rh_erase_result:
  assumes inv: "rh_inv m"
  shows "\<exists>m'. rh_erase k m = Inr (rh_abs m k \<noteq> None, m') \<and> rh_inv m' \<and> rh_abs m' = (rh_abs m)(k := None)
    \<and> rh_n m' = rh_n m"
proof (cases "rh_find k m")
  case None
  then have "rh_erase k m = Inr (False, m)"
    by (auto simp: rh_erase_def rh_find_def rh_erase_loop_find)
  moreover have "rh_abs m k = None"
    using None rh_lookup_correct [OF inv, of k] by (simp add: rh_lookup_def)
  ultimately show ?thesis using inv by (auto simp: fun_upd_idem)
next
  case (Some j)
  from inv have wf: "rh_wf m" by (simp add: rh_inv_def)
  from Some have k: "k \<noteq> EMPTY_KEY" and f: "rh_find_loop m k (rh_home (rh_n m) k) 1 = Some j"
    by (auto simp: rh_find_def rh_wf_index [OF wf] split: if_splits)
  have "rh_home (rh_n m) k < rh_n m" using rh_wf_pos [OF wf] by (simp add: rh_home_def)
  from rh_find_loop_sound [OF f wf this]
  have j: "j < rh_n m" "rh_ctrl m ! j \<noteq> 0" "fst (rh_entries m ! j) = k" by auto
  have "rh_abs m k \<noteq> None"
    using Some rh_lookup_correct [OF inv, of k, symmetric] by (simp add: rh_lookup_def)
  with rh_backshift_delete_ok [OF inv j(1,2)] f k j(3) show ?thesis
    by (auto simp: rh_erase_def rh_erase_loop_find rh_wf_index [OF wf])
qed

interpretation rh: u64_map rh_insert rh_lookup rh_erase rh_abs rh_inv
proof
  fix m :: "'a RHMap" and k :: u64 and v :: 'a and b and m' :: "'a RHMap"
  assume inv: "rh_inv m"
  show "rh_lookup k m = rh_abs m k" by (rule rh_lookup_correct [OF inv])
  show "rh_insert k v m = Inr (b, m') \<Longrightarrow>
      rh_inv m' \<and> rh_abs m' = (rh_abs m)(k \<mapsto> v) \<and> (b \<longleftrightarrow> rh_abs m k = None)"
    using rh_insert_result [OF inv] by blast
  show "rh_insert k v m \<noteq> Inl OutOfSteps"
    using rh_insert_fail [OF inv] by blast
  show "\<exists>m'. rh_erase k m = Inr (rh_abs m k \<noteq> None, m') \<and> rh_inv m' \<and> rh_abs m' = (rh_abs m)(k := None)"
    using rh_erase_result [OF inv] by blast
qed

lemma rh_new_correct:
  assumes "rh_new v0 n = Inr m"
  shows "rh_inv m \<and> rh_abs m = Map.empty \<and> rh_n m = n"
proof -
  from assms have n: "is_power_of_two n" by (auto simp: rh_new_def is_power_of_two_def split: if_splits)
  from assms have m: "m = \<lparr>rh_entries = replicate n (EMPTY_KEY, v0), rh_ctrl = replicate n 0,
      rh_n = n, rh_mask = n - 1, rh_sz = 0, rh_sweep = 0\<rparr>"
    by (auto simp: rh_new_def split: if_splits)
  have "rh_occ (replicate n 0) = 0" by (induction n) (auto simp: rh_occ_def)
  with n show ?thesis
    by (auto simp: m rh_inv_def rh_wf_def rh_placed_def rh_distinct_def rh_abs_None fun_eq_iff)
qed

text \<open>The size counter is the number of keys.\<close>

lemma rh_sz_dom:
  assumes "rh_inv m"
  shows "rh_sz m = card (dom (rh_abs m))"
proof -
  let ?O = "{i. i < length (rh_ctrl m) \<and> rh_ctrl m ! i \<noteq> 0}" and ?key = "\<lambda>i. fst (rh_entries m ! i)"
  from assms have d: "rh_distinct m" and n: "length (rh_ctrl m) = rh_n m" and sz: "rh_sz m = rh_occ (rh_ctrl m)"
    by (simp_all add: rh_inv_def rh_wf_def)
  have "dom (rh_abs m) = ?key ` ?O"
  proof (intro set_eqI)
    fix k
    have "k \<in> dom (rh_abs m) \<longleftrightarrow> rh_abs m k \<noteq> None" by auto
    then show "k \<in> dom (rh_abs m) \<longleftrightarrow> k \<in> ?key ` ?O" using n by (auto simp: rh_abs_None)
  qed
  moreover have "inj_on ?key ?O" by (rule inj_onI) (use rh_distinctD [OF d] n in auto)
  ultimately have "card (dom (rh_abs m)) = card ?O" by (simp only: card_image)
  then show ?thesis using sz rh_occ_card [of "rh_ctrl m"] by (simp only:)
qed

end
