(* ===== verification/Rh_Map_Sweep.thy ===== *)
theory Rh_Map_Sweep
  imports Rh_Map_Proofs "HOL-Library.Code_Target_Nat"
begin

section \<open>The clock hand of \<^verbatim>\<open>RHBSU64Map\<close> and the table's properties\<close>

text \<open>
  \<open>rh_clock left m\<close> lists the occupied entries of the next \<open>left\<close> slots under the clock hand.
  A sweep offers exactly these entries to the callback, in this order, until one is accepted.
\<close>

fun rh_clock :: "nat \<Rightarrow> 'v RHMap \<Rightarrow> (u64 \<times> 'v) list" where
  "rh_clock 0 m = []"
| "rh_clock (Suc left) m =
     (if rh_ctrl m ! rh_sweep m \<noteq> 0 then [rh_entries m ! rh_sweep m] else []) @
     rh_clock left (m\<lparr>rh_sweep := Suc (rh_sweep m) mod rh_n m\<rparr>)"

fun offer :: "(u64 \<Rightarrow> 'v \<Rightarrow> 's \<Rightarrow> (bool \<times> 'v \<times> 's) result) \<Rightarrow> (u64 \<times> 'v) list \<Rightarrow> 's \<Rightarrow>
    (bool \<times> 's) result" where
  "offer cb [] s = Inr (False, s)"
| "offer cb ((k, v) # es) s =
     (case cb k v s of
        Inl e \<Rightarrow> Inl e
      | Inr (accepted, v', s') \<Rightarrow> if accepted then Inr (True, s') else offer cb es s')"

fun without_map :: "(bool \<times> 'v RHMap \<times> 's) result \<Rightarrow> (bool \<times> 's) result" where
  "without_map (Inl e) = Inl e"
| "without_map (Inr (b, m, s)) = Inr (b, s)"

lemma rh_clock_slots:
  assumes "rh_sweep m < rh_n m"
  shows "rh_clock left m =
    map ((!) (rh_entries m)) (filter (\<lambda>i. rh_ctrl m ! i \<noteq> 0)
      (map (\<lambda>d. (rh_sweep m + d) mod rh_n m) [0..<left]))"
  using assms
proof (induction left arbitrary: m)
  case (Suc left)
  let ?m = "m\<lparr>rh_sweep := Suc (rh_sweep m) mod rh_n m\<rparr>"
  have "map (\<lambda>d. (rh_sweep m + d) mod rh_n m) [0..<Suc left] =
      rh_sweep m # map (\<lambda>d. (rh_sweep ?m + d) mod rh_n ?m) [0..<left]"
    using Suc.prems by (simp add: upt_conv_Cons map_Suc_upt [symmetric] mod_add_left_eq comp_def
        del: upt_Suc)
  with Suc.IH [of ?m] Suc.prems show ?case by simp
qed simp

lemma rh_clock_set_val:
  assumes "rh_sweep m < rh_n m" and "\<And>d. d < left \<Longrightarrow> i \<noteq> (rh_sweep m + d) mod rh_n m"
  shows "rh_clock left (rh_set_val i v m) = rh_clock left m"
  using assms by (auto simp: rh_clock_slots rh_set_val_def filter_map comp_def)

lemma rh_sweep_loop_step:
  "rh_wf m \<Longrightarrow> rh_sweep_loop (Suc left) cb m s =
     (let idx = rh_sweep m; m1 = m\<lparr>rh_sweep := Suc (rh_sweep m) mod rh_n m\<rparr>
      in if rh_ctrl m ! idx \<noteq> 0 then
           (case cb (fst (rh_entries m ! idx)) (snd (rh_entries m ! idx)) s of
              Inl e \<Rightarrow> Inl e
            | Inr (accepted, v', s') \<Rightarrow>
                if accepted then Inr (True, rh_set_val idx v' m1, s')
                else rh_sweep_loop left cb (rh_set_val idx v' m1) s')
         else rh_sweep_loop left cb m1 s)"
  by (cases "cb (fst (rh_entries m ! rh_sweep m)) (snd (rh_entries m ! rh_sweep m)) s")
    (auto simp: Let_def rh_wf_next rh_set_val_def)

lemma rh_inv_sweep:
  assumes "rh_inv m" and "i < rh_n m"
  shows "rh_inv (m\<lparr>rh_sweep := i\<rparr>)" and "rh_abs (m\<lparr>rh_sweep := i\<rparr>) = rh_abs m"
  using assms by (auto simp: rh_inv_def rh_wf_def rh_placed_def rh_distinct_def rh_abs_def)

lemma rh_sweep_loop_offers:
  assumes "rh_inv m" and "left \<le> rh_n m"
  shows "without_map (rh_sweep_loop left cb m s) = offer cb (rh_clock left m) s"
  using assms
proof (induction left arbitrary: m s)
  case (Suc left)
  let ?i = "rh_sweep m" and ?m = "m\<lparr>rh_sweep := Suc (rh_sweep m) mod rh_n m\<rparr>"
  from Suc.prems have wf: "rh_wf m" and n: "0 < rh_n m" and i: "?i < rh_n m"
    by (auto simp: rh_inv_def rh_wf_def)
  have inv: "rh_inv ?m" using rh_inv_sweep(1) [OF Suc.prems(1)] n by simp
  have away: "?i \<noteq> (rh_sweep ?m + d) mod rh_n ?m" if "d < left" for d
  proof -
    have "(?i + 0) mod rh_n m \<noteq> (?i + Suc d) mod rh_n m"
      using mod_ring_inj [of "Suc d" "rh_n m" 0 ?i] that Suc.prems(2) by auto
    then show ?thesis using i by (simp add: mod_simps)
  qed
  show ?case
  proof (cases "rh_ctrl m ! ?i = 0")
    case True
    with Suc.IH [OF inv] Suc.prems(2) show ?thesis
      by (simp add: rh_sweep_loop_step [OF wf] Let_def del: rh_sweep_loop.simps)
  next
    case False
    have keep: "rh_inv (rh_set_val ?i v ?m)" "rh_clock left (rh_set_val ?i v ?m) = rh_clock left ?m" for v
      using rh_set_val_correct(1) [OF inv] i False rh_clock_set_val [OF _ away] n by simp_all
    have ih: "without_map (rh_sweep_loop left cb (rh_set_val ?i v ?m) s1)
        = offer cb (rh_clock left ?m) s1" for v s1
    proof -
      have "left \<le> rh_n (rh_set_val ?i v ?m)" using Suc.prems(2) by simp
      from Suc.IH [OF keep(1) this] show ?thesis unfolding keep(2) .
    qed
    obtain k v where e: "rh_entries m ! ?i = (k, v)" by (cases "rh_entries m ! ?i")
    show ?thesis
    proof (cases "cb k v s")
      case (Inl err)
      with False e show ?thesis
        by (simp add: rh_sweep_loop_step [OF wf] Let_def del: rh_sweep_loop.simps)
    next
      case (Inr r)
      obtain a v1 s1 where "r = (a, v1, s1)" by (cases r)
      with Inr False e ih [of v1 s1] show ?thesis
        by (simp add: rh_sweep_loop_step [OF wf] Let_def del: rh_sweep_loop.simps)
    qed
  qed
qed simp

lemma rh_sweep_loop_keeps:
  assumes "rh_inv m" and "rh_sweep_loop left cb m s = Inr (b, m', s')"
  shows "rh_inv m' \<and> dom (rh_abs m') = dom (rh_abs m) \<and> rh_n m' = rh_n m"
  using assms
proof (induction left arbitrary: m s)
  case (Suc left)
  let ?i = "rh_sweep m" and ?m = "m\<lparr>rh_sweep := Suc (rh_sweep m) mod rh_n m\<rparr>"
  from Suc.prems have wf: "rh_wf m" and n: "0 < rh_n m" and i: "?i < rh_n m" and dm: "rh_distinct m"
    by (auto simp: rh_inv_def rh_wf_def)
  have inv: "rh_inv ?m" and ab: "rh_abs ?m = rh_abs m"
    using rh_inv_sweep [OF Suc.prems(1)] n by simp_all
  show ?case
  proof (cases "rh_ctrl m ! ?i = 0")
    case True
    with Suc.IH [OF inv] Suc.prems(2) ab show ?thesis
      by (simp add: rh_sweep_loop_step [OF wf] Let_def del: rh_sweep_loop.simps)
  next
    case False
    have "rh_abs m (fst (rh_entries m ! ?i)) \<noteq> None"
      using i False by (auto simp: rh_abs_None)
    then have keep: "rh_inv (rh_set_val ?i v ?m)" "dom (rh_abs (rh_set_val ?i v ?m)) = dom (rh_abs m)" for v
      using rh_set_val_correct [OF inv] i False ab by (auto simp: insert_absorb)
    from Suc.prems(2) False obtain v1 where "m' = rh_set_val ?i v1 ?m
        \<or> (\<exists>s1. rh_sweep_loop left cb (rh_set_val ?i v1 ?m) s1 = Inr (b, m', s'))"
      by (auto simp: rh_sweep_loop_step [OF wf] Let_def simp del: rh_sweep_loop.simps
          split: sum.splits prod.splits if_splits)
    then show ?thesis
    proof (elim disjE exE)
      assume "m' = rh_set_val ?i v1 ?m"
      then show ?thesis by (simp only: keep rh_set_val_fields) simp
    next
      fix s1
      assume "rh_sweep_loop left cb (rh_set_val ?i v1 ?m) s1 = Inr (b, m', s')"
      from Suc.IH [OF keep(1) this] show ?thesis by (simp only: keep rh_set_val_fields) simp
    qed
  qed
qed simp

text \<open>A full turn of the hand meets every key of the table once.\<close>

lemma rh_clock_map:
  assumes inv: "rh_inv m"
  shows "distinct (map fst (rh_clock (rh_n m) m))" and "map_of (rh_clock (rh_n m) m) = rh_abs m"
proof -
  let ?n = "rh_n m" and ?hand = "map (\<lambda>d. (rh_sweep m + d) mod rh_n m) [0..<rh_n m]"
  let ?slots = "filter (\<lambda>i. rh_ctrl m ! i \<noteq> 0) ?hand"
  from inv have s: "rh_sweep m < ?n" and dm: "rh_distinct m" by (simp_all add: rh_inv_def rh_wf_def)
  have "inj_on (\<lambda>d. (rh_sweep m + d) mod ?n) (set [0..<?n])"
    by (rule inj_onI) (metis mod_ring_inj atLeastLessThan_iff set_upt)
  then have "distinct ?hand" by (simp only: distinct_map distinct_upt simp_thms)
  moreover have "i \<in> set ?hand" if i: "i < ?n" for i
  proof -
    obtain d where "d < ?n" "(rh_sweep m + d) mod ?n = i" using mod_ring_cover [OF i] by blast
    then show ?thesis by (auto intro!: image_eqI [of _ _ d])
  qed
  then have "set ?hand = {i. i < ?n}" using s by auto
  then have set: "set ?slots = {i. i < ?n \<and> rh_ctrl m ! i \<noteq> 0}"
    by (simp only: set_filter) auto
  moreover have "inj_on (\<lambda>i. fst (rh_entries m ! i)) (set ?slots)"
    unfolding set using rh_distinctD [OF dm] by (intro inj_onI) auto
  ultimately show d: "distinct (map fst (rh_clock ?n m))"
    by (simp only: rh_clock_slots [OF s] map_map comp_def distinct_map [where xs = ?slots] distinct_filter
        simp_thms)
  show "map_of (rh_clock ?n m) = rh_abs m"
  proof (rule rh_abs_eqI [OF dm, symmetric])
    fix k v
    have "map_of (rh_clock ?n m) k = Some v \<longleftrightarrow> (k, v) \<in> set (rh_clock ?n m)"
      using d by (simp add: map_of_eq_Some_iff)
    also have "\<dots> \<longleftrightarrow> (\<exists>i \<in> set ?slots. rh_entries m ! i = (k, v))"
      unfolding rh_clock_slots [OF s] list.set_map [of _ ?slots] image_iff by metis
    finally show "map_of (rh_clock ?n m) k = Some v \<longleftrightarrow>
        (\<exists>i < ?n. rh_ctrl m ! i \<noteq> 0 \<and> rh_entries m ! i = (k, v))" by (simp only: set) auto
  qed
qed


lemma rh_clock_empty:
  assumes inv: "rh_inv m" and "rh_sz m = 0"
  shows "rh_clock (rh_n m) m = []"
proof -
  have "rh_ctrl m ! i = 0" if "i < rh_n m" for i
    using inv rh_occ_zero [of "rh_ctrl m"] assms(2) that by (auto simp: rh_inv_def rh_wf_def)
  then have "rh_abs m = Map.empty" by (auto simp: rh_abs_None fun_eq_iff)
  then show ?thesis using rh_clock_map(2) [OF inv] by simp
qed

subsection \<open>The hash functions are permutations\<close>

text \<open>
  A right shift folded in by exclusive or can be undone, and so can a multiplication by an odd
  constant; each constant comes with its inverse.
\<close>

lemma drop_bit_fixed:
  fixes z :: u64
  assumes "drop_bit s z = z" and "0 < s"
  shows "z = 0"
proof -
  have "drop_bit s (unat z) = unat z" using arg_cong [OF assms(1), of unat] by (simp add: unat_drop_bit_eq)
  then have "unat z div 2 ^ s = unat z" by (simp add: drop_bit_eq_div)
  moreover have "1 < (2 :: nat) ^ s" by (rule one_less_power) (use assms(2) in simp_all)
  ultimately have "unat z = 0" using div_less_dividend [of "2 ^ s" "unat z"] by linarith
  then show ?thesis by (simp add: unat_eq_zero)
qed

lemma xor_swap: "a XOR b = c XOR d \<Longrightarrow> b XOR d = a XOR (c :: u64)"
  by (auto simp: bit_eq_iff bit_xor_iff)

lemma xor_zero_eq: "x XOR y = 0 \<Longrightarrow> x = (y :: u64)"
  by (auto simp: bit_eq_iff bit_xor_iff)

lemma xor_left_eq: "(h XOR x = h XOR y) = (x = (y :: u64))"
  by (auto simp: bit_eq_iff bit_xor_iff)

lemma xorshift_inj:
  fixes x y :: u64
  assumes "x XOR drop_bit s x = y XOR drop_bit s y" and "0 < s"
  shows "x = y"
proof -
  have "drop_bit s (x XOR y) = drop_bit s x XOR drop_bit s y" by (simp add: drop_bit_xor)
  also have "\<dots> = x XOR y" by (rule xor_swap [OF assms(1)])
  finally have "x XOR y = 0" using drop_bit_fixed assms(2) by blast
  then show ?thesis by (rule xor_zero_eq)
qed

lemma xorshift_eq: "0 < s \<Longrightarrow> (x XOR drop_bit s x = y XOR drop_bit s y) = (x = (y :: u64))"
  by (auto dest: xorshift_inj)

lemma mult_unit_eq: "c * d = 1 \<Longrightarrow> (x * c = y * c) = (x = (y :: u64))"
proof
  assume unit: "c * d = 1" and eq: "x * c = y * c"
  have "x * (c * d) = y * (c * d)" unfolding mult.assoc [symmetric] eq ..
  with unit show "x = y" by simp
qed simp

lemmas hash_unit_eqs =
  mult_unit_eq [of "0xbf58476d1ce4e5b9" "0x96de1b173f119089", simplified]
  mult_unit_eq [of "0x94d049bb133111eb" "0x319642b2d24d8ec3", simplified]
  mult_unit_eq [of "0xc6a4a7935bd1e995" "0x5f7a0ea7e59b19bd", simplified]

text \<open>
  C36. The hash function of the tables, \<^verbatim>\<open>hash\<close> (splitmix64), is a permutation of the
  64-bit values, and so is the alternative \<^verbatim>\<open>hash2\<close> (murmur): two different keys never
  have the same hash, they only share the slot its low bits select.
\<close>

theorem hash_functions_are_permutations: "bij splitmix_hash \<and> bij hash2"
proof -
  have "inj splitmix_hash"
    by (rule injI, unfold splitmix_hash_def Let_def xorshift_eq [OF zero_less_numeral] hash_unit_eqs) simp
  moreover have "inj hash2"
    by (rule injI, unfold hash2_def Let_def xorshift_eq [OF zero_less_numeral] hash_unit_eqs
        xor_left_eq) simp
  ultimately show ?thesis by (simp add: bij_def finite_UNIV_inj_surj)
qed

subsection \<open>Properties of the table\<close>

text \<open>
  C9. Any sequence of \<^verbatim>\<open>insert\<close>, \<^verbatim>\<open>find\<close> and \<^verbatim>\<open>erase\<close> calls on a freshly
  constructed \<^verbatim>\<open>RHBSU64Map\<close> that raises no error returns exactly what a partial function
  from keys to values would return, and leaves the table representing the function it would have
  reached; the calls always return, so an error is one of the table's own checks.
\<close>

theorem rh_map_is_a_map:
  assumes "rh_new v0 n = Inr m"
  shows "map_run rh_insert rh_lookup rh_erase ops m \<noteq> Inl OutOfSteps \<and>
    (\<forall>rs m'. map_run rh_insert rh_lookup rh_erase ops m = Inr (rs, m') \<longrightarrow>
      rs = fst (fun_run ops Map.empty) \<and> rh_abs m' = snd (fun_run ops Map.empty) \<and> rh_inv m')"
  using rh.run_abs [of m ops] rh.run_ends [of m ops] rh_new_correct [OF assms] by auto

text \<open>Witness: insertions, a deletion and lookups in four slots.\<close>

definition rh_demo :: "nat mop list" where
  "rh_demo = [Insert 1 10, Insert 2 20, Find 2, Erase 1, Find 1]"

definition rh_demo_map :: "nat RHMap" where
  "rh_demo_map = projr (rh_new 0 4)"

lemma rh_demo_results:
  "map_sum id fst (map_run rh_insert rh_lookup rh_erase rh_demo rh_demo_map) =
     Inr [Bool True, Bool True, Value (Some 20), Bool True, Value None]"
  by code_simp

theorem rh_map_is_a_map_witness:
  "rh_new 0 4 = Inr rh_demo_map \<and>
   (\<exists>rs m'. map_run rh_insert rh_lookup rh_erase rh_demo rh_demo_map = Inr (rs, m') \<and>
      rs = fst (fun_run rh_demo Map.empty) \<and> rs ! 2 = Value (Some 20) \<and> rh_inv m')"
proof -
  have new: "rh_new 0 4 = Inr rh_demo_map" by (simp add: rh_demo_map_def rh_new_def)
  obtain rs m' where run: "map_run rh_insert rh_lookup rh_erase rh_demo rh_demo_map = Inr (rs, m')"
    and "rs ! 2 = Value (Some 20)"
    using rh_demo_results
    by (cases "map_run rh_insert rh_lookup rh_erase rh_demo rh_demo_map") auto
  with rh_map_is_a_map [OF new, of rh_demo] new show ?thesis by auto
qed

text \<open>
  C22. Room suffices. While a table of any size has a free slot and fewer than 254 entries, the probe distance cannot
  overflow its byte, and an insertion of any key but the sentinel succeeds.
\<close>

theorem rh_insert_succeeds_while_not_full:
  assumes "rh_inv m" and "k \<noteq> EMPTY_KEY" and "rh_sz m < 254" and "rh_sz m < rh_n m"
  shows "\<exists>m'. rh_insert k v m = Inr (rh_abs m k = None, m') \<and> rh_inv m' \<and> rh_abs m' = (rh_abs m)(k \<mapsto> v)"
  using rh_insert_room [OF assms, of v] rh_insert_result [OF assms(1)] by blast

text \<open>Witness: a table of four slots in which the keys 2 and 4 share a home and key 0 was pushed on.\<close>

definition rh_demo_table :: "nat RHMap" where
  "rh_demo_table = \<lparr>rh_entries = [(0, 100), (EMPTY_KEY, 0), (2, 20), (4, 40)], rh_ctrl = [2, 0, 1, 2],
     rh_n = 4, rh_mask = 3, rh_sz = 3, rh_sweep = 3\<rparr>"

lemma rh_demo_homes: "rh_home 4 0 = 3 \<and> rh_home 4 2 = 2 \<and> rh_home 4 4 = 2"
  by code_simp

lemma all_less_4: "(\<forall>i < (4 :: nat). P i) \<longleftrightarrow> P 0 \<and> P 1 \<and> P 2 \<and> P 3"
  by (simp add: numeral_eq_Suc All_less_Suc) auto

lemma rh_demo_table_inv: "rh_inv rh_demo_table"
  using rh_demo_homes
  by (simp add: rh_inv_def rh_wf_def rh_demo_table_def rh_placed_def rh_distinct_def rh_occ_def
      all_less_4 is_power_of_two_def EMPTY_KEY_def)

theorem rh_insert_succeeds_while_not_full_witness:
  "\<exists>m'. rh_insert 9 90 rh_demo_table = Inr (True, m') \<and> rh_inv m' \<and> rh_abs m' 9 = Some 90"
proof -
  have "rh_abs rh_demo_table 9 = None" by code_simp
  moreover have "(9 :: u64) \<noteq> EMPTY_KEY" by code_simp
  ultimately show ?thesis
    using rh_insert_succeeds_while_not_full [of rh_demo_table 9 90] rh_demo_table_inv by (auto simp: rh_demo_table_def)
qed

text \<open>
  C23. The clock hand is fair. A call of \<^verbatim>\<open>clock_sweep_next\<close> offers the occupied entries to
  the callback in slot order from the hand on, each once, until the callback accepts one; the
  entries of a full turn are the contents of the table. The sweep keeps the table's invariant and
  its keys, whatever the callback stores in the values.
\<close>

theorem rh_clock_sweep_offers_every_entry_once:
  assumes inv: "rh_inv m"
  shows "without_map (rh_clock_sweep_next cb m s) = offer cb (rh_clock (rh_n m) m) s \<and>
    distinct (map fst (rh_clock (rh_n m) m)) \<and> map_of (rh_clock (rh_n m) m) = rh_abs m \<and>
    (\<forall>b m' s'. rh_clock_sweep_next cb m s = Inr (b, m', s') \<longrightarrow>
      rh_inv m' \<and> dom (rh_abs m') = dom (rh_abs m))"
proof -
  have "without_map (rh_clock_sweep_next cb m s) = offer cb (rh_clock (rh_n m) m) s"
    using rh_sweep_loop_offers [OF inv order_refl] rh_clock_empty [OF inv]
    by (auto simp: rh_clock_sweep_next_def)
  moreover have "rh_inv m' \<and> dom (rh_abs m') = dom (rh_abs m)"
    if "rh_clock_sweep_next cb m s = Inr (b, m', s')" for b m' s'
    using that rh_sweep_loop_keeps [OF inv, of "rh_n m" cb s b m' s'] inv
    by (auto simp: rh_clock_sweep_next_def split: if_splits)
  ultimately show ?thesis using rh_clock_map [OF inv] by blast
qed

text \<open>Witness: a sweep that records the keys it sees and accepts none sees the three keys.\<close>

theorem rh_clock_sweep_offers_every_entry_once_witness:
  "rh_inv rh_demo_table \<and>
   without_map (rh_clock_sweep_next (\<lambda>k v seen. Inr (False, v + 1, k # seen)) rh_demo_table []) =
     Inr (False, [2, 0, 4])"
proof -
  have "offer (\<lambda>k v seen. Inr (False, v + 1, k # seen)) (rh_clock (rh_n rh_demo_table) rh_demo_table) []
      = Inr (False, [2, 0, 4])" by code_simp
  with rh_clock_sweep_offers_every_entry_once [of rh_demo_table] rh_demo_table_inv show ?thesis by metis
qed

end
