(* ===== verification/Bytes.thy ===== *)
theory Bytes
  imports Prelude "HOL-Library.List_Lexorder"
begin

section \<open>Bytes: page memory, key comparison and key heads\<close>

text \<open>
  Byte strings as lists of 8-bit words: reads and writes of a page's memory, \<^verbatim>\<open>memcmp\<close>,
  the unaligned loads and the order-preserving key head of
  \<^verbatim>\<open>src/src/buffer_mgr/utils.hpp\<close>, the bytes of a page identifier, and wrap-around
  subtraction of the 16 and 32-bit fields kept as naturals. Keys are compared as the B-tree
  compares them: lexicographically, a proper prefix before its extensions.
\<close>

type_synonym bytes = "u8 list"

named_theorems mem_simps \<open>reads after writes of page memory\<close>

subsection \<open>Wrap-around arithmetic of narrow fields\<close>

definition sub16 :: "nat \<Rightarrow> nat \<Rightarrow> nat" where
  "sub16 a b = (a + (65536 - b mod 65536)) mod 65536"

definition add16 :: "nat \<Rightarrow> nat \<Rightarrow> nat" where
  "add16 a b = (a + b) mod 65536"

definition sub32 :: "nat \<Rightarrow> nat \<Rightarrow> nat" where
  "sub32 a b = (a + (4294967296 - b mod 4294967296)) mod 4294967296"

lemma sub16_eq: "b \<le> a \<Longrightarrow> a < 65536 \<Longrightarrow> sub16 a b = a - b"
proof -
  assume "b \<le> a" and "a < 65536"
  then have "a + (65536 - b mod 65536) = (a - b) + 65536" and "a - b < 65536" by simp_all
  then show ?thesis by (simp only: sub16_def mod_add_self2 mod_less)
qed

lemma add16_eq: "a + b < 65536 \<Longrightarrow> add16 a b = a + b"
  by (simp add: add16_def)

lemma sub32_eq: "b \<le> a \<Longrightarrow> a < 4294967296 \<Longrightarrow> sub32 a b = a - b"
proof -
  assume "b \<le> a" and "a < 4294967296"
  then have "a + (4294967296 - b mod 4294967296) = (a - b) + 4294967296" and "a - b < 4294967296"
    by simp_all
  then show ?thesis by (simp only: sub32_def mod_add_self2 mod_less)
qed

subsection \<open>Memory of a page\<close>

definition mem_read :: "bytes \<Rightarrow> nat \<Rightarrow> nat \<Rightarrow> bytes" where
  "mem_read m off len = take len (drop off m)"

definition mem_write :: "bytes \<Rightarrow> nat \<Rightarrow> bytes \<Rightarrow> bytes" where
  "mem_write m off bs = take off m @ bs @ drop (off + length bs) m"

lemma length_mem_write [simp]: "off + length bs \<le> length m \<Longrightarrow> length (mem_write m off bs) = length m"
  by (simp add: mem_write_def)

lemma length_mem_read [simp]: "off + len \<le> length m \<Longrightarrow> length (mem_read m off len) = len"
  by (simp add: mem_read_def)

lemma mem_read_written [mem_simps]:
  "off + length bs \<le> length m \<Longrightarrow> mem_read (mem_write m off bs) off (length bs) = bs"
  by (simp add: mem_read_def mem_write_def)

lemma mem_read_part [mem_simps]:
  assumes "off + length bs \<le> length m" and "off \<le> o'" and "o' + len \<le> off + length bs"
  shows "mem_read (mem_write m off bs) o' len = take len (drop (o' - off) bs)"
  using assms by (simp add: mem_read_def mem_write_def)

lemma mem_read_above [mem_simps]:
  assumes "off + length bs \<le> length m" and "off + length bs \<le> o'"
  shows "mem_read (mem_write m off bs) o' len = mem_read m o' len"
  using assms by (simp add: mem_read_def mem_write_def)

lemma mem_read_below [mem_simps]:
  assumes "off + length bs \<le> length m" and "o' + len \<le> off"
  shows "mem_read (mem_write m off bs) o' len = mem_read m o' len"
proof -
  from assms have "length (drop o' (take off m)) = off - o'" and "len \<le> off - o'" by auto
  then show ?thesis by (simp add: mem_read_def mem_write_def drop_take)
qed

lemma mem_read_take: "take k (mem_read m off len) = mem_read m off (min k len)"
  by (simp add: mem_read_def)

lemma mem_read_drop: "drop k (mem_read m off len) = mem_read m (off + k) (len - k)"
  by (simp add: mem_read_def drop_take add.commute)

lemma mem_read_append: "mem_read m off a @ mem_read m (off + a) b = mem_read m off (a + b)"
  by (simp add: mem_read_def take_add add.commute)

subsection \<open>\<^verbatim>\<open>memcmp\<close>\<close>

lemma Nil_less_iff [simp]: "[] < as \<longleftrightarrow> as \<noteq> []" for as :: bytes
  by (cases as) auto

fun memcmp :: "bytes \<Rightarrow> bytes \<Rightarrow> nat \<Rightarrow> int" where
  "memcmp (a # as) (b # bs) (Suc n) = (if a < b then - 1 else if b < a then 1 else memcmp as bs n)"
| "memcmp as bs n = 0"

lemma memcmp_take:
  "n \<le> k \<Longrightarrow> memcmp as (take k bs) n = memcmp as bs n"
  by (induction as bs n arbitrary: k rule: memcmp.induct) (auto simp: take_Cons split: nat.splits)

lemma memcmp_less:
  "a < b \<longleftrightarrow> memcmp a b (min (length a) (length b)) < 0
     \<or> memcmp a b (min (length a) (length b)) = 0 \<and> length a < length b"
  for a b :: bytes
  by (induction a b "min (length a) (length b)" rule: memcmp.induct) (auto simp: min_def split: if_splits)

lemma memcmp_greater:
  "b < a \<longleftrightarrow> 0 < memcmp a b (min (length a) (length b))
     \<or> memcmp a b (min (length a) (length b)) = 0 \<and> length b < length a"
  for a b :: bytes
  by (induction a b "min (length a) (length b)" rule: memcmp.induct) (auto simp: min_def split: if_splits)

lemma memcmp_equal:
  "a = b \<longleftrightarrow> memcmp a b (min (length a) (length b)) = 0 \<and> length a = length b"
  for a b :: bytes
proof -
  have "a = b \<longleftrightarrow> \<not> a < b \<and> \<not> b < a" by auto
  then show ?thesis unfolding memcmp_less [of a b] memcmp_greater [of b a] by linarith
qed

lemma memcmp_prefix:
  "memcmp k p (min (length k) (length p)) = 0 \<longleftrightarrow>
     (length k < length p \<and> k = take (length k) p) \<or> (\<exists>r. k = p @ r)"
proof (induction k arbitrary: p)
  case (Cons x k)
  then show ?case by (cases p) auto
qed (auto simp: neq_Nil_conv)

lemma memcmp_prefix_less: "memcmp k p (min (length k) (length p)) < 0 \<Longrightarrow> k < p @ r" for k :: bytes
  by (induction k p "min (length k) (length p)" rule: memcmp.induct) (auto split: if_splits)

lemma memcmp_prefix_greater: "0 < memcmp k p (min (length k) (length p)) \<Longrightarrow> p @ r < k" for k :: bytes
  by (induction k p "min (length k) (length p)" rule: memcmp.induct) (auto split: if_splits)

lemma append_less_append [simp]: "p @ a < p @ b \<longleftrightarrow> a < (b :: bytes)"
  by (induction p) auto

lemma append_le_append [simp]: "p @ a \<le> p @ b \<longleftrightarrow> a \<le> (b :: bytes)"
  by (simp add: le_less)

lemma proper_prefix_less: "length k < length p \<Longrightarrow> k = take (length k) p \<Longrightarrow> k < p @ (r :: bytes)"
proof (induction k arbitrary: p)
  case (Cons x k)
  then show ?case by (cases p) auto
qed (auto simp: neq_Nil_conv)

subsection \<open>Loads and the key head\<close>

definition load16 :: "bytes \<Rightarrow> u16" where
  "load16 p = (ucast (p ! 0) OR push_bit 8 (ucast (p ! 1)))"

definition load32 :: "bytes \<Rightarrow> u32" where
  "load32 p = (ucast (p ! 0) OR push_bit 8 (ucast (p ! 1)) OR push_bit 16 (ucast (p ! 2))
     OR push_bit 24 (ucast (p ! 3)))"

definition bswap16 :: "u16 \<Rightarrow> u16" where
  "bswap16 x = (push_bit 8 x OR drop_bit 8 x)"

definition bswap32 :: "u32 \<Rightarrow> u32" where
  "bswap32 x = (push_bit 24 x OR (push_bit 8 x AND 0xFF0000) OR (drop_bit 8 x AND 0xFF00) OR drop_bit 24 x)"

definition head :: "bytes \<Rightarrow> nat \<Rightarrow> u32" where
  "head key keyLen =
     (if keyLen = 0 then 0
      else if keyLen = 1 then push_bit 24 (ucast (key ! 0))
      else if keyLen = 2 then push_bit 16 (ucast (bswap16 (load16 key)))
      else if keyLen = 3 then push_bit 16 (ucast (bswap16 (load16 key))) OR push_bit 8 (ucast (key ! 2))
      else bswap32 (load32 key))"

text \<open>The head is the first four bytes read as a big-endian number, short keys padded with zeros.\<close>

definition be32 :: "u8 \<Rightarrow> u8 \<Rightarrow> u8 \<Rightarrow> u8 \<Rightarrow> u32" where
  "be32 a b c d = (push_bit 24 (ucast a) OR push_bit 16 (ucast b) OR push_bit 8 (ucast c) OR ucast d)"

lemma u8_bit: "bit (a :: u8) n \<Longrightarrow> n < 8"
  using bit_imp_le_length [of a n] by simp

lemma bit_be32:
  "bit (be32 a b c d) n \<longleftrightarrow> (if n < 8 then bit d n else if n < 16 then bit c (n - 8)
     else if n < 24 then bit b (n - 16) else n < 32 \<and> bit a (n - 24))"
  unfolding be32_def by (auto simp: bit_simps dest: u8_bit)

lemma bswap16_load16: "push_bit 16 (ucast (bswap16 (load16 p)) :: u32) = be32 (p ! 0) (p ! 1) 0 0"
  by (rule bit_word_eqI) (auto simp: bit_be32 bswap16_def load16_def bit_simps dest: u8_bit)

lemma mask_bits: "bit (0xFF0000 :: int) n \<longleftrightarrow> 16 \<le> n \<and> n < 24" "bit (0xFF00 :: int) n \<longleftrightarrow> 8 \<le> n \<and> n < 16"
proof -
  have a: "(0xFF0000 :: int) = push_bit 16 (mask 8)" and b: "(0xFF00 :: int) = push_bit 8 (mask 8)"
    by (simp_all add: mask_eq_exp_minus_1 push_bit_eq_mult)
  show "bit (0xFF0000 :: int) n \<longleftrightarrow> 16 \<le> n \<and> n < 24" unfolding a by (auto simp: bit_simps)
  show "bit (0xFF00 :: int) n \<longleftrightarrow> 8 \<le> n \<and> n < 16" unfolding b by (auto simp: bit_simps)
qed

lemma bswap32_load32: "bswap32 (load32 p) = be32 (p ! 0) (p ! 1) (p ! 2) (p ! 3)"
  by (rule bit_word_eqI) (auto simp: bit_be32 bswap32_def load32_def bit_simps mask_bits dest: u8_bit)

lemma u8_less_256: "unat (a :: u8) < 256"
proof -
  have "unat a < 2 ^ LENGTH(8)" by (rule unsigned_less)
  then show ?thesis by simp
qed

lemma unat_ucast_u8: "unat (ucast (a :: u8) :: u32) = unat a"
  using u8_less_256 [of a] by (simp add: unsigned_ucast_eq take_bit_eq_mod)

lemma unat_be32: "unat (be32 a b c d) = unat a * 2 ^ 24 + unat b * 2 ^ 16 + unat c * 2 ^ 8 + unat d"
proof -
  let ?A = "push_bit 24 (ucast a) :: u32" and ?B = "push_bit 16 (ucast b) :: u32"
  let ?C = "push_bit 8 (ucast c) :: u32" and ?D = "ucast d :: u32"
  have cd: "?C + ?D = (?C OR ?D)"
    by (rule disjunctive_add) (auto simp: bit_simps dest: u8_bit)
  have bcd: "?B + (?C OR ?D) = (?B OR (?C OR ?D))"
    by (rule disjunctive_add) (auto simp: bit_simps dest: u8_bit)
  have abcd: "?A + (?B OR (?C OR ?D)) = (?A OR (?B OR (?C OR ?D)))"
    by (rule disjunctive_add) (auto simp: bit_simps dest: u8_bit)
  have "be32 a b c d = ?A + (?B + (?C + ?D))"
    unfolding be32_def cd bcd abcd by (simp only: or.assoc)
  moreover have "unat a < 256" "unat b < 256" "unat c < 256" "unat d < 256" by (simp_all add: u8_less_256)
  ultimately show ?thesis
    by (simp add: unat_word_ariths push_bit_eq_mult unat_ucast_u8)
qed

definition byte_at :: "bytes \<Rightarrow> nat \<Rightarrow> u8" where
  "byte_at k i = (if i < length k then k ! i else 0)"

lemma byte_at_Cons: "byte_at (x # xs) 0 = x" "byte_at (x # xs) (Suc i) = byte_at xs i"
  by (simp_all add: byte_at_def)

lemma head_be32: "head k (length k) = be32 (byte_at k 0) (byte_at k 1) (byte_at k 2) (byte_at k 3)"
proof -
  have one: "push_bit 24 (ucast x) = be32 x 0 0 0" for x :: u8
    by (rule bit_word_eqI) (auto simp: bit_be32 bit_simps dest: u8_bit)
  have three: "(be32 x y 0 0 OR push_bit 8 (ucast z)) = be32 x y z 0" for x y z :: u8
    by (rule bit_word_eqI) (auto simp: bit_be32 bit_simps dest: u8_bit)
  have zero: "be32 0 0 0 0 = 0" by (simp add: be32_def)
  consider "length k = 0" | "length k = 1" | "length k = 2" | "length k = 3" | "3 < length k"
    by linarith
  then show ?thesis
    by cases (auto simp: head_def byte_at_def bswap16_load16 bswap32_load32 zero one three)
qed

lemma byte_at_less:
  fixes a b :: bytes
  assumes "\<forall>j < i. byte_at a j = byte_at b j" and "byte_at a i < byte_at b i"
  shows "a < b"
  using assms
proof (induction i arbitrary: a b)
  case 0
  then show ?case by (cases a; cases b) (auto simp: byte_at_def)
next
  case (Suc i)
  show ?case
  proof (cases "a = [] \<or> b = []")
    case True
    with Suc.prems(2) show ?thesis by (auto simp: byte_at_def split: if_splits)
  next
    case False
    then obtain x as y bs where ab: "a = x # as" "b = y # bs" by (auto simp: neq_Nil_conv)
    have "byte_at as j = byte_at bs j" if "j < i" for j
      using Suc.prems(1) [rule_format, of "Suc j"] that by (simp add: byte_at_Cons ab)
    moreover have "byte_at as i < byte_at bs i" using Suc.prems(2) by (simp add: byte_at_Cons ab)
    moreover have "x = y" using Suc.prems(1) [rule_format, of 0] by (simp add: byte_at_Cons ab)
    ultimately show ?thesis using Suc.IH [of as bs] ab by simp
  qed
qed

lemma lex_step:
  fixes x y r s m :: nat
  assumes "x * m + r < y * m + s" and "s < m"
  shows "x < y \<or> x = y \<and> r < s"
proof -
  have "\<not> y < x"
  proof
    assume "y < x"
    then have "Suc y * m \<le> x * m" by (intro mult_le_mono1) simp
    with assms show False by simp
  qed
  with assms show ?thesis by (cases "x = y") auto
qed

lemma lex_eq:
  fixes x y r s m :: nat
  assumes "x * m + r = y * m + s" and "r < m" and "s < m"
  shows "x = y \<and> r = s"
proof -
  have "(x * m + r) div m = x" "(y * m + s) div m = y" using assms(2,3) by simp_all
  with assms show ?thesis by simp
qed

lemma head_less:
  fixes a b :: bytes
  assumes "head a (length a) < head b (length b)"
  shows "a < b"
proof -
  let ?x = "\<lambda>i. unat (byte_at a i)" and ?y = "\<lambda>i. unat (byte_at b i)"
  have "((?x 0 * 256 + ?x 1) * 256 + ?x 2) * 256 + ?x 3 < ((?y 0 * 256 + ?y 1) * 256 + ?y 2) * 256 + ?y 3"
    using assms by (simp add: word_less_nat_alt head_be32 unat_be32)
  then have "byte_at a 0 < byte_at b 0 \<or> byte_at a 0 = byte_at b 0 \<and>
      (byte_at a 1 < byte_at b 1 \<or> byte_at a 1 = byte_at b 1 \<and>
      (byte_at a 2 < byte_at b 2 \<or> byte_at a 2 = byte_at b 2 \<and> byte_at a 3 < byte_at b 3))"
    unfolding word_less_nat_alt word_unat_eq_iff
    using lex_step [of "(?x 0 * 256 + ?x 1) * 256 + ?x 2" 256 "?x 3" "(?y 0 * 256 + ?y 1) * 256 + ?y 2" "?y 3"]
      lex_step [of "?x 0 * 256 + ?x 1" 256 "?x 2" "?y 0 * 256 + ?y 1" "?y 2"]
      lex_step [of "?x 0" 256 "?x 1" "?y 0" "?y 1"]
      lex_eq [of "?x 0 * 256 + ?x 1" 256 "?x 2" "?y 0 * 256 + ?y 1" "?y 2"]
      lex_eq [of "?x 0" 256 "?x 1" "?y 0" "?y 1"] u8_less_256
    by blast
  then show ?thesis
    using byte_at_less [of 0 a b] byte_at_less [of 1 a b] byte_at_less [of 2 a b] byte_at_less [of 3 a b]
    by (auto simp: numeral_eq_Suc All_less_Suc)
qed
subsection \<open>The bytes of a page identifier\<close>

definition pid_bytes :: "PID \<Rightarrow> bytes" where
  "pid_bytes p = map (\<lambda>i. ucast (drop_bit (8 * i) p)) [0..<8]"

definition load_pid :: "bytes \<Rightarrow> PID" where
  "load_pid bs = foldr (\<lambda>b acc. ucast b OR push_bit 8 acc) (take 8 bs) 0"

lemma length_pid_bytes [simp]: "length (pid_bytes p) = 8"
  by (simp add: pid_bytes_def)

lemma bit_load:
  "length bs \<le> 8 \<Longrightarrow> bit (foldr (\<lambda>b acc. ucast b OR push_bit 8 acc) bs (0 :: PID)) n \<longleftrightarrow>
     n div 8 < length bs \<and> bit (bs ! (n div 8)) (n mod 8)"
  for bs :: bytes
proof (induction bs arbitrary: n)
  case (Cons b bs)
  show ?case
  proof (cases "n < 8")
    case True
    then show ?thesis by (auto simp: bit_simps)
  next
    case False
    let ?f = "\<lambda>bs. foldr (\<lambda>b acc. ucast b OR push_bit 8 acc) bs (0 :: PID)"
    from False have n: "n div 8 = Suc ((n - 8) div 8)" "n mod 8 = (n - 8) mod 8"
      by (simp_all add: le_div_geq le_mod_geq)
    have "bit (?f (b # bs)) n \<longleftrightarrow> n < 64 \<and> bit (?f bs) (n - 8)"
      using False u8_bit [of b n] by (simp add: bit_simps) blast
    moreover have "bit (?f bs) (n - 8) \<longleftrightarrow> (n - 8) div 8 < length bs \<and> bit (bs ! ((n - 8) div 8)) ((n - 8) mod 8)"
      using Cons.IH [of "n - 8"] Cons.prems by simp
    moreover have "n < 64" if "(n - 8) div 8 < length bs"
      using that Cons.prems False by simp
    ultimately show ?thesis unfolding n by auto
  qed
qed simp

lemma load_pid_bytes [simp]: "load_pid (pid_bytes p) = p"
proof (rule bit_word_eqI)
  fix n
  assume "n < LENGTH(64)"
  then have "n div 8 < 8" by simp
  then show "bit (load_pid (pid_bytes p)) n = bit p n"
    using bit_load [of "pid_bytes p" n]
    by (simp add: load_pid_def) (simp add: pid_bytes_def bit_simps)
qed

end
