(* ===== verification/Btree_Node.thy ===== *)
theory Btree_Node
  imports Bytes
begin

section \<open>The slotted page of the B-tree\<close>

text \<open>
  \<^verbatim>\<open>BTreeNodeHeader\<close> and \<^verbatim>\<open>BTreeNode\<close> of
  \<^verbatim>\<open>src/src/buffer_mgr/btree_node.hpp\<close>: a page of 4096 bytes with a header of 96 bytes, an
  array of 10-byte slots growing from the front and a heap of keys and payloads growing from the
  back. The header fields and the slots are fields of the record; \<open>bn_mem\<close> is the memory of the
  page by absolute offset, of which the heap is the part from \<open>bn_dataOffset\<close> on. The two views
  of the bytes between header and heap agree as long as the slots stay below the heap, which is
  part of the invariant of the next theory. The 16-bit fields are naturals with their
  wrap-around written out (\<open>sub16\<close>, \<open>add16\<close>).

  A node constructed on the stack or in a fresh page (\<open>bn_construct\<close>) keeps whatever bytes the
  memory held; they are the argument \<open>raw\<close>. An \<^verbatim>\<open>assert\<close> is a check whose failure is
  the value \<open>Inl (Assert ...)\<close>.
\<close>

subsection \<open>Layout\<close>

definition pageSize :: nat where "pageSize = 4096"

definition headerSize :: nat where "headerSize = 96"

definition slotSize :: nat where "slotSize = 10"

definition underFullSize :: nat where "underFullSize = pageSize div 2 + pageSize div 4"

definition noNeighbour :: u64 where "noNeighbour = NOT 0"

definition hintCount :: nat where "hintCount = 16"

definition maxKVSize :: nat where "maxKVSize = (pageSize - headerSize - 2 * slotSize) div 4"

lemmas layout_defs = pageSize_def headerSize_def slotSize_def hintCount_def

record FenceKeySlot =
  fk_offset :: nat
  fk_len :: nat

record Slot =
  sl_offset :: nat
  sl_keyLen :: nat
  sl_payloadLen :: nat
  sl_head :: u32

record BTreeNode =
  bn_next :: PID
  bn_lowerFence :: FenceKeySlot
  bn_upperFence :: FenceKeySlot
  bn_count :: nat
  bn_isLeaf :: bool
  bn_spaceUsed :: nat
  bn_dataOffset :: nat
  bn_prefixLen :: nat
  bn_hint :: "u32 list"
  bn_slot :: "Slot list"
  bn_mem :: bytes

definition bn_construct :: "bool \<Rightarrow> BTreeNode \<Rightarrow> BTreeNode" where
  "bn_construct leaf raw = raw\<lparr>bn_next := noNeighbour,
     bn_lowerFence := \<lparr>fk_offset = 0, fk_len = 0\<rparr>, bn_upperFence := \<lparr>fk_offset = 0, fk_len = 0\<rparr>,
     bn_count := 0, bn_isLeaf := leaf, bn_spaceUsed := 0, bn_dataOffset := pageSize, bn_prefixLen := 0\<rparr>"

text \<open>A page of zeroes read as a node.\<close>

definition zero_page :: BTreeNode where
  "zero_page = \<lparr>bn_next = 0, bn_lowerFence = \<lparr>fk_offset = 0, fk_len = 0\<rparr>,
     bn_upperFence = \<lparr>fk_offset = 0, fk_len = 0\<rparr>, bn_count = 0, bn_isLeaf = False, bn_spaceUsed = 0,
     bn_dataOffset = 0, bn_prefixLen = 0, bn_hint = replicate 16 0,
     bn_slot = replicate 400 \<lparr>sl_offset = 0, sl_keyLen = 0, sl_payloadLen = 0, sl_head = 0\<rparr>,
     bn_mem = replicate 4096 0\<rparr>"

subsection \<open>Accessors\<close>

definition hasRightNeighbour :: "BTreeNode \<Rightarrow> bool" where
  "hasRightNeighbour n \<longleftrightarrow> bn_next n \<noteq> noNeighbour"

definition hasLowerFence :: "BTreeNode \<Rightarrow> bool" where
  "hasLowerFence n \<longleftrightarrow> fk_len (bn_lowerFence n) \<noteq> 0"

definition getLowerFence :: "BTreeNode \<Rightarrow> bytes" where
  "getLowerFence n = mem_read (bn_mem n) (fk_offset (bn_lowerFence n)) (fk_len (bn_lowerFence n))"

definition getUpperFence :: "BTreeNode \<Rightarrow> bytes" where
  "getUpperFence n = mem_read (bn_mem n) (fk_offset (bn_upperFence n)) (fk_len (bn_upperFence n))"

text \<open>A pointer into the page is the rest of its memory from there on.\<close>

definition getPrefix :: "BTreeNode \<Rightarrow> bytes" where
  "getPrefix n = drop (fk_offset (bn_lowerFence n)) (bn_mem n)"

definition slotEnd :: "nat \<Rightarrow> nat" where
  "slotEnd i = headerSize + slotSize * i"

definition freeSpace :: "BTreeNode \<Rightarrow> nat" where
  "freeSpace n = sub32 (bn_dataOffset n) (slotEnd (bn_count n))"

definition freeSpaceAfterCompaction :: "BTreeNode \<Rightarrow> nat" where
  "freeSpaceAfterCompaction n = sub32 (sub32 pageSize (slotEnd (bn_count n))) (bn_spaceUsed n)"

definition spaceNeeded :: "nat \<Rightarrow> nat \<Rightarrow> BTreeNode \<Rightarrow> nat" where
  "spaceNeeded keyLen payloadLen n =
     (slotSize + sub32 keyLen (bn_prefixLen n) + payloadLen) mod 4294967296"

definition hasSpaceFor :: "nat \<Rightarrow> nat \<Rightarrow> BTreeNode \<Rightarrow> bool" where
  "hasSpaceFor keyLen payloadLen n \<longleftrightarrow> spaceNeeded keyLen payloadLen n \<le> freeSpaceAfterCompaction n"

definition getKey :: "BTreeNode \<Rightarrow> nat \<Rightarrow> bytes" where
  "getKey n i = drop (sl_offset (bn_slot n ! i)) (bn_mem n)"

definition getPayload :: "BTreeNode \<Rightarrow> nat \<Rightarrow> bytes" where
  "getPayload n i = mem_read (bn_mem n) (sl_offset (bn_slot n ! i) + sl_keyLen (bn_slot n ! i))
     (sl_payloadLen (bn_slot n ! i))"

definition getChild :: "BTreeNode \<Rightarrow> nat \<Rightarrow> PID" where
  "getChild n i = load_pid (drop (sl_offset (bn_slot n ! i) + sl_keyLen (bn_slot n ! i)) (bn_mem n))"

text \<open>Writing through the span \<open>getPayload\<close> returns.\<close>

definition setPayload :: "nat \<Rightarrow> bytes \<Rightarrow> BTreeNode \<Rightarrow> BTreeNode" where
  "setPayload i bs n = n\<lparr>bn_mem := mem_write (bn_mem n)
     (sl_offset (bn_slot n ! i) + sl_keyLen (bn_slot n ! i)) bs\<rparr>"

subsection \<open>Hints\<close>

definition hintAt :: "BTreeNode \<Rightarrow> nat \<Rightarrow> nat \<Rightarrow> u32" where
  "hintAt n dist i = sl_head (bn_slot n ! (dist * (i + 1)))"

definition makeHint :: "BTreeNode \<Rightarrow> BTreeNode" where
  "makeHint n =
     (let dist = bn_count n div (hintCount + 1)
      in n\<lparr>bn_hint := map (hintAt n dist) [0..<hintCount]\<rparr>)"

definition updateHint :: "nat \<Rightarrow> BTreeNode \<Rightarrow> BTreeNode" where
  "updateHint slotId n =
     (let dist = bn_count n div (hintCount + 1);
          begin = (if hintCount * 2 + 1 < bn_count n \<and>
                      (bn_count n - 1) div (hintCount + 1) = dist \<and> 1 < slotId div dist
                   then slotId div dist - 1 else 0)
      in n\<lparr>bn_hint := map (\<lambda>i. if i < begin then bn_hint n ! i else hintAt n dist i) [0..<hintCount]\<rparr>)"

text \<open>The two scans of the hint array: the first position from \<open>i\<close> on where the test holds.\<close>

fun scan :: "(u32 \<Rightarrow> bool) \<Rightarrow> u32 list \<Rightarrow> nat \<Rightarrow> nat \<Rightarrow> nat" where
  "scan P hs i 0 = i"
| "scan P hs i (Suc left) = (if P (hs ! i) then i else scan P hs (i + 1) left)"

definition searchHint :: "BTreeNode \<Rightarrow> u32 \<Rightarrow> nat \<times> nat \<Rightarrow> nat \<times> nat" where
  "searchHint n keyHead = (\<lambda>(lowerOut, upperOut).
     if hintCount * 2 < bn_count n then
       let dist = upperOut div (hintCount + 1);
           pos = scan (\<lambda>h. keyHead \<le> h) (bn_hint n) 0 hintCount;
           pos2 = scan (\<lambda>h. h \<noteq> keyHead) (bn_hint n) pos (hintCount - pos)
       in (pos * dist, if pos2 < hintCount then (pos2 + 1) * dist else upperOut)
     else (lowerOut, upperOut))"

subsection \<open>Searching\<close>

text \<open>
  The binary searches of \<open>lowerBound\<close> and \<open>upperBound\<close>. \<open>cmpSlot\<close> is the comparison of the
  search key (without the page's prefix) and its head with a slot: the three-way result of the
  nested conditions, negative when the key is smaller.
\<close>

definition cmpSlot :: "BTreeNode \<Rightarrow> bytes \<Rightarrow> u32 \<Rightarrow> nat \<Rightarrow> int" where
  "cmpSlot n key keyHead mid =
     (let s = bn_slot n ! mid; keyLen = length key
      in if keyHead < sl_head s then - 1
         else if sl_head s < keyHead then 1
         else let cmp = memcmp key (getKey n mid) (min keyLen (sl_keyLen s))
              in if cmp < 0 then - 1
                 else if 0 < cmp then 1
                 else if keyLen < sl_keyLen s then - 1
                 else if sl_keyLen s < keyLen then 1
                 else 0)"

function lowerBoundLoop :: "BTreeNode \<Rightarrow> bytes \<Rightarrow> u32 \<Rightarrow> nat \<Rightarrow> nat \<Rightarrow> nat \<times> bool" where
  "lowerBoundLoop n key keyHead lower upper =
     (if lower < upper then
        let mid = (upper - lower) div 2 + lower; c = cmpSlot n key keyHead mid
        in if c < 0 then lowerBoundLoop n key keyHead lower mid
           else if 0 < c then lowerBoundLoop n key keyHead (mid + 1) upper
           else (mid, True)
      else (lower, False))"
  by pat_completeness auto
termination lowerBoundLoop
  by (relation "measure (\<lambda>(n, key, keyHead, lower, upper). upper - lower)") (auto simp: Let_def)

declare lowerBoundLoop.simps [simp del]

definition lowerBound :: "bytes \<Rightarrow> BTreeNode \<Rightarrow> nat \<times> bool" where
  "lowerBound skey n =
     (let cmp = memcmp skey (getPrefix n) (min (length skey) (bn_prefixLen n))
      in if cmp < 0 then (0, False)
         else if 0 < cmp then (bn_count n, False)
         else if length skey < bn_prefixLen n then (0, False)
         else
           let key = drop (bn_prefixLen n) skey;
               keyHead = head key (length key);
               (lower, upper) = searchHint n keyHead (0, bn_count n)
           in lowerBoundLoop n key keyHead lower upper)"

function upperBoundLoop :: "BTreeNode \<Rightarrow> bytes \<Rightarrow> u32 \<Rightarrow> nat \<Rightarrow> nat \<Rightarrow> nat" where
  "upperBoundLoop n key keyHead lower upper =
     (if lower < upper then
        let mid = (upper - lower) div 2 + lower; c = cmpSlot n key keyHead mid
        in if c < 0 then upperBoundLoop n key keyHead lower mid
           else upperBoundLoop n key keyHead (mid + 1) upper
      else lower)"
  by pat_completeness auto
termination upperBoundLoop
  by (relation "measure (\<lambda>(n, key, keyHead, lower, upper). upper - lower)") (auto simp: Let_def)

declare upperBoundLoop.simps [simp del]

definition upperBound :: "bytes \<Rightarrow> BTreeNode \<Rightarrow> nat" where
  "upperBound skey n =
     (let cmp = memcmp skey (getPrefix n) (min (length skey) (bn_prefixLen n))
      in if cmp < 0 then 0
         else if 0 < cmp then bn_count n
         else if length skey < bn_prefixLen n then 0
         else
           let key = drop (bn_prefixLen n) skey;
               keyHead = head key (length key);
               (lower, upper) = searchHint n keyHead (0, bn_count n)
           in upperBoundLoop n key keyHead lower upper)"

subsection \<open>Storing keys\<close>

definition storeKeyValue :: "nat \<Rightarrow> bytes \<Rightarrow> bytes \<Rightarrow> BTreeNode \<Rightarrow> BTreeNode result" where
  "storeKeyValue slotId skey payload n =
     (let key = drop (bn_prefixLen n) skey;
          keyLen = length key;
          space = keyLen + length payload;
          offset = sub16 (bn_dataOffset n) space;
          s = \<lparr>sl_offset = offset, sl_keyLen = keyLen mod 65536,
               sl_payloadLen = length payload mod 65536, sl_head = head key keyLen\<rparr>;
          n1 = n\<lparr>bn_slot := (bn_slot n)[slotId := s], bn_dataOffset := offset,
                 bn_spaceUsed := add16 (bn_spaceUsed n) space\<rparr>
      in rbind (check (slotEnd slotId \<le> offset) (Assert ''getKey(slotId) >= &slot[slotId]'')) (\<lambda>_.
         Inr (n1\<lparr>bn_mem := mem_write (mem_write (bn_mem n) offset key) (offset + keyLen) payload\<rparr>)))"

definition copyKeyValue :: "BTreeNode \<Rightarrow> nat \<Rightarrow> nat \<Rightarrow> BTreeNode \<Rightarrow> BTreeNode result" where
  "copyKeyValue src srcSlot dstSlot dst =
     storeKeyValue dstSlot
       (take (bn_prefixLen src) (getPrefix src) @
        take (sl_keyLen (bn_slot src ! srcSlot)) (getKey src srcSlot))
       (getPayload src srcSlot) dst"

text \<open>The body of the loop that copies entries to a page with a longer prefix.\<close>

definition copyGrow :: "BTreeNode \<Rightarrow> nat \<Rightarrow> nat \<Rightarrow> nat \<Rightarrow> BTreeNode \<Rightarrow> BTreeNode" where
  "copyGrow src diff srcSlot dstSlot dst =
     (let s = bn_slot src ! srcSlot;
          newKeyLen = sub32 (sl_keyLen s) diff;
          space = newKeyLen + sl_payloadLen s;
          offset = sub16 (bn_dataOffset dst) space;
          key = drop diff (getKey src srcSlot)
      in dst\<lparr>bn_dataOffset := offset, bn_spaceUsed := add16 (bn_spaceUsed dst) space,
             bn_mem := mem_write (bn_mem dst) offset (take space key),
             bn_slot := (bn_slot dst)[dstSlot := \<lparr>sl_offset = offset, sl_keyLen = newKeyLen mod 65536,
               sl_payloadLen = sl_payloadLen s, sl_head = head key newKeyLen\<rparr>]\<rparr>)"

fun copyLoop :: "BTreeNode \<Rightarrow> nat \<Rightarrow> nat \<Rightarrow> nat \<Rightarrow> BTreeNode \<Rightarrow> BTreeNode result" where
  "copyLoop src 0 dstSlot srcSlot dst = Inr dst"
| "copyLoop src (Suc left) dstSlot srcSlot dst =
     rbind (if bn_prefixLen src \<le> bn_prefixLen dst
            then Inr (copyGrow src (bn_prefixLen dst - bn_prefixLen src) srcSlot dstSlot dst)
            else copyKeyValue src srcSlot dstSlot dst)
       (copyLoop src left (dstSlot + 1) (srcSlot + 1))"

definition copyKeyValueRange :: "BTreeNode \<Rightarrow> nat \<Rightarrow> nat \<Rightarrow> nat \<Rightarrow> BTreeNode \<Rightarrow> BTreeNode result" where
  "copyKeyValueRange src dstSlot srcSlot srcCount dst =
     rbind (copyLoop src srcCount dstSlot srcSlot dst) (\<lambda>d.
       let d' = d\<lparr>bn_count := add16 (bn_count d) srcCount\<rparr>
       in rbind (check (slotEnd (bn_count d') \<le> bn_dataOffset d') (Assert ''heap above slots'')) (\<lambda>_. Inr d'))"

text \<open>\<open>insertFence\<close> returns the node and the fence slot to store in it.\<close>

definition insertFence :: "bytes \<Rightarrow> BTreeNode \<Rightarrow> (FenceKeySlot \<times> BTreeNode) result" where
  "insertFence key n =
     rbind (check (length key \<le> freeSpace n) (Assert ''freeSpace() >= key.size()'')) (\<lambda>_.
       let offset = sub16 (bn_dataOffset n) (length key)
       in Inr (\<lparr>fk_offset = offset, fk_len = length key mod 65536\<rparr>,
               n\<lparr>bn_dataOffset := offset, bn_spaceUsed := add16 (bn_spaceUsed n) (length key),
                 bn_mem := mem_write (bn_mem n) offset key\<rparr>))"

fun commonLen :: "bytes \<Rightarrow> bytes \<Rightarrow> nat" where
  "commonLen (a # as) (b # bs) = (if a = b then Suc (commonLen as bs) else 0)"
| "commonLen as bs = 0"

definition setFences :: "bytes \<Rightarrow> bytes \<Rightarrow> BTreeNode \<Rightarrow> BTreeNode result" where
  "setFences lower upper n =
     rbind (insertFence lower n) (\<lambda>(fl, n1).
     rbind (insertFence upper (n1\<lparr>bn_lowerFence := fl\<rparr>)) (\<lambda>(fu, n2).
     Inr (n2\<lparr>bn_upperFence := fu, bn_prefixLen := commonLen lower upper\<rparr>)))"

definition compactify :: "BTreeNode \<Rightarrow> BTreeNode \<Rightarrow> BTreeNode result" where
  "compactify raw n =
     (let should = freeSpaceAfterCompaction n
      in rbind (setFences (getLowerFence n) (getUpperFence n) (bn_construct (bn_isLeaf n) raw)) (\<lambda>tmp.
         rbind (copyKeyValueRange n 0 0 (bn_count n) tmp) (\<lambda>tmp.
         let n' = makeHint (tmp\<lparr>bn_next := bn_next n\<rparr>)
         in rbind (check (freeSpace n' = should) (Assert ''freeSpace() == should'')) (\<lambda>_. Inr n'))))"

definition insertInPage :: "BTreeNode \<Rightarrow> bytes \<Rightarrow> bytes \<Rightarrow> BTreeNode \<Rightarrow> BTreeNode result" where
  "insertInPage raw key payload n =
     (let needed = spaceNeeded (length key) (length payload) n
      in rbind (if freeSpace n < needed
                then rbind (check (needed \<le> freeSpaceAfterCompaction n)
                       (Assert ''needed <= freeSpaceAfterCompaction()'')) (\<lambda>_. compactify raw n)
                else Inr n) (\<lambda>n1.
         let slotId = fst (lowerBound key n1);
             n2 = n1\<lparr>bn_slot := take (slotId + 1) (bn_slot n1) @
                       take (bn_count n1 - slotId) (drop slotId (bn_slot n1)) @
                       drop (bn_count n1 + 1) (bn_slot n1)\<rparr>
         in rbind (storeKeyValue slotId key payload n2) (\<lambda>n3.
            Inr (updateHint slotId (n3\<lparr>bn_count := add16 (bn_count n3) 1\<rparr>)))))"

subsection \<open>Removing keys\<close>

definition removeSlot :: "nat \<Rightarrow> BTreeNode \<Rightarrow> bool \<times> BTreeNode" where
  "removeSlot slotId n =
     (let s = bn_slot n ! slotId;
          n1 = n\<lparr>bn_spaceUsed := sub16 (sub16 (bn_spaceUsed n) (sl_keyLen s)) (sl_payloadLen s),
                 bn_slot := take slotId (bn_slot n) @
                   take (bn_count n - slotId - 1) (drop (slotId + 1) (bn_slot n)) @
                   drop (bn_count n - 1) (bn_slot n),
                 bn_count := sub16 (bn_count n) 1\<rparr>
      in (True, makeHint n1))"

definition removeInPage :: "bytes \<Rightarrow> BTreeNode \<Rightarrow> bool \<times> BTreeNode" where
  "removeInPage key n =
     (let (slotId, found) = lowerBound key n
      in if \<not> found then (False, n) else removeSlot slotId n)"

text \<open>
  \<open>mergeNodes\<close> returns its Boolean, the node and its parent. Inner nodes are left alone.
\<close>

definition mergeNodes :: "BTreeNode \<Rightarrow> PID \<Rightarrow> nat \<Rightarrow> BTreeNode \<Rightarrow> BTreeNode \<Rightarrow> BTreeNode \<Rightarrow>
    (bool \<times> BTreeNode \<times> BTreeNode) result" where
  "mergeNodes raw pid slotId parent right n =
     (if \<not> bn_isLeaf n then Inr (True, n, parent)
      else
        rbind (check (bn_isLeaf right) (Assert ''right->isLeaf'')) (\<lambda>_.
        rbind (check (\<not> bn_isLeaf parent) (Assert ''parent->isInner()'')) (\<lambda>_.
        rbind (setFences (getLowerFence n) (getUpperFence right) (bn_construct (bn_isLeaf n) raw)) (\<lambda>tmp.
        let leftGrow = (sub32 (bn_prefixLen n) (bn_prefixLen tmp) * bn_count n) mod 4294967296;
            rightGrow = (sub32 (bn_prefixLen right) (bn_prefixLen tmp) * bn_count right) mod 4294967296;
            spaceUpperBound = (bn_spaceUsed n + bn_spaceUsed right +
              slotEnd (bn_count n + bn_count right) + leftGrow + rightGrow) mod 4294967296
        in if pageSize < spaceUpperBound then Inr (False, n, parent)
           else
             rbind (copyKeyValueRange n 0 0 (bn_count n) tmp) (\<lambda>tmp.
             rbind (copyKeyValueRange right (bn_count n) 0 (bn_count right) tmp) (\<lambda>tmp.
             let parent1 = setPayload (slotId + 1) (pid_bytes pid) parent;
                 parent2 = snd (removeSlot slotId parent1);
                 tmp1 = (makeHint tmp)\<lparr>bn_next := bn_next right\<rparr>
             in Inr (True, tmp1, parent2)))))))"

subsection \<open>Splitting\<close>

datatype action_t = OK | RESTART

text \<open>
  \<open>splitNode\<close>: \<open>alloc\<close> is what the \<^verbatim>\<open>AllocGuard\<close> obtained, the identifier and the memory of
  a fresh page, or nothing when the caller has to retry. The result holds the node (now the left
  half), the parent and the right half.
\<close>

definition splitNode :: "BTreeNode \<Rightarrow> (PID \<times> BTreeNode) option \<Rightarrow> PID \<Rightarrow> BTreeNode \<Rightarrow> nat \<Rightarrow> bytes \<Rightarrow>
    BTreeNode \<Rightarrow> (action_t \<times> BTreeNode \<times> BTreeNode \<times> BTreeNode option) result" where
  "splitNode raw alloc leftPID parent sepSlot sep n =
     rbind (check (0 < sepSlot) (Assert ''sepSlot > 0'')) (\<lambda>_.
     rbind (check (sepSlot < pageSize div 8) (Assert ''sepSlot < pageSize / sizeof(PID)'')) (\<lambda>_.
     case alloc of
       None \<Rightarrow> Inr (RESTART, n, parent, None)
     | Some (newPid, newPage) \<Rightarrow>
         rbind (setFences (getLowerFence n) sep (bn_construct (bn_isLeaf n) raw)) (\<lambda>left0.
         rbind (setFences sep (getUpperFence n) (bn_construct (bn_isLeaf n) newPage)) (\<lambda>right0.
         let oldParentSlot = fst (lowerBound sep parent)
         in
         rbind (if oldParentSlot = bn_count parent
                then rbind (check (bn_next parent = leftPID) (Assert ''parent->upperInnerNode == leftPID''))
                       (\<lambda>_. Inr (parent\<lparr>bn_next := newPid\<rparr>))
                else rbind (check (getChild parent oldParentSlot = leftPID)
                       (Assert ''parent->getChild(oldParentSlot) == leftPID''))
                       (\<lambda>_. Inr (setPayload oldParentSlot (pid_bytes newPid) parent))) (\<lambda>parent1.
         rbind (insertInPage raw sep (pid_bytes leftPID) parent1) (\<lambda>parent2.
         rbind (if bn_isLeaf n
                then
                  rbind (copyKeyValueRange n 0 0 (sepSlot + 1) left0) (\<lambda>left1.
                  rbind (copyKeyValueRange n 0 (bn_count left1) (bn_count n - bn_count left1) right0) (\<lambda>right1.
                  Inr (left1\<lparr>bn_next := newPid\<rparr>, right1\<lparr>bn_next := bn_next n\<rparr>)))
                else
                  rbind (copyKeyValueRange n 0 0 sepSlot left0) (\<lambda>left1.
                  rbind (copyKeyValueRange n 0 (bn_count left1 + 1) (bn_count n - bn_count left1 - 1) right0)
                    (\<lambda>right1.
                  Inr (left1\<lparr>bn_next := getChild n (bn_count left1)\<rparr>, right1\<lparr>bn_next := bn_next n\<rparr>))))
           (\<lambda>(left2, right2). Inr (OK, makeHint left2, parent2, Some (makeHint right2)))))))))"

record SeparatorInfo =
  si_len :: nat
  si_slot :: nat
  si_isTruncated :: bool

definition commonPrefix :: "BTreeNode \<Rightarrow> nat \<Rightarrow> nat \<Rightarrow> nat result" where
  "commonPrefix n slotA slotB =
     rbind (check (slotA < bn_count n) (Assert ''slotA < count'')) (\<lambda>_.
       let limit = min (sl_keyLen (bn_slot n ! slotA)) (sl_keyLen (bn_slot n ! slotB))
       in Inr (commonLen (take limit (getKey n slotA)) (take limit (getKey n slotB))))"

text \<open>The loop that moves the split slot to where the common prefix with the first key changes.\<close>

fun bestSlotLoop :: "BTreeNode \<Rightarrow> nat \<Rightarrow> nat \<Rightarrow> nat \<Rightarrow> nat result" where
  "bestSlotLoop n best bestSlot 0 = Inr bestSlot"
| "bestSlotLoop n best bestSlot (Suc left) =
     rbind (commonPrefix n bestSlot 0) (\<lambda>c.
       if c = best then bestSlotLoop n best (bestSlot + 1) left else Inr bestSlot)"

definition findSeparator :: "bool \<Rightarrow> BTreeNode \<Rightarrow> SeparatorInfo result" where
  "findSeparator splitOrdered n =
     rbind (check (1 < bn_count n) (Assert ''count > 1'')) (\<lambda>_.
     if \<not> bn_isLeaf n then
       let slotId = bn_count n div 2
       in Inr \<lparr>si_len = bn_prefixLen n + sl_keyLen (bn_slot n ! slotId), si_slot = slotId,
               si_isTruncated = False\<rparr>
     else
       rbind (if splitOrdered then Inr (bn_count n - 2)
              else if 16 < bn_count n then
                let lower = bn_count n div 2 - bn_count n div 16; upper = bn_count n div 2
                in rbind (commonPrefix n lower 0) (\<lambda>bestPrefixLen.
                   rbind (commonPrefix n (upper - 1) 0) (\<lambda>c.
                   if bestPrefixLen \<noteq> c
                   then bestSlotLoop n bestPrefixLen (lower + 1) (upper - (lower + 1))
                   else Inr lower))
              else Inr ((bn_count n - 1) div 2)) (\<lambda>bestSlot.
       rbind (commonPrefix n bestSlot (bestSlot + 1)) (\<lambda>common.
       Inr (if bestSlot + 1 < bn_count n \<and> common < sl_keyLen (bn_slot n ! bestSlot) \<and>
               common + 1 < sl_keyLen (bn_slot n ! (bestSlot + 1))
            then \<lparr>si_len = bn_prefixLen n + common + 1, si_slot = bestSlot, si_isTruncated = True\<rparr>
            else \<lparr>si_len = bn_prefixLen n + sl_keyLen (bn_slot n ! bestSlot), si_slot = bestSlot,
                  si_isTruncated = False\<rparr>))))"

definition getSep :: "SeparatorInfo \<Rightarrow> BTreeNode \<Rightarrow> bytes" where
  "getSep info n =
     take (bn_prefixLen n) (getPrefix n) @
     take (si_len info - bn_prefixLen n)
       (getKey n (if si_isTruncated info then si_slot info + 1 else si_slot info))"

definition lookupInner :: "bytes \<Rightarrow> BTreeNode \<Rightarrow> PID" where
  "lookupInner key n =
     (let pos = fst (lowerBound key n)
      in if pos = bn_count n then bn_next n else getChild n pos)"

definition lookupInnerUpper :: "bytes \<Rightarrow> BTreeNode \<Rightarrow> PID" where
  "lookupInnerUpper key n =
     (let pos = upperBound key n
      in if pos = bn_count n then bn_next n else getChild n pos)"

end
