(* ===== verification/Page_Guards.thy ===== *)
theory Page_Guards
  imports Btree_Node
begin

section \<open>Pages, guards and the interface of the buffer manager\<close>

text \<open>
  The trees reach their pages through the guards of \<^verbatim>\<open>src/src/buffer_mgr/guards.hpp\<close>, which
  call the global buffer manager \<^verbatim>\<open>bm\<close>. The operations they call are the fields of the record
  \<open>PageBuffer\<close>, an argument of the guards and of the tree operations; the buffer manager of
  \<^verbatim>\<open>bm.cpp\<close> provides them. What the trees rely on is the locale \<open>page_buffer\<close>.

  A page's memory is what it is used as: zeroes (\<^verbatim>\<open>memset\<close> of \<^verbatim>\<open>allocPage\<close>), the
  metadata page, or a node of a tree; using it as something else is a failure. A pointer to a page
  is the index of its frame.
\<close>

datatype Page = ZeroPage | MetaPage "PID list" | NodePage BTreeNode

record 's PageBuffer =
  pb_fixS :: "PID \<Rightarrow> 's \<Rightarrow> (nat option \<times> 's) result"
  pb_fixX :: "PID \<Rightarrow> 's \<Rightarrow> (nat option \<times> 's) result"
  pb_unfixS :: "PID \<Rightarrow> 's \<Rightarrow> 's result"
  pb_unfixX :: "PID \<Rightarrow> 's \<Rightarrow> 's result"
  pb_allocPage :: "'s \<Rightarrow> (nat option \<times> 's) result"
  pb_allocCount :: "'s \<Rightarrow> u64"
  pb_page :: "nat \<Rightarrow> 's \<Rightarrow> Page"
  pb_store :: "nat \<Rightarrow> Page \<Rightarrow> 's \<Rightarrow> 's"

subsection \<open>Guards\<close>

text \<open>
  \<^verbatim>\<open>GuardS\<close> and \<^verbatim>\<open>GuardX\<close>: a page identifier, \<open>moved\<close> when the guard owns nothing, and a
  pointer, null when the page has to be read first. Move assignment returns the new value of the
  left-hand guard; the right-hand one is then \<open>moved_guard\<close>. A destructor is called where the
  scope of the guard ends.
\<close>

record Guard =
  g_pid :: PID
  g_ptr :: "nat option"

definition moved :: PID where "moved = NOT 0"

definition moved_guard :: Guard where
  "moved_guard = \<lparr>g_pid = moved, g_ptr = None\<rparr>"

definition g_live :: "Guard \<Rightarrow> bool" where
  "g_live g \<longleftrightarrow> g_pid g \<noteq> moved \<and> g_ptr g \<noteq> None"

definition g_retry :: "Guard \<Rightarrow> bool" where
  "g_retry g \<longleftrightarrow> g_ptr g = None"

definition GuardS :: "'s PageBuffer \<Rightarrow> PID \<Rightarrow> 's \<Rightarrow> (Guard \<times> 's) result" where
  "GuardS pb pid s = rbind (pb_fixS pb pid s) (\<lambda>(ptr, s1). Inr (\<lparr>g_pid = pid, g_ptr = ptr\<rparr>, s1))"

definition GuardS_dtor :: "'s PageBuffer \<Rightarrow> Guard \<Rightarrow> 's \<Rightarrow> 's result" where
  "GuardS_dtor pb g s = (if g_live g then pb_unfixS pb (g_pid g) s else Inr s)"

definition GuardS_assign :: "'s PageBuffer \<Rightarrow> Guard \<Rightarrow> Guard \<Rightarrow> 's \<Rightarrow> (Guard \<times> 's) result" where
  "GuardS_assign pb g other s =
     rbind (check (g_pid g \<noteq> g_pid other) (Assert ''pid != other.pid'')) (\<lambda>_.
     rbind (GuardS_dtor pb g s) (\<lambda>s1. Inr (other, s1)))"

definition GuardS_release :: "'s PageBuffer \<Rightarrow> Guard \<Rightarrow> 's \<Rightarrow> (Guard \<times> 's) result" where
  "GuardS_release pb g s =
     (if g_live g then rbind (pb_unfixS pb (g_pid g) s) (\<lambda>s1. Inr (g\<lparr>g_pid := moved\<rparr>, s1)) else Inr (g, s))"

definition GuardX :: "'s PageBuffer \<Rightarrow> PID \<Rightarrow> 's \<Rightarrow> (Guard \<times> 's) result" where
  "GuardX pb pid s = rbind (pb_fixX pb pid s) (\<lambda>(ptr, s1). Inr (\<lparr>g_pid = pid, g_ptr = ptr\<rparr>, s1))"

definition GuardX_of_S :: "Guard \<Rightarrow> Guard result" where
  "GuardX_of_S other = rbind (check (g_pid other \<noteq> moved) (Assert ''other.pid != moved'')) (\<lambda>_. Inr other)"

definition GuardX_dtor :: "'s PageBuffer \<Rightarrow> Guard \<Rightarrow> 's \<Rightarrow> 's result" where
  "GuardX_dtor pb g s = (if g_live g then pb_unfixX pb (g_pid g) s else Inr s)"

definition GuardX_assign :: "'s PageBuffer \<Rightarrow> Guard \<Rightarrow> Guard \<Rightarrow> 's \<Rightarrow> (Guard \<times> 's) result" where
  "GuardX_assign pb g other s =
     rbind (check (g_pid g \<noteq> g_pid other) (Assert ''pid != other.pid'')) (\<lambda>_.
     rbind (GuardX_dtor pb g s) (\<lambda>s1. Inr (other, s1)))"

definition GuardX_release :: "'s PageBuffer \<Rightarrow> Guard \<Rightarrow> 's \<Rightarrow> (Guard \<times> 's) result" where
  "GuardX_release pb g s =
     (if g_live g then rbind (pb_unfixX pb (g_pid g) s) (\<lambda>s1. Inr (g\<lparr>g_pid := moved\<rparr>, s1)) else Inr (g, s))"

text \<open>\<^verbatim>\<open>AllocGuard<BTreeNode>(leaf)\<close>: the node is constructed on the zeroed page.\<close>

definition AllocGuard :: "'s PageBuffer \<Rightarrow> bool \<Rightarrow> 's \<Rightarrow> (Guard \<times> 's) result" where
  "AllocGuard pb leaf s =
     rbind (pb_allocPage pb s) (\<lambda>(ptr, s1).
     let s2 = (case ptr of None \<Rightarrow> s1 | Some b \<Rightarrow> pb_store pb b (NodePage (bn_construct leaf zero_page)) s1)
     in Inr (\<lparr>g_pid = pb_allocCount pb s2 - 1, g_ptr = ptr\<rparr>, s2))"

text \<open>The pointer of a guard used as a page, a node or the metadata page.\<close>

definition g_page :: "'s PageBuffer \<Rightarrow> Guard \<Rightarrow> 's \<Rightarrow> Page result" where
  "g_page pb g s =
     rbind (check (g_pid g \<noteq> moved) (Assert ''pid != moved'')) (\<lambda>_.
     case g_ptr g of None \<Rightarrow> Inl (Throw ''null pointer'') | Some b \<Rightarrow> Inr (pb_page pb b s))"

definition g_node :: "'s PageBuffer \<Rightarrow> Guard \<Rightarrow> 's \<Rightarrow> BTreeNode result" where
  "g_node pb g s =
     rbind (g_page pb g s) (\<lambda>p. case p of NodePage n \<Rightarrow> Inr n | _ \<Rightarrow> Inl (Throw ''not a node''))"

definition g_meta :: "'s PageBuffer \<Rightarrow> Guard \<Rightarrow> 's \<Rightarrow> PID list result" where
  "g_meta pb g s =
     rbind (g_page pb g s) (\<lambda>p. case p of MetaPage roots \<Rightarrow> Inr roots
       | ZeroPage \<Rightarrow> Inr (replicate 512 0) | NodePage _ \<Rightarrow> Inl (Throw ''not the metadata page''))"

definition g_put :: "'s PageBuffer \<Rightarrow> Guard \<Rightarrow> Page \<Rightarrow> 's \<Rightarrow> 's" where
  "g_put pb g p s = (case g_ptr g of None \<Rightarrow> s | Some b \<Rightarrow> pb_store pb b p s)"

subsection \<open>The contract\<close>

text \<open>
  \<open>at f n H M s\<close>: in state \<open>s\<close> the pages hold \<open>f\<close>, the page identifiers below \<open>n\<close> are allocated, \<open>H\<close>
  gives the frames of the fixed pages and \<open>M\<close> the fixed pages that were written. Fixing a page that
  is not fixed succeeds or asks for a restart; a page that was written has to be unfixed
  exclusively; \<open>bad\<close> are the failures of an allocation. Fixing one of the pages \<open>R\<close> never asks for
  a restart.
\<close>

locale page_buffer =
  fixes pb :: "'s PageBuffer"
    and at :: "(PID \<Rightarrow> Page) \<Rightarrow> PID \<Rightarrow> (PID \<Rightarrow> nat option) \<Rightarrow> PID set \<Rightarrow> 's \<Rightarrow> bool"
    and bad :: "fail \<Rightarrow> bool" and R :: "PID set"
  assumes fixS_law: "at f n H M s \<Longrightarrow> H pid = None \<Longrightarrow>
      (\<exists>s'. pb_fixS pb pid s = Inr (None, s') \<and> at f n H M s' \<and> pid \<notin> R) \<or>
      (\<exists>b s'. pb_fixS pb pid s = Inr (Some b, s') \<and> at f n (H(pid \<mapsto> b)) M s')"
    and fixX_law: "at f n H M s \<Longrightarrow> H pid = None \<Longrightarrow>
      (\<exists>s'. pb_fixX pb pid s = Inr (None, s') \<and> at f n H M s' \<and> pid \<notin> R) \<or>
      (\<exists>b s'. pb_fixX pb pid s = Inr (Some b, s') \<and> at f n (H(pid \<mapsto> b)) M s')"
    and unfixS_law: "at f n H M s \<Longrightarrow> H pid = Some b \<Longrightarrow> pid \<notin> M \<Longrightarrow>
      \<exists>s'. pb_unfixS pb pid s = Inr s' \<and> at f n (H(pid := None)) M s'"
    and unfixX_law: "at f n H M s \<Longrightarrow> H pid = Some b \<Longrightarrow>
      \<exists>s'. pb_unfixX pb pid s = Inr s' \<and> at f n (H(pid := None)) (M - {pid}) s'"
    and alloc_law: "at f n H M s \<Longrightarrow>
      (\<exists>e. pb_allocPage pb s = Inl e \<and> bad e) \<or>
      (\<exists>s'. pb_allocPage pb s = Inr (None, s') \<and> at f n H M s') \<or>
      (\<exists>b s'. pb_allocPage pb s = Inr (Some b, s') \<and> H n = None \<and> n \<noteq> moved \<and>
        at (f(n := ZeroPage)) (n + 1) (H(n \<mapsto> b)) M s')"
    and count_law: "at f n H M s \<Longrightarrow> pb_allocCount pb s = n"
    and page_law: "at f n H M s \<Longrightarrow> H pid = Some b \<Longrightarrow> pb_page pb b s = f pid \<and> pid < n"
    and store_law: "at f n H M s \<Longrightarrow> H pid = Some b \<Longrightarrow>
      at (f(pid := p)) n H (insert pid M) (pb_store pb b p s)"
begin

text \<open>The guards on top of the contract.\<close>

lemma GuardS_rule:
  assumes "at f n H M s" and "H pid = None"
  obtains (retry) s' where "GuardS pb pid s = Inr (\<lparr>g_pid = pid, g_ptr = None\<rparr>, s')" "at f n H M s'" "pid \<notin> R"
  | (fixed) b s' where "GuardS pb pid s = Inr (\<lparr>g_pid = pid, g_ptr = Some b\<rparr>, s')" "at f n (H(pid \<mapsto> b)) M s'"
  using fixS_law [OF assms] by (auto simp: GuardS_def)

lemma GuardX_rule:
  assumes "at f n H M s" and "H pid = None"
  obtains (retry) s' where "GuardX pb pid s = Inr (\<lparr>g_pid = pid, g_ptr = None\<rparr>, s')" "at f n H M s'" "pid \<notin> R"
  | (fixed) b s' where "GuardX pb pid s = Inr (\<lparr>g_pid = pid, g_ptr = Some b\<rparr>, s')" "at f n (H(pid \<mapsto> b)) M s'"
  using fixX_law [OF assms] by (auto simp: GuardX_def)

lemma held_less: "at f n H M s \<Longrightarrow> H pid = Some b \<Longrightarrow> pid < n"
  using page_law by blast

lemma held_not_moved: "at f n H M s \<Longrightarrow> H pid = Some b \<Longrightarrow> pid \<noteq> moved"
  using held_less [of f n H M s pid b] word_order.extremum_strict [of n]
  by (auto simp: moved_def)

lemma g_page_rule:
  "at f n H M s \<Longrightarrow> H pid = Some b \<Longrightarrow> g_page pb \<lparr>g_pid = pid, g_ptr = Some b\<rparr> s = Inr (f pid)"
  using page_law [of f n H M s pid b] held_not_moved [of f n H M s pid b] by (simp add: g_page_def)

lemma dtorS_rule:
  assumes "at f n H M s" and "H pid = Some b" and "pid \<notin> M"
  shows "\<exists>s'. GuardS_dtor pb \<lparr>g_pid = pid, g_ptr = Some b\<rparr> s = Inr s' \<and> at f n (H(pid := None)) M s'"
  using unfixS_law [OF assms] held_not_moved [OF assms(1,2)] by (auto simp: GuardS_dtor_def g_live_def)

lemma dtorX_rule:
  assumes "at f n H M s" and "H pid = Some b"
  shows "\<exists>s'. GuardX_dtor pb \<lparr>g_pid = pid, g_ptr = Some b\<rparr> s = Inr s' \<and> at f n (H(pid := None)) (M - {pid}) s'"
  using unfixX_law [OF assms] held_not_moved [OF assms] by (auto simp: GuardX_dtor_def g_live_def)

lemma AllocGuard_rule:
  assumes "at f n H M s"
  obtains (failed) e where "AllocGuard pb leaf s = Inl e" "bad e"
  | (retry) s' where "AllocGuard pb leaf s = Inr (\<lparr>g_pid = n - 1, g_ptr = None\<rparr>, s')" "at f n H M s'"
  | (fixed) b s' where "AllocGuard pb leaf s = Inr (\<lparr>g_pid = n, g_ptr = Some b\<rparr>, s')" "H n = None" "n \<noteq> moved"
      "at (f(n := NodePage (bn_construct leaf zero_page))) (n + 1) (H(n \<mapsto> b)) (insert n M) s'"
  using alloc_law [OF assms]
proof (elim disjE exE conjE, goal_cases)
  case (1 e)
  then show ?case by (simp add: AllocGuard_def)
next
  case (2 s')
  then show ?case using count_law by (fastforce simp: AllocGuard_def Let_def)
next
  case (3 b s')
  from store_law [OF 3(7), of n b "NodePage (bn_construct leaf zero_page)"]
  have st: "at (f(n := NodePage (bn_construct leaf zero_page))) (n + 1) (H(n \<mapsto> b)) (insert n M)
      (pb_store pb b (NodePage (bn_construct leaf zero_page)) s')" by simp
  with 3 count_law [OF st] show ?case by (simp add: AllocGuard_def Let_def)
qed

end

text \<open>
  Between two suspensions a page keeps its frame: \<open>F\<close> are the frames of the pages below \<open>n0\<close> at some
  moment, two pages are never in the same one, and a page fixed later is fixed in that frame.
\<close>

locale page_frames = page_buffer pb at bad R
  for pb :: "'s PageBuffer" and at and bad and R +
  fixes n0 :: PID and F :: "PID \<Rightarrow> nat option"
  assumes frame_law: "at f n H M s \<Longrightarrow> H pid = Some b \<Longrightarrow> pid < n0 \<Longrightarrow> F pid = Some b"
    and same_frame_law: "at f n H M s \<Longrightarrow> F p = Some b \<Longrightarrow> F q = Some b \<Longrightarrow> p < n0 \<Longrightarrow> q < n0 \<Longrightarrow> p = q"

text \<open>At any moment without fixed pages the frames can be recorded anew.\<close>

locale frame_buffer =
  fixes pb :: "'s PageBuffer"
    and atF :: "PID \<Rightarrow> (PID \<Rightarrow> nat option) \<Rightarrow> PID set \<Rightarrow> (PID \<Rightarrow> Page) \<Rightarrow> PID \<Rightarrow> (PID \<Rightarrow> nat option) \<Rightarrow> PID set \<Rightarrow> 's \<Rightarrow> bool"
    and bad :: "fail \<Rightarrow> bool"
  assumes frames: "page_frames pb (atF n0 F R) bad R n0 F"
    and record_law: "atF n0 F R f n H M s \<Longrightarrow> \<exists>F'. atF n F' R f n H M s"

lemma dtor_none [simp]:
  "GuardS_dtor pb \<lparr>g_pid = pid, g_ptr = None\<rparr> s = Inr s" "GuardX_dtor pb \<lparr>g_pid = pid, g_ptr = None\<rparr> s = Inr s"
  "GuardS_dtor pb moved_guard s = Inr s" "GuardX_dtor pb moved_guard s = Inr s"
  "GuardS_dtor pb \<lparr>g_pid = moved, g_ptr = p\<rparr> s = Inr s" "GuardX_dtor pb \<lparr>g_pid = moved, g_ptr = p\<rparr> s = Inr s"
  by (simp_all add: GuardS_dtor_def GuardX_dtor_def g_live_def moved_guard_def)

lemma retry_simps [simp]: "g_retry \<lparr>g_pid = pid, g_ptr = None\<rparr>" "\<not> g_retry \<lparr>g_pid = pid, g_ptr = Some b\<rparr>"
  by (simp_all add: g_retry_def)

end
