(* ===== verification/Buffer_Manager.thy ===== *)
theory Buffer_Manager
  imports Complex_Main Rh_Map_Sweep Page_Guards
begin

section \<open>The buffer manager\<close>

text \<open>
  \<^verbatim>\<open>src/src/buffer_mgr/bm.hpp\<close> and \<^verbatim>\<open>bm.cpp\<close>: pages of the SSD are cached in
  \<open>page_count\<close> frames; the page table maps a page identifier to a tagged word with the frame number
  and the flags of the page. The fibers of a reactor share one buffer manager and switch only
  where the code yields, parks or waits for I/O. An operation that suspends is therefore two
  definitions, the part before and the part after the suspension; each is atomic.

  The SSD is a function from page identifiers to pages. A pointer to a page is the index of its
  frame. The waiting list of a frame names fibers, the one
  that started the read first; the vector \<^verbatim>\<open>freeList\<close> is a list whose head is the back of the
  vector. The float \<^verbatim>\<open>free_target\<close> is a rational number, and the product
  \<^verbatim>\<open>page_count * page_table_factor\<close> is an argument of \<open>bm_init\<close>.
\<close>

subsection \<open>\<^verbatim>\<open>BufTagged\<close>: frame number and flags in one word\<close>

definition kInUse :: u64 where "kInUse = 1"
definition kDirty :: u64 where "kDirty = 2"
definition kEvict :: u64 where "kEvict = 4"
definition kIOLock :: u64 where "kIOLock = 8"
definition kMark :: u64 where "kMark = 16"

definition kFlagsMask :: u64 where
  "kFlagsMask = (kInUse OR kDirty OR kEvict OR kIOLock OR kMark)"

definition kShift :: nat where "kShift = 5"

definition kIdMask :: u64 where "kIdMask = NOT kFlagsMask"

definition buf_new :: "BID \<Rightarrow> u64" where
  "buf_new bid = push_bit kShift bid"

definition buf_id :: "u64 \<Rightarrow> BID" where
  "buf_id v = drop_bit kShift (v AND kIdMask)"

definition in_use :: "u64 \<Rightarrow> bool" where
  "in_use v \<longleftrightarrow> (v AND kInUse) \<noteq> 0"

definition dirty :: "u64 \<Rightarrow> bool" where
  "dirty v \<longleftrightarrow> (v AND kDirty) \<noteq> 0"

definition evicting :: "u64 \<Rightarrow> bool" where
  "evicting v \<longleftrightarrow> (v AND kEvict) \<noteq> 0"

definition io_lock :: "u64 \<Rightarrow> bool" where
  "io_lock v \<longleftrightarrow> (v AND kIOLock) \<noteq> 0"

definition marked :: "u64 \<Rightarrow> bool" where
  "marked v \<longleftrightarrow> (v AND kMark) \<noteq> 0"

definition set_in_use :: "bool \<Rightarrow> u64 \<Rightarrow> u64" where
  "set_in_use b v = (if b then v OR kInUse else v AND NOT kInUse)"

definition set_dirty :: "bool \<Rightarrow> u64 \<Rightarrow> u64" where
  "set_dirty b v = (if b then v OR kDirty else v AND NOT kDirty)"

definition set_evicting :: "bool \<Rightarrow> u64 \<Rightarrow> u64" where
  "set_evicting b v = (if b then v OR kEvict else v AND NOT kEvict)"

definition set_io_lock :: "bool \<Rightarrow> u64 \<Rightarrow> u64" where
  "set_io_lock b v = (if b then v OR kIOLock else v AND NOT kIOLock)"

definition set_marked :: "bool \<Rightarrow> u64 \<Rightarrow> u64" where
  "set_marked b v = (if b then v OR kMark else v AND NOT kMark)"

lemmas flag_defs = kInUse_def kDirty_def kEvict_def kIOLock_def kMark_def

lemmas flag_get_defs = in_use_def dirty_def evicting_def io_lock_def marked_def

lemmas flag_set_defs = set_in_use_def set_dirty_def set_evicting_def set_io_lock_def set_marked_def

subsection \<open>State\<close>

record BufferFrame =
  bf_pid :: PID
  bf_waiting :: "nat list"

datatype restart = PageFaultException PID | RestartException BID | AllocException

text \<open>\<^verbatim>\<open>SleepingFiber\<close>: the fiber of the evictor, parked while there are free frames.\<close>

record SleepingFiber =
  sf_stop :: bool
  sf_running :: bool
  sf_ctx :: "nat option"

record BufferManager =
  bm_page_count :: nat
  bm_evict_batch :: nat
  bm_free_target :: rat
  bm_allocCount :: u64
  bm_physUsedCount :: u64
  bm_page_table :: "u64 RHMap"
  bm_frames :: "BufferFrame list"
  bm_pages :: "Page list"
  bm_freeList :: "BID list"
  bm_readCount :: u64
  bm_writeCount :: u64
  bm_fixes :: u64
  bm_restarts :: u64
  bm_restart_ctx :: restart
  bm_eviction_fiber :: SleepingFiber
  bm_ssd :: "PID \<Rightarrow> Page"

definition register_self :: "nat \<Rightarrow> SleepingFiber \<Rightarrow> SleepingFiber result" where
  "register_self self sf =
     rbind (check (sf_ctx sf = None) (Ensure ''!ctx'')) (\<lambda>_.
     Inr (sf\<lparr>sf_ctx := Some self, sf_running := True\<rparr>))"

definition sf_park :: "nat \<Rightarrow> SleepingFiber \<Rightarrow> SleepingFiber result" where
  "sf_park self sf =
     rbind (check (sf_ctx sf = Some self) (Ensure ''ctx == mini::current()'')) (\<lambda>_.
     rbind (check (sf_running sf) (Ensure ''running'')) (\<lambda>_.
     Inr (sf\<lparr>sf_running := False\<rparr>)))"

text \<open>\<open>sf_wakeup\<close> also answers which fiber the reactor has to wake.\<close>

definition sf_wakeup :: "SleepingFiber \<Rightarrow> nat option \<times> SleepingFiber" where
  "sf_wakeup sf = (if sf_running sf then (None, sf) else (sf_ctx sf, sf\<lparr>sf_running := True\<rparr>))"

text \<open>
  The size of the page table: \<^verbatim>\<open>1 << (64 - __builtin_clzl(x - 1))\<close>. The shift is one of the
  32-bit \<^verbatim>\<open>int\<close> 1 and the count of leading zeroes is undefined at 0; the result is widened to 64
  bits with its sign.
\<close>

definition bits_of :: "u64 \<Rightarrow> nat" where
  "bits_of x = length (dropWhile Not (rev (map (bit x) [0..<64])))"

definition next_pow2 :: "u64 \<Rightarrow> u64 result" where
  "next_pow2 x =
     (if x - 1 = 0 then Inl (Assert ''clzl(0)'')
      else if 32 \<le> bits_of (x - 1) then Inl (Assert ''shift of a 32-bit int'')
      else Inr (scast (push_bit (bits_of (x - 1)) (1 :: 32 word))))"

definition bm_init :: "nat \<Rightarrow> u64 \<Rightarrow> nat \<Rightarrow> rat \<Rightarrow> (PID \<Rightarrow> Page) \<Rightarrow> BufferManager result" where
  "bm_init page_count slots evict_batch free_target ssd =
     rbind (next_pow2 slots) (\<lambda>page_table_sz.
     rbind (rh_new 0 (unat page_table_sz)) (\<lambda>page_table.
     let freeList = map of_nat [1..<page_count];
         buf = set_marked True (set_dirty True (buf_new 0))
     in rbind (rh_insert 0 buf page_table) (\<lambda>(inserted, page_table).
        rbind (check inserted (Ensure ''inserted'')) (\<lambda>_.
        Inr \<lparr>bm_page_count = page_count, bm_evict_batch = evict_batch, bm_free_target = free_target,
              bm_allocCount = 1, bm_physUsedCount = 1, bm_page_table = page_table,
              bm_frames = replicate page_count \<lparr>bf_pid = 0, bf_waiting = []\<rparr>,
              bm_pages = replicate page_count ZeroPage, bm_freeList = freeList,
              bm_readCount = 0, bm_writeCount = 0, bm_fixes = 0, bm_restarts = 0,
              bm_restart_ctx = PageFaultException 0,
              bm_eviction_fiber = \<lparr>sf_stop = False, sf_running = False, sf_ctx = None\<rparr>,
              bm_ssd = ssd\<rparr>))))"

subsection \<open>The page table seen through the pointers \<^verbatim>\<open>find\<close> returns\<close>

definition buf_at :: "nat \<Rightarrow> BufferManager \<Rightarrow> u64" where
  "buf_at i bm = snd (rh_entries (bm_page_table bm) ! i)"

definition buf_set :: "nat \<Rightarrow> u64 \<Rightarrow> BufferManager \<Rightarrow> BufferManager" where
  "buf_set i v bm = bm\<lparr>bm_page_table := rh_set_val i v (bm_page_table bm)\<rparr>"

subsection \<open>Free frames and new pages\<close>

definition ensureFreePages :: "BufferManager \<Rightarrow> BufferManager" where
  "ensureFreePages bm =
     (if rat_of_nat (length (bm_freeList bm)) \<le> rat_of_nat (bm_page_count bm) * bm_free_target bm
      then bm\<lparr>bm_eviction_fiber := snd (sf_wakeup (bm_eviction_fiber bm))\<rparr>
      else bm)"

definition isValidPtr :: "nat \<Rightarrow> BufferManager \<Rightarrow> bool" where
  "isValidPtr page bm \<longleftrightarrow> page < bm_page_count bm"

text \<open>A restart: count it, remember why.\<close>

definition restart_with :: "restart \<Rightarrow> BufferManager \<Rightarrow> BufferManager" where
  "restart_with e bm = bm\<lparr>bm_restarts := bm_restarts bm + 1, bm_restart_ctx := e\<rparr>"

definition allocPage :: "BufferManager \<Rightarrow> (nat option \<times> BufferManager) result" where
  "allocPage bm0 =
     (let bm = ensureFreePages bm0 in
      case bm_freeList bm of
        [] \<Rightarrow> Inr (None, restart_with AllocException bm)
      | bid # rest \<Rightarrow>
          let pid = bm_allocCount bm;
              buf = set_marked True (set_in_use True (set_dirty True (buf_new bid)))
          in rbind (rh_insert pid buf (bm_page_table bm)) (\<lambda>(inserted, page_table).
             rbind (check inserted (Ensure ''inserted'')) (\<lambda>_.
             let bm1 = bm\<lparr>bm_freeList := rest, bm_physUsedCount := bm_physUsedCount bm + 1,
                   bm_allocCount := bm_allocCount bm + 1, bm_page_table := page_table,
                   bm_pages := (bm_pages bm)[unat bid := ZeroPage],
                   bm_frames := (bm_frames bm)[unat bid := \<lparr>bf_pid = pid, bf_waiting = []\<rparr>]\<rparr>
             in rbind (check (isValidPtr (unat bid) bm1) (Ensure ''isValidPtr(page)'')) (\<lambda>_.
                Inr (Some (unat bid), bm1)))))"

subsection \<open>Fixing and unfixing\<close>

definition fixS :: "PID \<Rightarrow> BufferManager \<Rightarrow> (nat option \<times> BufferManager) result" where
  "fixS pid bm0 =
     (let bm = bm0\<lparr>bm_fixes := bm_fixes bm0 + 1\<rparr> in
      case rh_find pid (bm_page_table bm) of
        None \<Rightarrow> Inr (None, restart_with (PageFaultException pid) bm)
      | Some i \<Rightarrow>
          let buf = buf_at i bm; bid = buf_id buf
          in if io_lock buf then Inr (None, restart_with (RestartException bid) bm)
             else rbind (check (\<not> in_use buf) (Ensure ''!buf_ptr->in_use()'')) (\<lambda>_.
                  let bm1 = buf_set i (set_marked True (set_in_use True buf)) bm
                  in rbind (check (isValidPtr 0 bm1) (Ensure ''isValidPtr(pages)'')) (\<lambda>_.
                     Inr (Some (unat bid), bm1))))"

definition fixX :: "PID \<Rightarrow> BufferManager \<Rightarrow> (nat option \<times> BufferManager) result" where
  "fixX pid bm0 =
     (let bm = bm0\<lparr>bm_fixes := bm_fixes bm0 + 1\<rparr> in
      case rh_find pid (bm_page_table bm) of
        None \<Rightarrow> Inr (None, restart_with (PageFaultException pid) bm)
      | Some i \<Rightarrow>
          let buf = buf_at i bm; bid = buf_id buf
          in if io_lock buf then Inr (None, restart_with (RestartException bid) bm)
             else rbind (check (\<not> in_use buf) (Ensure ''!buf_ptr->in_use()'')) (\<lambda>_.
                  let bm1 = buf_set i (set_dirty True (set_marked True (set_in_use True buf))) bm
                  in rbind (check (isValidPtr 0 bm1) (Ensure ''isValidPtr(pages)'')) (\<lambda>_.
                     Inr (Some (unat bid), bm1))))"

definition unfixS :: "PID \<Rightarrow> BufferManager \<Rightarrow> BufferManager result" where
  "unfixS pid bm =
     (case rh_find pid (bm_page_table bm) of
        None \<Rightarrow> Inl (Assert ''logical PID not resident'')
      | Some i \<Rightarrow>
          let buf = buf_at i bm
          in rbind (check (in_use buf) (Ensure ''buf_ptr->in_use()'')) (\<lambda>_.
             Inr (buf_set i (set_marked True (set_in_use False buf)) bm)))"

definition unfixX :: "PID \<Rightarrow> BufferManager \<Rightarrow> BufferManager result" where
  "unfixX pid bm =
     (case rh_find pid (bm_page_table bm) of
        None \<Rightarrow> Inl (Assert ''logical PID not resident'')
      | Some i \<Rightarrow>
          let buf = buf_at i bm
          in rbind (check (in_use buf) (Ensure ''buf_ptr->in_use()'')) (\<lambda>_.
             let buf1 = set_marked True (set_dirty True (set_in_use False buf))
             in rbind (check (\<not> io_lock buf1) (Ensure ''!buf_ptr->io_lock()'')) (\<lambda>_.
                Inr (buf_set i buf1 bm))))"

subsection \<open>Page faults and waiting\<close>

text \<open>
  \<open>handleFault\<close> up to the read: the frame it reads into, or nothing when there is no free frame
  and the fiber yields. \<open>self\<close> is the current fiber.
\<close>

definition handleFault_begin :: "nat \<Rightarrow> PID \<Rightarrow> BufferManager \<Rightarrow> (nat option \<times> BufferManager) result" where
  "handleFault_begin self pid bm0 =
     (let bm = ensureFreePages bm0 in
      case bm_freeList bm of
        [] \<Rightarrow> Inr (None, bm)
      | bid # rest \<Rightarrow>
          let buf = set_marked True (set_io_lock True (buf_new bid))
          in rbind (rh_insert pid buf (bm_page_table bm)) (\<lambda>(inserted, page_table).
             rbind (check inserted (Ensure ''inserted'')) (\<lambda>_.
             Inr (Some (unat bid), bm\<lparr>bm_freeList := rest, bm_physUsedCount := bm_physUsedCount bm + 1,
               bm_page_table := page_table,
               bm_frames := (bm_frames bm)[unat bid := \<lparr>bf_pid = pid, bf_waiting = [self]\<rparr>]\<rparr>))))"

text \<open>The device reads the page into the frame.\<close>

definition ssd_read :: "PID \<Rightarrow> nat \<Rightarrow> BufferManager \<Rightarrow> BufferManager" where
  "ssd_read pid bid bm = bm\<lparr>bm_pages := (bm_pages bm)[bid := bm_ssd bm pid]\<rparr>"

text \<open>
  \<open>handleFault\<close> after the read, with the result of the read: the fibers waiting behind the
  reader are woken and the frame is opened.
\<close>

definition handleFault_end :: "nat \<Rightarrow> PID \<Rightarrow> nat \<Rightarrow> bool \<Rightarrow> int \<Rightarrow> BufferManager \<Rightarrow> (nat list \<times> BufferManager) result" where
  "handleFault_end self pid bid nvme_cmds rc bm =
     rbind (check (nvme_cmds \<or> rc = int pageSize) (Ensure ''rc == pageSize'')) (\<lambda>_.
     let frame = bm_frames bm ! bid
     in rbind (check (bf_waiting frame \<noteq> [] \<and> hd (bf_waiting frame) = self) (Ensure ''frame.waiting == &op'')) (\<lambda>_.
        let woken = tl (bf_waiting frame);
            bm1 = bm\<lparr>bm_frames := (bm_frames bm)[bid := frame\<lparr>bf_waiting := []\<rparr>]\<rparr>
        in case rh_find pid (bm_page_table bm1) of
             None \<Rightarrow> Inl (Assert ''logical PID not resident'')
           | Some i \<Rightarrow>
               Inr (woken, (buf_set i (set_io_lock False (buf_at i bm1)) bm1)\<lparr>bm_readCount := bm_readCount bm1 + 1\<rparr>)))"

text \<open>\<open>handleWait\<close> up to the parking: the fiber queues behind the one that reads.\<close>

definition handleWait :: "nat \<Rightarrow> BID \<Rightarrow> BufferManager \<Rightarrow> BufferManager result" where
  "handleWait self bid bm =
     (let frame = bm_frames bm ! unat bid
      in case bf_waiting frame of
           [] \<Rightarrow> Inl (Ensure ''frame.waiting'')
         | reader # others \<Rightarrow>
             let bm1 = bm\<lparr>bm_frames := (bm_frames bm)[unat bid := frame\<lparr>bf_waiting := reader # self # others\<rparr>]\<rparr>
             in case rh_find (bf_pid frame) (bm_page_table bm1) of
                  None \<Rightarrow> Inl (Assert ''logical PID not resident'')
                | Some i \<Rightarrow>
                    rbind (check (io_lock (buf_at i bm1)) (Ensure ''buf_ptr->io_lock()'')) (\<lambda>_. Inr bm1))"

text \<open>What the fiber does next: yield, park until woken, or wait for its read.\<close>

datatype suspension = Yielded | Parked | Reading PID nat

definition handleRestart :: "nat \<Rightarrow> BufferManager \<Rightarrow> (suspension \<times> BufferManager) result" where
  "handleRestart self bm =
     (case bm_restart_ctx bm of
        PageFaultException pid \<Rightarrow>
          rbind (handleFault_begin self pid bm) (\<lambda>(bid, bm1).
          Inr (case bid of None \<Rightarrow> Yielded | Some b \<Rightarrow> Reading pid b, bm1))
      | RestartException bid \<Rightarrow> rbind (handleWait self bid bm) (\<lambda>bm1. Inr (Parked, bm1))
      | AllocException \<Rightarrow> Inr (Yielded, bm))"

subsection \<open>Eviction\<close>

text \<open>The callback of the clock sweep; its state are the frames to drop and the frames to write.\<close>

definition evict_cb :: "BufferManager \<Rightarrow> PID \<Rightarrow> u64 \<Rightarrow> BID list \<times> BID list \<Rightarrow>
    (bool \<times> u64 \<times> BID list \<times> BID list) result" where
  "evict_cb bm pid buf = (\<lambda>(toEvict, toWrite).
     let bid = buf_id buf
     in rbind (check (bf_pid (bm_frames bm ! unat bid) = pid) (Ensure ''frame.pid == pid'')) (\<lambda>_.
        if in_use buf then Inr (False, buf, toEvict, toWrite)
        else if io_lock buf then Inr (False, buf, toEvict, toWrite)
        else if evicting buf then Inr (False, buf, toEvict, toWrite)
        else if marked buf then Inr (False, set_marked False buf, toEvict, toWrite)
        else
          rbind (check (pid \<noteq> 0) (Ensure ''pid != 0'')) (\<lambda>_.
          let buf1 = set_evicting True buf;
              (buf2, toEvict2, toWrite2) =
                (if dirty buf1 then (set_dirty False buf1, toEvict, toWrite @ [bid])
                 else (buf1, toEvict @ [bid], toWrite))
          in Inr (length toEvict2 + length toWrite2 = bm_evict_batch bm, buf2, toEvict2, toWrite2))))"

text \<open>\<open>evict\<close> up to the writes: the frames to drop and the frames to write.\<close>

definition evict_begin :: "BufferManager \<Rightarrow> ((BID list \<times> BID list) \<times> BufferManager) result" where
  "evict_begin bm =
     rbind (rh_clock_sweep_next (evict_cb bm) (bm_page_table bm) ([], [])) (\<lambda>(_, page_table, chosen).
     Inr (chosen, bm\<lparr>bm_page_table := page_table\<rparr>))"

text \<open>The device writes a frame to the place of its page.\<close>

definition ssd_write :: "BID \<Rightarrow> BufferManager \<Rightarrow> BufferManager" where
  "ssd_write bid bm =
     bm\<lparr>bm_ssd := (bm_ssd bm)(bf_pid (bm_frames bm ! unat bid) := bm_pages bm ! unat bid)\<rparr>"

definition evictNow :: "BID \<Rightarrow> u64 \<times> BufferManager \<Rightarrow> (u64 \<times> BufferManager) result" where
  "evictNow bid = (\<lambda>(evicted_count, bm).
     let pid = bf_pid (bm_frames bm ! unat bid)
     in case rh_find pid (bm_page_table bm) of
          None \<Rightarrow> Inl (Assert ''logical PID not resident'')
        | Some i \<Rightarrow>
            rbind (check (evicting (buf_at i bm)) (Ensure ''buf_ptr->evicting()'')) (\<lambda>_.
            let buf = set_evicting False (buf_at i bm); bm1 = buf_set i buf bm
            in if in_use buf then Inr (evicted_count, bm1)
               else if dirty buf then Inr (evicted_count, bm1)
               else
                 rbind (check (\<not> io_lock buf) (Ensure ''!buf_ptr->io_lock()'')) (\<lambda>_.
                 rbind (rh_erase pid (bm_page_table bm1)) (\<lambda>(deleted, page_table).
                 rbind (check deleted (Ensure ''deleted'')) (\<lambda>_.
                 Inr (evicted_count + 1,
                   bm1\<lparr>bm_page_table := page_table, bm_freeList := bid # bm_freeList bm1\<rparr>))))))"

fun evictAll :: "BID list \<Rightarrow> u64 \<times> BufferManager \<Rightarrow> (u64 \<times> BufferManager) result" where
  "evictAll [] s = Inr s"
| "evictAll (bid # bids) s = rbind (evictNow bid s) (evictAll bids)"

text \<open>\<open>evict\<close> after the writes, with the result of the batch.\<close>

definition evict_end :: "BID list \<times> BID list \<Rightarrow> bool \<Rightarrow> int \<Rightarrow> BufferManager \<Rightarrow> BufferManager result" where
  "evict_end = (\<lambda>(toEvict, toWrite) nvme_cmds rc bm.
     rbind (if toWrite = [] then Inr bm
            else rbind (check (nvme_cmds \<or> rc = int pageSize) (Ensure ''rc == pageSize''))
                   (\<lambda>_. Inr (bm\<lparr>bm_writeCount := bm_writeCount bm + of_nat (length toWrite)\<rparr>))) (\<lambda>bm1.
     rbind (evictAll (toEvict @ toWrite) (0, bm1)) (\<lambda>(evicted_count, bm2).
     Inr (bm2\<lparr>bm_physUsedCount := bm_physUsedCount bm2 - evicted_count\<rparr>))))"

text \<open>The body of the evictor's loop up to the writes: park, or evict.\<close>

definition evictor_loop :: "BufferManager \<Rightarrow> (((BID list \<times> BID list) option) \<times> BufferManager) result" where
  "evictor_loop bm =
     (if rat_of_nat (length (bm_freeList bm)) \<le> rat_of_nat (bm_page_count bm) * bm_free_target bm
      then rbind (evict_begin bm) (\<lambda>(chosen, bm1). Inr (Some chosen, bm1))
      else Inr (None, bm))"

end
