(* ===== verification/Buffer_Proofs.thy ===== *)
theory Buffer_Proofs
  imports Buffer_Manager
begin

section \<open>Correctness of the buffer manager\<close>

text \<open>
  The flags and the frame number of a tagged word do not disturb each other; the invariant
  \<open>bm_inv\<close> of the buffer manager; the logical contents \<open>bm_view\<close> of the pages, whether cached or on
  the SSD; what every operation does to them.
\<close>

subsection \<open>Tagged words\<close>

named_theorems buf_simps \<open>reads of the flags and the frame number after writes\<close>

lemma and_flag: "((v :: u64) AND 2 ^ k) \<noteq> 0 \<longleftrightarrow> bit v k"
  by (simp add: and_exp_eq_0_iff_not_bit)

lemma flag_powers: "kInUse = 2 ^ 0" "kDirty = 2 ^ 1" "kEvict = 2 ^ 2" "kIOLock = 2 ^ 3" "kMark = 2 ^ 4"
  by (simp_all add: flag_defs)

lemma flag_bits:
  "in_use v \<longleftrightarrow> bit v 0" "dirty v \<longleftrightarrow> bit v 1" "evicting v \<longleftrightarrow> bit v 2" "io_lock v \<longleftrightarrow> bit v 3" "marked v \<longleftrightarrow> bit v 4"
  unfolding flag_get_defs flag_powers and_flag by (rule refl)+

lemma bit_flag:
  "bit kInUse n \<longleftrightarrow> n = 0" "bit kDirty n \<longleftrightarrow> n = 1" "bit kEvict n \<longleftrightarrow> n = 2" "bit kIOLock n \<longleftrightarrow> n = 3"
  "bit kMark n \<longleftrightarrow> n = 4"
  unfolding flag_powers bit_exp_iff by auto

lemma bit_set_flag:
  "n < 64 \<Longrightarrow> bit (set_in_use b v) n \<longleftrightarrow> (if n = 0 then b else bit v n)"
  "n < 64 \<Longrightarrow> bit (set_dirty b v) n \<longleftrightarrow> (if n = 1 then b else bit v n)"
  "n < 64 \<Longrightarrow> bit (set_evicting b v) n \<longleftrightarrow> (if n = 2 then b else bit v n)"
  "n < 64 \<Longrightarrow> bit (set_io_lock b v) n \<longleftrightarrow> (if n = 3 then b else bit v n)"
  "n < 64 \<Longrightarrow> bit (set_marked b v) n \<longleftrightarrow> (if n = 4 then b else bit v n)"
  by (auto simp: flag_set_defs bit_or_iff bit_and_iff bit_not_iff bit_flag)

lemma flag_get_set [buf_simps]:
  "in_use (set_in_use b v) = b" "in_use (set_dirty b v) = in_use v" "in_use (set_evicting b v) = in_use v"
  "in_use (set_io_lock b v) = in_use v" "in_use (set_marked b v) = in_use v"
  "dirty (set_in_use b v) = dirty v" "dirty (set_dirty b v) = b" "dirty (set_evicting b v) = dirty v"
  "dirty (set_io_lock b v) = dirty v" "dirty (set_marked b v) = dirty v"
  "evicting (set_in_use b v) = evicting v" "evicting (set_dirty b v) = evicting v" "evicting (set_evicting b v) = b"
  "evicting (set_io_lock b v) = evicting v" "evicting (set_marked b v) = evicting v"
  "io_lock (set_in_use b v) = io_lock v" "io_lock (set_dirty b v) = io_lock v" "io_lock (set_evicting b v) = io_lock v"
  "io_lock (set_io_lock b v) = b" "io_lock (set_marked b v) = io_lock v"
  "marked (set_in_use b v) = marked v" "marked (set_dirty b v) = marked v" "marked (set_evicting b v) = marked v"
  "marked (set_io_lock b v) = marked v" "marked (set_marked b v) = b"
  by (simp_all add: flag_bits bit_set_flag)

lemma bit_kFlagsMask: "bit kFlagsMask n \<longleftrightarrow> n < 5"
  by (auto simp: kFlagsMask_def bit_or_iff bit_flag)

lemma bit_buf_id: "bit (buf_id v) n \<longleftrightarrow> n + 5 < 64 \<and> bit v (n + 5)"
  using bit_imp_le_length [of v "n + 5"]
  by (auto simp: buf_id_def kShift_def kIdMask_def bit_drop_bit_eq bit_and_iff bit_not_iff bit_kFlagsMask add.commute)

lemma buf_id_set [buf_simps]:
  "buf_id (set_in_use b v) = buf_id v" "buf_id (set_dirty b v) = buf_id v" "buf_id (set_evicting b v) = buf_id v"
  "buf_id (set_io_lock b v) = buf_id v" "buf_id (set_marked b v) = buf_id v"
  by (auto intro!: bit_word_eqI simp: bit_buf_id bit_set_flag)

lemma flag_new [buf_simps]: "\<not> in_use (buf_new v)" "\<not> dirty (buf_new v)" "\<not> evicting (buf_new v)"
  "\<not> io_lock (buf_new v)" "\<not> marked (buf_new v)"
  by (simp_all add: flag_bits buf_new_def kShift_def bit_push_bit_iff)

lemma bit_small: "unat (v :: u64) < 2 ^ k \<Longrightarrow> bit v n \<Longrightarrow> n < k"
proof (rule ccontr)
  assume v: "unat v < 2 ^ k" "bit v n" and "\<not> n < k"
  then have "(2 :: nat) ^ k \<le> 2 ^ n" by (intro power_increasing) auto
  moreover have "bit (unat v) n" using v(2) by (simp add: bit_unsigned_iff)
  then have "2 ^ n \<le> unat v"
    by (metis bit_nat_def div_less even_zero linorder_not_less bit_iff_odd)
  ultimately show False using v(1) by linarith
qed

lemma buf_id_new: "unat bid < 2 ^ 59 \<Longrightarrow> buf_id (buf_new bid) = bid"
  using bit_small [of bid 59]
  by (intro bit_word_eqI) (auto simp: bit_buf_id buf_new_def kShift_def bit_push_bit_iff)

subsection \<open>The page table\<close>

lemma rh_find_cases:
  assumes inv: "rh_inv m"
  obtains (absent) "rh_find k m = None" "rh_abs m k = None"
  | (present) i where "rh_find k m = Some i" "rh_abs m k = Some (snd (rh_entries m ! i))"
      "\<And>w. rh_inv (rh_set_val i w m)" "\<And>w. rh_abs (rh_set_val i w m) = (rh_abs m)(k \<mapsto> w)"
proof (cases "rh_find k m")
  case None
  with absent rh_lookup_correct [OF inv, of k] show ?thesis by (simp add: rh_lookup_def)
next
  case (Some i)
  from inv have wf: "rh_wf m" by (simp add: rh_inv_def)
  have f: "rh_find_loop m k (rh_home (rh_n m) k) 1 = Some i"
    using Some by (auto simp: rh_find_def rh_wf_index [OF wf] split: if_splits)
  have "rh_home (rh_n m) k < rh_n m" using rh_wf_pos [OF wf] by (simp add: rh_home_def)
  from rh_find_loop_sound [OF f wf this]
  have i: "i < rh_n m" "rh_ctrl m ! i \<noteq> 0" "fst (rh_entries m ! i) = k" by auto
  show ?thesis
  proof (rule present)
    show "rh_find k m = Some i" by (rule Some)
    show "rh_abs m k = Some (snd (rh_entries m ! i))"
      using Some rh_lookup_correct [OF inv, of k] by (simp add: rh_lookup_def)
    show "rh_inv (rh_set_val i w m)" for w by (rule rh_set_val_correct(1) [OF inv i(1,2)])
    show "rh_abs (rh_set_val i w m) = (rh_abs m)(k \<mapsto> w)" for w
      using rh_set_val_correct(2) [OF inv i(1,2)] i(3) by simp
  qed
qed

abbreviation pt :: "BufferManager \<Rightarrow> u64 \<Rightarrow> u64 option" where
  "pt bm \<equiv> rh_abs (bm_page_table bm)"

text \<open>Failures that the table can raise; no other check of the buffer manager fails.\<close>

definition table_fail :: "fail \<Rightarrow> bool" where
  "table_fail e \<longleftrightarrow> e = Ensure ''key equals EMPTY_KEY sentinel'' \<or>
     e = Ensure ''probe distance overflow; table too full''"

lemma rh_insert_cases:
  assumes inv: "rh_inv m" and new: "rh_abs m k = None"
  obtains (full) e where "rh_insert k v m = Inl e" "table_fail e"
  | (inserted) m' where "rh_insert k v m = Inr (True, m')" "rh_inv m'" "rh_abs m' = (rh_abs m)(k \<mapsto> v)"
proof (cases "rh_insert k v m")
  case (Inl e)
  with rh_insert_fail [OF inv Inl] full show ?thesis by (auto simp: table_fail_def)
next
  case (Inr r)
  obtain b m' where "r = (b, m')" by (cases r)
  with rh_insert_result [OF inv, of k v b m'] Inr new inserted show ?thesis by auto
qed

subsection \<open>Invariant and logical contents\<close>

text \<open>
  \<open>frame_ok M W E bm pid b\<close>: the entry \<open>b\<close> of page \<open>pid\<close>. \<open>M\<close> are the fixed pages that were written
  and not yet unfixed, \<open>W\<close> the frames whose write to the SSD is pending, \<open>E\<close> the frames the evictor
  has chosen. A page that is open, clean and not about to be written has its contents on the SSD.
\<close>

definition frame_ok :: "PID set \<Rightarrow> BID set \<Rightarrow> BID set \<Rightarrow> BufferManager \<Rightarrow> PID \<Rightarrow> u64 \<Rightarrow> bool" where
  "frame_ok M W E bm pid b \<longleftrightarrow>
     unat (buf_id b) < bm_page_count bm \<and> bf_pid (bm_frames bm ! unat (buf_id b)) = pid \<and>
     buf_id b \<notin> set (bm_freeList bm) \<and> pid < bm_allocCount bm \<and>
     (evicting b \<longleftrightarrow> buf_id b \<in> E) \<and>
     (io_lock b \<longrightarrow> \<not> in_use b \<and> \<not> dirty b \<and> buf_id b \<notin> E \<and>
        bf_waiting (bm_frames bm ! unat (buf_id b)) \<noteq> []) \<and>
     (\<not> io_lock b \<longrightarrow> dirty b \<or> pid \<in> M \<or> buf_id b \<in> W \<or>
        bm_pages bm ! unat (buf_id b) = bm_ssd bm pid)"

definition bm_inv :: "PID set \<Rightarrow> BID set \<Rightarrow> BID set \<Rightarrow> BufferManager \<Rightarrow> bool" where
  "bm_inv M W E bm \<longleftrightarrow>
     rh_inv (bm_page_table bm) \<and> 0 < bm_page_count bm \<and> bm_page_count bm < 2 ^ 59 \<and>
     length (bm_frames bm) = bm_page_count bm \<and> length (bm_pages bm) = bm_page_count bm \<and>
     distinct (bm_freeList bm) \<and> (\<forall>bid \<in> set (bm_freeList bm). unat bid < bm_page_count bm) \<and>
     (\<forall>pid b. pt bm pid = Some b \<longrightarrow> frame_ok M W E bm pid b) \<and>
     (\<forall>bid \<in> E. \<exists>pid b. pt bm pid = Some b \<and> buf_id b = bid) \<and> W \<subseteq> E \<and>
     (\<forall>i < bm_page_count bm. of_nat i \<in> set (bm_freeList bm) \<or> (\<exists>pid b. pt bm pid = Some b \<and> unat (buf_id b) = i)) \<and>
     of_nat (bm_page_count bm) = bm_physUsedCount bm + of_nat (length (bm_freeList bm))"

definition bm_view :: "BufferManager \<Rightarrow> PID \<Rightarrow> Page" where
  "bm_view bm pid =
     (case pt bm pid of
        None \<Rightarrow> bm_ssd bm pid
      | Some b \<Rightarrow> if io_lock b then bm_ssd bm pid else bm_pages bm ! unat (buf_id b))"

definition bm_held :: "BufferManager \<Rightarrow> PID \<Rightarrow> nat option" where
  "bm_held bm pid =
     (case pt bm pid of None \<Rightarrow> None | Some b \<Rightarrow> if in_use b then Some (unat (buf_id b)) else None)"

lemma bm_invD:
  assumes "bm_inv M W E bm"
  shows "rh_inv (bm_page_table bm)" "0 < bm_page_count bm" "length (bm_frames bm) = bm_page_count bm"
    "length (bm_pages bm) = bm_page_count bm" "pt bm pid = Some b \<Longrightarrow> frame_ok M W E bm pid b"
  using assms by (auto simp: bm_inv_def)

text \<open>Two pages never share a frame.\<close>

lemma frame_inj:
  "bm_inv M W E bm \<Longrightarrow> pt bm p = Some b \<Longrightarrow> pt bm q = Some c \<Longrightarrow> buf_id b = buf_id c \<Longrightarrow> p = q"
  using bm_invD(5) [of M W E bm p b] bm_invD(5) [of M W E bm q c] by (auto simp: frame_ok_def)

text \<open>Fields that only count, and the fiber of the evictor, play no role in the invariant.\<close>

lemma bm_inv_more:
  assumes "bm_page_count bm' = bm_page_count bm" "bm_page_table bm' = bm_page_table bm" "bm_frames bm' = bm_frames bm"
    "bm_pages bm' = bm_pages bm" "bm_freeList bm' = bm_freeList bm" "bm_ssd bm' = bm_ssd bm"
    "bm_allocCount bm' = bm_allocCount bm" "bm_physUsedCount bm' = bm_physUsedCount bm"
  shows "bm_inv M W E bm' = bm_inv M W E bm" and "bm_view bm' = bm_view bm" and "bm_held bm' = bm_held bm"
  unfolding bm_inv_def frame_ok_def bm_view_def [abs_def] bm_held_def [abs_def] assms by (rule refl)+

text \<open>
  Changing the entry of one page: enough to check the entry itself.
\<close>

lemma buf_set_inv:
  assumes inv: "bm_inv M W E bm" and old: "pt bm pid = Some b" and id: "buf_id c = buf_id b"
    and tab: "rh_inv (rh_set_val i c (bm_page_table bm))"
      "rh_abs (rh_set_val i c (bm_page_table bm)) = (pt bm)(pid \<mapsto> c)"
    and M: "M' - {pid} = M - {pid}" and ok: "frame_ok M' W E bm pid c"
  shows "bm_inv M' W E (buf_set i c bm)"
proof -
  let ?bm = "buf_set i c bm"
  have p: "pt ?bm = (pt bm)(pid \<mapsto> c)" using tab by (simp add: buf_set_def)
  have fr: "frame_ok M' W E ?bm q d = frame_ok M' W E bm q d" for q d by (simp add: frame_ok_def buf_set_def)
  have "frame_ok M' W E bm q d" if "q \<noteq> pid" "pt bm q = Some d" for q d
    using bm_invD(5) [OF inv that(2)] M that(1) by (auto simp: frame_ok_def)
  then have all: "\<forall>q d. pt ?bm q = Some d \<longrightarrow> frame_ok M' W E ?bm q d"
    using ok unfolding p fr by auto
  have ex: "(\<exists>q d. pt ?bm q = Some d \<and> P (buf_id d)) = (\<exists>q d. pt bm q = Some d \<and> P (buf_id d))" for P
    unfolding p using old id by (metis fun_upd_apply option.inject)
  have tab': "rh_inv (bm_page_table ?bm)" using tab by (simp add: buf_set_def)
  have fields: "bm_page_count ?bm = bm_page_count bm" "bm_frames ?bm = bm_frames bm" "bm_pages ?bm = bm_pages bm"
    "bm_freeList ?bm = bm_freeList bm" "bm_physUsedCount ?bm = bm_physUsedCount bm"
    by (simp_all add: buf_set_def)
  show ?thesis
    unfolding bm_inv_def fields ex [of "\<lambda>x. x = _"] ex [of "\<lambda>x. unat x = _"]
    using inv tab' all unfolding bm_inv_def by blast
qed

end
