(* ===== verification/Btree_Search.thy ===== *)
theory Btree_Search
  imports Btree_Node
begin

section \<open>The page invariant and the searches\<close>

text \<open>
  The slots in use, their keys and payloads, the invariant \<open>bn_inv\<close> of a page, and the proof that
  \<open>lowerBound\<close> and \<open>upperBound\<close>, hints and key heads included, find what a linear search of the
  sorted keys finds.
\<close>

subsection \<open>Slots, keys and entries\<close>

definition bn_slots :: "BTreeNode \<Rightarrow> Slot list" where
  "bn_slots n = take (bn_count n) (bn_slot n)"

definition slot_key :: "bytes \<Rightarrow> Slot \<Rightarrow> bytes" where
  "slot_key m s = mem_read m (sl_offset s) (sl_keyLen s)"

definition slot_val :: "bytes \<Rightarrow> Slot \<Rightarrow> bytes" where
  "slot_val m s = mem_read m (sl_offset s + sl_keyLen s) (sl_payloadLen s)"

definition slot_len :: "Slot \<Rightarrow> nat" where
  "slot_len s = sl_keyLen s + sl_payloadLen s"

definition bn_prefix :: "BTreeNode \<Rightarrow> bytes" where
  "bn_prefix n = mem_read (bn_mem n) (fk_offset (bn_lowerFence n)) (bn_prefixLen n)"

definition bn_keys :: "BTreeNode \<Rightarrow> bytes list" where
  "bn_keys n = map (\<lambda>s. bn_prefix n @ slot_key (bn_mem n) s) (bn_slots n)"

definition bn_entries :: "BTreeNode \<Rightarrow> (bytes \<times> bytes) list" where
  "bn_entries n = map (\<lambda>s. (bn_prefix n @ slot_key (bn_mem n) s, slot_val (bn_mem n) s)) (bn_slots n)"

lemma map_fst_bn_entries [simp]: "map fst (bn_entries n) = bn_keys n"
  by (simp add: bn_entries_def bn_keys_def)

subsection \<open>Invariant\<close>

text \<open>
  \<open>slot_ok\<close>: the slot's bytes lie in the heap and its head is the head of its key. \<open>apart\<close>: two
  byte ranges do not overlap. \<open>fence_ok\<close>: a fence lies in the heap or is empty. \<open>within\<close>: a key lies
  between the fences, the lower exclusive, the upper inclusive, an empty fence being none.
\<close>

definition slot_ok :: "bytes \<Rightarrow> nat \<Rightarrow> Slot \<Rightarrow> bool" where
  "slot_ok m lo s \<longleftrightarrow> lo \<le> sl_offset s \<and> sl_offset s + slot_len s \<le> pageSize \<and>
     sl_head s = head (slot_key m s) (sl_keyLen s)"

definition apart :: "Slot \<Rightarrow> Slot \<Rightarrow> bool" where
  "apart s t \<longleftrightarrow> sl_offset s + slot_len s \<le> sl_offset t \<or> sl_offset t + slot_len t \<le> sl_offset s"

definition fence_ok :: "nat \<Rightarrow> FenceKeySlot \<Rightarrow> bool" where
  "fence_ok lo f \<longleftrightarrow> fk_offset f + fk_len f \<le> pageSize \<and> (fk_len f = 0 \<or> lo \<le> fk_offset f)"

definition fence_apart :: "FenceKeySlot \<Rightarrow> Slot \<Rightarrow> bool" where
  "fence_apart f s \<longleftrightarrow> fk_offset f + fk_len f \<le> sl_offset s \<or> sl_offset s + slot_len s \<le> fk_offset f
     \<or> fk_len f = 0"

definition within :: "bytes \<Rightarrow> bytes \<Rightarrow> bytes \<Rightarrow> bool" where
  "within lower upper k \<longleftrightarrow> (lower = [] \<or> lower < k) \<and> (upper = [] \<or> k \<le> upper)"

definition page_ok :: "BTreeNode \<Rightarrow> bool" where
  "page_ok n \<longleftrightarrow> length (bn_slot n) = 400 \<and> length (bn_mem n) = pageSize \<and> length (bn_hint n) = hintCount \<and>
     bn_dataOffset n + bn_spaceUsed n \<le> pageSize"

definition bn_layout :: "BTreeNode \<Rightarrow> bool" where
  "bn_layout n \<longleftrightarrow> page_ok n \<and> slotEnd (bn_count n) \<le> bn_dataOffset n"

text \<open>The heap with respect to a list of slots, so that it can speak of a page being filled.\<close>

definition heap_ok :: "BTreeNode \<Rightarrow> Slot list \<Rightarrow> bool" where
  "heap_ok n ss \<longleftrightarrow> (\<forall>s \<in> set ss. slot_ok (bn_mem n) (bn_dataOffset n) s \<and>
       fence_apart (bn_lowerFence n) s \<and> fence_apart (bn_upperFence n) s) \<and>
     sorted_wrt apart ss \<and>
     fence_ok (bn_dataOffset n) (bn_lowerFence n) \<and> fence_ok (bn_dataOffset n) (bn_upperFence n) \<and>
     bn_spaceUsed n = fk_len (bn_lowerFence n) + fk_len (bn_upperFence n) + sum_list (map slot_len ss)"

definition bn_heap :: "BTreeNode \<Rightarrow> bool" where
  "bn_heap n \<longleftrightarrow> heap_ok n (bn_slots n)"

definition bn_order :: "BTreeNode \<Rightarrow> bool" where
  "bn_order n \<longleftrightarrow> bn_prefixLen n = commonLen (getLowerFence n) (getUpperFence n) \<and>
     sorted_wrt (<) (bn_keys n) \<and>
     (\<forall>k \<in> set (bn_keys n). within (getLowerFence n) (getUpperFence n) k)"

definition bn_hints :: "BTreeNode \<Rightarrow> bool" where
  "bn_hints n \<longleftrightarrow> (hintCount * 2 < bn_count n \<longrightarrow>
     (\<forall>i < hintCount. bn_hint n ! i = hintAt n (bn_count n div (hintCount + 1)) i))"

definition bn_inv :: "BTreeNode \<Rightarrow> bool" where
  "bn_inv n \<longleftrightarrow> bn_layout n \<and> bn_heap n \<and> bn_order n \<and> bn_hints n"

lemma bn_count_le: "bn_layout n \<Longrightarrow> bn_count n \<le> 400"
  by (simp add: bn_layout_def page_ok_def slotEnd_def layout_defs)

lemma length_bn_slots [simp]: "bn_layout n \<Longrightarrow> length (bn_slots n) = bn_count n"
  using bn_count_le [of n] by (simp add: bn_slots_def bn_layout_def page_ok_def)

lemma length_bn_keys [simp]: "bn_layout n \<Longrightarrow> length (bn_keys n) = bn_count n"
  by (simp add: bn_keys_def)

lemma nth_bn_slots: "i < bn_count n \<Longrightarrow> bn_slots n ! i = bn_slot n ! i"
  by (simp add: bn_slots_def)

lemma commonLen_le: "commonLen a b \<le> length a" "commonLen a b \<le> length b"
  by (induction a b rule: commonLen.induct) auto

lemma commonLen_take: "take (commonLen a b) a = take (commonLen a b) b"
  by (induction a b rule: commonLen.induct) auto

lemma getLowerFence_length:
  "bn_layout n \<Longrightarrow> bn_heap n \<Longrightarrow> length (getLowerFence n) = fk_len (bn_lowerFence n)"
  by (simp add: getLowerFence_def bn_layout_def page_ok_def bn_heap_def heap_ok_def fence_ok_def)

lemma getUpperFence_length:
  "bn_layout n \<Longrightarrow> bn_heap n \<Longrightarrow> length (getUpperFence n) = fk_len (bn_upperFence n)"
  by (simp add: getUpperFence_def bn_layout_def page_ok_def bn_heap_def heap_ok_def fence_ok_def)

text \<open>The prefix is the common part of the two fences.\<close>

lemma bn_prefix_fence:
  assumes "bn_inv n"
  shows "bn_prefix n = take (bn_prefixLen n) (getLowerFence n)"
    and "bn_prefix n = take (bn_prefixLen n) (getUpperFence n)"
    and "length (bn_prefix n) = bn_prefixLen n"
proof -
  from assms have l: "bn_layout n" "bn_heap n"
    and p: "bn_prefixLen n = commonLen (getLowerFence n) (getUpperFence n)"
    by (simp_all add: bn_inv_def bn_order_def)
  then have le: "bn_prefixLen n \<le> fk_len (bn_lowerFence n)"
    using commonLen_le(1) [of "getLowerFence n"] getLowerFence_length [of n] by simp
  then show low: "bn_prefix n = take (bn_prefixLen n) (getLowerFence n)"
    by (simp add: bn_prefix_def getLowerFence_def mem_read_take min_absorb1)
  then show "bn_prefix n = take (bn_prefixLen n) (getUpperFence n)"
    using commonLen_take p by metis
  show "length (bn_prefix n) = bn_prefixLen n"
    using low le l by (simp add: getLowerFence_length)
qed

subsection \<open>Comparing a key with a slot\<close>

lemma slot_key_length: "slot_ok m lo s \<Longrightarrow> length m = pageSize \<Longrightarrow> length (slot_key m s) = sl_keyLen s"
  by (simp add: slot_key_def slot_ok_def slot_len_def)

lemma cmpSlot_correct:
  assumes lay: "bn_layout n" and heap: "bn_heap n" and i: "i < bn_count n"
  defines "k \<equiv> slot_key (bn_mem n) (bn_slots n ! i)"
  shows "cmpSlot n key (head key (length key)) i < 0 \<longleftrightarrow> key < k"
    and "0 < cmpSlot n key (head key (length key)) i \<longleftrightarrow> k < key"
proof -
  let ?s = "bn_slots n ! i"
  have "?s \<in> set (bn_slots n)" using lay i by simp
  then have ok: "slot_ok (bn_mem n) (bn_dataOffset n) ?s" using heap by (simp add: bn_heap_def heap_ok_def)
  then have len: "length k = sl_keyLen ?s" and hd: "sl_head ?s = head k (length k)"
    using slot_key_length [OF ok] lay by (simp_all add: k_def bn_layout_def page_ok_def slot_ok_def)
  have cmp: "memcmp key (getKey n i) (min (length key) (sl_keyLen ?s)) = memcmp key k (min (length key) (length k))"
    using memcmp_take [of "min (length key) (sl_keyLen ?s)" "sl_keyLen ?s" key "getKey n i"] len
    by (simp add: k_def slot_key_def mem_read_def getKey_def nth_bn_slots [OF i])
  consider "head key (length key) < head k (length k)" | "head k (length k) < head key (length key)"
    | "head key (length key) = head k (length k)" by (rule linorder_cases)
  then have "(cmpSlot n key (head key (length key)) i < 0 \<longleftrightarrow> key < k) \<and>
      (0 < cmpSlot n key (head key (length key)) i \<longleftrightarrow> k < key)"
  proof cases
    case 1
    then show ?thesis using head_less [of key k] hd nth_bn_slots [OF i] by (auto simp: cmpSlot_def Let_def)
  next
    case 2
    then show ?thesis using head_less [of k key] hd nth_bn_slots [OF i] by (auto simp: cmpSlot_def Let_def)
  next
    case 3
    then show ?thesis
      using memcmp_less [of key k] memcmp_greater [of k key] cmp hd len nth_bn_slots [OF i]
      by (auto simp: cmpSlot_def Let_def)
  qed
  then show "cmpSlot n key (head key (length key)) i < 0 \<longleftrightarrow> key < k"
    and "0 < cmpSlot n key (head key (length key)) i \<longleftrightarrow> k < key" by blast+
qed

subsection \<open>Binary search\<close>

text \<open>
  \<open>brackets ks key lower upper\<close>: the keys below \<open>lower\<close> are smaller than the search key and those
  from \<open>upper\<close> on are larger.
\<close>

definition brackets :: "bytes list \<Rightarrow> bytes \<Rightarrow> nat \<Rightarrow> nat \<Rightarrow> bool" where
  "brackets ks key lower upper \<longleftrightarrow> lower \<le> upper \<and> upper \<le> length ks \<and>
     (\<forall>i < lower. ks ! i < key) \<and> (\<forall>i < length ks. upper \<le> i \<longrightarrow> key < ks ! i)"

lemma brackets_lower:
  assumes "brackets ks key lower upper" and "sorted_wrt (<) ks" and "mid < upper" and "ks ! mid < key"
  shows "brackets ks key (mid + 1) upper"
proof -
  have "ks ! i < key" if "i < mid + 1" for i
    using assms that sorted_wrt_nth_less [of "(<)" ks i mid]
    by (cases "i = mid") (auto simp: brackets_def intro: less_trans)
  with assms show ?thesis by (auto simp: brackets_def)
qed

lemma brackets_upper:
  assumes "brackets ks key lower upper" and "sorted_wrt (<) ks" and "lower \<le> mid" and "mid < upper"
    and "key < ks ! mid"
  shows "brackets ks key lower mid"
proof -
  have "key < ks ! i" if "i < length ks" "mid \<le> i" for i
    using assms that sorted_wrt_nth_less [of "(<)" ks mid i]
    by (cases "i = mid") (auto simp: brackets_def intro: less_trans)
  with assms show ?thesis by (auto simp: brackets_def)
qed

lemma length_takeWhile_split:
  assumes "r \<le> length xs" and "\<And>i. i < r \<Longrightarrow> P (xs ! i)" and "\<And>i. i < length xs \<Longrightarrow> r \<le> i \<Longrightarrow> \<not> P (xs ! i)"
  shows "length (takeWhile P xs) = r"
  using assms
proof (induction xs arbitrary: r)
  case (Cons x xs)
  show ?case
  proof (cases r)
    case 0
    with Cons.prems(3) [of 0] show ?thesis by simp
  next
    case (Suc r')
    have "length (takeWhile P xs) = r'"
      using Cons.prems(1) Cons.prems(2) [of "Suc _"] Cons.prems(3) [of "Suc _"] Suc by (intro Cons.IH) auto
    with Cons.prems(2) [of 0] Suc show ?thesis by simp
  qed
qed simp

lemma brackets_takeWhile:
  assumes "brackets ks key r r"
  shows "length (takeWhile (\<lambda>x. x < key) ks) = r" and "key \<notin> set ks"
proof -
  from assms have lo: "\<And>i. i < r \<Longrightarrow> ks ! i < key" and r: "r \<le> length ks"
    and up: "\<And>i. i < length ks \<Longrightarrow> r \<le> i \<Longrightarrow> key < ks ! i" by (auto simp: brackets_def)
  show "length (takeWhile (\<lambda>x. x < key) ks) = r"
    using r lo up by (intro length_takeWhile_split) force+
  show "key \<notin> set ks"
    using lo up by (metis in_set_conv_nth less_irrefl not_le)
qed

lemma takeWhile_at:
  assumes "sorted_wrt (<) ks" and "r < length ks" and "ks ! r = (key :: bytes)"
  shows "length (takeWhile (\<lambda>x. x < key) ks) = r"
proof (rule length_takeWhile_split)
  fix i
  assume "i < length ks" and "r \<le> i"
  with sorted_wrt_nth_less [OF assms(1), of r i] assms(3) show "\<not> ks ! i < key"
    by (cases "i = r") auto
qed (use assms sorted_wrt_nth_less [OF assms(1), of _ r] in auto)

definition compares :: "BTreeNode \<Rightarrow> bytes list \<Rightarrow> bytes \<Rightarrow> u32 \<Rightarrow> bool" where
  "compares n ks key kh \<longleftrightarrow> (\<forall>i < length ks.
     (cmpSlot n key kh i < 0 \<longleftrightarrow> key < ks ! i) \<and> (0 < cmpSlot n key kh i \<longleftrightarrow> ks ! i < key))"

lemma lowerBoundLoop_correct:
  assumes "compares n ks key kh" and "brackets ks key lower upper" and sorted: "sorted_wrt (<) ks"
  shows "lowerBoundLoop n key kh lower upper = (length (takeWhile (\<lambda>x. x < key) ks), key \<in> set ks)"
  using assms(1,2)
proof (induction n key kh lower upper rule: lowerBoundLoop.induct)
  case (1 n key kh lower upper)
  let ?mid = "(upper - lower) div 2 + lower"
  show ?case
  proof (cases "lower < upper")
    case False
    with 1(4) have "lower = upper" by (simp add: brackets_def)
    with 1(4) show ?thesis by (simp add: lowerBoundLoop.simps brackets_takeWhile)
  next
    case True
    then have mid: "lower \<le> ?mid" "?mid < upper" by auto
    with 1(4) have in_ks: "?mid < length ks" by (simp add: brackets_def)
    then have cmp: "cmpSlot n key kh ?mid < 0 \<longleftrightarrow> key < ks ! ?mid"
      "0 < cmpSlot n key kh ?mid \<longleftrightarrow> ks ! ?mid < key" using 1(3) by (simp_all add: compares_def)
    consider (less) "key < ks ! ?mid" | (greater) "ks ! ?mid < key" | (equal) "ks ! ?mid = key"
      by (rule linorder_cases)
    then show ?thesis
    proof cases
      case less
      from 1(1) [OF True refl refl _ 1(3) brackets_upper [OF 1(4) sorted mid less]] less cmp True
      show ?thesis by (subst lowerBoundLoop.simps) (simp add: Let_def)
    next
      case greater
      from 1(2) [OF True refl refl _ _ 1(3) brackets_lower [OF 1(4) sorted mid(2) greater]] greater cmp True
      show ?thesis by (subst lowerBoundLoop.simps) (simp add: Let_def)
    next
      case equal
      with cmp True takeWhile_at [OF sorted in_ks equal] in_ks show ?thesis
        by (subst lowerBoundLoop.simps) (auto simp: Let_def in_set_conv_nth)
    qed
  qed
qed

lemma upperBoundLoop_correct:
  assumes "compares n ks key kh" and "lower \<le> upper" and "upper \<le> length ks"
    and "\<forall>i < lower. ks ! i \<le> key" and "\<forall>i < length ks. upper \<le> i \<longrightarrow> key < ks ! i"
    and sorted: "sorted_wrt (<) ks"
  shows "upperBoundLoop n key kh lower upper = length (takeWhile (\<lambda>x. x \<le> key) ks)"
  using assms(1-5)
proof (induction n key kh lower upper rule: upperBoundLoop.induct)
  case (1 n key kh lower upper)
  let ?mid = "(upper - lower) div 2 + lower"
  note le = sorted_wrt_nth_less [OF sorted]
  show ?case
  proof (cases "lower < upper")
    case False
    with 1(4) have eq: "lower = upper" by simp
    have "length (takeWhile (\<lambda>x. x \<le> key) ks) = upper"
      using 1(5-7) eq by (intro length_takeWhile_split) auto
    with eq show ?thesis by (simp add: upperBoundLoop.simps)
  next
    case True
    then have mid: "lower \<le> ?mid" "?mid < upper" by auto
    with 1(5) have in_ks: "?mid < length ks" by simp
    then have cmp: "cmpSlot n key kh ?mid < 0 \<longleftrightarrow> key < ks ! ?mid" using 1(3) by (simp add: compares_def)
    show ?thesis
    proof (cases "key < ks ! ?mid")
      case less: True
      have "\<forall>i < length ks. ?mid \<le> i \<longrightarrow> key < ks ! i"
        using less le [of ?mid] by (metis le_neq_implies_less less_trans)
      from 1(1) [OF True refl refl _ 1(3) mid(1) _ 1(6) this] less cmp True in_ks
      show ?thesis by (subst upperBoundLoop.simps) (simp add: Let_def)
    next
      case False
      then have "ks ! i \<le> key" if "i < ?mid + 1" for i
        using le [of i ?mid] in_ks that by (cases "i = ?mid") auto
      with 1(2) [OF True refl refl _ 1(3) _ 1(5) _ 1(7)] False cmp True mid
      show ?thesis by (subst upperBoundLoop.simps) (simp add: Let_def)
    qed
  qed
qed

subsection \<open>Hints\<close>

lemma scan_props:
  assumes "scan P hs i left = r"
  shows "i \<le> r" and "r \<le> i + left" and "\<And>j. i \<le> j \<Longrightarrow> j < r \<Longrightarrow> \<not> P (hs ! j)"
    and "r < i + left \<Longrightarrow> P (hs ! r)"
proof -
  have "i \<le> r \<and> r \<le> i + left \<and> (\<forall>j. i \<le> j \<and> j < r \<longrightarrow> \<not> P (hs ! j)) \<and> (r < i + left \<longrightarrow> P (hs ! r))"
    using assms
  proof (induction P hs i left rule: scan.induct)
    case (2 P hs i left)
    show ?case
    proof (cases "P (hs ! i)")
      case False
      with 2 have ih: "i + 1 \<le> r" "r \<le> i + 1 + left" "\<forall>j. i + 1 \<le> j \<and> j < r \<longrightarrow> \<not> P (hs ! j)"
        "r < i + 1 + left \<longrightarrow> P (hs ! r)" by auto
      have "\<not> P (hs ! j)" if "i \<le> j" "j < r" for j
        using that False ih(3) by (cases "j = i") auto
      with ih show ?thesis by auto
    qed (use 2 in auto)
  qed auto
  then show "i \<le> r" "r \<le> i + left" "\<And>j. i \<le> j \<Longrightarrow> j < r \<Longrightarrow> \<not> P (hs ! j)" "r < i + left \<Longrightarrow> P (hs ! r)"
    by blast+
qed

definition suffix_keys :: "BTreeNode \<Rightarrow> bytes list" where
  "suffix_keys n = map (slot_key (bn_mem n)) (bn_slots n)"

lemma length_suffix_keys [simp]: "bn_layout n \<Longrightarrow> length (suffix_keys n) = bn_count n"
  by (simp add: suffix_keys_def)

lemma bn_keys_suffix: "bn_keys n = map ((@) (bn_prefix n)) (suffix_keys n)"
  by (simp add: bn_keys_def suffix_keys_def)

lemma sorted_suffix_keys: "bn_inv n \<Longrightarrow> sorted_wrt (<) (suffix_keys n)"
  by (simp add: bn_inv_def bn_order_def bn_keys_suffix sorted_wrt_map)

lemma bn_slot_ok:
  "bn_layout n \<Longrightarrow> bn_heap n \<Longrightarrow> i < bn_count n \<Longrightarrow> slot_ok (bn_mem n) (bn_dataOffset n) (bn_slot n ! i)"
  using nth_mem [of i "bn_slots n"] by (simp add: bn_heap_def heap_ok_def nth_bn_slots)

lemma suffix_head:
  assumes "bn_inv n" and "i < bn_count n"
  shows "sl_head (bn_slot n ! i) = head (suffix_keys n ! i) (length (suffix_keys n ! i))"
proof -
  from assms have lay: "bn_layout n" and heap: "bn_heap n" by (simp_all add: bn_inv_def)
  have "suffix_keys n ! i = slot_key (bn_mem n) (bn_slot n ! i)"
    using assms(2) lay by (simp add: suffix_keys_def nth_bn_slots)
  moreover note ok = bn_slot_ok [OF lay heap assms(2)]
  ultimately show ?thesis
    using slot_key_length [OF ok] lay by (simp add: slot_ok_def bn_layout_def page_ok_def)
qed

lemma head_mono: "a \<le> b \<Longrightarrow> head a (length a) \<le> head b (length b)" for a b :: bytes
  using head_less [of b a] by (meson leD leI)

lemma brackets_start: "bn_layout n \<Longrightarrow> brackets (suffix_keys n) key 0 (bn_count n)"
  by (simp add: brackets_def)

lemma searchHint_brackets:
  assumes inv: "bn_inv n"
  shows "brackets (suffix_keys n) key (fst (searchHint n (head key (length key)) (0, bn_count n)))
    (snd (searchHint n (head key (length key)) (0, bn_count n)))"
proof (cases "hintCount * 2 < bn_count n")
  case False
  then show ?thesis
    using brackets_start inv by (simp add: searchHint_def bn_inv_def)
next
  case True
  let ?kh = "head key (length key)" and ?d = "bn_count n div (hintCount + 1)" and ?ks = "suffix_keys n"
  define pos where "pos = scan (\<lambda>h. ?kh \<le> h) (bn_hint n) 0 hintCount"
  define pos2 where "pos2 = scan (\<lambda>h. h \<noteq> ?kh) (bn_hint n) pos (hintCount - pos)"
  note p = scan_props [OF pos_def [symmetric]] and p2 = scan_props [OF pos2_def [symmetric]]
  from inv have lay: "bn_layout n" and hints: "bn_hints n" by (simp_all add: bn_inv_def)
  have srt: "sorted_wrt (<) ?ks" by (rule sorted_suffix_keys [OF inv])
  have d: "0 < ?d" "?d * hintCount < bn_count n"
    using True by (simp_all add: hintCount_def)
  have at: "i < hintCount \<Longrightarrow> (i + 1) * ?d < bn_count n" for i
  proof -
    assume "i < hintCount"
    then have "(i + 1) * ?d \<le> hintCount * ?d" by (intro mult_le_mono1) simp
    with d(2) show ?thesis by (simp add: mult.commute)
  qed
  have hint: "bn_hint n ! i = head (?ks ! ((i + 1) * ?d)) (length (?ks ! ((i + 1) * ?d)))" if "i < hintCount" for i
    using hints True that suffix_head [OF inv at [OF that]] by (simp add: bn_hints_def hintAt_def mult.commute)
  have low: "brackets ?ks key (pos * ?d) (bn_count n)"
  proof (cases pos)
    case 0
    then show ?thesis using brackets_start [OF lay] by simp
  next
    case (Suc q)
    have q: "q < hintCount" using p(2) Suc by simp
    have "bn_hint n ! q < ?kh" using p(3) [of q] Suc by simp
    then have less: "?ks ! (pos * ?d) < key" using hint [OF q] head_less Suc by simp
    from brackets_lower [OF brackets_start [OF lay] srt _ this] at [OF q] Suc
    show ?thesis by (auto simp: brackets_def)
  qed
  show ?thesis
  proof (cases "pos2 < hintCount")
    case False
    with low True show ?thesis
      by (simp add: searchHint_def Let_def pos_def [symmetric] pos2_def [symmetric])
  next
    case lt: True
    have le_p: "pos \<le> pos2" using p2(1) .
    have ge: "?kh \<le> bn_hint n ! pos2"
    proof (cases "pos = pos2")
      case True
      then show ?thesis using p(4) lt by simp
    next
      case False
      have "bn_hint n ! pos = ?kh" using p2(3) [of pos] le_p False by simp
      moreover have "?ks ! ((pos + 1) * ?d) < ?ks ! ((pos2 + 1) * ?d)"
        using sorted_wrt_nth_less [OF srt] at [OF lt] lay le_p False d(1) by simp
      ultimately show ?thesis
        using head_mono [OF less_imp_le, of "?ks ! ((pos + 1) * ?d)" "?ks ! ((pos2 + 1) * ?d)"]
          hint [OF lt] hint [of pos] le_p lt by simp
    qed
    moreover have "bn_hint n ! pos2 \<noteq> ?kh" using p2(4) lt le_p by simp
    ultimately have "?kh < bn_hint n ! pos2" by simp
    then have less: "key < ?ks ! ((pos2 + 1) * ?d)" using hint [OF lt] head_less by simp
    have "pos * ?d \<le> (pos2 + 1) * ?d" using le_p by (intro mult_le_mono1) simp
    from brackets_upper [OF low srt this at [OF lt] less] lt True show ?thesis
      by (simp add: searchHint_def Let_def pos_def [symmetric] pos2_def [symmetric])
  qed
qed

subsection \<open>The searches\<close>

lemma compares_slots:
  assumes "bn_inv n"
  shows "compares n (suffix_keys n) key (head key (length key))"
  using assms cmpSlot_correct [of n _ key]
  by (auto simp: compares_def bn_inv_def suffix_keys_def)

text \<open>The four outcomes of the comparison with the page's prefix.\<close>

lemma prefix_cases:
  fixes skey :: bytes
  assumes inv: "bn_inv n"
  defines "c \<equiv> memcmp skey (getPrefix n) (min (length skey) (bn_prefixLen n))"
  obtains (less) "c < 0" "\<forall>x \<in> set (bn_keys n). skey < x"
    | (greater) "0 < c" "\<forall>x \<in> set (bn_keys n). x < skey"
    | (shorter) "c = 0" "length skey < bn_prefixLen n" "\<forall>x \<in> set (bn_keys n). skey < x"
    | (inside) "c = 0" "\<not> length skey < bn_prefixLen n" "skey = bn_prefix n @ drop (bn_prefixLen n) skey"
proof -
  let ?p = "bn_prefix n"
  have len: "length ?p = bn_prefixLen n" by (rule bn_prefix_fence(3) [OF inv])
  have c: "c = memcmp skey ?p (min (length skey) (length ?p))"
    using memcmp_take [of "min (length skey) (bn_prefixLen n)" "bn_prefixLen n" skey "getPrefix n"]
    by (simp add: c_def len) (simp add: bn_prefix_def getPrefix_def mem_read_def)
  have l: "\<forall>x \<in> set (bn_keys n). skey < x" if "c < 0"
    using that memcmp_prefix_less [of skey ?p] by (auto simp: bn_keys_def c)
  have g: "\<forall>x \<in> set (bn_keys n). x < skey" if "0 < c"
    using that memcmp_prefix_greater [of skey ?p] by (auto simp: bn_keys_def c)
  show thesis
  proof (cases "c = 0")
    case False
    then consider "c < 0" | "0 < c" by linarith
    then show thesis by cases (use less l greater g in blast)+
  next
    case True
    then consider "length skey < length ?p" "skey = take (length skey) ?p" | r where "skey = ?p @ r"
      using memcmp_prefix [of skey ?p] c by auto
    then show thesis
    proof cases
      case 1
      then have "\<forall>x \<in> set (bn_keys n). skey < x"
        using proper_prefix_less [of skey ?p] by (auto simp: bn_keys_def)
      with 1 True len show thesis by (intro shorter) auto
    next
      case (2 r)
      then show thesis using inside True len by simp
    qed
  qed
qed

lemma lowerBound_correct:
  assumes inv: "bn_inv n"
  shows "lowerBound skey n = (length (takeWhile (\<lambda>x. x < skey) (bn_keys n)), skey \<in> set (bn_keys n))"
proof -
  from inv have lay: "bn_layout n" by (simp add: bn_inv_def)
  have none: "takeWhile (\<lambda>x. x < skey) (bn_keys n) = [] \<and> skey \<notin> set (bn_keys n)"
    if "\<forall>x \<in> set (bn_keys n). skey < x" using that by (cases "bn_keys n") auto
  from inv show ?thesis
  proof (cases rule: prefix_cases [where skey = skey])
    case less
    then show ?thesis using none by (simp add: lowerBound_def)
  next
    case greater
    then have "length (takeWhile (\<lambda>x. x < skey) (bn_keys n)) = bn_count n"
      using lay by (subst takeWhile_eq_all_conv [THEN iffD2]) auto
    moreover have "skey \<notin> set (bn_keys n)" using greater(2) by auto
    ultimately show ?thesis using greater(1) by (simp add: lowerBound_def)
  next
    case shorter
    then show ?thesis using none by (simp add: lowerBound_def)
  next
    case inside
    let ?key = "drop (bn_prefixLen n) skey"
    have "takeWhile (\<lambda>x. x < skey) (bn_keys n) = map ((@) (bn_prefix n)) (takeWhile (\<lambda>x. x < ?key) (suffix_keys n))"
      by (subst inside(3)) (simp add: bn_keys_suffix takeWhile_map comp_def)
    moreover have "skey \<in> set (bn_keys n) \<longleftrightarrow> ?key \<in> set (suffix_keys n)"
      by (subst inside(3)) (auto simp: bn_keys_suffix)
    moreover note lowerBoundLoop_correct [OF compares_slots [OF inv] searchHint_brackets [OF inv]
        sorted_suffix_keys [OF inv], of ?key]
    ultimately show ?thesis using inside by (simp add: lowerBound_def Let_def case_prod_beta)
  qed
qed

lemma upperBound_correct:
  assumes inv: "bn_inv n"
  shows "upperBound skey n = length (takeWhile (\<lambda>x. x \<le> skey) (bn_keys n))"
proof -
  from inv have lay: "bn_layout n" by (simp add: bn_inv_def)
  have none: "takeWhile (\<lambda>x. x \<le> skey) (bn_keys n) = []"
    if "\<forall>x \<in> set (bn_keys n). skey < x" using that by (cases "bn_keys n") auto
  from inv show ?thesis
  proof (cases rule: prefix_cases [where skey = skey])
    case less
    then show ?thesis using none by (simp add: upperBound_def)
  next
    case greater
    then have "length (takeWhile (\<lambda>x. x \<le> skey) (bn_keys n)) = bn_count n"
      using lay by (subst takeWhile_eq_all_conv [THEN iffD2]) (auto simp: less_imp_le)
    then show ?thesis using greater(1) lay by (simp add: upperBound_def)
  next
    case shorter
    then show ?thesis using none by (simp add: upperBound_def)
  next
    case inside
    let ?key = "drop (bn_prefixLen n) skey"
    have "takeWhile (\<lambda>x. x \<le> skey) (bn_keys n) = map ((@) (bn_prefix n)) (takeWhile (\<lambda>x. x \<le> ?key) (suffix_keys n))"
      by (subst inside(3)) (simp add: bn_keys_suffix takeWhile_map comp_def)
    moreover from searchHint_brackets [OF inv, of ?key]
    have "upperBoundLoop n ?key (head ?key (length ?key))
        (fst (searchHint n (head ?key (length ?key)) (0, bn_count n)))
        (snd (searchHint n (head ?key (length ?key)) (0, bn_count n)))
      = length (takeWhile (\<lambda>x. x \<le> ?key) (suffix_keys n))"
      by (intro upperBoundLoop_correct [OF compares_slots [OF inv] _ _ _ _ sorted_suffix_keys [OF inv]])
        (auto simp: brackets_def less_imp_le)
    ultimately show ?thesis using inside by (simp add: upperBound_def Let_def case_prod_beta)
  qed
qed

end
