(* ===== verification/Btree_Update.thy ===== *)
theory Btree_Update
  imports Btree_Search
begin

section \<open>Updates of a page\<close>

text \<open>
  Storing, copying, compaction, insertion and removal of entries: each operation passes its
  assertions, keeps the invariant of the page and changes the list of entries as the operation on
  sorted lists does.
\<close>

subsection \<open>Adding an entry to the heap\<close>

text \<open>
  \<open>put\<close> is what \<open>storeKeyValue\<close> and the copying loop do to the heap: reserve the bytes below the
  heap, write key and payload there, and describe them by a slot.
\<close>

definition put :: "bytes \<Rightarrow> bytes \<Rightarrow> BTreeNode \<Rightarrow> Slot \<times> BTreeNode" where
  "put k v n =
     (let offset = bn_dataOffset n - (length k + length v)
      in (\<lparr>sl_offset = offset, sl_keyLen = length k, sl_payloadLen = length v, sl_head = head k (length k)\<rparr>,
          n\<lparr>bn_dataOffset := offset, bn_spaceUsed := bn_spaceUsed n + (length k + length v),
            bn_mem := mem_write (bn_mem n) offset (k @ v)\<rparr>))"

definition store :: "nat \<Rightarrow> bytes \<Rightarrow> bytes \<Rightarrow> BTreeNode \<Rightarrow> BTreeNode" where
  "store j k v n = (snd (put k v n))\<lparr>bn_slot := (bn_slot n)[j := fst (put k v n)]\<rparr>"

definition ents :: "BTreeNode \<Rightarrow> Slot list \<Rightarrow> (bytes \<times> bytes) list" where
  "ents n ss = map (\<lambda>s. (bn_prefix n @ slot_key (bn_mem n) s, slot_val (bn_mem n) s)) ss"

lemma bn_entries_ents: "bn_entries n = ents n (bn_slots n)"
  by (simp add: bn_entries_def ents_def)

lemma page_bounds:
  assumes "page_ok n"
  shows "bn_dataOffset n \<le> 4096" and "bn_spaceUsed n \<le> 4096" and "bn_dataOffset n + bn_spaceUsed n \<le> 4096"
  using assms by (simp_all add: page_ok_def pageSize_def)

lemma mem_write_append:
  "off + length a + length b \<le> length m \<Longrightarrow> mem_write (mem_write m off a) (off + length a) b = mem_write m off (a @ b)"
  by (simp add: mem_write_def ac_simps)

lemma storeKeyValue_store:
  assumes page: "page_ok n" and fits: "slotEnd j + (length (drop (bn_prefixLen n) k) + length v) \<le> bn_dataOffset n"
  shows "storeKeyValue j k v n = Inr (store j (drop (bn_prefixLen n) k) v n)"
proof -
  define key where "key = drop (bn_prefixLen n) k"
  define len where "len = length key + length v"
  from fits have fits': "slotEnd j + len \<le> bn_dataOffset n" by (simp add: key_def len_def)
  note b = page_bounds [OF page]
  have mem: "length (bn_mem n) = 4096" using page by (simp add: page_ok_def pageSize_def)
  from fits' b have small: "len \<le> bn_dataOffset n" "bn_dataOffset n < 65536" "bn_spaceUsed n + len < 65536"
    "slotEnd j \<le> bn_dataOffset n - len" "len < 65536" by linarith+
  then have lens: "length key mod 65536 = length key" "length v mod 65536 = length v"
    by (simp_all add: len_def)
  have "mem_write (mem_write (bn_mem n) (bn_dataOffset n - len) key) (bn_dataOffset n - len + length key) v
      = mem_write (bn_mem n) (bn_dataOffset n - len) (key @ v)"
    by (rule mem_write_append) (use mem b small in \<open>simp add: len_def\<close>)
  then show ?thesis
    unfolding storeKeyValue_def Let_def store_def put_def key_def [symmetric] len_def [symmetric]
    using sub16_eq [OF small(1,2)] add16_eq [OF small(3)] lens small(4) by simp
qed

text \<open>What \<open>store\<close> leaves alone, and what it adds.\<close>

lemma store_fields [simp]:
  "bn_next (store j k v n) = bn_next n" "bn_lowerFence (store j k v n) = bn_lowerFence n"
  "bn_upperFence (store j k v n) = bn_upperFence n" "bn_count (store j k v n) = bn_count n"
  "bn_isLeaf (store j k v n) = bn_isLeaf n" "bn_prefixLen (store j k v n) = bn_prefixLen n"
  "bn_hint (store j k v n) = bn_hint n" "bn_slot (store j k v n) = (bn_slot n)[j := fst (put k v n)]"
  "bn_dataOffset (store j k v n) = bn_dataOffset n - (length k + length v)"
  "bn_spaceUsed (store j k v n) = bn_spaceUsed n + (length k + length v)"
  by (simp_all add: store_def put_def Let_def)

lemma put_slot [simp]:
  "sl_offset (fst (put k v n)) = bn_dataOffset n - (length k + length v)"
  "sl_keyLen (fst (put k v n)) = length k" "sl_payloadLen (fst (put k v n)) = length v"
  "sl_head (fst (put k v n)) = head k (length k)" "slot_len (fst (put k v n)) = length k + length v"
  by (simp_all add: put_def Let_def slot_len_def)

lemma store_mem: "bn_mem (store j k v n) = mem_write (bn_mem n) (bn_dataOffset n - (length k + length v)) (k @ v)"
  by (simp add: store_def put_def Let_def)

lemma store_page:
  assumes "page_ok n" and "length k + length v \<le> bn_dataOffset n"
  shows "page_ok (store j k v n)"
  using assms by (simp add: page_ok_def store_mem)

lemma store_read:
  assumes "page_ok n" and "length k + length v \<le> bn_dataOffset n" and "bn_dataOffset n \<le> o'"
  shows "mem_read (bn_mem (store j k v n)) o' len = mem_read (bn_mem n) o' len"
  using assms mem_read_above [of "bn_dataOffset n - (length k + length v)" "k @ v" "bn_mem n" o' len]
  by (simp add: store_mem page_ok_def)

lemma store_new:
  assumes "page_ok n" and "length k + length v \<le> bn_dataOffset n"
  shows "slot_key (bn_mem (store j k v n)) (fst (put k v n)) = k"
    and "slot_val (bn_mem (store j k v n)) (fst (put k v n)) = v"
  using assms
  by (simp_all add: slot_key_def slot_val_def store_mem mem_read_part page_ok_def)

lemma store_old:
  assumes "page_ok n" and "length k + length v \<le> bn_dataOffset n" and "slot_ok (bn_mem n) (bn_dataOffset n) s"
  shows "slot_key (bn_mem (store j k v n)) s = slot_key (bn_mem n) s"
    and "slot_val (bn_mem (store j k v n)) s = slot_val (bn_mem n) s"
    and "slot_ok (bn_mem (store j k v n)) (bn_dataOffset n - (length k + length v)) s"
    and "apart (fst (put k v n)) s"
  using assms store_read [OF assms(1,2)]
  by (auto simp: slot_key_def slot_val_def slot_ok_def apart_def)

lemma store_fences:
  assumes "page_ok n" and "length k + length v \<le> bn_dataOffset n" and "heap_ok n ss"
  shows "getLowerFence (store j k v n) = getLowerFence n" and "getUpperFence (store j k v n) = getUpperFence n"
  using assms store_read [OF assms(1,2)]
  by (auto simp: getLowerFence_def getUpperFence_def heap_ok_def fence_ok_def mem_read_def)

lemma bn_prefix_cong:
  assumes "getLowerFence n' = getLowerFence n" and "bn_prefixLen n' = bn_prefixLen n"
    and "bn_prefixLen n \<le> fk_len (bn_lowerFence n)" and "bn_lowerFence n' = bn_lowerFence n"
  shows "bn_prefix n' = bn_prefix n"
proof -
  have "bn_prefix m = take (bn_prefixLen m) (getLowerFence m)" if "bn_prefixLen m \<le> fk_len (bn_lowerFence m)" for m
    using that by (simp add: bn_prefix_def getLowerFence_def mem_read_take min_absorb1)
  with assms show ?thesis by simp
qed

lemma apart_sym: "apart s t = apart t s"
  by (auto simp: apart_def)

text \<open>The new slot may be put anywhere in the list of slots.\<close>

lemma store_heap:
  assumes page: "page_ok n" and fits: "length k + length v \<le> bn_dataOffset n" and heap: "heap_ok n (xs @ ys)"
  shows "heap_ok (store j k v n) (xs @ fst (put k v n) # ys)"
proof -
  let ?s = "fst (put k v n)" and ?n = "store j k v n"
  have old: "slot_ok (bn_mem n) (bn_dataOffset n) s" if "s \<in> set (xs @ ys)" for s
    using heap that by (simp add: heap_ok_def)
  have "slot_ok (bn_mem ?n) (bn_dataOffset ?n) ?s"
    using store_new(1) [OF page fits] fits page by (simp add: slot_ok_def page_ok_def)
  moreover have "fence_apart f ?s \<and> fence_ok (bn_dataOffset ?n) f" if "fence_ok (bn_dataOffset n) f" for f
    using that fits by (auto simp: fence_ok_def fence_apart_def)
  moreover have "slot_ok (bn_mem ?n) (bn_dataOffset ?n) s" "apart ?s s" "apart s ?s" if "s \<in> set (xs @ ys)" for s
    using store_old(3,4) [OF page fits old [OF that]] apart_sym by simp_all
  ultimately show ?thesis
    using heap by (auto simp: heap_ok_def sorted_wrt_append)
qed

lemma store_ents:
  assumes page: "page_ok n" and fits: "length k + length v \<le> bn_dataOffset n" and heap: "heap_ok n (xs @ ys)"
    and p: "bn_prefixLen n \<le> fk_len (bn_lowerFence n)"
  shows "bn_prefix (store j k v n) = bn_prefix n"
    and "ents (store j k v n) (xs @ fst (put k v n) # ys) = ents n xs @ (bn_prefix n @ k, v) # ents n ys"
proof -
  show pre: "bn_prefix (store j k v n) = bn_prefix n"
    by (rule bn_prefix_cong) (use store_fences [OF page fits heap] p in simp_all)
  have "slot_key (bn_mem (store j k v n)) s = slot_key (bn_mem n) s"
    "slot_val (bn_mem (store j k v n)) s = slot_val (bn_mem n) s" if "s \<in> set (xs @ ys)" for s
    using store_old(1,2) [OF page fits, of s] heap that by (simp_all add: heap_ok_def)
  then show "ents (store j k v n) (xs @ fst (put k v n) # ys) = ents n xs @ (bn_prefix n @ k, v) # ents n ys"
    using store_new [OF page fits] by (simp add: ents_def pre)
qed

subsection \<open>Copying entries to another page\<close>

text \<open>
  Both loops of \<open>copyKeyValueRange\<close> add the entries of the source to the target, their keys cut
  by the target's prefix.
\<close>

lemma slot_entry:
  assumes inv: "bn_layout n" "bn_heap n" and i: "i < bn_count n"
  shows "bn_entries n ! i = (bn_prefix n @ slot_key (bn_mem n) (bn_slot n ! i), slot_val (bn_mem n) (bn_slot n ! i))"
    and "length (slot_key (bn_mem n) (bn_slot n ! i)) = sl_keyLen (bn_slot n ! i)"
    and "length (slot_val (bn_mem n) (bn_slot n ! i)) = sl_payloadLen (bn_slot n ! i)"
proof -
  note ok = bn_slot_ok [OF inv i]
  show "bn_entries n ! i = (bn_prefix n @ slot_key (bn_mem n) (bn_slot n ! i), slot_val (bn_mem n) (bn_slot n ! i))"
    using inv i by (simp add: bn_entries_def nth_bn_slots)
  show "length (slot_key (bn_mem n) (bn_slot n ! i)) = sl_keyLen (bn_slot n ! i)"
    and "length (slot_val (bn_mem n) (bn_slot n ! i)) = sl_payloadLen (bn_slot n ! i)"
    using ok inv(1) by (simp_all add: slot_key_def slot_val_def slot_ok_def slot_len_def bn_layout_def page_ok_def)
qed

lemma head_take: "head (take l xs) l = head xs l"
  by (simp add: head_def load16_def load32_def)

lemma copyGrow_store:
  assumes inv: "bn_layout src" "bn_heap src" and i: "i < bn_count src" and page: "page_ok dst"
    and key: "bn_entries src ! i = (k, v)" and len: "length (bn_prefix src) = bn_prefixLen src"
    and grow: "bn_prefixLen src \<le> bn_prefixLen dst" and le: "bn_prefixLen dst \<le> length k"
    and fits: "length (drop (bn_prefixLen dst) k) + length v \<le> bn_dataOffset dst"
  shows "copyGrow src (bn_prefixLen dst - bn_prefixLen src) i j dst = store j (drop (bn_prefixLen dst) k) v dst"
proof -
  let ?s = "bn_slot src ! i" and ?d = "bn_prefixLen dst - bn_prefixLen src"
  note e = slot_entry [OF inv i]
  from e(1) key have k: "k = bn_prefix src @ slot_key (bn_mem src) ?s" and v: "v = slot_val (bn_mem src) ?s"
    by simp_all
  have dk: "drop (bn_prefixLen dst) k = drop ?d (slot_key (bn_mem src) ?s)"
    using grow len by (simp add: k)
  have small: "sl_keyLen ?s \<le> 4096" "sl_payloadLen ?s \<le> 4096"
    using bn_slot_ok [OF inv i] by (simp_all add: slot_ok_def slot_len_def pageSize_def)
  have d: "?d \<le> sl_keyLen ?s" using le len k e(2) by simp
  then have nk: "sub32 (sl_keyLen ?s) ?d = sl_keyLen ?s - ?d" using small by (simp add: sub32_eq)
  have lk: "length (drop (bn_prefixLen dst) k) = sl_keyLen ?s - ?d" using dk e(2) by simp
  have lv: "length v = sl_payloadLen ?s" using v e(3) by simp
  have sub: "sub16 (bn_dataOffset dst) (sl_keyLen ?s - ?d + sl_payloadLen ?s)
      = bn_dataOffset dst - (sl_keyLen ?s - ?d + sl_payloadLen ?s)"
    by (rule sub16_eq) (use fits lk lv page_bounds [OF page] in simp_all)
  have add: "add16 (bn_spaceUsed dst) (sl_keyLen ?s - ?d + sl_payloadLen ?s)
      = bn_spaceUsed dst + (sl_keyLen ?s - ?d + sl_payloadLen ?s)"
    by (rule add16_eq) (use small page_bounds [OF page] in simp)
  have key': "drop ?d (getKey src i) = drop (sl_offset ?s + ?d) (bn_mem src)"
    by (simp add: getKey_def add.commute)
  have cut: "drop (bn_prefixLen dst) k = take (sl_keyLen ?s - ?d) (drop ?d (getKey src i))"
    by (simp add: dk key' slot_key_def mem_read_drop) (simp add: mem_read_def)
  have bytes: "take (sl_keyLen ?s - ?d + sl_payloadLen ?s) (drop ?d (getKey src i)) = drop (bn_prefixLen dst) k @ v"
    using mem_read_append [of "bn_mem src" "sl_offset ?s + ?d" "sl_keyLen ?s - ?d" "sl_payloadLen ?s"] d
    by (simp add: cut v slot_val_def key') (simp add: mem_read_def)
  have hd: "head (drop ?d (getKey src i)) (sl_keyLen ?s - ?d)
      = head (drop (bn_prefixLen dst) k) (length (drop (bn_prefixLen dst) k))"
    unfolding lk by (simp add: cut head_take)
  show ?thesis
    unfolding copyGrow_def Let_def nk sub add bytes hd store_def put_def
    using lk lv small by simp
qed

text \<open>The bytes an entry takes behind a prefix of length \<open>p\<close>, and the entries of a range of slots.\<close>

definition entry_len :: "nat \<Rightarrow> bytes \<times> bytes \<Rightarrow> nat" where
  "entry_len p e = (length (fst e) - p) + length (snd e)"

definition src_ok :: "BTreeNode \<Rightarrow> bool" where
  "src_ok n \<longleftrightarrow> bn_layout n \<and> bn_heap n \<and> length (bn_prefix n) = bn_prefixLen n"

lemma bn_inv_src_ok: "bn_inv n \<Longrightarrow> src_ok n"
  by (simp add: src_ok_def bn_prefix_fence(3)) (simp add: bn_inv_def)

lemma copy_step:
  assumes src: "src_ok src" and i: "i < bn_count src" and page: "page_ok dst"
    and key: "bn_entries src ! i = (k, v)" and le: "bn_prefixLen dst \<le> length k"
    and fits: "slotEnd j + entry_len (bn_prefixLen dst) (k, v) \<le> bn_dataOffset dst"
  shows "(if bn_prefixLen src \<le> bn_prefixLen dst
          then Inr (copyGrow src (bn_prefixLen dst - bn_prefixLen src) i j dst)
          else copyKeyValue src i j dst) = Inr (store j (drop (bn_prefixLen dst) k) v dst)"
proof (cases "bn_prefixLen src \<le> bn_prefixLen dst")
  case True
  with copyGrow_store [of src i dst k v j] assms show ?thesis by (simp add: src_ok_def entry_len_def)
next
  case False
  have "take (bn_prefixLen src) (getPrefix src) @ take (sl_keyLen (bn_slot src ! i)) (getKey src i) = k"
    and "getPayload src i = v"
    using slot_entry(1) [of src i] src i key
    by (simp_all add: src_ok_def bn_prefix_def slot_key_def slot_val_def getPrefix_def getKey_def getPayload_def
        mem_read_def)
  with False storeKeyValue_store [OF page, of j k v] fits show ?thesis
    by (simp add: copyKeyValue_def entry_len_def)
qed

definition same_header :: "BTreeNode \<Rightarrow> BTreeNode \<Rightarrow> bool" where
  "same_header n n' \<longleftrightarrow> bn_next n' = bn_next n \<and> bn_lowerFence n' = bn_lowerFence n \<and>
     bn_upperFence n' = bn_upperFence n \<and> bn_count n' = bn_count n \<and> bn_isLeaf n' = bn_isLeaf n \<and>
     bn_prefixLen n' = bn_prefixLen n \<and> bn_hint n' = bn_hint n \<and>
     getLowerFence n' = getLowerFence n \<and> getUpperFence n' = getUpperFence n \<and> bn_prefix n' = bn_prefix n"

lemma take_list_update_snoc: "j < length xs \<Longrightarrow> take (Suc j) (xs[j := x]) = take j xs @ [x]"
  by (simp add: take_Suc_conv_app_nth)

lemma copyLoop_correct:
  assumes src: "src_ok src"
  shows "page_ok dst \<Longrightarrow> heap_ok dst (take j (bn_slot dst)) \<Longrightarrow> bn_prefixLen dst \<le> fk_len (bn_lowerFence dst) \<Longrightarrow>
    i + c \<le> bn_count src \<Longrightarrow> j + c \<le> 400 \<Longrightarrow> es = take c (drop i (bn_entries src)) \<Longrightarrow>
    (\<forall>(k, v) \<in> set es. \<exists>r. k = bn_prefix dst @ r) \<Longrightarrow> length (bn_prefix dst) = bn_prefixLen dst \<Longrightarrow>
    slotEnd (j + c) + sum_list (map (entry_len (bn_prefixLen dst)) es) \<le> bn_dataOffset dst \<Longrightarrow>
    \<exists>dst'. copyLoop src c j i dst = Inr dst' \<and> page_ok dst' \<and> heap_ok dst' (take (j + c) (bn_slot dst')) \<and>
      ents dst' (take (j + c) (bn_slot dst')) = ents dst (take j (bn_slot dst)) @ es \<and> same_header dst dst' \<and>
      bn_dataOffset dst' = bn_dataOffset dst - sum_list (map (entry_len (bn_prefixLen dst)) es) \<and>
      bn_spaceUsed dst' = bn_spaceUsed dst + sum_list (map (entry_len (bn_prefixLen dst)) es)"
proof (induction c arbitrary: dst i j es)
  case 0
  then show ?case by (simp add: same_header_def)
next
  case (Suc c)
  note pr = Suc.prems
  have lay: "bn_layout src" using src by (simp add: src_ok_def)
  have i: "i < bn_count src" using pr(4) by simp
  obtain k v where kv: "bn_entries src ! i = (k, v)" by fastforce
  let ?es = "take c (drop (Suc i) (bn_entries src))" and ?P = "bn_prefixLen dst"
  have es: "es = (k, v) # ?es"
    using pr(6) i kv lay by (simp add: Cons_nth_drop_Suc [symmetric] bn_entries_def)
  obtain r where r: "k = bn_prefix dst @ r" using pr(7) es by auto
  have r': "drop ?P k = r" "?P \<le> length k" using r pr(8) by simp_all
  have end1: "slotEnd j \<le> slotEnd (j + Suc c)" "slotEnd j + 10 \<le> slotEnd (j + Suc c)"
    by (simp_all add: slotEnd_def slotSize_def)
  have fit: "slotEnd j + entry_len ?P (k, v) \<le> bn_dataOffset dst"
    using pr(9) end1 by (simp add: es)
  have len: "entry_len ?P (k, v) = length r + length v" using r pr(8) by (simp add: entry_len_def)
  let ?d = "store j r v dst"
  have fits: "length r + length v \<le> bn_dataOffset dst" using fit len by simp
  have j: "j < length (bn_slot dst)" using pr(1,5) by (simp add: page_ok_def)
  have slots: "take (Suc j) (bn_slot ?d) = take j (bn_slot dst) @ [fst (put r v dst)]"
    using j by (simp add: take_list_update_snoc)
  have heap: "heap_ok ?d (take (Suc j) (bn_slot ?d))"
    unfolding slots using store_heap [OF pr(1) fits, of "take j (bn_slot dst)" "[]"] pr(2) by simp
  have ents: "ents ?d (take (Suc j) (bn_slot ?d)) = ents dst (take j (bn_slot dst)) @ [(k, v)]"
    and pre: "bn_prefix ?d = bn_prefix dst"
    unfolding slots using store_ents [OF pr(1) fits, of "take j (bn_slot dst)" "[]"] pr(2,3) r
    by (simp_all add: ents_def)
  have hdr: "same_header dst ?d"
    using pre store_fences [OF pr(1) fits pr(2)] by (simp add: same_header_def)
  have p7: "\<forall>(k, v) \<in> set ?es. \<exists>r. k = bn_prefix ?d @ r" using pr(7) pre unfolding es by auto
  have p9: "slotEnd (Suc j + c) + sum_list (map (entry_len (bn_prefixLen ?d)) ?es) \<le> bn_dataOffset ?d"
    using pr(9) len unfolding es by simp
  have "\<exists>dst'. copyLoop src c (Suc j) (Suc i) ?d = Inr dst' \<and> page_ok dst' \<and>
      heap_ok dst' (take (Suc j + c) (bn_slot dst')) \<and>
      ents dst' (take (Suc j + c) (bn_slot dst')) = ents ?d (take (Suc j) (bn_slot ?d)) @ ?es \<and> same_header ?d dst' \<and>
      bn_dataOffset dst' = bn_dataOffset ?d - sum_list (map (entry_len (bn_prefixLen ?d)) ?es) \<and>
      bn_spaceUsed dst' = bn_spaceUsed ?d + sum_list (map (entry_len (bn_prefixLen ?d)) ?es)"
    by (rule Suc.IH [OF store_page [OF pr(1) fits] heap _ _ _ refl p7 _ p9])
      (use pr(3-5,8) pre in simp_all)
  then obtain dst' where d: "copyLoop src c (Suc j) (Suc i) ?d = Inr dst'" "page_ok dst'"
      "heap_ok dst' (take (j + Suc c) (bn_slot dst'))"
      "ents dst' (take (j + Suc c) (bn_slot dst')) = ents ?d (take (Suc j) (bn_slot ?d)) @ ?es" "same_header ?d dst'"
      "bn_dataOffset dst' = bn_dataOffset ?d - sum_list (map (entry_len (bn_prefixLen ?d)) ?es)"
      "bn_spaceUsed dst' = bn_spaceUsed ?d + sum_list (map (entry_len (bn_prefixLen ?d)) ?es)" by auto
  have "copyLoop src (Suc c) j i dst = Inr dst'"
    using copy_step [OF src i pr(1) kv r'(2) fit] d(1) by (simp add: r'(1))
  moreover have "same_header dst dst'" using hdr d(5) by (simp add: same_header_def)
  moreover have "bn_dataOffset dst' = bn_dataOffset dst - sum_list (map (entry_len ?P) es)"
    "bn_spaceUsed dst' = bn_spaceUsed dst + sum_list (map (entry_len ?P) es)"
    using d(6,7) len by (simp_all add: es)
  ultimately show ?case using d(2-4) ents es by auto
qed

text \<open>Prefix and fences depend on the fence fields, the prefix length and the memory alone.\<close>

lemma fence_frame [simp]:
  "bn_prefix (n\<lparr>bn_count := c\<rparr>) = bn_prefix n" "getLowerFence (n\<lparr>bn_count := c\<rparr>) = getLowerFence n"
  "getUpperFence (n\<lparr>bn_count := c\<rparr>) = getUpperFence n"
  "bn_prefix (n\<lparr>bn_next := p\<rparr>) = bn_prefix n" "getLowerFence (n\<lparr>bn_next := p\<rparr>) = getLowerFence n"
  "getUpperFence (n\<lparr>bn_next := p\<rparr>) = getUpperFence n"
  "bn_prefix (n\<lparr>bn_hint := h\<rparr>) = bn_prefix n" "getLowerFence (n\<lparr>bn_hint := h\<rparr>) = getLowerFence n"
  "getUpperFence (n\<lparr>bn_hint := h\<rparr>) = getUpperFence n"
  "bn_prefix (n\<lparr>bn_slot := ss\<rparr>) = bn_prefix n" "getLowerFence (n\<lparr>bn_slot := ss\<rparr>) = getLowerFence n"
  "getUpperFence (n\<lparr>bn_slot := ss\<rparr>) = getUpperFence n"
  by (simp_all add: bn_prefix_def getLowerFence_def getUpperFence_def)

definition same_fences :: "BTreeNode \<Rightarrow> BTreeNode \<Rightarrow> bool" where
  "same_fences n n' \<longleftrightarrow> bn_isLeaf n' = bn_isLeaf n \<and> bn_prefixLen n' = bn_prefixLen n \<and>
     getLowerFence n' = getLowerFence n \<and> getUpperFence n' = getUpperFence n"

definition dst_ok :: "BTreeNode \<Rightarrow> bool" where
  "dst_ok n \<longleftrightarrow> page_ok n \<and> bn_heap n \<and> bn_prefixLen n \<le> fk_len (bn_lowerFence n) \<and>
     length (bn_prefix n) = bn_prefixLen n"

lemma copyRange_correct:
  assumes src: "src_ok src" and dst: "dst_ok dst" and range: "i + c \<le> bn_count src"
    and es: "es = take c (drop i (bn_entries src))"
    and pre: "\<forall>(k, v) \<in> set es. \<exists>r. k = bn_prefix dst @ r"
    and fits: "slotEnd (bn_count dst + c) + sum_list (map (entry_len (bn_prefixLen dst)) es) \<le> bn_dataOffset dst"
  shows "\<exists>d. copyKeyValueRange src (bn_count dst) i c dst = Inr d \<and> bn_layout d \<and> dst_ok d \<and>
    bn_entries d = bn_entries dst @ es \<and> bn_count d = bn_count dst + c \<and> bn_next d = bn_next dst \<and>
    same_fences dst d \<and> bn_prefix d = bn_prefix dst \<and>
    bn_dataOffset d = bn_dataOffset dst - sum_list (map (entry_len (bn_prefixLen dst)) es) \<and>
    bn_spaceUsed d = bn_spaceUsed dst + sum_list (map (entry_len (bn_prefixLen dst)) es)"
proof -
  from dst have d: "page_ok dst" "heap_ok dst (take (bn_count dst) (bn_slot dst))"
    "bn_prefixLen dst \<le> fk_len (bn_lowerFence dst)" "length (bn_prefix dst) = bn_prefixLen dst"
    by (simp_all add: dst_ok_def bn_heap_def bn_slots_def)
  have room: "bn_count dst + c \<le> 400"
    using fits page_bounds(1) [OF d(1)] by (simp add: slotEnd_def layout_defs)
  from copyLoop_correct [OF src d(1,2,3) range room es pre d(4) fits] obtain d' where
    d': "copyLoop src c (bn_count dst) i dst = Inr d'" "page_ok d'"
      "heap_ok d' (take (bn_count dst + c) (bn_slot d'))"
      "ents d' (take (bn_count dst + c) (bn_slot d')) = ents dst (take (bn_count dst) (bn_slot dst)) @ es"
      "same_header dst d'"
      "bn_dataOffset d' = bn_dataOffset dst - sum_list (map (entry_len (bn_prefixLen dst)) es)"
      "bn_spaceUsed d' = bn_spaceUsed dst + sum_list (map (entry_len (bn_prefixLen dst)) es)" by blast
  let ?d = "d'\<lparr>bn_count := bn_count dst + c\<rparr>"
  have cnt: "add16 (bn_count d') c = bn_count dst + c"
    using d'(5) room by (simp add: add16_eq same_header_def)
  have ok: "slotEnd (bn_count dst + c) \<le> bn_dataOffset d'" using fits d'(6) by simp
  have "copyKeyValueRange src (bn_count dst) i c dst = Inr ?d"
    using d'(1) cnt ok by (simp add: copyKeyValueRange_def)
  moreover have "bn_layout ?d" using d'(2) ok by (simp add: bn_layout_def page_ok_def)
  moreover have "heap_ok ?d (bn_slots ?d)"
    using d'(3) by (simp add: heap_ok_def bn_slots_def)
  moreover have "bn_entries ?d = bn_entries dst @ es"
    using d'(4) by (simp add: bn_entries_ents ents_def bn_slots_def)
  moreover have "bn_prefix ?d = bn_prefix dst" "same_fences dst ?d" "bn_next ?d = bn_next dst"
    using d'(5) by (simp_all add: same_header_def same_fences_def)
  moreover have "dst_ok ?d"
    using calculation d'(2,5) d(3,4) by (simp add: dst_ok_def bn_heap_def page_ok_def same_header_def)
  ultimately show ?thesis using d'(6,7) by auto
qed

subsection \<open>Fences of a fresh page\<close>

definition raw_ok :: "BTreeNode \<Rightarrow> bool" where
  "raw_ok raw \<longleftrightarrow> length (bn_slot raw) = 400 \<and> length (bn_mem raw) = pageSize \<and> length (bn_hint raw) = hintCount"

definition fresh :: "bool \<Rightarrow> bytes \<Rightarrow> bytes \<Rightarrow> BTreeNode \<Rightarrow> bool" where
  "fresh leaf lower upper n \<longleftrightarrow> dst_ok n \<and> bn_count n = 0 \<and> bn_isLeaf n = leaf \<and> bn_next n = noNeighbour \<and>
     getLowerFence n = lower \<and> getUpperFence n = upper \<and> bn_prefixLen n = commonLen lower upper \<and>
     bn_prefix n = take (commonLen lower upper) lower \<and>
     bn_dataOffset n = pageSize - (length lower + length upper) \<and> bn_spaceUsed n = length lower + length upper"

lemma setFences_fresh:
  assumes raw: "raw_ok raw" and fits: "length lower + length upper \<le> 4000"
  shows "\<exists>n. setFences lower upper (bn_construct leaf raw) = Inr n \<and> fresh leaf lower upper n"
proof -
  let ?l = "length lower" and ?u = "length upper"
  let ?m = "mem_write (mem_write (bn_mem raw) (4096 - ?l) lower) (4096 - ?l - ?u) upper"
  have mem: "length (bn_mem raw) = 4096" using raw by (simp add: raw_ok_def pageSize_def)
  have s: "sub16 4096 ?l = 4096 - ?l" "sub16 (4096 - ?l) ?u = 4096 - ?l - ?u" "add16 0 ?l = ?l" "add16 ?l ?u = ?l + ?u"
    "?l mod 65536 = ?l" "?u mod 65536 = ?u" "sub32 4096 96 = 4000" "sub32 (4096 - ?l) 96 = 4000 - ?l"
    using fits by (simp_all add: sub16_eq add16_eq sub32_eq)
  let ?n = "raw\<lparr>bn_next := noNeighbour, bn_lowerFence := \<lparr>fk_offset = 4096 - ?l, fk_len = ?l\<rparr>,
    bn_upperFence := \<lparr>fk_offset = 4096 - ?l - ?u, fk_len = ?u\<rparr>, bn_count := 0, bn_isLeaf := leaf,
    bn_spaceUsed := ?l + ?u, bn_dataOffset := 4096 - ?l - ?u, bn_prefixLen := commonLen lower upper, bn_mem := ?m\<rparr>"
  have run: "setFences lower upper (bn_construct leaf raw) = Inr ?n"
    using fits s by (simp add: setFences_def insertFence_def bn_construct_def freeSpace_def slotEnd_def layout_defs Let_def)
  have lower: "mem_read ?m (4096 - ?l) ?l = lower"
    using mem fits by (simp add: mem_read_above mem_read_written)
  have upper: "mem_read ?m (4096 - ?l - ?u) ?u = upper"
    using mem fits by (simp add: mem_read_written)
  have pre: "bn_prefix ?n = take (commonLen lower upper) lower"
    using mem_read_take [of "commonLen lower upper" ?m "4096 - ?l" ?l] lower commonLen_le(1) [of lower upper]
    by (simp add: bn_prefix_def min_absorb1)
  have "fresh leaf lower upper ?n"
    unfolding fresh_def dst_ok_def pre
    using raw lower upper mem fits commonLen_le(1) [of lower upper] diff_le_mono2 [of ?l "?l + ?u" 4096]
    by (simp add: page_ok_def bn_heap_def heap_ok_def bn_slots_def fence_ok_def getLowerFence_def getUpperFence_def
        raw_ok_def pageSize_def)
  with run show ?thesis by blast
qed

subsection \<open>Finishing a page\<close>

lemma within_prefix: "within lower upper k \<Longrightarrow> \<exists>r. k = take (commonLen lower upper) lower @ r"
proof (induction lower upper arbitrary: k rule: commonLen.induct)
  case (1 a as b bs)
  show ?case
  proof (cases "a = b")
    case True
    with 1(2) obtain cs where k: "k = a # cs" and cs: "as < cs" "cs \<le> bs"
      by (cases k) (auto simp: within_def)
    have "within as bs cs" using cs by (simp add: within_def)
    with 1(1) [OF True] k True show ?thesis by auto
  qed simp
qed auto

lemma makeHint_frame [simp]:
  "bn_next (makeHint n) = bn_next n" "bn_lowerFence (makeHint n) = bn_lowerFence n"
  "bn_upperFence (makeHint n) = bn_upperFence n" "bn_count (makeHint n) = bn_count n"
  "bn_isLeaf (makeHint n) = bn_isLeaf n" "bn_spaceUsed (makeHint n) = bn_spaceUsed n"
  "bn_dataOffset (makeHint n) = bn_dataOffset n" "bn_prefixLen (makeHint n) = bn_prefixLen n"
  "bn_slot (makeHint n) = bn_slot n" "bn_mem (makeHint n) = bn_mem n" "bn_slots (makeHint n) = bn_slots n"
  "bn_prefix (makeHint n) = bn_prefix n" "getLowerFence (makeHint n) = getLowerFence n"
  "getUpperFence (makeHint n) = getUpperFence n" "bn_entries (makeHint n) = bn_entries n"
  "bn_keys (makeHint n) = bn_keys n"
  by (simp_all add: makeHint_def Let_def bn_slots_def bn_entries_def bn_keys_def)

lemma bn_hints_makeHint: "bn_hints (makeHint n)"
  by (simp add: bn_hints_def makeHint_def Let_def hintAt_def)

lemma next_frame [simp]:
  "bn_slots (n\<lparr>bn_next := p\<rparr>) = bn_slots n" "bn_entries (n\<lparr>bn_next := p\<rparr>) = bn_entries n"
  "bn_keys (n\<lparr>bn_next := p\<rparr>) = bn_keys n"
  by (simp_all add: bn_slots_def bn_entries_def bn_keys_def)

lemma length_makeHint [simp]: "length (bn_hint (makeHint n)) = hintCount"
  by (simp add: makeHint_def Let_def)

lemma layout_frame [simp]:
  "bn_layout n \<Longrightarrow> bn_layout (makeHint n)" "bn_layout (n\<lparr>bn_next := p\<rparr>) = bn_layout n"
  "bn_heap (makeHint n) = bn_heap n" "bn_heap (n\<lparr>bn_next := p\<rparr>) = bn_heap n"
  by (simp_all add: bn_layout_def page_ok_def bn_heap_def heap_ok_def)

lemma set_bn_keys: "set (bn_keys n) = fst ` set (bn_entries n)"
  by (metis map_fst_bn_entries list.set_map)

lemma bn_orderI:
  assumes "bn_prefixLen n = commonLen (getLowerFence n) (getUpperFence n)"
    and "sorted_wrt (<) (map fst (bn_entries n))"
    and "\<forall>k \<in> fst ` set (bn_entries n). within (getLowerFence n) (getUpperFence n) k"
  shows "bn_order n"
  using assms by (simp add: bn_order_def set_bn_keys)

lemma finish_page:
  assumes lay: "bn_layout d" and heap: "bn_heap d"
    and order: "bn_prefixLen d = commonLen (getLowerFence d) (getUpperFence d)"
    and sorted: "sorted_wrt (<) (map fst (bn_entries d))"
    and bounds: "\<forall>k \<in> fst ` set (bn_entries d). within (getLowerFence d) (getUpperFence d) k"
  shows "bn_inv (makeHint (d\<lparr>bn_next := p\<rparr>))" and "bn_inv ((makeHint d)\<lparr>bn_next := p\<rparr>)"
proof -
  have hints: "bn_hints ((makeHint d)\<lparr>bn_next := p\<rparr>)"
    using bn_hints_makeHint [of d] by (simp add: bn_hints_def hintAt_def)
  have ord: "bn_order (makeHint (d\<lparr>bn_next := p\<rparr>))" "bn_order ((makeHint d)\<lparr>bn_next := p\<rparr>)"
    using order sorted bounds by (simp_all add: bn_order_def set_bn_keys)
  show "bn_inv (makeHint (d\<lparr>bn_next := p\<rparr>))"
    using lay heap ord bn_hints_makeHint by (simp add: bn_inv_def)
  show "bn_inv ((makeHint d)\<lparr>bn_next := p\<rparr>)"
    using lay heap ord hints by (simp add: bn_inv_def)
qed

subsection \<open>Compaction\<close>

lemma entries_facts:
  assumes "bn_inv n"
  shows "sorted_wrt (<) (map fst (bn_entries n))"
    and "\<forall>k \<in> fst ` set (bn_entries n). within (getLowerFence n) (getUpperFence n) k"
    and "length (bn_entries n) = bn_count n"
    and "sum_list (map (entry_len (bn_prefixLen n)) (bn_entries n)) = sum_list (map slot_len (bn_slots n))"
proof -
  from assms have lay: "bn_layout n" and heap: "bn_heap n" by (simp_all add: bn_inv_def)
  show "sorted_wrt (<) (map fst (bn_entries n))"
    and "\<forall>k \<in> fst ` set (bn_entries n). within (getLowerFence n) (getUpperFence n) k"
    using assms by (simp_all add: bn_inv_def bn_order_def set_bn_keys)
  show "length (bn_entries n) = bn_count n" using lay by (simp add: bn_entries_def)
  have "entry_len (bn_prefixLen n) (bn_prefix n @ slot_key (bn_mem n) s, slot_val (bn_mem n) s) = slot_len s"
    if s: "s \<in> set (bn_slots n)" for s
  proof -
    have "slot_ok (bn_mem n) (bn_dataOffset n) s" using s heap by (simp add: bn_heap_def heap_ok_def)
    then show ?thesis
      using lay bn_prefix_fence(3) [OF assms]
      by (simp add: entry_len_def slot_key_def slot_val_def slot_ok_def slot_len_def bn_layout_def page_ok_def)
  qed
  then show "sum_list (map (entry_len (bn_prefixLen n)) (bn_entries n)) = sum_list (map slot_len (bn_slots n))"
    by (simp add: bn_entries_def comp_def cong: map_cong)
qed

lemma fence_bytes:
  assumes "bn_inv n"
  shows "bn_spaceUsed n = length (getLowerFence n) + length (getUpperFence n) +
      sum_list (map (entry_len (bn_prefixLen n)) (bn_entries n))"
    and "slotEnd (bn_count n) + bn_spaceUsed n \<le> pageSize"
  using assms getLowerFence_length [of n] getUpperFence_length [of n] entries_facts(4) [OF assms]
  by (auto simp: bn_inv_def bn_heap_def heap_ok_def bn_layout_def page_ok_def)

lemma freeSpace_eqs:
  assumes "bn_inv n"
  shows "freeSpace n = bn_dataOffset n - slotEnd (bn_count n)"
    and "freeSpaceAfterCompaction n = pageSize - slotEnd (bn_count n) - bn_spaceUsed n"
proof -
  from assms have l: "bn_layout n" by (simp add: bn_inv_def)
  then have b: "slotEnd (bn_count n) \<le> bn_dataOffset n" "bn_dataOffset n + bn_spaceUsed n \<le> 4096"
    by (simp_all add: bn_layout_def page_ok_def pageSize_def)
  then show "freeSpace n = bn_dataOffset n - slotEnd (bn_count n)"
    by (simp add: freeSpace_def sub32_eq)
  from b show "freeSpaceAfterCompaction n = pageSize - slotEnd (bn_count n) - bn_spaceUsed n"
    by (simp add: freeSpaceAfterCompaction_def sub32_eq pageSize_def)
qed

text \<open>
  Filling a fresh page with a range of another page's entries, the common part of compaction,
  split and merge.
\<close>

definition filled :: "bool \<Rightarrow> bytes \<Rightarrow> bytes \<Rightarrow> (bytes \<times> bytes) list \<Rightarrow> BTreeNode \<Rightarrow> bool" where
  "filled leaf lower upper es d \<longleftrightarrow> bn_layout d \<and> dst_ok d \<and> bn_entries d = es \<and> bn_count d = length es \<and>
     bn_isLeaf d = leaf \<and> getLowerFence d = lower \<and> getUpperFence d = upper \<and>
     bn_prefixLen d = commonLen lower upper \<and> bn_prefix d = take (commonLen lower upper) lower \<and>
     bn_dataOffset d = pageSize - (length lower + length upper + sum_list (map (entry_len (commonLen lower upper)) es))"

lemma fresh_filled: "raw_ok raw \<Longrightarrow> length lower + length upper \<le> 4000 \<Longrightarrow>
    \<exists>t. setFences lower upper (bn_construct leaf raw) = Inr t \<and> filled leaf lower upper [] t"
  using setFences_fresh [of raw lower upper leaf]
  by (auto simp: fresh_def filled_def dst_ok_def bn_layout_def page_ok_def bn_entries_def bn_slots_def
      slotEnd_def layout_defs)

lemma fill_more:
  assumes src: "src_ok src" and t: "filled leaf lower upper es0 t" and range: "i + c \<le> bn_count src"
    and es: "es = take c (drop i (bn_entries src))" and w: "\<forall>k \<in> fst ` set es. within lower upper k"
    and fits: "slotEnd (length es0 + c) + length lower + length upper +
      sum_list (map (entry_len (commonLen lower upper)) (es0 @ es)) \<le> pageSize"
  shows "\<exists>d. copyKeyValueRange src (bn_count t) i c t = Inr d \<and> filled leaf lower upper (es0 @ es) d"
proof -
  have pre: "\<forall>(k, v) \<in> set es. \<exists>r. k = bn_prefix t @ r"
    using w within_prefix t by (fastforce simp: filled_def)
  have "dst_ok t" using t by (simp add: filled_def)
  moreover have "slotEnd (bn_count t + c) + sum_list (map (entry_len (bn_prefixLen t)) es) \<le> bn_dataOffset t"
    using t fits by (simp add: filled_def)
  ultimately obtain d where d: "copyKeyValueRange src (bn_count t) i c t = Inr d" "bn_layout d" "dst_ok d"
    "bn_entries d = es0 @ es" "bn_count d = length es0 + c" "same_fences t d" "bn_prefix d = bn_prefix t"
    "bn_dataOffset d = bn_dataOffset t - sum_list (map (entry_len (bn_prefixLen t)) es)"
    using copyRange_correct [OF src _ range es pre] t by (auto simp: filled_def)
  have "length es = c"
    using range src by (simp add: es src_ok_def bn_entries_def)
  with d t show ?thesis by (auto simp: filled_def same_fences_def)
qed

lemma filled_inv:
  assumes "filled leaf lower upper es d" and "sorted_wrt (<) (map fst es)"
    and "\<forall>k \<in> fst ` set es. within lower upper k"
  shows "bn_inv (makeHint (d\<lparr>bn_next := p\<rparr>))" and "bn_inv ((makeHint d)\<lparr>bn_next := p\<rparr>)"
  using assms finish_page [of d p] by (simp_all add: filled_def dst_ok_def)

lemma compactify_correct:
  assumes inv: "bn_inv n" and raw: "raw_ok raw"
  shows "\<exists>n'. compactify raw n = Inr n' \<and> bn_inv n' \<and> bn_entries n' = bn_entries n \<and> same_fences n n' \<and>
    bn_next n' = bn_next n \<and> bn_count n' = bn_count n \<and> freeSpace n' = freeSpaceAfterCompaction n"
proof -
  let ?L = "getLowerFence n" and ?U = "getUpperFence n"
  note fb = fence_bytes [OF inv] and ef = entries_facts [OF inv]
  from inv have p: "bn_prefixLen n = commonLen ?L ?U" by (simp add: bn_inv_def bn_order_def)
  have "length ?L + length ?U \<le> 4000" using fb by (simp add: slotEnd_def layout_defs)
  from fresh_filled [OF raw this] obtain t where
    t: "setFences ?L ?U (bn_construct (bn_isLeaf n) raw) = Inr t" "filled (bn_isLeaf n) ?L ?U [] t" by blast
  have "bn_entries n = take (bn_count n) (drop 0 (bn_entries n))" using ef(3) by simp
  from fill_more [OF bn_inv_src_ok [OF inv] t(2) _ this ef(2)] fb p t(2) obtain d where
    d: "copyKeyValueRange n 0 0 (bn_count n) t = Inr d" "filled (bn_isLeaf n) ?L ?U (bn_entries n) d"
    by (auto simp: filled_def)
  let ?n = "makeHint (d\<lparr>bn_next := bn_next n\<rparr>)"
  have "bn_inv ?n" by (rule filled_inv(1) [OF d(2) ef(1,2)])
  moreover have "freeSpace ?n = freeSpaceAfterCompaction n"
    using freeSpace_eqs [OF inv] freeSpace_eqs(1) [OF calculation] d(2) fb p ef(3) by (simp add: filled_def)
  moreover have "compactify raw n = Inr ?n"
    using t(1) d(1) calculation(2) by (simp add: compactify_def)
  ultimately show ?thesis using d(2) p ef(3) by (simp add: same_fences_def filled_def)
qed

subsection \<open>Insertion\<close>

text \<open>Insertion into a sorted association list, the specification of \<open>insertInPage\<close>.\<close>

definition sorted_insert :: "bytes \<Rightarrow> bytes \<Rightarrow> (bytes \<times> bytes) list \<Rightarrow> (bytes \<times> bytes) list" where
  "sorted_insert k v es = takeWhile (\<lambda>e. fst e < k) es @ (k, v) # dropWhile (\<lambda>e. fst e < k) es"

lemma takeWhile_fst: "takeWhile (\<lambda>x. x < k) (map fst es) = map fst (takeWhile (\<lambda>e. fst e < k) es)"
  by (simp add: takeWhile_map comp_def)

lemma sorted_insert_sorted:
  assumes "sorted_wrt (<) (map fst es)" and "k \<notin> fst ` set es"
  shows "sorted_wrt (<) (map fst (sorted_insert k v es))"
proof -
  let ?a = "takeWhile (\<lambda>e. fst e < k) es" and ?b = "dropWhile (\<lambda>e. fst e < k) es"
  have "sorted_wrt (<) (map fst (?a @ ?b))" using assms(1) by simp
  then have s: "sorted_wrt (<) (map fst ?a)" "sorted_wrt (<) (map fst ?b)"
    "\<forall>x \<in> set ?a. \<forall>y \<in> set ?b. fst x < fst y" by (auto simp: sorted_wrt_append simp del: takeWhile_dropWhile_id)
  have a: "\<forall>x \<in> set ?a. fst x < k" by (auto dest: set_takeWhileD)
  have b: "\<forall>y \<in> set ?b. k < fst y"
  proof (cases ?b)
    case (Cons y ys)
    then have "y \<in> set ?b" by simp
    then have "y \<in> set es" by (rule set_dropWhileD)
    moreover have "\<not> fst y < k" using hd_dropWhile [of "\<lambda>e. fst e < k" es] Cons by simp
    ultimately have "k < fst y" using assms(2) by (metis image_eqI not_less_iff_gr_or_eq)
    with s(2) Cons show ?thesis by auto
  next
    case Nil
    then show ?thesis by (simp only: list.set) simp
  qed
  show ?thesis using s a b by (simp add: sorted_insert_def sorted_wrt_append)
qed

lemma map_of_insert_middle: "k \<notin> fst ` set a \<Longrightarrow> map_of (a @ (k, v) # b) = (map_of (a @ b))(k \<mapsto> v)"
  by (induction a) (auto simp: fun_eq_iff)

lemma map_of_sorted_insert:
  assumes "k \<notin> fst ` set es"
  shows "map_of (sorted_insert k v es) = (map_of es)(k \<mapsto> v)"
proof -
  have "k \<notin> fst ` set (takeWhile (\<lambda>e. fst e < k) es)" using assms by (auto dest: set_takeWhileD)
  from map_of_insert_middle [OF this, of v "dropWhile (\<lambda>e. fst e < k) es"] show ?thesis
    unfolding sorted_insert_def takeWhile_dropWhile_id .
qed

lemma set_sorted_insert: "set (sorted_insert k v es) = insert (k, v) (set es)"
  by (metis (no_types, lifting) Un_insert_right list.simps(15) set_append sorted_insert_def takeWhile_dropWhile_id)

lemma updateHint_frame [simp]:
  "bn_next (updateHint i n) = bn_next n" "bn_lowerFence (updateHint i n) = bn_lowerFence n"
  "bn_upperFence (updateHint i n) = bn_upperFence n" "bn_count (updateHint i n) = bn_count n"
  "bn_isLeaf (updateHint i n) = bn_isLeaf n" "bn_spaceUsed (updateHint i n) = bn_spaceUsed n"
  "bn_dataOffset (updateHint i n) = bn_dataOffset n" "bn_prefixLen (updateHint i n) = bn_prefixLen n"
  "bn_slot (updateHint i n) = bn_slot n" "bn_mem (updateHint i n) = bn_mem n" "bn_slots (updateHint i n) = bn_slots n"
  "bn_prefix (updateHint i n) = bn_prefix n" "getLowerFence (updateHint i n) = getLowerFence n"
  "getUpperFence (updateHint i n) = getUpperFence n" "bn_entries (updateHint i n) = bn_entries n"
  "bn_keys (updateHint i n) = bn_keys n" "length (bn_hint (updateHint i n)) = hintCount"
  by (simp_all add: updateHint_def Let_def bn_slots_def bn_entries_def bn_keys_def)

text \<open>The hints below the inserted slot that \<open>updateHint\<close> keeps still name the right slots.\<close>

lemma updateHint_hints:
  assumes hints: "bn_hints n" and same: "bn_hint n' = bn_hint n" and cnt: "bn_count n' = bn_count n + 1"
    and slots: "\<And>j. j < i \<Longrightarrow> bn_slot n' ! j = bn_slot n ! j"
  shows "bn_hints (updateHint i n')"
proof -
  let ?d = "bn_count n' div (hintCount + 1)"
  have "bn_hint n ! x = hintAt n' ?d x"
    if x: "x < i div ?d - 1" "x < hintCount" and big: "hintCount * 2 + 1 < bn_count n'"
      and d: "(bn_count n' - 1) div (hintCount + 1) = ?d" for x
  proof -
    have pos: "0 < ?d" using big by (auto simp: hintCount_def)
    have "(x + 2) * ?d \<le> (i div ?d) * ?d" using x(1) by (intro mult_le_mono1) simp
    also have "\<dots> \<le> i" by simp
    finally have "?d * (x + 1) < i" using pos by (simp add: algebra_simps)
    moreover have "bn_hint n ! x = hintAt n ?d x"
      using hints big d cnt x(2) by (simp add: bn_hints_def)
    ultimately show ?thesis using slots by (simp add: hintAt_def)
  qed
  then show ?thesis
    by (auto simp: bn_hints_def updateHint_def Let_def same hintAt_def)
qed

definition open_slot :: "nat \<Rightarrow> BTreeNode \<Rightarrow> BTreeNode" where
  "open_slot i n = n\<lparr>bn_slot := take (i + 1) (bn_slot n) @ take (bn_count n - i) (drop i (bn_slot n)) @
     drop (bn_count n + 1) (bn_slot n)\<rparr>"

lemma open_slot_slots:
  assumes lay: "bn_layout n" and i: "i \<le> bn_count n" and room: "bn_count n < 400"
  shows "length (bn_slot (open_slot i n)) = 400"
    and "take (bn_count n + 1) ((bn_slot (open_slot i n))[i := s]) = take i (bn_slots n) @ s # drop i (bn_slots n)"
    and "\<And>j. j < i \<Longrightarrow> (bn_slot (open_slot i n))[i := s] ! j = bn_slot n ! j"
proof -
  let ?S = "bn_slot n" and ?c = "bn_count n"
  have len: "length ?S = 400" using lay by (simp add: bn_layout_def page_ok_def)
  show "length (bn_slot (open_slot i n)) = 400" using len i room by (simp add: open_slot_def)
  have "i < length ?S" using i room len by simp
  then have "take (i + 1) ?S = take i ?S @ [?S ! i]" by (simp add: take_Suc_conv_app_nth)
  then have upd: "(bn_slot (open_slot i n))[i := s] = take i ?S @ s # take (?c - i) (drop i ?S) @ drop (?c + 1) ?S"
    using len i room by (simp add: open_slot_def list_update_append)
  have "take (?c + 1) (take i ?S @ s # take (?c - i) (drop i ?S) @ drop (?c + 1) ?S) = take i ?S @ s # take (?c - i) (drop i ?S)"
    using len i room by (simp add: Suc_diff_le)
  then show "take (?c + 1) ((bn_slot (open_slot i n))[i := s]) = take i (bn_slots n) @ s # drop i (bn_slots n)"
    unfolding upd using i by (simp add: bn_slots_def drop_take min_absorb1)
  show "\<And>j. j < i \<Longrightarrow> (bn_slot (open_slot i n))[i := s] ! j = ?S ! j"
    unfolding upd using len i room by (simp add: nth_append)
qed

lemma insert_here:
  assumes inv: "bn_inv n" and new: "key \<notin> set (bn_keys n)" and w: "within (getLowerFence n) (getUpperFence n) key"
    and room: "slotEnd (bn_count n + 1) + (length key - bn_prefixLen n) + length payload \<le> bn_dataOffset n"
  defines "i \<equiv> fst (lowerBound key n)"
  shows "\<exists>n'. storeKeyValue i key payload (open_slot i n) = Inr n' \<and>
    (let n2 = updateHint i (n'\<lparr>bn_count := add16 (bn_count n') 1\<rparr>)
     in bn_inv n2 \<and> bn_entries n2 = sorted_insert key payload (bn_entries n) \<and> same_fences n n2 \<and>
       bn_next n2 = bn_next n \<and> bn_count n2 = bn_count n + 1)"
proof -
  let ?k = "drop (bn_prefixLen n) key" and ?o = "open_slot i n" and ?ss = "bn_slots n"
  from inv have lay: "bn_layout n" and heap: "heap_ok n ?ss" and hints: "bn_hints n"
    by (simp_all add: bn_inv_def bn_heap_def)
  have i: "i = length (takeWhile (\<lambda>e. fst e < key) (bn_entries n))"
    unfolding i_def lowerBound_correct [OF inv] map_fst_bn_entries [symmetric] takeWhile_fst by simp
  then have ile: "i \<le> bn_count n" using length_takeWhile_le entries_facts(3) [OF inv] by metis
  have c400: "bn_count n < 400"
    using room page_bounds(1) [of n] lay by (simp add: bn_layout_def slotEnd_def layout_defs)
  have end_le: "slotEnd i + 10 \<le> slotEnd (bn_count n + 1)" "slotEnd (bn_count n + 1) = slotEnd (bn_count n) + 10"
    using ile by (simp_all add: slotEnd_def slotSize_def)
  have page: "page_ok ?o"
    using lay open_slot_slots(1) [OF lay ile c400] by (simp add: bn_layout_def page_ok_def) (simp add: open_slot_def)
  have fits: "slotEnd i + (length (drop (bn_prefixLen ?o) key) + length payload) \<le> bn_dataOffset ?o"
    using room end_le by (simp add: open_slot_def)
  define n' where "n' = store i ?k payload ?o"
  have st: "storeKeyValue i key payload ?o = Inr n'"
    using storeKeyValue_store [OF page fits] by (simp add: n'_def open_slot_def)
  have fit2: "length ?k + length payload \<le> bn_dataOffset ?o" using fits by (simp add: open_slot_def)
  have heap2: "heap_ok ?o (take i ?ss @ drop i ?ss)"
    using heap by (simp add: heap_ok_def open_slot_def)
  have plen: "bn_prefixLen ?o \<le> fk_len (bn_lowerFence ?o)"
    using inv commonLen_le(1) [of "getLowerFence n" "getUpperFence n"] getLowerFence_length [of n]
    by (simp add: open_slot_def bn_inv_def bn_order_def)
  let ?s = "fst (put ?k payload ?o)"
  let ?m = "n'\<lparr>bn_count := bn_count n + 1\<rparr>"
  have slots: "bn_slots ?m = take i ?ss @ ?s # drop i ?ss"
    using open_slot_slots(2) [OF lay ile c400, of ?s] by (simp add: bn_slots_def n'_def)
  have pk: "bn_prefix n @ ?k = key"
    using within_prefix [OF w] bn_prefix_fence [OF inv] inv by (auto simp: bn_inv_def bn_order_def)
  have se: "bn_prefix n' = bn_prefix n"
    "ents n' (take i ?ss @ ?s # drop i ?ss) = ents n (take i ?ss) @ (key, payload) # ents n (drop i ?ss)"
    using store_ents [OF page fit2 heap2 plen, of i] pk by (simp_all add: n'_def ents_def open_slot_def)
  have tw: "takeWhile (\<lambda>e. fst e < key) (bn_entries n) = take i (bn_entries n)"
    "dropWhile (\<lambda>e. fst e < key) (bn_entries n) = drop i (bn_entries n)"
    by (simp_all only: i takeWhile_eq_take [symmetric] dropWhile_eq_drop [symmetric])
  have "bn_entries ?m = ents n' (take i ?ss @ ?s # drop i ?ss)"
    unfolding bn_entries_ents slots by (simp add: ents_def)
  then have entries: "bn_entries ?m = sorted_insert key payload (bn_entries n)"
    unfolding se(2) sorted_insert_def tw by (simp add: bn_entries_ents ents_def take_map drop_map)
  have hints': "bn_hints (updateHint i ?m)"
    by (rule updateHint_hints [OF hints])
      (use open_slot_slots(3) [OF lay ile c400] in \<open>simp_all add: n'_def open_slot_def\<close>)
  have fences: "getLowerFence n' = getLowerFence n" "getUpperFence n' = getUpperFence n" "bn_prefixLen n' = bn_prefixLen n"
    using store_fences [OF page fit2 heap2, of i] by (simp_all add: n'_def open_slot_def)
  have "bn_layout (updateHint i ?m)"
    using store_page [OF page fit2, of i] room by (simp add: bn_layout_def page_ok_def n'_def) (simp add: open_slot_def)
  moreover have "bn_heap (updateHint i ?m)"
    using store_heap [OF page fit2 heap2, of i] slots by (simp add: bn_heap_def heap_ok_def n'_def)
  moreover have "bn_order (updateHint i ?m)"
    by (rule bn_orderI)
      (use inv fences w new entries entries_facts(1,2) [OF inv] sorted_insert_sorted in
        \<open>auto simp: set_sorted_insert set_bn_keys bn_inv_def bn_order_def\<close>)
  ultimately have "bn_inv (updateHint i ?m)" using hints' by (simp add: bn_inv_def)
  moreover have "add16 (bn_count n') 1 = bn_count n + 1"
    using c400 by (simp add: n'_def add16_eq open_slot_def)
  ultimately show ?thesis
    using st entries fences by (simp add: same_fences_def n'_def open_slot_def)
qed

lemma insertInPage_correct:
  assumes inv: "bn_inv n" and raw: "raw_ok raw" and new: "key \<notin> set (bn_keys n)"
    and w: "within (getLowerFence n) (getUpperFence n) key"
    and space: "hasSpaceFor (length key) (length payload) n"
    and small: "length key + length payload < 65536"
  shows "\<exists>n'. insertInPage raw key payload n = Inr n' \<and> bn_inv n' \<and>
    bn_entries n' = sorted_insert key payload (bn_entries n) \<and> same_fences n n' \<and>
    bn_next n' = bn_next n \<and> bn_count n' = bn_count n + 1"
proof -
  let ?need = "slotSize + (length key - bn_prefixLen n) + length payload"
  have "bn_prefixLen n \<le> length key"
    using within_prefix [OF w] bn_prefix_fence [OF inv] inv by (auto simp: bn_inv_def bn_order_def)
  then have need: "spaceNeeded (length key) (length payload) n = ?need"
    using small by (simp add: spaceNeeded_def sub32_eq slotSize_def)
  have room: "slotEnd (bn_count m + 1) + (length key - bn_prefixLen n) + length payload \<le> bn_dataOffset m"
    if "bn_inv m" "?need \<le> freeSpace m" for m
    using freeSpace_eqs(1) [OF that(1)] that(2) by (simp add: slotEnd_def slotSize_def)
  have step: "\<exists>n'. (let slotId = fst (lowerBound key m)
      in rbind (storeKeyValue slotId key payload (open_slot slotId m))
        (\<lambda>n3. Inr (updateHint slotId (n3\<lparr>bn_count := add16 (bn_count n3) 1\<rparr>)))) = Inr n' \<and> bn_inv n' \<and>
      bn_entries n' = sorted_insert key payload (bn_entries m) \<and> same_fences m n' \<and>
      bn_next n' = bn_next m \<and> bn_count n' = bn_count m + 1"
    if "bn_inv m" "same_fences n m" "bn_entries m = bn_entries n" "?need \<le> freeSpace m" for m
  proof -
    have "key \<notin> set (bn_keys m)" using new that(3) by (simp add: set_bn_keys)
    moreover have "within (getLowerFence m) (getUpperFence m) key" "bn_prefixLen m = bn_prefixLen n"
      using w that(2) by (simp_all add: same_fences_def)
    ultimately show ?thesis
      using insert_here [OF that(1), of key payload] room [OF that(1,4)] by (auto simp: Let_def)
  qed
  show ?thesis
  proof (cases "freeSpace n < ?need")
    case False
    with step [OF inv] show ?thesis
      by (simp add: insertInPage_def Let_def need open_slot_def same_fences_def)
  next
    case True
    obtain m where m: "compactify raw n = Inr m" "bn_inv m" "bn_entries m = bn_entries n" "same_fences n m"
      "bn_next m = bn_next n" "bn_count m = bn_count n" "freeSpace m = freeSpaceAfterCompaction n"
      using compactify_correct [OF inv raw] by blast
    from space need have le: "?need \<le> freeSpaceAfterCompaction n" by (simp add: hasSpaceFor_def)
    with step [OF m(2,4,3)] m True show ?thesis
      by (simp add: insertInPage_def Let_def need open_slot_def same_fences_def)
  qed
qed

end
