(* ===== verification/Btree_Remove.thy ===== *)
theory Btree_Remove
  imports Btree_Update
begin

section \<open>Removal and payload updates\<close>

text \<open>
  \<open>removeSlot\<close> and \<open>removeInPage\<close> delete an entry, a write through \<open>getPayload\<close> replaces a value of
  the same length; both keep the invariant of the page.
\<close>

subsection \<open>Removal\<close>

lemma removeSlot_slots:
  assumes lay: "bn_layout n" and i: "i < bn_count n"
  defines "ss \<equiv> take i (bn_slot n) @ take (bn_count n - i - 1) (drop (i + 1) (bn_slot n)) @ drop (bn_count n - 1) (bn_slot n)"
  shows "length ss = 400" and "take (bn_count n - 1) ss = take i (bn_slots n) @ drop (Suc i) (bn_slots n)"
proof -
  have len: "length (bn_slot n) = 400" and c: "bn_count n \<le> 400"
    using lay bn_count_le [OF lay] by (simp_all add: bn_layout_def page_ok_def)
  show "length ss = 400" using len c i by (simp add: ss_def)
  have "take (bn_count n - 1) ss = take i (bn_slot n) @ take (bn_count n - i - 1) (drop (i + 1) (bn_slot n))"
    using len c i by (simp add: ss_def min_absorb1)
  then show "take (bn_count n - 1) ss = take i (bn_slots n) @ drop (Suc i) (bn_slots n)"
    using i by (simp add: bn_slots_def drop_take min_absorb1)
qed

lemma heap_ok_remove:
  assumes "heap_ok n (xs @ s # ys)"
  shows "heap_ok (n\<lparr>bn_spaceUsed := bn_spaceUsed n - slot_len s\<rparr>) (xs @ ys)"
  using assms by (auto simp: heap_ok_def sorted_wrt_append)

lemma sorted_wrt_remove: "sorted_wrt R (xs @ x # ys) \<Longrightarrow> sorted_wrt R (xs @ ys)"
  by (auto simp: sorted_wrt_append)

lemma removeSlot_correct:
  assumes inv: "bn_inv n" and i: "i < bn_count n"
  defines "n' \<equiv> snd (removeSlot i n)"
  shows "bn_inv n'" and "bn_entries n' = take i (bn_entries n) @ drop (Suc i) (bn_entries n)"
    and "bn_count n' = bn_count n - 1" and "same_fences n n'" and "bn_next n' = bn_next n"
proof -
  let ?s = "bn_slot n ! i" and ?ss = "bn_slots n"
  from inv have lay: "bn_layout n" and heap: "heap_ok n ?ss" by (simp_all add: bn_inv_def bn_heap_def)
  note b = page_bounds [of n]
  have split: "?ss = take i ?ss @ ?s # drop (Suc i) ?ss"
    using i lay id_take_nth_drop [of i ?ss] by (simp add: nth_bn_slots)
  have "slot_len ?s \<le> bn_spaceUsed n"
  proof -
    have "sum_list (map slot_len ?ss) = sum_list (map slot_len (take i ?ss)) + slot_len ?s + sum_list (map slot_len (drop (Suc i) ?ss))"
      by (subst split) simp
    with heap show ?thesis by (simp add: heap_ok_def)
  qed
  then have space: "sub16 (sub16 (bn_spaceUsed n) (sl_keyLen ?s)) (sl_payloadLen ?s) = bn_spaceUsed n - slot_len ?s"
    using b lay by (simp add: sub16_eq slot_len_def bn_layout_def)
  have cnt: "sub16 (bn_count n) 1 = bn_count n - 1"
    using i bn_count_le [OF lay] by (simp add: sub16_eq)
  define m where "m = n\<lparr>bn_spaceUsed := bn_spaceUsed n - slot_len ?s,
    bn_slot := take i (bn_slot n) @ take (bn_count n - i - 1) (drop (i + 1) (bn_slot n)) @ drop (bn_count n - 1) (bn_slot n),
    bn_count := bn_count n - 1\<rparr>"
  have n': "n' = makeHint m"
    unfolding n'_def removeSlot_def Let_def snd_conv space cnt m_def ..
  have slots: "bn_slots m = take i ?ss @ drop (Suc i) ?ss"
    using removeSlot_slots(2) [OF lay i] by (simp add: m_def bn_slots_def)
  have same: "bn_prefix m = bn_prefix n" "bn_mem m = bn_mem n" "getLowerFence m = getLowerFence n"
    "getUpperFence m = getUpperFence n"
    by (simp_all add: m_def bn_prefix_def getLowerFence_def getUpperFence_def)
  have entries: "bn_entries m = take i (bn_entries n) @ drop (Suc i) (bn_entries n)"
    by (simp add: bn_entries_def slots same take_map drop_map)
  have es: "bn_entries n = take i (bn_entries n) @ bn_entries n ! i # drop (Suc i) (bn_entries n)"
    using i entries_facts(3) [OF inv] by (simp add: id_take_nth_drop)
  have "heap_ok m (bn_slots m)"
    using heap_ok_remove [of n "take i ?ss" ?s "drop (Suc i) ?ss"] heap split
    by (simp add: slots) (simp add: heap_ok_def m_def)
  then have heap': "bn_heap m" by (simp add: bn_heap_def)
  have lay': "bn_layout m"
    using lay removeSlot_slots(1) [OF lay i] by (auto simp: bn_layout_def page_ok_def m_def slotEnd_def slotSize_def)
  have "sorted_wrt (<) (map fst (bn_entries m))"
    using entries_facts(1) [OF inv] sorted_wrt_remove unfolding entries by (subst (asm) es) (simp add: sorted_wrt_remove)
  moreover have "\<forall>k \<in> fst ` set (bn_entries m). within (getLowerFence m) (getUpperFence m) k"
    using entries_facts(2) [OF inv] by (auto simp: entries same dest: in_set_takeD in_set_dropD)
  moreover have "bn_prefixLen m = commonLen (getLowerFence m) (getUpperFence m)"
    using inv by (simp add: same) (simp add: m_def bn_inv_def bn_order_def)
  ultimately have "bn_order m" by (intro bn_orderI)
  then show "bn_inv n'"
    using lay' heap' bn_hints_makeHint by (simp add: bn_inv_def n' bn_order_def)
  show "bn_entries n' = take i (bn_entries n) @ drop (Suc i) (bn_entries n)" by (simp add: n' entries)
  show "bn_count n' = bn_count n - 1" "bn_next n' = bn_next n" by (simp_all add: n' m_def)
  show "same_fences n n'" by (simp add: n' same_fences_def same) (simp add: m_def)
qed

lemma remove_at_filter:
  fixes es :: "(bytes \<times> bytes) list"
  assumes "sorted_wrt (<) (map fst es)" and "i < length es"
  shows "take i es @ drop (Suc i) es = filter (\<lambda>e. fst e \<noteq> fst (es ! i)) es"
proof -
  have es: "es = take i es @ es ! i # drop (Suc i) es" using assms(2) by (rule id_take_nth_drop)
  have "sorted_wrt (<) (map fst (take i es @ es ! i # drop (Suc i) es))" using assms(1) es by simp
  then have "\<forall>e \<in> set (take i es) \<union> set (drop (Suc i) es). fst e \<noteq> fst (es ! i)"
    by (auto simp: sorted_wrt_append)
  then have "filter (\<lambda>e. fst e \<noteq> fst (es ! i)) (take i es @ es ! i # drop (Suc i) es) = take i es @ drop (Suc i) es"
    by simp
  with es show ?thesis by simp
qed

lemma lowerBound_found:
  assumes inv: "bn_inv n" and found: "k \<in> set (bn_keys n)"
  shows "fst (lowerBound k n) < bn_count n" and "fst (bn_entries n ! fst (lowerBound k n)) = k"
proof -
  from found inv obtain r where r: "r < bn_count n" "bn_keys n ! r = k"
    by (auto simp: in_set_conv_nth bn_inv_def)
  have "fst (lowerBound k n) = r"
    using takeWhile_at [of "bn_keys n" r k] r inv by (simp add: lowerBound_correct bn_inv_def bn_order_def)
  with r inv show "fst (lowerBound k n) < bn_count n" "fst (bn_entries n ! fst (lowerBound k n)) = k"
    by (simp_all add: entries_facts(3) flip: map_fst_bn_entries)
qed

lemma removeInPage_correct:
  assumes inv: "bn_inv n"
  shows "fst (removeInPage k n) \<longleftrightarrow> k \<in> set (bn_keys n)" and "bn_inv (snd (removeInPage k n))"
    and "bn_entries (snd (removeInPage k n)) = filter (\<lambda>e. fst e \<noteq> k) (bn_entries n)"
    and "same_fences n (snd (removeInPage k n))"
proof -
  let ?i = "fst (lowerBound k n)"
  have "snd (lowerBound k n) \<longleftrightarrow> k \<in> set (bn_keys n)" by (simp add: lowerBound_correct [OF inv])
  then have rm: "removeInPage k n = (if k \<in> set (bn_keys n) then removeSlot ?i n else (False, n))"
    by (simp add: removeInPage_def case_prod_beta)
  have "fst (removeSlot j n)" for j by (simp add: removeSlot_def Let_def)
  with rm show "fst (removeInPage k n) \<longleftrightarrow> k \<in> set (bn_keys n)" by simp
  have rest: "bn_inv (snd (removeInPage k n)) \<and> same_fences n (snd (removeInPage k n)) \<and>
    bn_entries (snd (removeInPage k n)) = filter (\<lambda>e. fst e \<noteq> k) (bn_entries n)"
  proof (cases "k \<in> set (bn_keys n)")
    case True
    note f = lowerBound_found [OF inv True]
    from removeSlot_correct [OF inv f(1)] remove_at_filter [OF entries_facts(1) [OF inv]] f True
    show ?thesis by (simp add: rm entries_facts(3) [OF inv])
  next
    case False
    then have "filter (\<lambda>e. fst e \<noteq> k) (bn_entries n) = bn_entries n"
      by (auto simp: filter_id_conv set_bn_keys)
    with False show ?thesis by (simp add: rm inv same_fences_def)
  qed
  then show "bn_inv (snd (removeInPage k n))" "same_fences n (snd (removeInPage k n))"
    "bn_entries (snd (removeInPage k n)) = filter (\<lambda>e. fst e \<noteq> k) (bn_entries n)" by blast+
qed

subsection \<open>Overwriting a payload\<close>

lemma slot_read_apart:
  assumes "apart s t" and "sl_offset t + slot_len t \<le> length m" and "length bs = sl_payloadLen t"
  shows "slot_key (mem_write m (sl_offset t + sl_keyLen t) bs) s = slot_key m s"
    and "slot_val (mem_write m (sl_offset t + sl_keyLen t) bs) s = slot_val m s"
  using assms by (auto simp: apart_def slot_len_def slot_key_def slot_val_def mem_read_below mem_read_above)

lemma slot_read_self:
  assumes "sl_offset t + slot_len t \<le> length m" and "length bs = sl_payloadLen t"
  shows "slot_key (mem_write m (sl_offset t + sl_keyLen t) bs) t = slot_key m t"
    and "slot_val (mem_write m (sl_offset t + sl_keyLen t) bs) t = bs"
proof -
  have le: "sl_offset t + sl_keyLen t + length bs \<le> length m" using assms by (simp add: slot_len_def)
  then show "slot_key (mem_write m (sl_offset t + sl_keyLen t) bs) t = slot_key m t"
    by (simp add: slot_key_def mem_read_below)
  show "slot_val (mem_write m (sl_offset t + sl_keyLen t) bs) t = bs"
    using mem_read_written [OF le] assms(2) by (simp add: slot_val_def)
qed

lemma fence_read_apart:
  assumes "fence_apart f t" and "sl_offset t + slot_len t \<le> length m" and "length bs = sl_payloadLen t" and "l \<le> fk_len f"
  shows "mem_read (mem_write m (sl_offset t + sl_keyLen t) bs) (fk_offset f) l = mem_read m (fk_offset f) l"
  using assms by (cases "l = 0") (auto simp: fence_apart_def slot_len_def mem_read_below mem_read_above, simp add: mem_read_def)

lemma sorted_wrt_apart_nth:
  "sorted_wrt apart ss \<Longrightarrow> i < length ss \<Longrightarrow> j < length ss \<Longrightarrow> i \<noteq> j \<Longrightarrow> apart (ss ! i) (ss ! j)"
  by (metis apart_sym linorder_neqE_nat sorted_wrt_nth_less)

lemma setPayload_correct:
  assumes inv: "bn_inv n" and i: "i < bn_count n" and len: "length bs = sl_payloadLen (bn_slot n ! i)"
  defines "n' \<equiv> setPayload i bs n"
  shows "bn_inv n'" and "bn_entries n' = (bn_entries n)[i := (fst (bn_entries n ! i), bs)]"
    and "same_fences n n'" and "bn_next n' = bn_next n" and "bn_count n' = bn_count n" and "bn_slot n' = bn_slot n"
proof -
  let ?t = "bn_slot n ! i" and ?m = "mem_write (bn_mem n) (sl_offset (bn_slot n ! i) + sl_keyLen (bn_slot n ! i)) bs"
  from inv have lay: "bn_layout n" and heap: "heap_ok n (bn_slots n)" and hints: "bn_hints n"
    by (simp_all add: bn_inv_def bn_heap_def)
  have fld: "bn_mem n' = ?m" "bn_slots n' = bn_slots n" "bn_slot n' = bn_slot n" "bn_count n' = bn_count n"
    "bn_next n' = bn_next n" "bn_prefixLen n' = bn_prefixLen n" "bn_lowerFence n' = bn_lowerFence n"
    "bn_upperFence n' = bn_upperFence n" "bn_dataOffset n' = bn_dataOffset n" "bn_spaceUsed n' = bn_spaceUsed n"
    "bn_hint n' = bn_hint n" "bn_isLeaf n' = bn_isLeaf n"
    by (simp_all add: n'_def setPayload_def bn_slots_def)
  have t: "?t \<in> set (bn_slots n)" and ti: "bn_slots n ! i = ?t"
    using i lay nth_mem [of i "bn_slots n"] by (simp_all add: nth_bn_slots)
  have mem: "length (bn_mem n) = pageSize" using lay by (simp add: bn_layout_def page_ok_def)
  from t heap have ok: "sl_offset ?t + slot_len ?t \<le> length (bn_mem n)"
    and fa: "fence_apart (bn_lowerFence n) ?t" "fence_apart (bn_upperFence n) ?t"
    by (auto simp: heap_ok_def slot_ok_def mem)
  have fences: "getLowerFence n' = getLowerFence n" "getUpperFence n' = getUpperFence n"
    using fence_read_apart [OF fa(1) ok len order_refl] fence_read_apart [OF fa(2) ok len order_refl]
    by (simp_all add: getLowerFence_def getUpperFence_def fld)
  have "bn_prefixLen n \<le> fk_len (bn_lowerFence n)"
    using inv commonLen_le(1) [of "getLowerFence n" "getUpperFence n"] getLowerFence_length [of n]
    by (simp add: bn_inv_def bn_order_def)
  then have pre: "bn_prefix n' = bn_prefix n"
    using fence_read_apart [OF fa(1) ok len] by (simp add: bn_prefix_def fld)
  have keys: "slot_key ?m (bn_slots n ! j) = slot_key (bn_mem n) (bn_slots n ! j)"
    and vals: "j \<noteq> i \<Longrightarrow> slot_val ?m (bn_slots n ! j) = slot_val (bn_mem n) (bn_slots n ! j)"
    if j: "j < bn_count n" for j
  proof -
    have ap: "apart (bn_slots n ! j) ?t" if "j \<noteq> i"
      using sorted_wrt_apart_nth [of "bn_slots n" j i] heap j i lay that ti by (simp add: heap_ok_def)
    show "slot_key ?m (bn_slots n ! j) = slot_key (bn_mem n) (bn_slots n ! j)"
      using slot_read_apart(1) [OF ap ok len] slot_read_self(1) [OF ok len] ti by (cases "j = i") auto
    show "j \<noteq> i \<Longrightarrow> slot_val ?m (bn_slots n ! j) = slot_val (bn_mem n) (bn_slots n ! j)"
      using slot_read_apart(2) [OF ap ok len] by blast
  qed
  show entries: "bn_entries n' = (bn_entries n)[i := (fst (bn_entries n ! i), bs)]"
    using keys vals slot_read_self(2) [OF ok len] i lay ti
    by (auto simp: bn_entries_def fld pre nth_list_update intro!: nth_equalityI)
  have "slot_ok ?m lo s" if "slot_ok (bn_mem n) lo s" "s \<in> set (bn_slots n)" for lo s
    using that keys lay by (auto simp: slot_ok_def in_set_conv_nth)
  then have "bn_heap n'"
    using heap by (simp add: bn_heap_def heap_ok_def fld)
  moreover have "bn_layout n'" using lay ok len by (simp add: bn_layout_def page_ok_def fld slot_len_def)
  moreover have "bn_keys n' = bn_keys n"
    unfolding map_fst_bn_entries [symmetric] entries
    using i entries_facts(3) [OF inv] by (simp add: map_update) (metis list_update_id map_fst_bn_entries nth_map)
  then have "bn_order n'" using inv by (simp add: bn_inv_def bn_order_def fences fld)
  moreover have "bn_hints n'" using hints by (simp add: bn_hints_def hintAt_def fld)
  ultimately show "bn_inv n'" by (simp add: bn_inv_def)
  show "same_fences n n'" "bn_next n' = bn_next n" "bn_count n' = bn_count n" "bn_slot n' = bn_slot n"
    by (simp_all add: same_fences_def fences fld)
qed

end
