(* ===== verification/Btree_Split.thy ===== *)
theory Btree_Split
  imports Btree_Remove
begin

section \<open>Separators, splits and merges\<close>

text \<open>
  The separator \<open>findSeparator\<close> and \<open>getSep\<close> choose lies between the keys it separates; splitting a
  leaf at such a separator distributes its entries over two pages with matching fences, and
  merging two neighbours concatenates their entries.
\<close>

subsection \<open>Separators\<close>

lemma commonLen_take_min:
  "commonLen (take (min (length a) (length b)) a) (take (min (length a) (length b)) b) = commonLen a b"
  by (induction a b rule: commonLen.induct) auto

lemma commonLen_sep:
  fixes a b :: bytes
  assumes "a < b" and "commonLen a b < length a" and "commonLen a b + 1 < length b"
  shows "a < take (commonLen a b + 1) b \<and> take (commonLen a b + 1) b < b"
  using assms
proof (induction a b rule: commonLen.induct)
  case (1 x xs y ys)
  show ?case
  proof (cases "x = y")
    case True
    with 1 show ?thesis by auto
  next
    case False
    with 1 show ?thesis by (auto simp: take_Suc_conv_app_nth neq_Nil_conv)
  qed
qed auto

lemma take_getKey:
  assumes "l \<le> sl_keyLen (bn_slot n ! i)"
  shows "take l (getKey n i) = take l (slot_key (bn_mem n) (bn_slot n ! i))"
  using assms by (simp add: getKey_def slot_key_def mem_read_def min_absorb1)

lemma commonPrefix_correct:
  assumes inv: "bn_inv n" and a: "a < bn_count n" and b: "b < bn_count n"
  shows "commonPrefix n a b = Inr (commonLen (suffix_keys n ! a) (suffix_keys n ! b))"
proof -
  from inv have lay: "bn_layout n" and heap: "bn_heap n" by (simp_all add: bn_inv_def)
  let ?k = "\<lambda>i. slot_key (bn_mem n) (bn_slot n ! i)"
  have len: "length (?k i) = sl_keyLen (bn_slot n ! i)" if "i < bn_count n" for i
    by (rule slot_entry(2) [OF lay heap that])
  have "suffix_keys n ! i = ?k i" if "i < bn_count n" for i
    using that lay by (simp add: suffix_keys_def nth_bn_slots)
  with a b len [OF a] len [OF b] commonLen_take_min [of "?k a" "?k b"] show ?thesis
    by (simp add: commonPrefix_def take_getKey)
qed

lemma bestSlotLoop_range:
  assumes inv: "bn_inv n" and "bestSlot + left \<le> bn_count n" and "0 < bn_count n"
  shows "\<exists>r. bestSlotLoop n best bestSlot left = Inr r \<and> bestSlot \<le> r \<and> r \<le> bestSlot + left"
  using assms(2)
proof (induction left arbitrary: bestSlot)
  case (Suc left)
  have "commonPrefix n bestSlot 0 = Inr (commonLen (suffix_keys n ! bestSlot) (suffix_keys n ! 0))"
    by (rule commonPrefix_correct [OF inv]) (use Suc.prems assms(3) in auto)
  with Suc.IH [of "bestSlot + 1"] Suc.prems show ?case
    by (auto intro: exI [of _ bestSlot])
qed simp

text \<open>A separator of a leaf: at least the key of its slot, less than the next key.\<close>

definition separates :: "BTreeNode \<Rightarrow> nat \<Rightarrow> bytes \<Rightarrow> bool" where
  "separates n i sep \<longleftrightarrow> i + 1 < bn_count n \<and> bn_keys n ! i \<le> sep \<and> sep < bn_keys n ! (i + 1)"

lemma nth_bn_keys:
  "bn_layout n \<Longrightarrow> i < bn_count n \<Longrightarrow> bn_keys n ! i = bn_prefix n @ suffix_keys n ! i"
  by (simp add: bn_keys_suffix)

lemma take_prefix: "take (bn_prefixLen n) (getPrefix n) = bn_prefix n"
  by (simp add: getPrefix_def bn_prefix_def mem_read_def)

lemma separator_at:
  assumes inv: "bn_inv n" and i: "i + 1 < bn_count n"
    and common: "common = commonLen (suffix_keys n ! i) (suffix_keys n ! (i + 1))"
  defines "info \<equiv> (if common < sl_keyLen (bn_slot n ! i) \<and> common + 1 < sl_keyLen (bn_slot n ! (i + 1))
      then \<lparr>si_len = bn_prefixLen n + common + 1, si_slot = i, si_isTruncated = True\<rparr>
      else \<lparr>si_len = bn_prefixLen n + sl_keyLen (bn_slot n ! i), si_slot = i, si_isTruncated = False\<rparr>)"
  shows "separates n i (getSep info n)" and "length (getSep info n) = si_len info"
    and "length (getSep info n) \<le> max (length (bn_keys n ! i)) (length (bn_keys n ! (i + 1)))"
proof -
  from inv have lay: "bn_layout n" and heap: "bn_heap n" by (simp_all add: bn_inv_def)
  let ?k = "\<lambda>i. suffix_keys n ! i"
  have key: "slot_key (bn_mem n) (bn_slot n ! j) = ?k j" "length (?k j) = sl_keyLen (bn_slot n ! j)" if "j < bn_count n" for j
    using that lay slot_entry(2) [OF lay heap that] by (simp_all add: suffix_keys_def nth_bn_slots)
  have less: "?k i < ?k (i + 1)"
    using sorted_wrt_nth_less [OF sorted_suffix_keys [OF inv], of i "i + 1"] i lay by simp
  have j: "i < bn_count n" "i + 1 < bn_count n" using i by simp_all
  have sep: "getSep info n = bn_prefix n @ (if si_isTruncated info then take (common + 1) (?k (i + 1)) else ?k i)"
    using take_getKey [of "common + 1" n "i + 1"] take_getKey [of "sl_keyLen (bn_slot n ! i)" n i] key j
    by (auto simp: info_def getSep_def take_prefix)
  have len: "length (getSep info n) = si_len info"
    unfolding sep using key(2) j bn_prefix_fence(3) [OF inv] by (auto simp: info_def)
  note sep
  moreover have "?k i < take (common + 1) (?k (i + 1)) \<and> take (common + 1) (?k (i + 1)) < ?k (i + 1)"
    if "si_isTruncated info"
    using commonLen_sep [OF less] that key j common by (auto simp: info_def split: if_splits)
  ultimately show "separates n i (getSep info n)"
    using less i lay by (auto simp: separates_def nth_bn_keys)
  show "length (getSep info n) = si_len info" by (rule len)
  show "length (getSep info n) \<le> max (length (bn_keys n ! i)) (length (bn_keys n ! (i + 1)))"
    unfolding sep using j lay by (auto simp: nth_bn_keys)
qed

lemma findSeparator_leaf:
  assumes inv: "bn_inv n" and leaf: "bn_isLeaf n" and two: "1 < bn_count n"
  shows "\<exists>info. findSeparator ordered n = Inr info \<and> separates n (si_slot info) (getSep info n) \<and>
    length (getSep info n) = si_len info \<and> (2 < bn_count n \<longrightarrow> 0 < si_slot info) \<and>
    length (getSep info n) \<le> max (length (bn_keys n ! si_slot info)) (length (bn_keys n ! (si_slot info + 1)))"
proof -
  let ?c = "bn_count n"
  define best where "best = (if ordered then Inr (?c - 2)
      else if 16 < ?c then
        let lower = ?c div 2 - ?c div 16; upper = ?c div 2
        in rbind (commonPrefix n lower 0) (\<lambda>bestPrefixLen.
           rbind (commonPrefix n (upper - 1) 0) (\<lambda>c.
           if bestPrefixLen \<noteq> c then bestSlotLoop n bestPrefixLen (lower + 1) (upper - (lower + 1)) else Inr lower))
      else Inr ((?c - 1) div 2))"
  have "\<exists>i. best = Inr i \<and> i + 1 < ?c \<and> (2 < ?c \<longrightarrow> 0 < i)"
  proof (cases "ordered \<or> ?c \<le> 16")
    case True
    moreover have "2 < ?c \<longrightarrow> 0 < (?c - 1) div 2" by auto
    ultimately show ?thesis using two by (auto simp: best_def)
  next
    case False
    define u where "u = ?c div 2"
    define l where "l = u - ?c div 16"
    have c: "16 < ?c" using False by simp
    have "2 * u \<le> ?c" by (simp add: u_def)
    moreover have "1 \<le> ?c div 16" "?c div 16 \<le> u"
      using div_le_mono [of 16 ?c 16] div_le_mono2 [of 2 16 ?c] c by (simp_all add: u_def)
    moreover note l_def
    ultimately have r: "l < ?c" "u - 1 < ?c" "l + 1 \<le> u" "u + 1 < ?c" using c by linarith+
    have "commonPrefix n l 0 = Inr (commonLen (suffix_keys n ! l) (suffix_keys n ! 0))"
      "commonPrefix n (u - 1) 0 = Inr (commonLen (suffix_keys n ! (u - 1)) (suffix_keys n ! 0))"
      by (rule commonPrefix_correct [OF inv]; use r two in simp)+
    moreover have "\<exists>i. bestSlotLoop n b (l + 1) (u - (l + 1)) = Inr i \<and> i + 1 < ?c \<and> 0 < i" for b
      using bestSlotLoop_range [OF inv, of "l + 1" "u - (l + 1)" b] r two by fastforce
    moreover have "0 < l"
      using c div_mult_mod_eq [of ?c 16] div_mult_mod_eq [of ?c 2] mod_less_divisor [of 16 ?c] mod_less_divisor [of 2 ?c]
      unfolding l_def u_def by linarith
    ultimately show ?thesis
      using c False r unfolding best_def Let_def u_def [symmetric] l_def [symmetric] by (auto simp del: One_nat_def)
  qed
  then obtain i where i: "best = Inr i" "i + 1 < ?c" "2 < ?c \<longrightarrow> 0 < i" by blast
  let ?common = "commonLen (suffix_keys n ! i) (suffix_keys n ! (i + 1))"
  have "commonPrefix n i (i + 1) = Inr ?common"
    by (rule commonPrefix_correct [OF inv]) (use i in simp_all)
  then have "findSeparator ordered n = Inr (if ?common < sl_keyLen (bn_slot n ! i) \<and> ?common + 1 < sl_keyLen (bn_slot n ! (i + 1))
      then \<lparr>si_len = bn_prefixLen n + ?common + 1, si_slot = i, si_isTruncated = True\<rparr>
      else \<lparr>si_len = bn_prefixLen n + sl_keyLen (bn_slot n ! i), si_slot = i, si_isTruncated = False\<rparr>)"
    unfolding findSeparator_def best_def [symmetric] using two leaf i by simp
  with separator_at [OF inv i(2) refl] i(3) show ?thesis by auto
qed

text \<open>An inner page is split at its middle key.\<close>

lemma findSeparator_inner:
  assumes inv: "bn_inv n" and inner: "\<not> bn_isLeaf n" and two: "1 < bn_count n"
  shows "\<exists>info. findSeparator ordered n = Inr info \<and> si_slot info = bn_count n div 2 \<and>
    getSep info n = bn_keys n ! (bn_count n div 2) \<and> length (getSep info n) = si_len info"
proof -
  from inv have lay: "bn_layout n" and heap: "bn_heap n" by (simp_all add: bn_inv_def)
  let ?i = "bn_count n div 2"
  have i: "?i < bn_count n" using two by simp
  let ?info = "\<lparr>si_len = bn_prefixLen n + sl_keyLen (bn_slot n ! ?i), si_slot = ?i, si_isTruncated = False\<rparr>"
  have k: "slot_key (bn_mem n) (bn_slot n ! ?i) = suffix_keys n ! ?i" "length (suffix_keys n ! ?i) = sl_keyLen (bn_slot n ! ?i)"
    using i lay slot_entry(2) [OF lay heap i] by (simp_all add: suffix_keys_def nth_bn_slots)
  then have sep: "getSep ?info n = bn_keys n ! ?i"
    using take_getKey [of "sl_keyLen (bn_slot n ! ?i)" n ?i] i lay by (simp add: getSep_def take_prefix nth_bn_keys)
  moreover have "length (bn_keys n ! ?i) = si_len ?info"
    using k i lay bn_prefix_fence(3) [OF inv] by (simp add: nth_bn_keys)
  moreover have "findSeparator ordered n = Inr ?info" using inner two by (simp add: findSeparator_def Let_def)
  ultimately show ?thesis by auto
qed

subsection \<open>The parent of a split page\<close>

text \<open>
  An inner page routes: its keys separate its children, the payloads of the slots and the upper
  child. A split replaces one child by two with the separator between them.
\<close>

definition bn_children :: "BTreeNode \<Rightarrow> PID list" where
  "bn_children n = map (\<lambda>e. load_pid (snd e)) (bn_entries n) @ [bn_next n]"

definition inner_ok :: "BTreeNode \<Rightarrow> bool" where
  "inner_ok n \<longleftrightarrow> bn_inv n \<and> \<not> bn_isLeaf n \<and> (\<forall>e \<in> set (bn_entries n). length (snd e) = 8)"

lemma length_bn_children: "bn_inv n \<Longrightarrow> length (bn_children n) = bn_count n + 1"
  by (simp add: bn_children_def entries_facts(3))

lemma load_pid_take: "load_pid (take 8 bs) = load_pid bs"
  by (simp add: load_pid_def)

lemma getChild_nth:
  assumes "inner_ok n" and "i < bn_count n"
  shows "getChild n i = bn_children n ! i" and "sl_payloadLen (bn_slot n ! i) = 8"
proof -
  from assms have inv: "bn_inv n" and lay: "bn_layout n" and heap: "bn_heap n" by (simp_all add: inner_ok_def bn_inv_def)
  note e = slot_entry [OF lay heap assms(2)]
  have "bn_entries n ! i \<in> set (bn_entries n)" using assms(2) entries_facts(3) [OF inv] by simp
  with assms(1) e(1,3) show len: "sl_payloadLen (bn_slot n ! i) = 8" by (auto simp: inner_ok_def)
  have "bn_children n ! i = load_pid (slot_val (bn_mem n) (bn_slot n ! i))"
    using assms(2) entries_facts(3) [OF inv] e(1) by (simp add: bn_children_def nth_append)
  then show "getChild n i = bn_children n ! i"
    using load_pid_take len by (simp add: getChild_def slot_val_def mem_read_def)
qed

lemma hasSpaceFor_frame:
  "hasSpaceFor k v (setPayload i bs n) = hasSpaceFor k v n" "hasSpaceFor k v (n\<lparr>bn_next := p\<rparr>) = hasSpaceFor k v n"
  by (simp_all add: hasSpaceFor_def spaceNeeded_def freeSpaceAfterCompaction_def setPayload_def)

lemma bn_inv_next: "bn_inv (n\<lparr>bn_next := p\<rparr>) = bn_inv n"
  by (simp add: bn_inv_def bn_order_def bn_hints_def hintAt_def)

text \<open>Position of a new key among the entries, which only depends on their keys.\<close>

lemma sorted_insert_at:
  assumes "i = length (takeWhile (\<lambda>x. x < k) (map fst es))"
  shows "sorted_insert k v es = take i es @ (k, v) # drop i es"
proof -
  have "i = length (takeWhile (\<lambda>e. fst e < k) es)" using assms by (simp add: takeWhile_fst)
  then show ?thesis by (simp only: sorted_insert_def takeWhile_eq_take [symmetric] dropWhile_eq_drop [symmetric])
qed

definition link_parent :: "PID \<Rightarrow> bytes \<Rightarrow> PID \<Rightarrow> BTreeNode \<Rightarrow> BTreeNode result" where
  "link_parent leftPID sep newPid parent =
     (let oldParentSlot = fst (lowerBound sep parent)
      in if oldParentSlot = bn_count parent
         then rbind (check (bn_next parent = leftPID) (Assert ''parent->upperInnerNode == leftPID''))
                (\<lambda>_. Inr (parent\<lparr>bn_next := newPid\<rparr>))
         else rbind (check (getChild parent oldParentSlot = leftPID)
                (Assert ''parent->getChild(oldParentSlot) == leftPID''))
                (\<lambda>_. Inr (setPayload oldParentSlot (pid_bytes newPid) parent)))"

lemma link_parent_correct:
  assumes ok: "inner_ok parent" and raw: "raw_ok raw" and new: "sep \<notin> set (bn_keys parent)"
    and w: "within (getLowerFence parent) (getUpperFence parent) sep"
    and space: "hasSpaceFor (length sep) 8 parent" and small: "length sep < 65000"
    and o_def: "o' = length (takeWhile (\<lambda>x. x < sep) (bn_keys parent))"
    and child: "bn_children parent ! o' = leftPID"
  shows "\<exists>p1 p2. link_parent leftPID sep newPid parent = Inr p1 \<and> insertInPage raw sep (pid_bytes leftPID) p1 = Inr p2 \<and>
    inner_ok p2 \<and> same_fences parent p2 \<and> bn_keys p2 = take o' (bn_keys parent) @ sep # drop o' (bn_keys parent) \<and>
    bn_children p2 = take o' (bn_children parent) @ leftPID # newPid # drop (Suc o') (bn_children parent)"
proof -
  from ok have inv: "bn_inv parent" by (simp add: inner_ok_def)
  let ?es = "bn_entries parent" and ?c = "bn_count parent"
  have lenk: "length (bn_keys parent) = ?c" and lene: "length ?es = ?c"
    using inv entries_facts(3) [OF inv] by (simp_all add: bn_inv_def)
  have o_le: "o' \<le> ?c" unfolding o_def using length_takeWhile_le [of _ "bn_keys parent"] lenk by simp
  have o: "fst (lowerBound sep parent) = o'" by (simp add: lowerBound_correct [OF inv] o_def)
  define p1 where "p1 = (if o' = ?c then parent\<lparr>bn_next := newPid\<rparr> else setPayload o' (pid_bytes newPid) parent)"
  have chk: "link_parent leftPID sep newPid parent = Inr p1"
  proof (cases "o' = ?c")
    case True
    then show ?thesis using child lene o by (simp add: link_parent_def p1_def bn_children_def nth_append)
  next
    case False
    then have "getChild parent o' = leftPID" using getChild_nth(1) [OF ok, of o'] o_le child by simp
    then show ?thesis using False o by (simp add: link_parent_def p1_def)
  qed
  define es1 where "es1 = (if o' = ?c then ?es else ?es[o' := (fst (?es ! o'), pid_bytes newPid)])"
  define nx where "nx = (if o' = ?c then newPid else bn_next parent)"
  have p1: "bn_inv p1" "bn_entries p1 = es1" "same_fences parent p1" "bn_next p1 = nx" "bn_isLeaf p1 = bn_isLeaf parent"
    using setPayload_correct [OF inv, of o' "pid_bytes newPid"] getChild_nth(2) [OF ok, of o'] o_le inv
    by (auto simp: p1_def es1_def nx_def bn_inv_next same_fences_def)
  have keys1: "map fst es1 = bn_keys parent"
    using lene o_le nth_map [of o' ?es fst, symmetric]
    by (cases "o' = ?c") (simp_all add: es1_def map_update)
  have lens1: "\<forall>e \<in> set es1. length (snd e) = 8"
    using ok set_update_subset_insert [of ?es o' "(fst (?es ! o'), pid_bytes newPid)"]
    by (auto simp: es1_def inner_ok_def split: if_splits)
  have hs: "hasSpaceFor (length sep) 8 p1" using space by (simp add: p1_def hasSpaceFor_frame)
  have "sep \<notin> set (bn_keys p1)"
    using new keys1 map_fst_bn_entries [of p1] by (simp add: p1(2))
  moreover have "within (getLowerFence p1) (getUpperFence p1) sep"
    using w p1(3) by (simp add: same_fences_def)
  ultimately obtain p2 where p2: "insertInPage raw sep (pid_bytes leftPID) p1 = Inr p2" "bn_inv p2"
    "bn_entries p2 = sorted_insert sep (pid_bytes leftPID) es1" "same_fences p1 p2" "bn_next p2 = nx"
    using insertInPage_correct [OF p1(1) raw, of sep "pid_bytes leftPID"] hs small p1(2,4) by auto
  have ins: "bn_entries p2 = take o' es1 @ (sep, pid_bytes leftPID) # drop o' es1"
    unfolding p2(3) by (rule sorted_insert_at) (simp add: keys1 o_def)
  have "inner_ok p2"
    using p2(2,4) p1(3,5) ok lens1 unfolding inner_ok_def ins
    by (auto simp: same_fences_def dest: in_set_takeD in_set_dropD)
  moreover have "bn_keys p2 = take o' (bn_keys parent) @ sep # drop o' (bn_keys parent)"
    unfolding map_fst_bn_entries [symmetric] ins by (simp add: keys1 take_map [symmetric] drop_map [symmetric])
  moreover have "bn_children p2 = take o' (bn_children parent) @ leftPID # newPid # drop (Suc o') (bn_children parent)"
  proof (cases "o' = ?c")
    case True
    then show ?thesis using lene by (simp add: bn_children_def ins p2(5) es1_def nx_def)
  next
    case False
    then have "o' < length ?es" using o_le lene by simp
    then show ?thesis
      by (simp add: bn_children_def ins p2(5) es1_def nx_def False lene drop_map take_map
          drop_update_swap Cons_nth_drop_Suc [symmetric] flip: lene)
  qed
  ultimately show ?thesis using chk p2(1) p1(3) p2(4) by (auto simp: same_fences_def)
qed

subsection \<open>Splitting a page\<close>

definition page_fits :: "bytes \<Rightarrow> bytes \<Rightarrow> (bytes \<times> bytes) list \<Rightarrow> bool" where
  "page_fits lower upper es \<longleftrightarrow> slotEnd (length es) + length lower + length upper +
     sum_list (map (entry_len (commonLen lower upper)) es) \<le> pageSize"

lemma fill_half:
  assumes inv: "bn_inv n" and raw: "raw_ok raw" and range: "i + c \<le> bn_count n"
    and es: "es = take c (drop i (bn_entries n))" and w: "\<forall>k \<in> fst ` set es. within lower upper k"
    and fits: "page_fits lower upper es"
  shows "\<exists>t d. setFences lower upper (bn_construct leaf raw) = Inr t \<and> copyKeyValueRange n 0 i c t = Inr d \<and>
    filled leaf lower upper es d"
proof -
  have len: "length es = c" using range entries_facts(3) [OF inv] by (simp add: es)
  have "length lower + length upper \<le> 4000" using fits by (simp add: page_fits_def slotEnd_def layout_defs)
  from fresh_filled [OF raw this] obtain t where
    t: "setFences lower upper (bn_construct leaf raw) = Inr t" "filled leaf lower upper [] t" by blast
  with fill_more [OF bn_inv_src_ok [OF inv] t(2) range es w] fits len show ?thesis
    by (auto simp: page_fits_def filled_def)
qed

lemma sorted_take_drop:
  "sorted_wrt (<) (map fst es) \<Longrightarrow> sorted_wrt (<) (map fst (take c (drop i es)))"
  by (simp add: take_map [symmetric] drop_map [symmetric] sorted_wrt_take sorted_wrt_drop)

lemma splitNode_link:
  assumes "0 < sepSlot" and "sepSlot < 512"
  shows "splitNode raw (Some (newPid, newPage)) leftPID parent sepSlot sep n =
     rbind (setFences (getLowerFence n) sep (bn_construct (bn_isLeaf n) raw)) (\<lambda>left0.
     rbind (setFences sep (getUpperFence n) (bn_construct (bn_isLeaf n) newPage)) (\<lambda>right0.
     rbind (link_parent leftPID sep newPid parent) (\<lambda>parent1.
     rbind (insertInPage raw sep (pid_bytes leftPID) parent1) (\<lambda>parent2.
     rbind (if bn_isLeaf n
            then
              rbind (copyKeyValueRange n 0 0 (sepSlot + 1) left0) (\<lambda>left1.
              rbind (copyKeyValueRange n 0 (bn_count left1) (bn_count n - bn_count left1) right0) (\<lambda>right1.
              Inr (left1\<lparr>bn_next := newPid\<rparr>, right1\<lparr>bn_next := bn_next n\<rparr>)))
            else
              rbind (copyKeyValueRange n 0 0 sepSlot left0) (\<lambda>left1.
              rbind (copyKeyValueRange n 0 (bn_count left1 + 1) (bn_count n - bn_count left1 - 1) right0)
                (\<lambda>right1.
              Inr (left1\<lparr>bn_next := getChild n (bn_count left1)\<rparr>, right1\<lparr>bn_next := bn_next n\<rparr>))))
       (\<lambda>(left2, right2). Inr (OK, makeHint left2, parent2, Some (makeHint right2)))))))"
  using assms by (simp add: splitNode_def link_parent_def Let_def pageSize_def)

lemma within_left:
  assumes inv: "bn_inv n" and k: "k \<in> set (bn_keys n)" and le: "k \<le> sep"
  shows "within (getLowerFence n) sep k"
  using assms by (auto simp: bn_inv_def bn_order_def within_def)

lemma within_right:
  assumes inv: "bn_inv n" and k: "k \<in> set (bn_keys n)" and less: "sep < k"
  shows "within sep (getUpperFence n) k"
  using assms by (auto simp: bn_inv_def bn_order_def within_def)

lemma keys_below:
  assumes inv: "bn_inv n" and i: "i < bn_count n" and k: "k \<in> fst ` set (take c (bn_entries n))" and c: "c \<le> i + 1"
  shows "k \<in> set (bn_keys n)" and "k \<le> bn_keys n ! i" and "c \<le> i \<Longrightarrow> k < bn_keys n ! i"
proof -
  have srt: "sorted_wrt (<) (bn_keys n)" and len: "length (bn_keys n) = bn_count n"
    using inv by (simp_all add: bn_inv_def bn_order_def)
  from k obtain j where j: "j < c" "j < bn_count n" "k = bn_keys n ! j"
    using entries_facts(3) [OF inv] by (auto simp: in_set_conv_nth simp flip: map_fst_bn_entries)
  then show "k \<in> set (bn_keys n)" using len by simp
  show "k \<le> bn_keys n ! i"
    using sorted_wrt_nth_less [OF srt, of j i] j i c len by (cases "j = i") auto
  show "c \<le> i \<Longrightarrow> k < bn_keys n ! i"
    using sorted_wrt_nth_less [OF srt, of j i] j i len by auto
qed

lemma keys_above:
  assumes inv: "bn_inv n" and i: "i < bn_count n" and k: "k \<in> fst ` set (take c (drop b (bn_entries n)))" and b: "i \<le> b"
  shows "k \<in> set (bn_keys n)" and "bn_keys n ! i \<le> k" and "i < b \<Longrightarrow> bn_keys n ! i < k"
proof -
  have srt: "sorted_wrt (<) (bn_keys n)" and len: "length (bn_keys n) = bn_count n"
    using inv by (simp_all add: bn_inv_def bn_order_def)
  have "drop b (bn_keys n) = map fst (drop b (bn_entries n))" by (metis drop_map map_fst_bn_entries)
  then have "k \<in> set (drop b (bn_keys n))" using k by (auto dest: in_set_takeD)
  then obtain d where "d < bn_count n - b" "k = bn_keys n ! (b + d)"
    using len by (auto simp: in_set_conv_nth)
  then obtain j where j: "b \<le> j" "j < bn_count n" "k = bn_keys n ! j"
    by (metis le_add1 less_diff_conv add.commute)
  then show "k \<in> set (bn_keys n)" using len by simp
  show "bn_keys n ! i \<le> k"
    using sorted_wrt_nth_less [OF srt, of i j] j b len by (cases "j = i") auto
  show "i < b \<Longrightarrow> bn_keys n ! i < k"
    using sorted_wrt_nth_less [OF srt, of i j] j len by auto
qed

text \<open>
  What a split promises, for leaves and inner pages: the left page holds the first \<open>a\<close> entries
  below the separator, the right page those from \<open>b\<close> on.
\<close>

lemma split_halves:
  assumes inv: "bn_inv n" and raw: "raw_ok raw" and new: "raw_ok newPage" and ab: "a \<le> b" "b \<le> bn_count n"
    and left: "\<forall>k \<in> fst ` set (take a (bn_entries n)). k \<le> sep"
    and right: "\<forall>k \<in> fst ` set (drop b (bn_entries n)). sep < k"
    and fits: "page_fits (getLowerFence n) sep (take a (bn_entries n))"
      "page_fits sep (getUpperFence n) (drop b (bn_entries n))"
  shows "\<exists>l0 l r0 r. setFences (getLowerFence n) sep (bn_construct (bn_isLeaf n) raw) = Inr l0 \<and>
    copyKeyValueRange n 0 0 a l0 = Inr l \<and>
    setFences sep (getUpperFence n) (bn_construct (bn_isLeaf n) newPage) = Inr r0 \<and>
    copyKeyValueRange n 0 b (bn_count n - b) r0 = Inr r \<and>
    filled (bn_isLeaf n) (getLowerFence n) sep (take a (bn_entries n)) l \<and> bn_count l = a \<and>
    filled (bn_isLeaf n) sep (getUpperFence n) (drop b (bn_entries n)) r \<and>
    (\<forall>p. bn_inv (makeHint (l\<lparr>bn_next := p\<rparr>)) \<and> bn_inv (makeHint (r\<lparr>bn_next := p\<rparr>)))"
proof -
  have len: "length (bn_entries n) = bn_count n" by (rule entries_facts(3) [OF inv])
  have wl: "\<forall>k \<in> fst ` set (take a (bn_entries n)). within (getLowerFence n) sep k"
  proof
    fix k
    assume k: "k \<in> fst ` set (take a (bn_entries n))"
    then have "k \<in> set (bn_keys n)" by (auto simp: set_bn_keys dest: in_set_takeD)
    with k left within_left [OF inv] show "within (getLowerFence n) sep k" by blast
  qed
  have wr: "\<forall>k \<in> fst ` set (drop b (bn_entries n)). within sep (getUpperFence n) k"
  proof
    fix k
    assume k: "k \<in> fst ` set (drop b (bn_entries n))"
    then have "k \<in> set (bn_keys n)" by (auto simp: set_bn_keys dest: in_set_dropD)
    with k right within_right [OF inv] show "within sep (getUpperFence n) k" by blast
  qed
  obtain l0 l where l: "setFences (getLowerFence n) sep (bn_construct (bn_isLeaf n) raw) = Inr l0"
    "copyKeyValueRange n 0 0 a l0 = Inr l" "filled (bn_isLeaf n) (getLowerFence n) sep (take a (bn_entries n)) l"
    using fill_half [where i = 0 and c = a and leaf = "bn_isLeaf n", OF inv raw _ _ wl fits(1)] ab by auto
  obtain r0 r where r: "setFences sep (getUpperFence n) (bn_construct (bn_isLeaf n) newPage) = Inr r0"
    "copyKeyValueRange n 0 b (bn_count n - b) r0 = Inr r"
    "filled (bn_isLeaf n) sep (getUpperFence n) (drop b (bn_entries n)) r"
    using fill_half [where i = b and c = "bn_count n - b" and leaf = "bn_isLeaf n", OF inv new _ _ wr fits(2)] ab len
    by auto
  have srt: "sorted_wrt (<) (map fst (bn_entries n))" by (rule entries_facts(1) [OF inv])
  have "bn_inv (makeHint (l\<lparr>bn_next := p\<rparr>))" "bn_inv (makeHint (r\<lparr>bn_next := p\<rparr>))" for p
    using filled_inv(1) [OF l(3) _ wl] filled_inv(1) [OF r(3) _ wr] sorted_take_drop [OF srt, of a 0]
      sorted_take_drop [OF srt, of "bn_count n - b" b] len by simp_all
  moreover have "bn_count l = a" using l(3) ab len by (simp add: filled_def)
  ultimately show ?thesis using l r by blast
qed

text \<open>The demands on the parent: room for the separator, and the page is its child there.\<close>

definition parent_of :: "PID \<Rightarrow> bytes \<Rightarrow> BTreeNode \<Rightarrow> bool" where
  "parent_of pid sep parent \<longleftrightarrow> inner_ok parent \<and> sep \<notin> set (bn_keys parent) \<and>
     within (getLowerFence parent) (getUpperFence parent) sep \<and> hasSpaceFor (length sep) 8 parent \<and>
     bn_children parent ! length (takeWhile (\<lambda>x. x < sep) (bn_keys parent)) = pid"

definition split_parent :: "PID \<Rightarrow> bytes \<Rightarrow> PID \<Rightarrow> BTreeNode \<Rightarrow> BTreeNode \<Rightarrow> bool" where
  "split_parent pid sep newPid parent parent' \<longleftrightarrow>
     (let o' = length (takeWhile (\<lambda>x. x < sep) (bn_keys parent))
      in inner_ok parent' \<and> same_fences parent parent' \<and>
         bn_keys parent' = take o' (bn_keys parent) @ sep # drop o' (bn_keys parent) \<and>
         bn_children parent' = take o' (bn_children parent) @ pid # newPid # drop (Suc o') (bn_children parent))"

lemma link_parent_split:
  assumes "parent_of pid sep parent" and "raw_ok raw" and "length sep \<le> 4096"
  shows "\<exists>p1 p2. link_parent pid sep newPid parent = Inr p1 \<and> insertInPage raw sep (pid_bytes pid) p1 = Inr p2 \<and>
    split_parent pid sep newPid parent p2"
  using link_parent_correct [OF _ assms(2), of parent sep _ pid newPid] assms
  by (simp add: parent_of_def split_parent_def Let_def)

lemma splitNode_leaf:
  assumes inv: "bn_inv n" and leaf: "bn_isLeaf n" and raw: "raw_ok raw" "raw_ok newPage"
    and sep: "separates n i sep" "0 < i" and parent: "parent_of pid sep parent"
    and fits: "page_fits (getLowerFence n) sep (take (i + 1) (bn_entries n))"
      "page_fits sep (getUpperFence n) (drop (i + 1) (bn_entries n))"
  shows "\<exists>l p r. splitNode raw (Some (newPid, newPage)) pid parent i sep n = Inr (OK, l, p, Some r) \<and>
    bn_inv l \<and> bn_inv r \<and> bn_isLeaf l \<and> bn_isLeaf r \<and>
    bn_entries l = take (i + 1) (bn_entries n) \<and> bn_entries r = drop (i + 1) (bn_entries n) \<and>
    getLowerFence l = getLowerFence n \<and> getUpperFence l = sep \<and>
    getLowerFence r = sep \<and> getUpperFence r = getUpperFence n \<and>
    bn_next l = newPid \<and> bn_next r = bn_next n \<and> split_parent pid sep newPid parent p"
proof -
  from sep have i: "i + 1 < bn_count n" "bn_keys n ! i \<le> sep" "sep < bn_keys n ! (i + 1)"
    by (simp_all add: separates_def)
  have c: "bn_count n \<le> 400" using inv bn_count_le by (simp add: bn_inv_def)
  have le: "\<forall>k \<in> fst ` set (take (i + 1) (bn_entries n)). k \<le> sep"
    using keys_below(2) [OF inv, of i _ "i + 1"] i by force
  have gr: "\<forall>k \<in> fst ` set (drop (i + 1) (bn_entries n)). sep < k"
    using keys_above(2) [OF inv i(1), of _ "bn_count n" "i + 1"] i(3) entries_facts(3) [OF inv] by force
  obtain l0 l r0 r where h: "setFences (getLowerFence n) sep (bn_construct (bn_isLeaf n) raw) = Inr l0"
    "copyKeyValueRange n 0 0 (i + 1) l0 = Inr l"
    "setFences sep (getUpperFence n) (bn_construct (bn_isLeaf n) newPage) = Inr r0"
    "copyKeyValueRange n 0 (i + 1) (bn_count n - (i + 1)) r0 = Inr r"
    "filled (bn_isLeaf n) (getLowerFence n) sep (take (i + 1) (bn_entries n)) l" "bn_count l = i + 1"
    "filled (bn_isLeaf n) sep (getUpperFence n) (drop (i + 1) (bn_entries n)) r"
    "\<And>p. bn_inv (makeHint (l\<lparr>bn_next := p\<rparr>)) \<and> bn_inv (makeHint (r\<lparr>bn_next := p\<rparr>))"
    using split_halves [OF inv raw order_refl _ le gr fits] i(1) by force
  have "length sep \<le> 4096" using fits(1) by (simp add: page_fits_def pageSize_def)
  from link_parent_split [OF parent raw(1) this, of newPid] obtain p1 p where
    p: "link_parent pid sep newPid parent = Inr p1" "insertInPage raw sep (pid_bytes pid) p1 = Inr p"
      "split_parent pid sep newPid parent p" by blast
  have "splitNode raw (Some (newPid, newPage)) pid parent i sep n
      = Inr (OK, makeHint (l\<lparr>bn_next := newPid\<rparr>), p, Some (makeHint (r\<lparr>bn_next := bn_next n\<rparr>)))"
    using splitNode_link [of i raw newPid newPage pid parent sep n] sep(2) i c h p leaf by simp
  with h p(3) leaf show ?thesis by (auto simp: filled_def)
qed

lemma splitNode_inner:
  assumes ok: "inner_ok n" and raw: "raw_ok raw" "raw_ok newPage"
    and i: "0 < i" "i < bn_count n" and sep: "sep = bn_keys n ! i" and parent: "parent_of pid sep parent"
    and fits: "page_fits (getLowerFence n) sep (take i (bn_entries n))"
      "page_fits sep (getUpperFence n) (drop (i + 1) (bn_entries n))"
  shows "\<exists>l p r. splitNode raw (Some (newPid, newPage)) pid parent i sep n = Inr (OK, l, p, Some r) \<and>
    inner_ok l \<and> inner_ok r \<and>
    bn_keys l @ sep # bn_keys r = bn_keys n \<and> bn_children l @ bn_children r = bn_children n \<and>
    getLowerFence l = getLowerFence n \<and> getUpperFence l = sep \<and>
    getLowerFence r = sep \<and> getUpperFence r = getUpperFence n \<and> split_parent pid sep newPid parent p"
proof -
  from ok have inv: "bn_inv n" and inner: "\<not> bn_isLeaf n" by (simp_all add: inner_ok_def)
  have c: "bn_count n \<le> 400" and len: "length (bn_entries n) = bn_count n"
    using inv bn_count_le entries_facts(3) by (simp_all add: bn_inv_def)
  have le: "\<forall>k \<in> fst ` set (take i (bn_entries n)). k \<le> sep"
    using keys_below(2) [OF inv i(2), of _ i] sep by simp
  have gr: "\<forall>k \<in> fst ` set (drop (i + 1) (bn_entries n)). sep < k"
    using keys_above(3) [OF inv i(2), of _ "bn_count n" "i + 1"] sep len by force
  obtain l0 l r0 r where h: "setFences (getLowerFence n) sep (bn_construct (bn_isLeaf n) raw) = Inr l0"
    "copyKeyValueRange n 0 0 i l0 = Inr l"
    "setFences sep (getUpperFence n) (bn_construct (bn_isLeaf n) newPage) = Inr r0"
    "copyKeyValueRange n 0 (i + 1) (bn_count n - (i + 1)) r0 = Inr r"
    "filled (bn_isLeaf n) (getLowerFence n) sep (take i (bn_entries n)) l" "bn_count l = i"
    "filled (bn_isLeaf n) sep (getUpperFence n) (drop (i + 1) (bn_entries n)) r"
    "\<And>p. bn_inv (makeHint (l\<lparr>bn_next := p\<rparr>)) \<and> bn_inv (makeHint (r\<lparr>bn_next := p\<rparr>))"
    using split_halves [OF inv raw _ _ le gr fits] i by force
  have "length sep \<le> 4096" using fits(1) by (simp add: page_fits_def pageSize_def)
  from link_parent_split [OF parent raw(1) this, of newPid] obtain p1 p where
    p: "link_parent pid sep newPid parent = Inr p1" "insertInPage raw sep (pid_bytes pid) p1 = Inr p"
      "split_parent pid sep newPid parent p" by blast
  let ?l = "makeHint (l\<lparr>bn_next := getChild n i\<rparr>)" and ?r = "makeHint (r\<lparr>bn_next := bn_next n\<rparr>)"
  have run: "splitNode raw (Some (newPid, newPage)) pid parent i sep n = Inr (OK, ?l, p, Some ?r)"
    using splitNode_link [of i raw newPid newPage pid parent sep n] i c h p inner by simp
  have el: "bn_entries ?l = take i (bn_entries n)" and er: "bn_entries ?r = drop (i + 1) (bn_entries n)"
    using h(5,7) by (simp_all add: filled_def)
  have es: "bn_entries n = take i (bn_entries n) @ bn_entries n ! i # drop (Suc i) (bn_entries n)"
    using i len by (simp add: id_take_nth_drop)
  have ki: "fst (bn_entries n ! i) = sep" using sep i len by (simp flip: map_fst_bn_entries)
  have "bn_keys ?l @ sep # bn_keys ?r = bn_keys n"
    unfolding map_fst_bn_entries [symmetric] el er by (subst (3) es) (simp add: ki)
  moreover have "bn_children ?l @ bn_children ?r = bn_children n"
    unfolding bn_children_def el er
    by (subst (3) es) (use getChild_nth(1) [OF ok i(2)] i len in \<open>simp add: bn_children_def nth_append\<close>)
  moreover have "inner_ok ?l" "inner_ok ?r"
    using ok h(5,7,8) unfolding inner_ok_def el er
    by (auto simp: filled_def dest: in_set_takeD in_set_dropD)
  ultimately show ?thesis using run h(5,7) p(3) by (auto simp: filled_def)
qed

text \<open>When no page can be allocated the split changes nothing and asks for a restart.\<close>

lemma splitNode_retry:
  "0 < i \<Longrightarrow> i < 512 \<Longrightarrow> splitNode raw None pid parent i sep n = Inr (RESTART, n, parent, None)"
  by (simp add: splitNode_def pageSize_def)

end
