(* ===== verification/Btree_Merge.thy ===== *)
theory Btree_Merge
  imports Btree_Split
begin

section \<open>Merging two leaves\<close>

text \<open>
  \<open>mergeNodes\<close> refuses when its bound on the space of the merged page exceeds the page, and
  otherwise builds a page with the entries of both, and drops the left page's slot of the parent
  after pointing the next slot at the merged page.
\<close>

lemma commonLen_ge: "p \<le> length a \<Longrightarrow> b = take p a @ r \<Longrightarrow> p \<le> commonLen a b"
proof (induction p arbitrary: a b)
  case (Suc p)
  then obtain x xs where a: "a = x # xs" by (cases a) auto
  with Suc.IH [of xs "take p xs @ r"] Suc.prems show ?case by simp
qed simp

lemma commonLen_ge_common: "p \<le> length a \<Longrightarrow> p \<le> length b \<Longrightarrow> take p a = take p b \<Longrightarrow> p \<le> commonLen a b"
  using commonLen_ge [of p a b "drop p b"] by simp

lemma entry_len_shrink:
  assumes "p \<le> q" and "q \<le> length (fst e)"
  shows "entry_len p e = entry_len q e + (q - p)"
  using assms by (simp add: entry_len_def)

lemma sum_entry_len_shrink:
  assumes "p \<le> q" and "\<forall>e \<in> set es. q \<le> length (fst e)"
  shows "sum_list (map (entry_len p) es) = sum_list (map (entry_len q) es) + (q - p) * length es"
  using assms(2) by (induction es) (auto simp: entry_len_shrink [OF assms(1)])

lemma entries_have_prefix:
  assumes "bn_inv n"
  shows "\<forall>e \<in> set (bn_entries n). bn_prefixLen n \<le> length (fst e)"
  using bn_prefix_fence(3) [OF assms] by (auto simp: bn_entries_def)

text \<open>Neighbours: the fences are in order and the upper fence of the left is the lower one of the right.\<close>

definition neighbours :: "BTreeNode \<Rightarrow> BTreeNode \<Rightarrow> bool" where
  "neighbours n right \<longleftrightarrow> bn_inv n \<and> bn_inv right \<and> bn_isLeaf n \<and> bn_isLeaf right \<and>
     getUpperFence n = getLowerFence right \<and> getLowerFence right \<noteq> [] \<and>
     (getLowerFence n = [] \<or> getLowerFence n < getUpperFence n) \<and>
     (getUpperFence right = [] \<or> getLowerFence right < getUpperFence right) \<and>
     length (getLowerFence n) + length (getUpperFence right) \<le> 4000"

lemma neighbours_within:
  assumes "neighbours n right"
  shows "\<forall>k \<in> fst ` set (bn_entries n @ bn_entries right). within (getLowerFence n) (getUpperFence right) k"
    and "sorted_wrt (<) (map fst (bn_entries n @ bn_entries right))"
proof -
  from assms have i: "bn_inv n" "bn_inv right" by (simp_all add: neighbours_def)
  note e = entries_facts(1,2) [OF i(1)] and e' = entries_facts(1,2) [OF i(2)]
  show "\<forall>k \<in> fst ` set (bn_entries n @ bn_entries right). within (getLowerFence n) (getUpperFence right) k"
    using assms e(2) e'(2) unfolding neighbours_def within_def
    by (auto simp: image_Un)
  have "x < y" if "x \<in> fst ` set (bn_entries n)" "y \<in> fst ` set (bn_entries right)" for x y
    using assms e(2) e'(2) that unfolding neighbours_def within_def by (metis order.strict_trans1)
  with e(1) e'(1) show "sorted_wrt (<) (map fst (bn_entries n @ bn_entries right))"
    by (auto simp: sorted_wrt_append simp del: map_fst_bn_entries)
qed

lemma neighbours_prefix:
  assumes "neighbours n right"
  shows "commonLen (getLowerFence n) (getUpperFence right) \<le> bn_prefixLen n"
    and "commonLen (getLowerFence n) (getUpperFence right) \<le> bn_prefixLen right"
proof -
  let ?L = "getLowerFence n" and ?M = "getUpperFence n" and ?U = "getUpperFence right"
  let ?p = "commonLen ?L ?U"
  from assms have p: "bn_prefixLen n = commonLen ?L ?M" "bn_prefixLen right = commonLen ?M ?U"
    by (simp_all add: neighbours_def bn_inv_def bn_order_def)
  have "within ?L ?U ?M" using assms by (auto simp: neighbours_def within_def)
  then obtain r where r: "?M = take ?p ?L @ r" using within_prefix by blast
  have le: "?p \<le> length ?L" "?p \<le> length ?U" by (rule commonLen_le)+
  show "?p \<le> bn_prefixLen n" unfolding p(1) by (rule commonLen_ge [OF le(1) r])
  have "?p \<le> length ?M" "take ?p ?M = take ?p ?U"
    using r le commonLen_take [of ?L ?U] by (metis length_append length_take min_absorb2 le_add1,
      metis append_eq_conv_conj length_take min_absorb2)
  then show "?p \<le> bn_prefixLen right" unfolding p(2) using le(2) by (intro commonLen_ge_common)
qed

text \<open>The arithmetic of the space bound, which never wraps.\<close>

definition merge_bound :: "BTreeNode \<Rightarrow> BTreeNode \<Rightarrow> nat" where
  "merge_bound n right =
     (let p = commonLen (getLowerFence n) (getUpperFence right)
      in bn_spaceUsed n + bn_spaceUsed right + slotEnd (bn_count n + bn_count right) +
         (bn_prefixLen n - p) * bn_count n + (bn_prefixLen right - p) * bn_count right)"

lemma bn_prefixLen_small: "bn_inv n \<Longrightarrow> bn_prefixLen n \<le> 4096"
  using bn_prefix_fence [of n] commonLen_le(1) [of "getLowerFence n" "getUpperFence n"] fence_bytes [of n]
  by (auto simp: bn_inv_def bn_order_def pageSize_def)

lemma merge_bound_eq:
  assumes nb: "neighbours n right" and p: "p = commonLen (getLowerFence n) (getUpperFence right)"
  shows "(bn_spaceUsed n + bn_spaceUsed right + slotEnd (bn_count n + bn_count right) +
      (sub32 (bn_prefixLen n) p * bn_count n) mod 4294967296 +
      (sub32 (bn_prefixLen right) p * bn_count right) mod 4294967296) mod 4294967296 = merge_bound n right"
proof -
  from nb have inv: "bn_inv n" "bn_inv right" by (simp_all add: neighbours_def)
  have lay: "bn_layout n" "bn_layout right" using inv by (simp_all add: bn_inv_def)
  have c: "bn_count n \<le> 400" "bn_count right \<le> 400" using bn_count_le lay by simp_all
  have le: "p \<le> bn_prefixLen n" "p \<le> bn_prefixLen right" using neighbours_prefix [OF nb] p by simp_all
  have sub: "sub32 (bn_prefixLen n) p = bn_prefixLen n - p" "sub32 (bn_prefixLen right) p = bn_prefixLen right - p"
    using le bn_prefixLen_small [OF inv(1)] bn_prefixLen_small [OF inv(2)] by (simp_all add: sub32_eq)
  have small: "(bn_prefixLen m - p) * bn_count m \<le> 4096 * 400" if "bn_inv m" for m
    using that bn_prefixLen_small [OF that] bn_count_le [of m] by (intro mult_le_mono) (auto simp: bn_inv_def)
  have sp: "bn_spaceUsed n \<le> 4096" "bn_spaceUsed right \<le> 4096"
    using page_bounds(2) lay by (simp_all add: bn_layout_def)
  have "slotEnd (bn_count n + bn_count right) \<le> 10000" using c by (simp add: slotEnd_def layout_defs)
  with small [OF inv(1)] small [OF inv(2)] sp show ?thesis
    by (simp add: sub merge_bound_def Let_def p [symmetric])
qed

text \<open>
  The bytes a page with these fences and entries uses, the prefix of the fences left out of the keys. The bound is the space of
  the merged page and two copies of the fence between the pages: each page stores it once.
\<close>

definition page_space :: "bytes \<Rightarrow> bytes \<Rightarrow> (bytes \<times> bytes) list \<Rightarrow> nat" where
  "page_space lower upper es =
     slotEnd (length es) + length lower + length upper + sum_list (map (entry_len (commonLen lower upper)) es)"

lemma page_fits_space: "page_fits lower upper es \<longleftrightarrow> page_space lower upper es \<le> pageSize"
  by (simp add: page_fits_def page_space_def)

lemma merge_bound_space:
  assumes nb: "neighbours n right"
  shows "merge_bound n right =
    page_space (getLowerFence n) (getUpperFence right) (bn_entries n @ bn_entries right) + 2 * length (getUpperFence n)"
proof -
  from nb have inv: "bn_inv n" "bn_inv right" and mid: "getLowerFence right = getUpperFence n" by (simp_all add: neighbours_def)
  let ?p = "commonLen (getLowerFence n) (getUpperFence right)"
  note pl = neighbours_prefix [OF nb]
  have "sum_list (map (entry_len ?p) (bn_entries n)) =
      sum_list (map (entry_len (bn_prefixLen n)) (bn_entries n)) + (bn_prefixLen n - ?p) * bn_count n"
    using sum_entry_len_shrink [OF pl(1) entries_have_prefix [OF inv(1)]] entries_facts(3) [OF inv(1)] by simp
  moreover have "sum_list (map (entry_len ?p) (bn_entries right)) =
      sum_list (map (entry_len (bn_prefixLen right)) (bn_entries right)) + (bn_prefixLen right - ?p) * bn_count right"
    using sum_entry_len_shrink [OF pl(2) entries_have_prefix [OF inv(2)]] entries_facts(3) [OF inv(2)] by simp
  ultimately show ?thesis
    using fence_bytes(1) [OF inv(1)] fence_bytes(1) [OF inv(2)] entries_facts(3) [OF inv(1)] entries_facts(3) [OF inv(2)] mid
    by (simp add: page_space_def merge_bound_def Let_def)
qed

lemma merge_bound_fits:
  assumes "neighbours n right" and "merge_bound n right \<le> pageSize"
  shows "page_fits (getLowerFence n) (getUpperFence right) (bn_entries n @ bn_entries right)"
  using assms(2) unfolding merge_bound_space [OF assms(1)] page_fits_space by simp

lemma merge_parent:
  fixes pid :: PID
  assumes ok: "inner_ok parent" and i: "i + 1 < bn_count parent"
  defines "p \<equiv> snd (removeSlot i (setPayload (i + 1) (pid_bytes pid) parent))"
  shows "inner_ok p" and "same_fences parent p"
    and "bn_keys p = take i (bn_keys parent) @ drop (Suc i) (bn_keys parent)"
    and "bn_children p = take i (bn_children parent) @ pid # drop (i + 2) (bn_children parent)"
proof -
  from ok have inv: "bn_inv parent" by (simp add: inner_ok_def)
  let ?q = "setPayload (i + 1) (pid_bytes pid) parent" and ?es = "bn_entries parent"
  have len: "length ?es = bn_count parent" by (rule entries_facts(3) [OF inv])
  have "length (pid_bytes pid) = sl_payloadLen (bn_slot parent ! (i + 1))"
    using getChild_nth(2) [OF ok i] by simp
  note q = setPayload_correct [OF inv i this]
  have "i < bn_count ?q" using q(5) i by simp
  note r = removeSlot_correct [OF q(1) this, folded p_def]
  have es: "bn_entries p = take i ?es @ (fst (?es ! (i + 1)), pid_bytes pid) # drop (i + 2) ?es"
    unfolding r(2) q(2) using i len by (simp add: drop_update_swap Cons_nth_drop_Suc [symmetric])
  have es0: "?es = take i ?es @ ?es ! i # ?es ! (i + 1) # drop (i + 2) ?es"
    using i len by (simp add: id_take_nth_drop Cons_nth_drop_Suc)
  show "inner_ok p"
    using ok r(1,4) q(3) unfolding inner_ok_def es
    by (auto simp: same_fences_def dest: in_set_takeD in_set_dropD)
  show "same_fences parent p" using r(4) q(3) by (simp add: same_fences_def)
  have "bn_keys p = map fst (take i ?es) @ fst (?es ! (i + 1)) # map fst (drop (i + 2) ?es)"
    unfolding map_fst_bn_entries [symmetric] es by simp
  moreover have "bn_keys parent = map fst (take i ?es) @ fst (?es ! i) # fst (?es ! (i + 1)) # map fst (drop (i + 2) ?es)"
    unfolding map_fst_bn_entries [symmetric] by (subst es0) simp
  ultimately show "bn_keys p = take i (bn_keys parent) @ drop (Suc i) (bn_keys parent)"
    using i len by simp
  show "bn_children p = take i (bn_children parent) @ pid # drop (i + 2) (bn_children parent)"
    unfolding bn_children_def es using r(5) q(4) i len by (simp add: take_map drop_map)
qed

lemma mergeNodes_leaf:
  assumes nb: "neighbours n right" and raw: "raw_ok raw" and ok: "inner_ok parent" and i: "i + 1 < bn_count parent"
  shows "\<exists>b m p. mergeNodes raw pid i parent right n = Inr (b, m, p) \<and> (b \<longleftrightarrow> merge_bound n right \<le> pageSize) \<and>
    (\<not> b \<longrightarrow> m = n \<and> p = parent) \<and>
    (b \<longrightarrow> bn_inv m \<and> bn_isLeaf m \<and> bn_entries m = bn_entries n @ bn_entries right \<and>
      getLowerFence m = getLowerFence n \<and> getUpperFence m = getUpperFence right \<and> bn_next m = bn_next right \<and>
      inner_ok p \<and> same_fences parent p \<and>
      bn_keys p = take i (bn_keys parent) @ drop (Suc i) (bn_keys parent) \<and>
      bn_children p = take i (bn_children parent) @ pid # drop (i + 2) (bn_children parent))"
proof -
  from nb have inv: "bn_inv n" "bn_inv right" and leaf: "bn_isLeaf n" "bn_isLeaf right" by (simp_all add: neighbours_def)
  let ?L = "getLowerFence n" and ?U = "getUpperFence right"
  have "length ?L + length ?U \<le> 4000" using nb by (simp add: neighbours_def)
  from fresh_filled [OF raw this] obtain t where
    t: "setFences ?L ?U (bn_construct (bn_isLeaf n) raw) = Inr t" "filled (bn_isLeaf n) ?L ?U [] t" by blast
  have tp: "bn_prefixLen t = commonLen ?L ?U" "bn_count t = 0" using t(2) by (simp_all add: filled_def)
  note bound = merge_bound_eq [OF nb tp(1)]
  have inner: "\<not> bn_isLeaf parent" using ok by (simp add: inner_ok_def)
  show ?thesis
  proof (cases "merge_bound n right \<le> pageSize")
    case False
    then have "mergeNodes raw pid i parent right n = Inr (False, n, parent)"
      using t(1) leaf inner bound by (simp add: mergeNodes_def Let_def)
    with False show ?thesis by auto
  next
    case True
    note w = neighbours_within [OF nb] and fit = merge_bound_fits [OF nb True]
    have len: "length (bn_entries n) = bn_count n" "length (bn_entries right) = bn_count right"
      using entries_facts(3) inv by simp_all
    have "bn_entries n = take (bn_count n) (drop 0 (bn_entries n))" using len by simp
    then obtain d where d: "copyKeyValueRange n 0 0 (bn_count n) t = Inr d" "filled (bn_isLeaf n) ?L ?U (bn_entries n) d"
      using fill_more [OF bn_inv_src_ok [OF inv(1)] t(2), of 0 "bn_count n" "bn_entries n"] w(1) fit tp len
      by (auto simp: page_fits_def slotEnd_def add_mult_distrib2)
    have "bn_entries right = take (bn_count right) (drop 0 (bn_entries right))" using len by simp
    then obtain e where e: "copyKeyValueRange right (bn_count n) 0 (bn_count right) d = Inr e"
      "filled (bn_isLeaf n) ?L ?U (bn_entries n @ bn_entries right) e"
      using fill_more [OF bn_inv_src_ok [OF inv(2)] d(2), of 0 "bn_count right" "bn_entries right"] w(1) fit len d(2)
      by (auto simp: page_fits_def filled_def add_mult_distrib2)
    let ?m = "(makeHint e)\<lparr>bn_next := bn_next right\<rparr>"
    have "bn_inv ?m" by (rule filled_inv(2) [OF e(2) w(2,1)])
    moreover have "mergeNodes raw pid i parent right n
        = Inr (True, ?m, snd (removeSlot i (setPayload (i + 1) (pid_bytes pid) parent)))"
      using t(1) leaf inner bound True d(1) e(1) by (simp add: mergeNodes_def Let_def)
    ultimately show ?thesis
      using merge_parent [OF ok i, of pid] e(2) leaf True by (auto simp: filled_def)
  qed
qed

text \<open>An inner page is left alone, whatever its neighbour.\<close>

lemma mergeNodes_inner: "\<not> bn_isLeaf n \<Longrightarrow> mergeNodes raw pid i parent right n = Inr (True, n, parent)"
  by (simp add: mergeNodes_def)

end
