(* ===== verification/Btree_Page.thy ===== *)
theory Btree_Page
  imports Btree_Merge
begin

section \<open>Correctness of the page operations\<close>

text \<open>
  What the slotted page of \<^verbatim>\<open>btree_node.hpp\<close> promises: searching, inserting, removing,
  compacting, separating, splitting and merging, each as a statement about the sorted list of
  entries \<open>bn_entries\<close> of the page. The page \<open>page_with\<close>, built with the operations themselves from
  zeroed memory, shows that the hypotheses can hold.
\<close>

subsection \<open>Pages built from a list of entries\<close>

definition page_with :: "bool \<Rightarrow> bytes \<Rightarrow> bytes \<Rightarrow> PID \<Rightarrow> (bytes \<times> bytes) list \<Rightarrow> BTreeNode" where
  "page_with leaf lower upper nxt es =
     fold (\<lambda>(k, v) n. projr (insertInPage zero_page k v n)) es
       ((makeHint (projr (setFences lower upper (bn_construct leaf zero_page))))\<lparr>bn_next := nxt\<rparr>)"

lemma zero_page_raw [simp]: "raw_ok zero_page"
  by (simp add: raw_ok_def zero_page_def layout_defs)

definition is_page :: "bool \<Rightarrow> bytes \<Rightarrow> bytes \<Rightarrow> PID \<Rightarrow> (bytes \<times> bytes) list \<Rightarrow> BTreeNode \<Rightarrow> bool" where
  "is_page leaf lower upper nxt es n \<longleftrightarrow> bn_inv n \<and> bn_isLeaf n = leaf \<and> getLowerFence n = lower \<and>
     getUpperFence n = upper \<and> bn_next n = nxt \<and> bn_entries n = es"

lemma is_page_space:
  assumes "is_page leaf lower upper nxt es n" and "length lower + length upper \<le> 4000"
    and "slotEnd (length es + 1) + length lower + length upper + sum_list (map (entry_len 0) es)
      + length k + length v \<le> 4096"
  shows "hasSpaceFor (length k) (length v) n \<or> length k < bn_prefixLen n"
proof -
  from assms(1) have inv: "bn_inv n" and es: "bn_entries n = es" and f: "getLowerFence n = lower" "getUpperFence n = upper"
    by (simp_all add: is_page_def)
  have "sum_list (map (entry_len (bn_prefixLen n)) es) \<le> sum_list (map (entry_len 0) es)"
    by (rule sum_list_mono) (simp add: entry_len_def)
  then show ?thesis
    using assms(3) fence_bytes [OF inv] freeSpace_eqs(2) [OF inv] entries_facts(3) [OF inv]
    by (auto simp: hasSpaceFor_def spaceNeeded_def sub32_eq es f slotEnd_def layout_defs)
qed

lemma page_with_step:
  assumes p: "is_page leaf lower upper nxt es n" and "length lower + length upper \<le> 4000"
    and "slotEnd (length es + 1) + length lower + length upper + sum_list (map (entry_len 0) es)
      + length k + length v \<le> 4096"
    and w: "within lower upper k" and gr: "\<forall>e \<in> set es. fst e < k"
  shows "is_page leaf lower upper nxt (es @ [(k, v)]) (projr (insertInPage zero_page k v n))"
proof -
  from p have inv: "bn_inv n" and es: "bn_entries n = es" and f: "getLowerFence n = lower" "getUpperFence n = upper"
    by (simp_all add: is_page_def)
  have "bn_prefixLen n \<le> length k"
    using within_prefix [OF w] inv f commonLen_le(1) [of lower upper] by (auto simp: bn_inv_def bn_order_def)
  then have space: "hasSpaceFor (length k) (length v) n" using is_page_space [OF p assms(2,3)] by simp
  have "k \<notin> set (bn_keys n)" using gr es by (auto simp flip: map_fst_bn_entries)
  moreover have "sorted_insert k v es = es @ [(k, v)]"
    using gr by (simp add: sorted_insert_def takeWhile_eq_all_conv [THEN iffD2] dropWhile_eq_Nil_conv [THEN iffD2])
  ultimately show ?thesis
    using insertInPage_correct [OF inv zero_page_raw _ _ space] w f es p assms(3)
    by (auto simp: is_page_def same_fences_def)
qed

lemma page_with_gen:
  assumes "is_page leaf lower upper nxt es n" and "length lower + length upper \<le> 4000"
    and "slotEnd (length (es @ fs)) + length lower + length upper + sum_list (map (entry_len 0) (es @ fs)) \<le> 4096"
    and "\<forall>e \<in> set fs. within lower upper (fst e)" and "sorted_wrt (<) (map fst (es @ fs))"
  shows "is_page leaf lower upper nxt (es @ fs) (fold (\<lambda>(k, v) n. projr (insertInPage zero_page k v n)) fs n)"
  using assms
proof (induction fs arbitrary: es n)
  case (Cons f fs)
  have "entry_len 0 f = length (fst f) + length (snd f)" by (simp add: entry_len_def)
  then have "is_page leaf lower upper nxt (es @ [f]) (projr (insertInPage zero_page (fst f) (snd f) n))"
    using page_with_step [OF Cons.prems(1,2), of "fst f" "snd f"] Cons.prems(3-5)
    by (simp add: sorted_wrt_append slotEnd_def layout_defs)
  from Cons.IH [OF this Cons.prems(2)] Cons.prems(3-5) show ?case by (simp add: case_prod_beta)
qed simp

lemma page_with:
  assumes len: "length lower + length upper \<le> 4000"
    and "slotEnd (length es) + length lower + length upper + sum_list (map (entry_len 0) es) \<le> 4096"
    and "\<forall>e \<in> set es. within lower upper (fst e)" and "sorted_wrt (<) (map fst es)"
  shows "is_page leaf lower upper nxt es (page_with leaf lower upper nxt es)"
proof -
  obtain t where t: "setFences lower upper (bn_construct leaf zero_page) = Inr t" "filled leaf lower upper [] t"
    using fresh_filled [OF zero_page_raw len] by blast
  have "is_page leaf lower upper nxt [] ((makeHint t)\<lparr>bn_next := nxt\<rparr>)"
    using filled_inv(2) [OF t(2)] t(2) by (simp add: is_page_def filled_def)
  from page_with_gen [OF this len, of es] assms t(1) show ?thesis by (simp add: page_with_def)
qed

lemma is_pageD:
  assumes "is_page leaf lower upper nxt es n"
  shows "bn_inv n" "bn_isLeaf n = leaf" "getLowerFence n = lower" "getUpperFence n = upper" "bn_next n = nxt"
    "bn_entries n = es" "bn_keys n = map fst es" "bn_count n = length es"
    "\<not> leaf \<Longrightarrow> \<forall>e \<in> set es. length (snd e) = 8 \<Longrightarrow> inner_ok n"
    "bn_children n = map (\<lambda>e. load_pid (snd e)) es @ [nxt]"
  using assms entries_facts(3) [of n]
  by (auto simp: is_page_def inner_ok_def bn_children_def simp flip: map_fst_bn_entries)

text \<open>Two small pages: a leaf with three entries, and its parent, which has no separator yet.\<close>

definition leaf3 :: BTreeNode where
  "leaf3 = page_with True [] [] noNeighbour [([97, 98], [1]), ([97, 99], [2]), ([98], [3])]"

lemma leaf3: "is_page True [] [] noNeighbour [([97, 98], [1]), ([97, 99], [2]), ([98], [3])] leaf3"
  unfolding leaf3_def by (rule page_with) (simp_all add: slotEnd_def layout_defs entry_len_def within_def)

definition root_above_leaf3 :: BTreeNode where
  "root_above_leaf3 = page_with False [] [] 7 []"

lemma root_above_leaf3: "is_page False [] [] 7 [] root_above_leaf3"
  unfolding root_above_leaf3_def by (rule page_with) (simp_all add: slotEnd_def layout_defs)

lemma within_no_fences [simp]: "within [] [] k"
  by (simp add: within_def)

lemma commonLen_Nil [simp]: "commonLen [] b = 0" "commonLen a [] = 0"
  by (cases a) auto

subsection \<open>Searching\<close>

text \<open>
  C8. On a page that satisfies the invariant, \<open>lowerBound\<close> returns the position of the first key
  that is not below the key sought and whether the key is there, and \<open>upperBound\<close> the position of
  the first key above it: prefix test, hints, the comparison of 4-byte heads and the comparison of
  the rest of the keys together find what a linear search of the full keys finds.
\<close>

theorem page_search_correct:
  assumes "bn_inv n"
  shows "lowerBound k n = (length (takeWhile (\<lambda>x. x < k) (bn_keys n)), k \<in> set (bn_keys n)) \<and>
    upperBound k n = length (takeWhile (\<lambda>x. x \<le> k) (bn_keys n))"
  using lowerBound_correct [OF assms] upperBound_correct [OF assms] by simp

theorem page_search_correct_witness: "lowerBound [97, 99] leaf3 = (1, True) \<and> upperBound [97, 99] leaf3 = 2"
  using page_search_correct [OF is_pageD(1) [OF leaf3], of "[97, 99]"] by (simp add: is_pageD(7) [OF leaf3])

subsection \<open>Inserting, removing, compacting\<close>

text \<open>
  C6. \<open>insertInPage\<close> of a key that the page does not hold, that lies between the fences and for
  which \<open>hasSpaceFor\<close> holds runs without a failing assertion, compacting the page first when the
  gap is too small, and the page then holds the old entries and the new one in key order; the
  invariant, the fences and the link to the next page are kept.
\<close>

theorem page_insert_correct:
  assumes "bn_inv n" and "raw_ok raw" and "k \<notin> set (bn_keys n)"
    and "within (getLowerFence n) (getUpperFence n) k" and "hasSpaceFor (length k) (length v) n"
    and "length k + length v < 65536"
  shows "\<exists>n'. insertInPage raw k v n = Inr n' \<and> bn_inv n' \<and> sorted_wrt (<) (bn_keys n') \<and>
    set (bn_entries n') = insert (k, v) (set (bn_entries n)) \<and> same_fences n n' \<and> bn_next n' = bn_next n \<and>
    bn_count n' = bn_count n + 1"
  using insertInPage_correct [OF assms] by (auto simp: set_sorted_insert bn_inv_def bn_order_def)

theorem page_insert_correct_witness:
  "\<exists>n'. insertInPage zero_page [97] [9, 9] leaf3 = Inr n' \<and>
    set (bn_entries n') = {([97], [9, 9]), ([97, 98], [1]), ([97, 99], [2]), ([98], [3])}"
proof -
  note p = is_pageD [OF leaf3]
  have "hasSpaceFor (length [97 :: u8]) (length [9, 9 :: u8]) leaf3 \<or> length [97 :: u8] < bn_prefixLen leaf3"
    by (rule is_page_space [OF leaf3]) (simp_all add: slotEnd_def layout_defs entry_len_def)
  moreover have "bn_prefixLen leaf3 = 0" using p(1,3,4) by (simp add: bn_inv_def bn_order_def)
  ultimately show ?thesis
    using page_insert_correct [OF p(1) zero_page_raw, of "[97]" "[9, 9]"] by (auto simp: p(3,4,6,7))
qed

text \<open>
  C7. \<open>removeInPage\<close> answers whether the page held the key; afterwards the page holds exactly the
  entries with other keys, in the same order, and the invariant and the fences are kept.
\<close>

theorem page_remove_correct:
  assumes "bn_inv n"
  shows "(fst (removeInPage k n) \<longleftrightarrow> k \<in> set (bn_keys n)) \<and> bn_inv (snd (removeInPage k n)) \<and>
    bn_entries (snd (removeInPage k n)) = filter (\<lambda>e. fst e \<noteq> k) (bn_entries n) \<and>
    same_fences n (snd (removeInPage k n))"
  using removeInPage_correct [OF assms] by simp

theorem page_remove_correct_witness:
  "fst (removeInPage [97, 99] leaf3) \<and>
    bn_entries (snd (removeInPage [97, 99] leaf3)) = [([97, 98], [1]), ([98], [3])]"
  using page_remove_correct [OF is_pageD(1) [OF leaf3], of "[97, 99]"] is_pageD(6,7) [OF leaf3] by simp

text \<open>
  C15. \<open>compactify\<close> never fails an assertion: it rebuilds the page with the same entries, fences and
  link, and the gap it leaves is what \<open>freeSpaceAfterCompaction\<close> announced.
\<close>

theorem page_compactify_correct:
  assumes "bn_inv n" and "raw_ok raw"
  shows "\<exists>n'. compactify raw n = Inr n' \<and> bn_inv n' \<and> bn_entries n' = bn_entries n \<and> same_fences n n' \<and>
    bn_next n' = bn_next n \<and> freeSpace n' = freeSpaceAfterCompaction n"
  using compactify_correct [OF assms] by auto

theorem page_compactify_correct_witness:
  "\<exists>n'. compactify zero_page leaf3 = Inr n' \<and> bn_entries n' = [([97, 98], [1]), ([97, 99], [2]), ([98], [3])]"
  using page_compactify_correct [OF is_pageD(1) [OF leaf3] zero_page_raw] is_pageD(6) [OF leaf3] by auto

subsection \<open>Separators, splits and merges\<close>

text \<open>
  C16. On a page with at least two entries \<open>findSeparator\<close> returns without a failing assertion, and
  the key that \<open>getSep\<close> builds from its answer separates the page at the slot it names: on a leaf it
  is at least the key of the slot and below the next key (truncated to the shortest such prefix
  where that pays off), on an inner page it is the key of the middle slot. The slot is 0 for a leaf with two entries and only
  then; \<open>splitNode\<close> asserts a slot above 0, so a leaf with two entries cannot be split.
\<close>

theorem page_separator_correct:
  assumes "bn_inv n" and "1 < bn_count n"
  shows "\<exists>info. findSeparator ordered n = Inr info \<and> length (getSep info n) = si_len info \<and>
    (if bn_isLeaf n then separates n (si_slot info) (getSep info n)
     else si_slot info = bn_count n div 2 \<and> getSep info n = bn_keys n ! (bn_count n div 2)) \<and>
    (si_slot info = 0 \<longleftrightarrow> bn_isLeaf n \<and> bn_count n = 2) \<and>
    (bn_isLeaf n \<and> bn_count n = 2 \<longrightarrow>
       splitNode raw alloc pid parent (si_slot info) (getSep info n) n = Inl (Assert ''sepSlot > 0''))"
proof (cases "bn_isLeaf n")
  case True
  from findSeparator_leaf [OF assms(1) True assms(2), of ordered] obtain info where
    i: "findSeparator ordered n = Inr info" "separates n (si_slot info) (getSep info n)" "length (getSep info n) = si_len info"
       "2 < bn_count n \<longrightarrow> 0 < si_slot info" by blast
  from i(2) have "si_slot info + 1 < bn_count n" by (simp add: separates_def)
  then have "si_slot info = 0 \<longleftrightarrow> bn_count n = 2" using i(4) assms(2) by linarith
  with i True show ?thesis by (auto simp: splitNode_def)
next
  case False
  moreover have "bn_count n div 2 \<noteq> 0" using assms(2) by simp
  ultimately show ?thesis using findSeparator_inner [OF assms(1) False assms(2), of ordered] by auto
qed

theorem page_separator_correct_witness:
  "\<exists>info. findSeparator True leaf3 = Inr info \<and> [97, 99] \<le> getSep info leaf3 \<and> getSep info leaf3 < [98] \<or>
    (\<exists>info. findSeparator True leaf3 = Inr info \<and> [97, 98] \<le> getSep info leaf3 \<and> getSep info leaf3 < [97, 99])"
proof -
  note p = is_pageD [OF leaf3]
  from page_separator_correct [OF p(1), of True] p(2,8) obtain info where
    i: "findSeparator True leaf3 = Inr info" "separates leaf3 (si_slot info) (getSep info leaf3)" by auto
  then have "si_slot info = 0 \<or> si_slot info = 1" using p(8) by (auto simp: separates_def)
  with i show ?thesis by (auto simp: separates_def p(7))
qed

text \<open>
  Such a leaf can be full. Between fences of 995 bytes, two entries of 995 bytes, which \<^verbatim>\<open>BTree::insert\<close> accepts, leave no
  room for a third.
\<close>

definition long_key :: "u8 \<Rightarrow> u8 \<Rightarrow> bytes" where
  "long_key a b = a # b # replicate 993 0"

definition full_leaf :: BTreeNode where
  "full_leaf = page_with True (long_key 97 0) (long_key 99 0) noNeighbour [(long_key 98 1, []), (long_key 98 2, [])]"

lemma full_leaf: "is_page True (long_key 97 0) (long_key 99 0) noNeighbour [(long_key 98 1, []), (long_key 98 2, [])] full_leaf"
  unfolding full_leaf_def by (rule page_with) (simp_all add: slotEnd_def layout_defs entry_len_def within_def long_key_def)

lemma full_leaf_no_room:
  "bn_inv full_leaf" "bn_isLeaf full_leaf" "bn_count full_leaf = 2" "length (long_key 98 3) \<le> maxKVSize"
  "\<not> hasSpaceFor (length (long_key 98 3)) 0 full_leaf"
proof -
  note p = is_pageD [OF full_leaf]
  have pre: "bn_prefixLen full_leaf = 0" using p(1,3,4) by (simp add: bn_inv_def bn_order_def long_key_def)
  show "bn_inv full_leaf" "bn_isLeaf full_leaf" "bn_count full_leaf = 2" using p by simp_all
  show "length (long_key 98 3) \<le> maxKVSize" by (simp add: long_key_def maxKVSize_def layout_defs)
  show "\<not> hasSpaceFor (length (long_key 98 3)) 0 full_leaf"
    using fence_bytes(1) [OF p(1)] freeSpace_eqs(2) [OF p(1)] pre
    by (simp add: hasSpaceFor_def spaceNeeded_def sub32_eq p(3,4,6,8) slotEnd_def layout_defs entry_len_def long_key_def)
qed

text \<open>
  C12. \<open>splitNode\<close> of a leaf at a separator (the slot above 0, both halves fitting a page, the parent
  having room and referring to the leaf) leaves the entries up to the separator in the leaf and the
  others in the new page; the fences of the halves meet in the separator, the new page is linked
  after the leaf, and the parent has the separator and the new page next to the old child, every
  other key and child as before.
\<close>

theorem page_split_leaf:
  assumes "bn_inv n" and "bn_isLeaf n" and "raw_ok raw" and "raw_ok newPage"
    and "separates n i sep" and "0 < i" and "parent_of pid sep parent"
    and "page_fits (getLowerFence n) sep (take (i + 1) (bn_entries n))"
    and "page_fits sep (getUpperFence n) (drop (i + 1) (bn_entries n))"
  shows "\<exists>l p r. splitNode raw (Some (newPid, newPage)) pid parent i sep n = Inr (OK, l, p, Some r) \<and>
    bn_inv l \<and> bn_inv r \<and> bn_isLeaf l \<and> bn_isLeaf r \<and>
    bn_entries l = take (i + 1) (bn_entries n) \<and> bn_entries r = drop (i + 1) (bn_entries n) \<and>
    getLowerFence l = getLowerFence n \<and> getUpperFence l = sep \<and>
    getLowerFence r = sep \<and> getUpperFence r = getUpperFence n \<and>
    bn_next l = newPid \<and> bn_next r = bn_next n \<and> split_parent pid sep newPid parent p"
  using assms by (rule splitNode_leaf)

lemma root_is_parent: "parent_of 7 k root_above_leaf3" if "length k \<le> 1000"
proof -
  note p = is_pageD [OF root_above_leaf3]
  have "hasSpaceFor (length k) (length (replicate 8 (0 :: u8))) root_above_leaf3 \<or> length k < bn_prefixLen root_above_leaf3"
    by (rule is_page_space [OF root_above_leaf3]) (use that in \<open>simp_all add: slotEnd_def layout_defs\<close>)
  moreover have "bn_prefixLen root_above_leaf3 = 0" using p(1,3,4) by (simp add: bn_inv_def bn_order_def)
  ultimately show ?thesis using p(9) by (simp add: parent_of_def p(3,4,7,10))
qed

theorem page_split_leaf_witness:
  "\<exists>l p r. splitNode zero_page (Some (8, zero_page)) 7 root_above_leaf3 1 [97, 99] leaf3 = Inr (OK, l, p, Some r) \<and>
    bn_entries l = [([97, 98], [1]), ([97, 99], [2])] \<and> bn_entries r = [([98], [3])] \<and>
    bn_keys p = [[97, 99]] \<and> bn_children p = [7, 8]"
proof -
  note p = is_pageD [OF leaf3] and q = is_pageD [OF root_above_leaf3]
  have "separates leaf3 1 [97, 99]" by (simp add: separates_def p(7,8))
  from page_split_leaf [OF p(1) _ zero_page_raw zero_page_raw this, where newPid = 8 and parent = root_above_leaf3 and pid = 7]
    root_is_parent [of "[97, 99]"]
  show ?thesis
    by (simp add: p q page_fits_def slotEnd_def layout_defs entry_len_def split_parent_def) blast
qed

text \<open>
  C13. \<open>splitNode\<close> of an inner page at one of its keys moves that key into the parent: the keys of the
  left half, the separator and the keys of the new page are the old keys, the children of the two
  halves are the old children, the fences meet in the separator, and the parent has the separator
  and the new page next to the old child.
\<close>

theorem page_split_inner:
  assumes "inner_ok n" and "raw_ok raw" and "raw_ok newPage" and "0 < i" and "i < bn_count n"
    and "sep = bn_keys n ! i" and "parent_of pid sep parent"
    and "page_fits (getLowerFence n) sep (take i (bn_entries n))"
    and "page_fits sep (getUpperFence n) (drop (i + 1) (bn_entries n))"
  shows "\<exists>l p r. splitNode raw (Some (newPid, newPage)) pid parent i sep n = Inr (OK, l, p, Some r) \<and>
    inner_ok l \<and> inner_ok r \<and>
    bn_keys l @ sep # bn_keys r = bn_keys n \<and> bn_children l @ bn_children r = bn_children n \<and>
    getLowerFence l = getLowerFence n \<and> getUpperFence l = sep \<and>
    getLowerFence r = sep \<and> getUpperFence r = getUpperFence n \<and> split_parent pid sep newPid parent p"
  using assms by (rule splitNode_inner)

definition inner3 :: BTreeNode where
  "inner3 = page_with False [] [] 13 [([97], pid_bytes 10), ([98], pid_bytes 11), ([99], pid_bytes 12)]"

lemma inner3: "is_page False [] [] 13 [([97], pid_bytes 10), ([98], pid_bytes 11), ([99], pid_bytes 12)] inner3"
  unfolding inner3_def by (rule page_with) (simp_all add: slotEnd_def layout_defs entry_len_def within_def)

theorem page_split_inner_witness:
  "\<exists>l p r. splitNode zero_page (Some (8, zero_page)) 7 root_above_leaf3 1 [98] inner3 = Inr (OK, l, p, Some r) \<and>
    bn_children l @ bn_children r = [10, 11, 12, 13] \<and> bn_keys p = [[98]] \<and> bn_children p = [7, 8]"
proof -
  note p = is_pageD [OF inner3] and q = is_pageD [OF root_above_leaf3]
  have "inner_ok inner3" by (rule p(9)) simp_all
  have f: "page_fits (getLowerFence inner3) [98] (take 1 (bn_entries inner3))"
    "page_fits [98] (getUpperFence inner3) (drop (1 + 1) (bn_entries inner3))"
    by (simp_all add: p(3,4,6) page_fits_def slotEnd_def layout_defs entry_len_def)
  have i: "1 < bn_count inner3" "[98] = bn_keys inner3 ! 1" by (simp_all add: p(7,8))
  have "parent_of 7 [98] root_above_leaf3" by (rule root_is_parent) simp
  from page_split_inner [OF \<open>inner_ok inner3\<close> zero_page_raw zero_page_raw zero_less_one i this f, of 8] obtain l r m where s: "splitNode zero_page (Some (8, zero_page)) 7 root_above_leaf3 1 [98] inner3 = Inr (OK, l, m, Some r)"
    and c: "bn_children l @ bn_children r = bn_children inner3" and m: "split_parent 7 [98] 8 root_above_leaf3 m"
    by blast
  have "bn_children l @ bn_children r = [10, 11, 12, 13]" unfolding c p(10) by (simp add: load_pid_bytes)
  moreover have "bn_keys m = [[98]]" "bn_children m = [7, 8]" using m by (simp_all add: split_parent_def q(7,10))
  ultimately show ?thesis using s by blast
qed

text \<open>
  C14. \<open>mergeNodes\<close> of two neighbouring leaves never fails. It merges exactly when the merged page, with two more copies of the fence
  between the leaves, fits a page: what it merges always fits, and it refuses a merge that fits only when the slack is less than
  twice that fence. When it merges, the left page holds the entries of both with the outer fences and the link of the right page,
  and the parent has lost the key between them and its next child is the left page; when it does
  not, nothing changes.
\<close>

theorem page_merge_leaf:
  assumes "neighbours n right" and "raw_ok raw" and "inner_ok parent" and "i + 1 < bn_count parent"
  shows "\<exists>b m p. mergeNodes raw pid i parent right n = Inr (b, m, p) \<and>
    (b \<longleftrightarrow> page_space (getLowerFence n) (getUpperFence right) (bn_entries n @ bn_entries right) + 2 * length (getUpperFence n) \<le> pageSize) \<and>
    (\<not> b \<longrightarrow> m = n \<and> p = parent) \<and>
    (b \<longrightarrow> bn_inv m \<and> bn_isLeaf m \<and> bn_entries m = bn_entries n @ bn_entries right \<and>
      getLowerFence m = getLowerFence n \<and> getUpperFence m = getUpperFence right \<and> bn_next m = bn_next right \<and>
      inner_ok p \<and> same_fences parent p \<and>
      bn_keys p = take i (bn_keys parent) @ drop (Suc i) (bn_keys parent) \<and>
      bn_children p = take i (bn_children parent) @ pid # drop (i + 2) (bn_children parent))"
  unfolding merge_bound_space [OF assms(1), symmetric] using assms by (rule mergeNodes_leaf)

definition leaf_left :: BTreeNode where
  "leaf_left = page_with True [] [97] 11 [([96], [1])]"

definition leaf_right :: BTreeNode where
  "leaf_right = page_with True [97] [98] 12 [([98], [2, 2])]"

lemma leaf_left: "is_page True [] [97] 11 [([96], [1])] leaf_left"
  unfolding leaf_left_def by (rule page_with) (simp_all add: slotEnd_def layout_defs entry_len_def within_def)

lemma leaf_right: "is_page True [97] [98] 12 [([98], [2, 2])] leaf_right"
  unfolding leaf_right_def by (rule page_with) (simp_all add: slotEnd_def layout_defs entry_len_def within_def)

theorem page_merge_leaf_witness:
  "\<exists>m p. mergeNodes zero_page 10 0 inner3 leaf_right leaf_left = Inr (True, m, p) \<and>
    bn_entries m = [([96], [1]), ([98], [2, 2])] \<and> bn_keys p = [[98], [99]] \<and> bn_children p = [10, 12, 13]"
proof -
  note l = is_pageD [OF leaf_left] and r = is_pageD [OF leaf_right] and p = is_pageD [OF inner3]
  have nb: "neighbours leaf_left leaf_right" by (simp add: neighbours_def l r)
  have inner: "inner_ok inner3" by (rule p(9)) simp_all
  have "page_space (getLowerFence leaf_left) (getUpperFence leaf_right) (bn_entries leaf_left @ bn_entries leaf_right) +
    2 * length (getUpperFence leaf_left) \<le> pageSize"
    by (simp add: page_space_def l r slotEnd_def layout_defs entry_len_def)
  with page_merge_leaf [OF nb zero_page_raw inner, of 0 10] show ?thesis
    by (auto simp: p(7,8,10) l(6) r(6))
qed

end
