(* ===== verification/Btree_Tree.thy ===== *)
theory Btree_Tree
  imports Btree_Page Page_Guards
begin

section \<open>Trees of pages\<close>

text \<open>
  The pages of a tree as a whole. \<open>f\<close> gives the contents of the pages; \<open>tree K h f p lo hi\<close> says that
  page \<open>p\<close> is the root of a tree of height \<open>h\<close> for the keys above \<open>lo\<close> up to \<open>hi\<close> (an empty bound is
  none), whose keys have \<open>K\<close> bytes; \<open>tree_ents\<close> are its entries from left to right, \<open>tree_pids\<close> its
  pages, and \<open>tree_pot\<close> bounds the number of splits it can still undergo. The lemmas say how a search
  goes down and what replacing a subtree on the way of a search does to the whole.
\<close>

definition node :: "(PID \<Rightarrow> Page) \<Rightarrow> PID \<Rightarrow> BTreeNode" where
  "node f p = (case f p of NodePage n \<Rightarrow> n | _ \<Rightarrow> zero_page)"

lemma node_eq [simp]: "f p = NodePage n \<Longrightarrow> node f p = n"
  by (simp add: node_def)

definition leaf_node :: "nat \<Rightarrow> BTreeNode \<Rightarrow> bytes \<Rightarrow> bytes \<Rightarrow> bool" where
  "leaf_node K n lo hi \<longleftrightarrow> bn_inv n \<and> bn_isLeaf n \<and> getLowerFence n = lo \<and> getUpperFence n = hi \<and>
     (bn_next n = noNeighbour \<longleftrightarrow> hi = []) \<and>
     (\<forall>e \<in> set (bn_entries n). length (fst e) = K \<and> length (fst e) + length (snd e) \<le> 789)"

definition inner_node :: "nat \<Rightarrow> BTreeNode \<Rightarrow> bytes \<Rightarrow> bytes \<Rightarrow> bool" where
  "inner_node K n lo hi \<longleftrightarrow> inner_ok n \<and> getLowerFence n = lo \<and> getUpperFence n = hi \<and>
     (\<forall>k \<in> set (bn_keys n). k \<noteq> [] \<and> length k \<le> K \<and> (hi = [] \<or> k < hi))"

definition lo_at :: "bytes \<Rightarrow> bytes list \<Rightarrow> nat \<Rightarrow> bytes" where
  "lo_at lo ks i = (lo # ks) ! i"

definition hi_at :: "bytes \<Rightarrow> bytes list \<Rightarrow> nat \<Rightarrow> bytes" where
  "hi_at hi ks i = (ks @ [hi]) ! i"

fun tree :: "nat \<Rightarrow> nat \<Rightarrow> (PID \<Rightarrow> Page) \<Rightarrow> PID \<Rightarrow> bytes \<Rightarrow> bytes \<Rightarrow> bool" where
  "tree K 0 f p lo hi \<longleftrightarrow> (\<exists>n. f p = NodePage n \<and> leaf_node K n lo hi)"
| "tree K (Suc h) f p lo hi \<longleftrightarrow> (\<exists>n. f p = NodePage n \<and> inner_node K n lo hi \<and>
     (\<forall>i \<le> bn_count n. tree K h f (bn_children n ! i) (lo_at lo (bn_keys n) i) (hi_at hi (bn_keys n) i)))"

fun tree_pids :: "nat \<Rightarrow> (PID \<Rightarrow> Page) \<Rightarrow> PID \<Rightarrow> PID list" where
  "tree_pids 0 f p = [p]"
| "tree_pids (Suc h) f p = p # concat (map (tree_pids h f) (bn_children (node f p)))"

fun tree_ents :: "nat \<Rightarrow> (PID \<Rightarrow> Page) \<Rightarrow> PID \<Rightarrow> (bytes \<times> bytes) list" where
  "tree_ents 0 f p = bn_entries (node f p)"
| "tree_ents (Suc h) f p = concat (map (tree_ents h f) (bn_children (node f p)))"

fun tree_pot :: "nat \<Rightarrow> (PID \<Rightarrow> Page) \<Rightarrow> PID \<Rightarrow> nat" where
  "tree_pot 0 f p = 2 * (bn_count (node f p) - 1)"
| "tree_pot (Suc h) f p = (bn_count (node f p) - 1) + sum_list (map (tree_pot h f) (bn_children (node f p)))"

lemma root_in_pids [simp]: "p \<in> set (tree_pids h f p)"
  by (cases h) auto

text \<open>A tree depends on its own pages only.\<close>

lemma tree_frame:
  assumes "\<forall>q \<in> set (tree_pids h f p). f' q = f q"
  shows "tree K h f' p lo hi = tree K h f p lo hi" and "tree_pids h f' p = tree_pids h f p"
    and "tree_ents h f' p = tree_ents h f p" and "tree_pot h f' p = tree_pot h f p"
  using assms
proof (induction h arbitrary: p lo hi)
  case 0
  { case 1 then show ?case by simp }
  { case 2 then show ?case by simp }
  { case 3 then show ?case by (simp add: node_def) }
  { case 4 then show ?case by (simp add: node_def) }
next
  case (Suc h)
  have n: "f' p = f p" "node f' p = node f p" if "\<forall>q \<in> set (tree_pids (Suc h) f p). f' q = f q" for p
    using that by (simp_all add: node_def)
  have sub: "\<forall>q \<in> set (tree_pids h f c). f' q = f q"
    if "\<forall>q \<in> set (tree_pids (Suc h) f p). f' q = f q" "c \<in> set (bn_children (node f p))" for c p
    using that by auto
  { case 1
    have "tree K h f' (bn_children n ! i) a b = tree K h f (bn_children n ! i) a b"
      if "f p = NodePage n" "inner_node K n lo hi" "i \<le> bn_count n" for n i a b
    proof (rule Suc.IH(1))
      have "bn_children n ! i \<in> set (bn_children (node f p))"
        using that length_bn_children [of n] by (simp add: inner_node_def inner_ok_def)
      then show "\<forall>q \<in> set (tree_pids h f (bn_children n ! i)). f' q = f q" using sub [OF 1] by blast
    qed
    then show ?case using n(1) [OF 1] by auto }
  { case 2 then show ?case using n [OF 2] Suc.IH(2) [OF sub [OF 2]] by (simp cong: map_cong) }
  { case 3 then show ?case using n [OF 3] Suc.IH(3) [OF sub [OF 3]] by (simp cong: map_cong) }
  { case 4 then show ?case using n [OF 4] Suc.IH(4) [OF sub [OF 4]] by (simp cong: map_cong) }
qed

subsection \<open>Intervals\<close>

lemma lo_at_simps: "lo_at lo ks 0 = lo" "0 < i \<Longrightarrow> lo_at lo ks i = ks ! (i - 1)" "lo_at lo ks (Suc i) = ks ! i"
  by (simp_all add: lo_at_def nth_Cons')

lemma hi_at_simps: "i < length ks \<Longrightarrow> hi_at hi ks i = ks ! i" "hi_at hi ks (length ks) = hi"
  by (simp_all add: hi_at_def nth_append)

lemma inner_nodeD:
  assumes "inner_node K n lo hi"
  shows "inner_ok n" "bn_inv n" "length (bn_keys n) = bn_count n" "length (bn_children n) = Suc (bn_count n)"
    "sorted_wrt (<) (bn_keys n)"
    "\<And>k. k \<in> set (bn_keys n) \<Longrightarrow> k \<noteq> [] \<and> length k \<le> K \<and> (lo = [] \<or> lo < k) \<and> (hi = [] \<or> k < hi)"
proof -
  show ok: "inner_ok n" using assms by (simp add: inner_node_def)
  then show inv: "bn_inv n" by (simp add: inner_ok_def)
  then show "length (bn_keys n) = bn_count n" by (simp add: bn_inv_def)
  show "length (bn_children n) = Suc (bn_count n)" using length_bn_children [OF inv] by simp
  show "sorted_wrt (<) (bn_keys n)" using inv by (simp add: bn_inv_def bn_order_def)
  show "k \<noteq> [] \<and> length k \<le> K \<and> (lo = [] \<or> lo < k) \<and> (hi = [] \<or> k < hi)" if "k \<in> set (bn_keys n)" for k
    using assms that inv by (auto simp: inner_node_def bn_inv_def bn_order_def within_def)
qed

lemma sorted_keys_le: "sorted_wrt (<) ks \<Longrightarrow> i \<le> j \<Longrightarrow> j < length ks \<Longrightarrow> ks ! i \<le> (ks ! j :: bytes)"
  by (metis le_neq_implies_less order.strict_implies_order order_refl sorted_wrt_iff_nth_less)

text \<open>The keys of a child lie between the bounds of its parent.\<close>

lemma within_child:
  assumes n: "inner_node K n lo hi" and i: "i \<le> bn_count n"
    and k: "within (lo_at lo (bn_keys n) i) (hi_at hi (bn_keys n) i) k"
  shows "within lo hi k"
proof -
  note d = inner_nodeD [OF n]
  have "lo = [] \<or> lo < k"
  proof (cases "i = 0")
    case False
    then have m: "bn_keys n ! (i - 1) \<in> set (bn_keys n)" using d(3) i by simp
    with d(6) [OF m] k False show ?thesis by (auto simp: lo_at_simps within_def)
  qed (use k in \<open>auto simp: lo_at_simps within_def\<close>)
  moreover have "hi = [] \<or> k \<le> hi"
  proof (cases "i = bn_count n")
    case False
    then have m: "bn_keys n ! i \<in> set (bn_keys n)" using d(3) i by simp
    with d(6) [OF m] k False i d(3) show ?thesis by (auto simp: hi_at_simps within_def)
  qed (use k d(3) hi_at_simps(2) [of hi "bn_keys n"] in \<open>auto simp: within_def\<close>)
  ultimately show ?thesis by (simp add: within_def)
qed

text \<open>The children of an inner page lie one after the other.\<close>

lemma children_ordered:
  assumes n: "inner_node K n lo hi" and i: "i < j" "j \<le> bn_count n"
    and a: "within (lo_at lo (bn_keys n) i) (hi_at hi (bn_keys n) i) a"
    and b: "within (lo_at lo (bn_keys n) j) (hi_at hi (bn_keys n) j) b"
  shows "a < b"
proof -
  note d = inner_nodeD [OF n]
  have "bn_keys n ! i \<in> set (bn_keys n)" "bn_keys n ! (j - 1) \<in> set (bn_keys n)" using d(3) i by simp_all
  then have "a \<le> bn_keys n ! i" "bn_keys n ! (j - 1) < b"
    using a b i d(3,6) by (auto simp: within_def lo_at_simps hi_at_simps)
  moreover have "bn_keys n ! i \<le> bn_keys n ! (j - 1)" using sorted_keys_le [OF d(5)] i d(3) by simp
  ultimately show ?thesis by simp
qed

text \<open>The child a search for \<open>k\<close> goes to.\<close>

definition child_ix :: "bytes \<Rightarrow> BTreeNode \<Rightarrow> nat" where
  "child_ix k n = length (takeWhile (\<lambda>x. x < k) (bn_keys n))"

lemma child_ix_le: "inner_node K n lo hi \<Longrightarrow> child_ix k n \<le> bn_count n"
  using inner_nodeD(3) [of K n lo hi] length_takeWhile_le [of "\<lambda>x. x < k" "bn_keys n"] by (simp add: child_ix_def)

lemma child_ix_within:
  assumes n: "inner_node K n lo hi" and k: "within lo hi k"
  shows "within (lo_at lo (bn_keys n) (child_ix k n)) (hi_at hi (bn_keys n) (child_ix k n)) k"
proof -
  note d = inner_nodeD [OF n]
  let ?i = "child_ix k n"
  have le: "?i \<le> bn_count n" by (rule child_ix_le [OF n])
  have "lo_at lo (bn_keys n) ?i = [] \<or> lo_at lo (bn_keys n) ?i < k"
  proof (cases "?i = 0")
    case False
    then have "bn_keys n ! (?i - 1) < k"
      using nth_length_takeWhile [of "\<lambda>x. x < k"] set_takeWhileD [of "takeWhile (\<lambda>x. x < k) (bn_keys n) ! (?i - 1)" "\<lambda>x. x < k" "bn_keys n"]
        takeWhile_nth [of "?i - 1" "\<lambda>x. x < k" "bn_keys n"] nth_mem [of "?i - 1" "takeWhile (\<lambda>x. x < k) (bn_keys n)"]
      by (simp add: child_ix_def)
    with False show ?thesis by (simp add: lo_at_simps)
  qed (use k in \<open>simp add: lo_at_simps within_def\<close>)
  moreover have "hi_at hi (bn_keys n) ?i = [] \<or> k \<le> hi_at hi (bn_keys n) ?i"
  proof (cases "?i = bn_count n")
    case True
    then show ?thesis using k d(3) hi_at_simps(2) [of hi "bn_keys n"] by (simp add: within_def)
  next
    case False
    then have lt: "?i < length (bn_keys n)" using le d(3) by simp
    then have "\<not> bn_keys n ! ?i < k" using nth_length_takeWhile [of "\<lambda>x. x < k" "bn_keys n"] by (simp add: child_ix_def)
    with lt show ?thesis by (simp add: hi_at_simps not_less)
  qed
  ultimately show ?thesis by (simp add: within_def)
qed

lemma lookupInner_child:
  assumes n: "inner_node K n lo hi"
  shows "lookupInner k n = bn_children n ! child_ix k n"
proof -
  note d = inner_nodeD [OF n]
  have f: "fst (lowerBound k n) = child_ix k n" by (simp add: lowerBound_correct [OF d(2)] child_ix_def)
  show ?thesis
  proof (cases "child_ix k n = bn_count n")
    case True
    then show ?thesis
      using f entries_facts(3) [OF d(2)] by (simp add: lookupInner_def bn_children_def nth_append)
  next
    case False
    then have "child_ix k n < bn_count n" using child_ix_le [OF n, of k] by simp
    with getChild_nth(1) [OF d(1) this] f False show ?thesis by (simp add: lookupInner_def)
  qed
qed

text \<open>The only child whose interval contains the key.\<close>

lemma child_ix_unique:
  assumes n: "inner_node K n lo hi" and i: "i \<le> bn_count n"
    and k: "within (lo_at lo (bn_keys n) i) (hi_at hi (bn_keys n) i) k"
  shows "i = child_ix k n"
proof -
  have w: "within (lo_at lo (bn_keys n) (child_ix k n)) (hi_at hi (bn_keys n) (child_ix k n)) k"
    by (rule child_ix_within [OF n within_child [OF n i k]])
  show ?thesis
    using children_ordered [OF n _ child_ix_le [OF n] k w] children_ordered [OF n _ i w k]
    by (metis nat_neq_iff order_less_irrefl)
qed

subsection \<open>Entries in order\<close>

lemma tree_SucE:
  assumes "tree K (Suc h) f p lo hi"
  obtains n where "f p = NodePage n" "inner_node K n lo hi"
    "\<And>i. i \<le> bn_count n \<Longrightarrow> tree K h f (bn_children n ! i) (lo_at lo (bn_keys n) i) (hi_at hi (bn_keys n) i)"
proof -
  from assms obtain n where "f p = NodePage n" "inner_node K n lo hi"
    "\<forall>i \<le> bn_count n. tree K h f (bn_children n ! i) (lo_at lo (bn_keys n) i) (hi_at hi (bn_keys n) i)"
    unfolding tree.simps by blast
  with that show ?thesis by blast
qed

lemma tree_node: "tree K h f p lo hi \<Longrightarrow> f p = NodePage (node f p)"
  by (cases h) auto

lemma tree_within: "tree K h f p lo hi \<Longrightarrow> e \<in> set (tree_ents h f p) \<Longrightarrow> within lo hi (fst e) \<and> length (fst e) = K"
proof (induction h arbitrary: p lo hi)
  case 0
  then obtain n where n: "f p = NodePage n" "leaf_node K n lo hi" by auto
  with 0(2) have "e \<in> set (bn_entries n)" by simp
  with n(2) entries_facts(2) [of n] show ?case by (auto simp: leaf_node_def simp flip: map_fst_bn_entries)
next
  case (Suc h)
  from Suc.prems(1) obtain n where n: "f p = NodePage n" "inner_node K n lo hi"
    and c: "\<And>i. i \<le> bn_count n \<Longrightarrow> tree K h f (bn_children n ! i) (lo_at lo (bn_keys n) i) (hi_at hi (bn_keys n) i)"
    by (rule tree_SucE) (rule that)
  from Suc.prems(2) n(1) obtain c where "c \<in> set (bn_children n)" "e \<in> set (tree_ents h f c)" by auto
  with inner_nodeD(4) [OF n(2)] obtain i where i: "i \<le> bn_count n" "e \<in> set (tree_ents h f (bn_children n ! i))"
    by (metis in_set_conv_nth less_Suc_eq_le)
  from Suc.IH [OF c [OF i(1)] i(2)] within_child [OF n(2) i(1)] show ?case by simp
qed

lemma sorted_wrt_concat:
  assumes "\<And>i. i < length xss \<Longrightarrow> sorted_wrt P (xss ! i)"
    and "\<And>i j x y. i < j \<Longrightarrow> j < length xss \<Longrightarrow> x \<in> set (xss ! i) \<Longrightarrow> y \<in> set (xss ! j) \<Longrightarrow> P x y"
  shows "sorted_wrt P (concat xss)"
  using assms
proof (induction xss)
  case (Cons xs xss)
  have "sorted_wrt P xs" using Cons.prems(1) [of 0] by simp
  moreover have "sorted_wrt P (concat xss)"
  proof (rule Cons.IH)
    show "sorted_wrt P (xss ! i)" if "i < length xss" for i using Cons.prems(1) [of "Suc i"] that by simp
    show "P x y" if "i < j" "j < length xss" "x \<in> set (xss ! i)" "y \<in> set (xss ! j)" for i j x y
      using Cons.prems(2) [of "Suc i" "Suc j"] that by simp
  qed
  moreover have "P x y" if "x \<in> set xs" "y \<in> set (concat xss)" for x y
  proof -
    from that(2) obtain ys where "ys \<in> set xss" "y \<in> set ys" by auto
    then obtain j where "j < length xss" "y \<in> set (xss ! j)" by (metis in_set_conv_nth)
    with Cons.prems(2) [of 0 "Suc j"] that(1) show ?thesis by simp
  qed
  ultimately show ?case by (simp add: sorted_wrt_append)
qed simp

lemma tree_sorted: "tree K h f p lo hi \<Longrightarrow> sorted_wrt (<) (map fst (tree_ents h f p))"
proof (induction h arbitrary: p lo hi)
  case 0
  then show ?case using entries_facts(1) by (auto simp: leaf_node_def)
next
  case (Suc h)
  from Suc.prems(1) obtain n where n: "f p = NodePage n" "inner_node K n lo hi"
    and c: "\<And>i. i \<le> bn_count n \<Longrightarrow> tree K h f (bn_children n ! i) (lo_at lo (bn_keys n) i) (hi_at hi (bn_keys n) i)"
    by (rule tree_SucE) (rule that)
  let ?xss = "map (\<lambda>c. map fst (tree_ents h f c)) (bn_children n)"
  have len: "length ?xss = Suc (bn_count n)" using inner_nodeD(4) [OF n(2)] by simp
  have "sorted_wrt (<) (concat ?xss)"
  proof (rule sorted_wrt_concat)
    show "sorted_wrt (<) (?xss ! i)" if "i < length ?xss" for i using Suc.IH [OF c [of i]] that len by simp
    show "x < y" if "i < j" "j < length ?xss" "x \<in> set (?xss ! i)" "y \<in> set (?xss ! j)" for i j x y
    proof (rule children_ordered [OF n(2) that(1)])
      show "j \<le> bn_count n" using that(2) len by simp
      show "within (lo_at lo (bn_keys n) i) (hi_at hi (bn_keys n) i) x"
        using tree_within [OF c [of i]] that len by auto
      show "within (lo_at lo (bn_keys n) j) (hi_at hi (bn_keys n) j) y"
        using tree_within [OF c [of j]] that len by auto
    qed
  qed
  then show ?case using n(1) by (simp add: map_concat comp_def)
qed

lemma sorted_distinct: "sorted_wrt (<) (xs :: bytes list) \<Longrightarrow> distinct xs"
  by (induction xs) auto

lemma tree_keys_distinct: "tree K h f p lo hi \<Longrightarrow> distinct (map fst (tree_ents h f p))"
  by (rule sorted_distinct [OF tree_sorted])

subsection \<open>Walking down and replacing a subtree\<close>

fun walk :: "(BTreeNode \<Rightarrow> nat) \<Rightarrow> nat \<Rightarrow> (PID \<Rightarrow> Page) \<Rightarrow> PID \<Rightarrow> bytes \<Rightarrow> bytes \<Rightarrow> PID \<times> bytes \<times> bytes" where
  "walk ix 0 f p lo hi = (p, lo, hi)"
| "walk ix (Suc d) f p lo hi =
     (let n = node f p; i = ix n
      in walk ix d f (bn_children n ! i) (lo_at lo (bn_keys n) i) (hi_at hi (bn_keys n) i))"

lemma walk_Suc:
  "walk ix (Suc d) f p lo hi = (q, a, b) \<longleftrightarrow>
    (\<exists>r lo' hi'. walk ix d f p lo hi = (r, lo', hi') \<and>
      q = bn_children (node f r) ! ix (node f r) \<and>
      a = lo_at lo' (bn_keys (node f r)) (ix (node f r)) \<and>
      b = hi_at hi' (bn_keys (node f r)) (ix (node f r)))"
proof (induction d arbitrary: p lo hi)
  case (Suc d)
  show ?case unfolding walk.simps(2) [of ix "Suc d"] Let_def Suc.IH by (simp add: Let_def)
qed (auto simp: Let_def)

lemma walk_tree:
  assumes "tree K h f p lo hi" and "within lo hi k" and "d \<le> h" and "walk (child_ix k) d f p lo hi = (q, a, b)"
  shows "tree K (h - d) f q a b" and "within a b k" and "set (tree_pids (h - d) f q) \<subseteq> set (tree_pids h f p)"
  using assms
proof (induction d arbitrary: h p lo hi)
  case 0
  { case 1 then show ?case by simp }
  { case 2 then show ?case by simp }
  { case 3 then show ?case by simp }
next
  case (Suc d)
  { fix h p lo hi
    assume t: "tree K h f p lo hi" and w: "within lo hi k" and d: "Suc d \<le> h" and q: "walk (child_ix k) (Suc d) f p lo hi = (q, a, b)"
    from d obtain h' where h: "h = Suc h'" by (cases h) auto
    from t [unfolded h] obtain n where n: "f p = NodePage n" "inner_node K n lo hi"
      and c: "\<And>i. i \<le> bn_count n \<Longrightarrow> tree K h' f (bn_children n ! i) (lo_at lo (bn_keys n) i) (hi_at hi (bn_keys n) i)"
      by (rule tree_SucE) (rule that)
    let ?i = "child_ix k n"
    have i: "?i \<le> bn_count n" by (rule child_ix_le [OF n(2)])
    have q': "walk (child_ix k) d f (bn_children n ! ?i) (lo_at lo (bn_keys n) ?i) (hi_at hi (bn_keys n) ?i) = (q, a, b)"
      using q n by (simp add: Let_def)
    have d': "d \<le> h'" using d h by simp
    note ih = Suc.IH [OF c [OF i] child_ix_within [OF n(2) w] d' q']
    have "bn_children n ! ?i \<in> set (bn_children n)" using i inner_nodeD(4) [OF n(2)] by simp
    then have "set (tree_pids h' f (bn_children n ! ?i)) \<subseteq> set (tree_pids h f p)" using n(1) h by auto
    with ih h have "tree K (h - Suc d) f q a b" "within a b k" "set (tree_pids (h - Suc d) f q) \<subseteq> set (tree_pids h f p)"
      by auto }
  note * = this
  { case 1 then show ?case by (rule *(1)) }
  { case 2 then show ?case by (rule *(2)) }
  { case 3 then show ?case by (rule *(3)) }
qed

lemma concat_update:
  "i < length xss \<Longrightarrow> concat (xss[i := ys]) = concat (take i xss) @ ys @ concat (drop (Suc i) xss)"
  by (simp add: upd_conv_take_nth_drop)

lemma concat_at: "i < length xss \<Longrightarrow> concat xss = concat (take i xss) @ xss ! i @ concat (drop (Suc i) xss)"
  by (metis concat.simps(2) concat_append id_take_nth_drop)

lemma distinct_replace:
  "distinct (A @ X @ B) \<Longrightarrow> distinct ys \<Longrightarrow> set ys \<subseteq> set X \<union> N \<Longrightarrow> N \<inter> set (A @ X @ B) = {} \<Longrightarrow>
    distinct (A @ ys @ B) \<and> set (A @ ys @ B) \<subseteq> set (A @ X @ B) \<union> N"
  by (simp; blast)

lemma distinct_concat_replace:
  assumes d: "distinct (concat xss)" and i: "i < length xss" and y: "distinct ys" "set ys \<subseteq> set (xss ! i) \<union> N"
    and N: "N \<inter> set (concat xss) = {}"
  shows "distinct (concat (xss[i := ys]))" and "set (concat (xss[i := ys])) \<subseteq> set (concat xss) \<union> N"
  using distinct_replace [OF d [unfolded concat_at [OF i]] y N [unfolded concat_at [OF i]]]
  unfolding concat_update [OF i] concat_at [OF i] by (rule conjunct1, rule conjunct2)

lemma sum_list_update:
  "i < length xs \<Longrightarrow> sum_list (xs[i := y]) + xs ! i = sum_list xs + (y :: nat)"
  using sum_list_map_update [of i xs "\<lambda>x. x" y] by simp

lemma children_distinct:
  assumes "distinct (concat (map g cs))" and "i < length cs" and "j < length cs" and "i \<noteq> j"
  shows "set (g (cs ! i)) \<inter> set (g (cs ! j)) = {}"
proof -
  have "disjnt (set (g (cs ! i))) (set (g (cs ! j)))" if "i < j" "j < length cs" for i j
  proof -
    have "concat (map g cs) = concat (map g (take j cs)) @ g (cs ! j) @ concat (map g (drop (Suc j) cs))"
      using that concat_at [of j "map g cs"] by (simp add: take_map drop_map)
    with assms(1) have "set (concat (map g (take j cs))) \<inter> set (g (cs ! j)) = {}" by auto
    moreover have "cs ! i \<in> set (take j cs)" using that by (auto simp: in_set_conv_nth intro!: exI [of _ i])
    ultimately show ?thesis by (auto simp: disjnt_def)
  qed
  from this [of i j] this [of j i] assms(2-4) show ?thesis by (cases "i < j") (auto simp: disjnt_def)
qed

text \<open>
  \<open>replaces K h f f' q a b N\<close>: from \<open>f\<close> to \<open>f'\<close> the subtree of height \<open>h\<close> at \<open>q\<close> became another one for
  the same interval, made of its old pages and the new pages \<open>N\<close>.
\<close>

definition replaces :: "nat \<Rightarrow> nat \<Rightarrow> (PID \<Rightarrow> Page) \<Rightarrow> (PID \<Rightarrow> Page) \<Rightarrow> PID \<Rightarrow> bytes \<Rightarrow> bytes \<Rightarrow> PID set \<Rightarrow> bool" where
  "replaces K h f f' q a b N \<longleftrightarrow> tree K h f' q a b \<and> distinct (tree_pids h f' q) \<and>
     set (tree_pids h f' q) \<subseteq> set (tree_pids h f q) \<union> N"

lemma replace_child:
  assumes t: "tree K (Suc h) f p lo hi" and n: "f p = NodePage n" and d: "distinct (tree_pids (Suc h) f p)"
    and i: "i \<le> bn_count n" and r: "replaces K h f f' (bn_children n ! i) (lo_at lo (bn_keys n) i) (hi_at hi (bn_keys n) i) N"
    and N: "N \<inter> set (tree_pids (Suc h) f p) = {}"
    and same: "\<forall>x \<in> set (tree_pids (Suc h) f p) - set (tree_pids h f (bn_children n ! i)). f' x = f x"
  shows "replaces K (Suc h) f f' p lo hi N"
    and "\<exists>A B. tree_ents (Suc h) f p = A @ tree_ents h f (bn_children n ! i) @ B \<and>
      tree_ents (Suc h) f' p = A @ tree_ents h f' (bn_children n ! i) @ B"
    and "tree_pot (Suc h) f' p + tree_pot h f (bn_children n ! i) = tree_pot (Suc h) f p + tree_pot h f' (bn_children n ! i)"
proof -
  let ?cs = "bn_children n" and ?c = "bn_children n ! i"
  from t n have inner: "inner_node K n lo hi"
    and c: "\<And>j. j \<le> bn_count n \<Longrightarrow> tree K h f (?cs ! j) (lo_at lo (bn_keys n) j) (hi_at hi (bn_keys n) j)" by auto
  have len: "length ?cs = Suc (bn_count n)" by (rule inner_nodeD(4) [OF inner])
  have pids: "tree_pids (Suc h) f p = p # concat (map (tree_pids h f) ?cs)" using n by simp
  have dc: "distinct (concat (map (tree_pids h f) ?cs))" and pc: "p \<notin> set (concat (map (tree_pids h f) ?cs))"
    using d unfolding pids by auto
  have sub: "set (tree_pids h f (?cs ! j)) \<subseteq> set (concat (map (tree_pids h f) ?cs))" if "j \<le> bn_count n" for j
    using nth_mem [of j ?cs] that len by (auto simp del: nth_mem)
  have "p \<notin> set (tree_pids h f ?c)" using sub [OF i] pc by blast
  then have p: "f' p = NodePage n" using same n by simp
  have other: "\<forall>x \<in> set (tree_pids h f (?cs ! j)). f' x = f x" if "j \<le> bn_count n" "j \<noteq> i" for j
  proof
    fix x
    assume x: "x \<in> set (tree_pids h f (?cs ! j))"
    then have "x \<notin> set (tree_pids h f ?c)" using children_distinct [OF dc, of j i] that i len by auto
    moreover have "x \<in> set (tree_pids (Suc h) f p)" using x sub [OF that(1)] pids by auto
    ultimately show "f' x = f x" using same by blast
  qed
  have map: "map (g f') ?cs = (map (g f) ?cs)[i := g f' ?c]" if "\<And>j. j \<le> bn_count n \<Longrightarrow> j \<noteq> i \<Longrightarrow> g f' (?cs ! j) = g f (?cs ! j)"
    for g :: "(PID \<Rightarrow> Page) \<Rightarrow> PID \<Rightarrow> 'z"
    by (rule nth_equalityI) (use that len i in \<open>auto simp: nth_list_update less_Suc_eq_le\<close>)
  note mp = map [of "tree_pids h", OF tree_frame(2) [OF other]] and me = map [of "tree_ents h", OF tree_frame(3) [OF other]]
    and mq = map [of "tree_pot h", OF tree_frame(4) [OF other]]
  have il: "i < length (map (g f) ?cs)" for g :: "(PID \<Rightarrow> Page) \<Rightarrow> PID \<Rightarrow> 'z" using i len by simp
  have N': "N \<inter> set (concat (map (tree_pids h f) ?cs)) = {}" "p \<notin> N" using N unfolding pids by auto
  have "distinct (tree_pids h f' ?c)" "set (tree_pids h f' ?c) \<subseteq> set (map (tree_pids h f) ?cs ! i) \<union> N"
    using r i len by (auto simp: replaces_def)
  note rep = distinct_concat_replace [OF dc _ this N'(1)]
  have "tree K h f' (?cs ! j) (lo_at lo (bn_keys n) j) (hi_at hi (bn_keys n) j)" if "j \<le> bn_count n" for j
    using c [OF that] tree_frame(1) [OF other [OF that]] r by (cases "j = i") (simp_all add: replaces_def)
  then have "tree K (Suc h) f' p lo hi" using p inner by simp
  moreover have pids': "tree_pids (Suc h) f' p = p # concat ((map (tree_pids h f) ?cs)[i := tree_pids h f' ?c])"
    using p mp by simp
  have "p \<notin> set (concat ((map (tree_pids h f) ?cs)[i := tree_pids h f' ?c]))"
    using rep(2) i len pc N'(2) by auto
  then have "distinct (tree_pids (Suc h) f' p)" "set (tree_pids (Suc h) f' p) \<subseteq> set (tree_pids (Suc h) f p) \<union> N"
    using rep i len unfolding pids pids' by auto
  ultimately show "replaces K (Suc h) f f' p lo hi N" by (simp only: replaces_def simp_thms)
  have ents': "tree_ents (Suc h) f' p = concat ((map (tree_ents h f) ?cs)[i := tree_ents h f' ?c])" using p me by simp
  have "tree_ents (Suc h) f p = concat (map (tree_ents h f) ?cs)" using n by simp
  then show "\<exists>A B. tree_ents (Suc h) f p = A @ tree_ents h f ?c @ B \<and> tree_ents (Suc h) f' p = A @ tree_ents h f' ?c @ B"
    unfolding ents' using concat_at [of i "map (tree_ents h f) ?cs"] concat_update [of i "map (tree_ents h f) ?cs"] i len
    by (metis (no_types, lifting) length_map less_Suc_eq_le nth_map)
  show "tree_pot (Suc h) f' p + tree_pot h f ?c = tree_pot (Suc h) f p + tree_pot h f' ?c"
    using p n mq sum_list_update [of i "map (tree_pot h f) ?cs" "tree_pot h f' ?c"] i len by simp
qed

lemma replace_walk:
  assumes "tree K h f p lo hi" and "within lo hi k" and "distinct (tree_pids h f p)" and "d \<le> h"
    and "walk (child_ix k) d f p lo hi = (q, a, b)" and "replaces K (h - d) f f' q a b N" and "N \<inter> set (tree_pids h f p) = {}"
    and "\<forall>x \<in> set (tree_pids h f p) - set (tree_pids (h - d) f q). f' x = f x"
  shows "replaces K h f f' p lo hi N \<and>
    (\<exists>A B. tree_ents h f p = A @ tree_ents (h - d) f q @ B \<and> tree_ents h f' p = A @ tree_ents (h - d) f' q @ B) \<and>
    tree_pot h f' p + tree_pot (h - d) f q = tree_pot h f p + tree_pot (h - d) f' q"
  using assms
proof (induction d arbitrary: h p lo hi)
  case 0
  then show ?case by (auto intro!: exI [of _ "[]"])
next
  case (Suc d)
  from Suc.prems(4) obtain h' where h: "h = Suc h'" by (cases h) auto
  from Suc.prems(1) [unfolded h] obtain n where n: "f p = NodePage n" "inner_node K n lo hi"
    and c: "\<And>i. i \<le> bn_count n \<Longrightarrow> tree K h' f (bn_children n ! i) (lo_at lo (bn_keys n) i) (hi_at hi (bn_keys n) i)"
    by (rule tree_SucE) (rule that)
  let ?i = "child_ix k n" and ?c = "bn_children n ! child_ix k n"
  have i: "?i \<le> bn_count n" by (rule child_ix_le [OF n(2)])
  have w: "walk (child_ix k) d f ?c (lo_at lo (bn_keys n) ?i) (hi_at hi (bn_keys n) ?i) = (q, a, b)"
    using Suc.prems(5) n by (simp add: Let_def)
  have pids: "tree_pids h f p = p # concat (map (tree_pids h' f) (bn_children n))" using n h by simp
  have mem: "?c \<in> set (bn_children n)" using i inner_nodeD(4) [OF n(2)] by simp
  have dc: "distinct (tree_pids h' f ?c)" using Suc.prems(3) mem unfolding pids by (auto simp: distinct_concat_iff)
  have sub: "set (tree_pids h' f ?c) \<subseteq> set (tree_pids h f p)" using mem unfolding pids by auto
  have d: "d \<le> h'" "h - Suc d = h' - d" using Suc.prems(4) h by simp_all
  have q: "set (tree_pids (h' - d) f q) \<subseteq> set (tree_pids h' f ?c)"
    by (rule walk_tree(3) [OF c [OF i] child_ix_within [OF n(2) Suc.prems(2)] d(1) w])
  have ih: "replaces K h' f f' ?c (lo_at lo (bn_keys n) ?i) (hi_at hi (bn_keys n) ?i) N \<and>
    (\<exists>A B. tree_ents h' f ?c = A @ tree_ents (h' - d) f q @ B \<and> tree_ents h' f' ?c = A @ tree_ents (h' - d) f' q @ B) \<and>
    tree_pot h' f' ?c + tree_pot (h' - d) f q = tree_pot h' f ?c + tree_pot (h' - d) f' q"
    by (rule Suc.IH [OF c [OF i] child_ix_within [OF n(2) Suc.prems(2)] dc d(1) w])
      (use Suc.prems(6-8) sub d(2) in auto)
  have "\<forall>x \<in> set (tree_pids (Suc h') f p) - set (tree_pids h' f ?c). f' x = f x"
    using Suc.prems(8) q unfolding h diff_Suc_Suc by blast
  note rc = replace_child [OF Suc.prems(1) [unfolded h] n(1) Suc.prems(3) [unfolded h] i conjunct1 [OF ih] Suc.prems(7) [unfolded h] this]
  from rc(2) ih obtain A B A' B' where "tree_ents h f p = A @ (A' @ tree_ents (h' - d) f q @ B') @ B"
    "tree_ents h f' p = A @ (A' @ tree_ents (h' - d) f' q @ B') @ B" unfolding h by metis
  then have "\<exists>A B. tree_ents h f p = A @ tree_ents (h' - d) f q @ B \<and> tree_ents h f' p = A @ tree_ents (h' - d) f' q @ B"
    by (intro exI [of _ "A @ A'"] exI [of _ "B' @ B"]) simp
  with rc(1,3) ih show ?case unfolding h diff_Suc_Suc by auto
qed

text \<open>Replacing a leaf on the way of a search.\<close>

lemma replaces_leaf:
  assumes "leaf_node K n' a b"
  shows "replaces K 0 f (f(q := NodePage n')) q a b {}"
  using assms by (simp add: replaces_def)

subsection \<open>Splitting\<close>

text \<open>
  \<open>halves K h f f' q new a sep b\<close>: the subtree at \<open>q\<close> was divided at \<open>sep\<close> into one at \<open>q\<close> and one at the
  new page.
\<close>

definition halves :: "nat \<Rightarrow> nat \<Rightarrow> (PID \<Rightarrow> Page) \<Rightarrow> (PID \<Rightarrow> Page) \<Rightarrow> PID \<Rightarrow> PID \<Rightarrow> bytes \<Rightarrow> bytes \<Rightarrow> bytes \<Rightarrow> bool" where
  "halves K h f f' q new a sep b \<longleftrightarrow> tree K h f' q a sep \<and> tree K h f' new sep b \<and>
     distinct (tree_pids h f' q @ tree_pids h f' new) \<and>
     set (tree_pids h f' q @ tree_pids h f' new) \<subseteq> insert new (set (tree_pids h f q)) \<and>
     tree_ents h f' q @ tree_ents h f' new = tree_ents h f q \<and>
     tree_pot h f' q + tree_pot h f' new + 2 \<le> tree_pot h f q"

lemma halves_leaf:
  assumes n: "f q = NodePage n" "leaf_node K n a b" and i: "i + 1 < bn_count n"
    and l: "f' q = NodePage l" "leaf_node K l a sep" "bn_entries l = take (i + 1) (bn_entries n)"
    and r: "f' new = NodePage r" "leaf_node K r sep b" "bn_entries r = drop (i + 1) (bn_entries n)"
    and new: "new \<noteq> q"
  shows "halves K 0 f f' q new a sep b"
proof -
  have "length (bn_entries n) = bn_count n" "length (bn_entries l) = bn_count l" "length (bn_entries r) = bn_count r"
    using n(2) l(2) r(2) entries_facts(3) by (simp_all add: leaf_node_def)
  then have "bn_count l = i + 1" "bn_count r = bn_count n - (i + 1)"
    using l(3) r(3) i by simp_all
  with assms show ?thesis by (simp add: halves_def)
qed

lemma halves_inner:
  assumes t: "tree K (Suc h) f q a b" and d: "distinct (tree_pids (Suc h) f q)"
    and n: "f q = NodePage n" and c: "0 < bn_count l" "0 < bn_count r" 
    and l: "f' q = NodePage l" "inner_node K l a sep" and r: "f' new = NodePage r" "inner_node K r sep b"
    and keys: "bn_keys l @ sep # bn_keys r = bn_keys n" and cs: "bn_children l @ bn_children r = bn_children n"
    and new: "new \<notin> set (tree_pids (Suc h) f q)"
    and same: "\<forall>x \<in> set (tree_pids (Suc h) f q). x \<noteq> q \<longrightarrow> f' x = f x"
  shows "halves K (Suc h) f f' q new a sep b"
proof -
  from t n have inner: "inner_node K n a b"
    and ch: "\<And>j. j \<le> bn_count n \<Longrightarrow> tree K h f (bn_children n ! j) (lo_at a (bn_keys n) j) (hi_at b (bn_keys n) j)" by auto
  note D = inner_nodeD [OF inner] and L = inner_nodeD [OF l(2)] and R = inner_nodeD [OF r(2)]
  have pids: "tree_pids (Suc h) f q = q # concat (map (tree_pids h f) (bn_children n))" using n by simp
  have q: "q \<notin> set (concat (map (tree_pids h f) (bn_children n)))" and dc: "distinct (concat (map (tree_pids h f) (bn_children n)))"
    using d unfolding pids by auto
  have sub: "\<forall>x \<in> set (tree_pids h f c). f' x = f x" if "c \<in> set (bn_children n)" for c
    using same q that unfolding pids by simp metis
  note fr = tree_frame [OF sub]
  have cnt: "bn_count n = bn_count l + bn_count r + 1" using arg_cong [OF keys, of length] L(3) R(3) D(3) by simp
  have lt: "tree K h f' (bn_children l ! i) (lo_at a (bn_keys l) i) (hi_at sep (bn_keys l) i)" if "i \<le> bn_count l" for i
  proof -
    have "bn_children l ! i = bn_children n ! i" using cs L(4) that by (simp add: nth_append flip: cs)
    moreover have "lo_at a (bn_keys l) i = lo_at a (bn_keys n) i"
      using L(3) that by (cases i) (simp_all add: lo_at_simps nth_append flip: keys)
    moreover have "hi_at sep (bn_keys l) i = hi_at b (bn_keys n) i"
      using L(3) that by (cases "i = bn_count l") (simp_all add: hi_at_def nth_append flip: keys)
    moreover have "bn_children n ! i \<in> set (bn_children n)" using that cnt D(4) by simp
    ultimately show ?thesis using fr(1) ch [of i] that cnt by simp
  qed
  have rt: "tree K h f' (bn_children r ! i) (lo_at sep (bn_keys r) i) (hi_at b (bn_keys r) i)" if "i \<le> bn_count r" for i
  proof -
    let ?j = "Suc (bn_count l) + i"
    have "bn_children r ! i = bn_children n ! ?j" using L(4) by (simp add: nth_append flip: cs)
    moreover have "lo_at sep (bn_keys r) i = lo_at a (bn_keys n) ?j"
      using L(3) that by (cases i) (simp_all add: lo_at_simps nth_append flip: keys)
    moreover have "hi_at b (bn_keys r) i = hi_at b (bn_keys n) ?j"
      using L(3) that by (simp add: hi_at_def nth_append flip: keys)
    moreover have "bn_children n ! ?j \<in> set (bn_children n)" using that cnt D(4) by simp
    ultimately show ?thesis using fr(1) ch [of ?j] that cnt by simp
  qed
  have mem: "set (bn_children l) \<subseteq> set (bn_children n)" "set (bn_children r) \<subseteq> set (bn_children n)"
    by (simp_all flip: cs)
  have m: "map (g f') (bn_children l) = map (g f) (bn_children l)" "map (g f') (bn_children r) = map (g f) (bn_children r)"
    if "\<And>c. c \<in> set (bn_children n) \<Longrightarrow> g f' c = g f c" for g :: "(PID \<Rightarrow> Page) \<Rightarrow> PID \<Rightarrow> 'z"
    using that mem by auto
  have p: "tree_pids (Suc h) f' q = q # concat (map (tree_pids h f) (bn_children l))"
    "tree_pids (Suc h) f' new = new # concat (map (tree_pids h f) (bn_children r))"
    by (simp_all add: l(1) r(1) m [of "tree_pids h", OF fr(2)])
  have all: "concat (map (tree_pids h f) (bn_children n))
      = concat (map (tree_pids h f) (bn_children l)) @ concat (map (tree_pids h f) (bn_children r))" by (simp flip: cs)
  have "distinct (tree_pids (Suc h) f' q @ tree_pids (Suc h) f' new)"
    using d new unfolding p pids all by auto
  moreover have "set (tree_pids (Suc h) f' q @ tree_pids (Suc h) f' new) \<subseteq> insert new (set (tree_pids (Suc h) f q))"
    unfolding p pids all by auto
  moreover have "tree_ents (Suc h) f' q @ tree_ents (Suc h) f' new = tree_ents (Suc h) f q"
    using l(1) r(1) n by (simp add: m [of "tree_ents h", OF fr(3)]) (simp flip: cs)
  moreover have "tree_pot (Suc h) f' q + tree_pot (Suc h) f' new + 2 \<le> tree_pot (Suc h) f q"
    using cnt c l(1) r(1) n by (simp add: m [of "tree_pot h", OF fr(4)]) (simp flip: cs)
  ultimately show ?thesis using l r lt rt by (simp add: halves_def)
qed

text \<open>Positions in the parent after a new key at position \<open>i\<close>.\<close>

lemma split_bounds:
  assumes i: "i \<le> length ks" and ks: "ks' = take i ks @ sep # drop i ks"
  shows "j \<le> i \<Longrightarrow> lo_at lo ks' j = lo_at lo ks j" and "lo_at lo ks' (Suc i) = sep"
    and "i < j \<Longrightarrow> j \<le> length ks \<Longrightarrow> lo_at lo ks' (Suc j) = lo_at lo ks j"
    and "j < i \<Longrightarrow> hi_at hi ks' j = hi_at hi ks j" and "hi_at hi ks' i = sep"
    and "i \<le> j \<Longrightarrow> j \<le> length ks \<Longrightarrow> hi_at hi ks' (Suc j) = hi_at hi ks j"
  using i by (cases j; auto simp: ks lo_at_def hi_at_def nth_append min_def)+

lemma replaces_split:
  assumes t: "tree K (Suc h) f r lo hi" and d: "distinct (tree_pids (Suc h) f r)" and n: "f r = NodePage n"
    and i: "i \<le> bn_count n" and q: "q = bn_children n ! i"
    and hv: "halves K h f f' q new (lo_at lo (bn_keys n) i) sep (hi_at hi (bn_keys n) i)"
    and n': "f' r = NodePage n'" "inner_node K n' lo hi"
    and keys: "bn_keys n' = take i (bn_keys n) @ sep # drop i (bn_keys n)"
    and cs: "bn_children n' = take i (bn_children n) @ q # new # drop (Suc i) (bn_children n)"
    and new: "new \<notin> set (tree_pids (Suc h) f r)"
    and same: "\<forall>x \<in> set (tree_pids (Suc h) f r). x \<noteq> r \<longrightarrow> x \<notin> set (tree_pids h f q) \<longrightarrow> f' x = f x"
  shows "replaces K (Suc h) f f' r lo hi {new}" and "tree_ents (Suc h) f' r = tree_ents (Suc h) f r"
    and "tree_pot (Suc h) f' r + 1 \<le> tree_pot (Suc h) f r"
proof -
  let ?cs = "bn_children n"
  from t n have inner: "inner_node K n lo hi"
    and ch: "\<And>j. j \<le> bn_count n \<Longrightarrow> tree K h f (?cs ! j) (lo_at lo (bn_keys n) j) (hi_at hi (bn_keys n) j)" by auto
  note D = inner_nodeD [OF inner] and D' = inner_nodeD [OF n'(2)]
  have cnt: "bn_count n' = Suc (bn_count n)" using arg_cong [OF keys, of length] D(3) D'(3) i by simp
  have ik: "i \<le> length (bn_keys n)" and ic: "i < length ?cs" using i D by simp_all
  note sb = split_bounds [OF ik keys]
  let ?A = "take i ?cs" and ?B = "drop (Suc i) ?cs"
  have cs0: "?cs = ?A @ q # ?B" using id_take_nth_drop [OF ic] q by simp
  have m0: "map g ?cs = map g ?A @ g q # map g ?B" for g :: "PID \<Rightarrow> 'z"
    using arg_cong [OF cs0, of "map g"] by simp
  have pids: "tree_pids (Suc h) f r = r # concat (map (tree_pids h f) ?A) @ tree_pids h f q @ concat (map (tree_pids h f) ?B)"
    using n m0 [of "tree_pids h f"] by simp
  have other: "\<forall>x \<in> set (tree_pids h f c). f' x = f x" if "c \<in> set ?A \<union> set ?B" for c
  proof
    fix x
    assume x: "x \<in> set (tree_pids h f c)"
    then have "x \<in> set (concat (map (tree_pids h f) ?A)) \<union> set (concat (map (tree_pids h f) ?B))" using that by auto
    with d have "x \<noteq> r" "x \<notin> set (tree_pids h f q)" "x \<in> set (tree_pids (Suc h) f r)"
      unfolding pids distinct.simps distinct_append set_append by auto
    with same show "f' x = f x" by blast
  qed
  note fr = tree_frame [OF other]
  have mA: "map (g f') ?A = map (g f) ?A" "map (g f') ?B = map (g f) ?B"
    if "\<And>c. c \<in> set ?A \<union> set ?B \<Longrightarrow> g f' c = g f c" for g :: "(PID \<Rightarrow> Page) \<Rightarrow> PID \<Rightarrow> 'z" using that by auto
  have m2: "map (tree_pids h f') ?A = map (tree_pids h f) ?A" "map (tree_pids h f') ?B = map (tree_pids h f) ?B"
    by (rule mA, erule fr(2))+
  have m3: "map (tree_ents h f') ?A = map (tree_ents h f) ?A" "map (tree_ents h f') ?B = map (tree_ents h f) ?B"
    by (rule mA, erule fr(3))+
  have m4: "map (tree_pot h f') ?A = map (tree_pot h f) ?A" "map (tree_pot h f') ?B = map (tree_pot h f) ?B"
    by (rule mA, erule fr(4))+
  have inA: "?cs ! j \<in> set ?A \<union> set ?B" if "j \<noteq> i" "j \<le> bn_count n" for j
  proof (cases "j < i")
    case True
    then show ?thesis using ic by (auto simp: in_set_conv_nth intro!: exI [of _ j])
  next
    case False
    then have "?B ! (j - Suc i) = ?cs ! j" "j - Suc i < length ?B" using that D(4) by auto
    then show ?thesis by (metis UnCI nth_mem)
  qed
  have ch': "tree K h f' (bn_children n' ! j) (lo_at lo (bn_keys n') j) (hi_at hi (bn_keys n') j)" if j: "j \<le> bn_count n'" for j
  proof -
    consider "j < i" | "j = i" | "j = Suc i" | j' where "j = Suc j'" "i < j'" "j' \<le> bn_count n"
      using j cnt by (metis Suc_le_mono Suc_lessI less_Suc_eq linorder_neqE_nat not0_implies_Suc not_less_zero)
    then show ?thesis
    proof cases
      case 1
      then have "bn_children n' ! j = ?cs ! j" using ic by (simp add: cs nth_append)
      with 1 fr(1) [OF inA [of j]] ch [of j] sb(1) [of j] sb(4) [of j] i show ?thesis by simp
    next
      case 2
      then show ?thesis using hv sb(1) [of i] sb(5) ic by (simp add: cs nth_append halves_def)
    next
      case 3
      then show ?thesis using hv sb(2) sb(6) [of i] i D(3) ic by (simp add: cs nth_append halves_def)
    next
      case 4
      then have "bn_children n' ! j = ?cs ! j'" using ic D(4) by (simp add: cs nth_append nth_Cons' Suc_diff_Suc)
      with 4 fr(1) [OF inA [of j']] ch [of j'] sb(3) [of j'] sb(6) [of j'] D(3) show ?thesis by simp
    qed
  qed
  have pids': "tree_pids (Suc h) f' r = r # concat (map (tree_pids h f) ?A) @
      (tree_pids h f' q @ tree_pids h f' new) @ concat (map (tree_pids h f) ?B)"
    using n'(1) by (simp add: cs m2)
  have hd: "distinct (tree_pids h f' q @ tree_pids h f' new)" "set (tree_pids h f' q @ tree_pids h f' new) \<subseteq> set (tree_pids h f q) \<union> {new}"
    using hv by (auto simp: halves_def)
  have dp: "distinct ((r # concat (map (tree_pids h f) ?A)) @ tree_pids h f q @ concat (map (tree_pids h f) ?B))"
    "{new} \<inter> set ((r # concat (map (tree_pids h f) ?A)) @ tree_pids h f q @ concat (map (tree_pids h f) ?B)) = {}"
    using d new unfolding pids by simp_all
  from distinct_replace [OF dp(1) hd dp(2)]
  have "distinct (tree_pids (Suc h) f' r)" "set (tree_pids (Suc h) f' r) \<subseteq> set (tree_pids (Suc h) f r) \<union> {new}"
    unfolding pids pids' by simp_all
  moreover have "tree K (Suc h) f' r lo hi" using n' ch' by simp
  ultimately show "replaces K (Suc h) f f' r lo hi {new}" by (simp only: replaces_def simp_thms)
  have "tree_ents (Suc h) f' r = concat (map (tree_ents h f) ?A) @ (tree_ents h f' q @ tree_ents h f' new) @ concat (map (tree_ents h f) ?B)"
    using n'(1) by (simp add: cs m3)
  moreover have "tree_ents (Suc h) f r = concat (map (tree_ents h f) ?A) @ tree_ents h f q @ concat (map (tree_ents h f) ?B)"
    using n m0 [of "tree_ents h f"] by simp
  ultimately show "tree_ents (Suc h) f' r = tree_ents (Suc h) f r" using hv by (simp add: halves_def)
  have "tree_pot (Suc h) f' r = bn_count n + (sum_list (map (tree_pot h f) ?A) + tree_pot h f' q + tree_pot h f' new + sum_list (map (tree_pot h f) ?B))"
    using n'(1) cnt by (simp add: cs m4)
  moreover have "tree_pot (Suc h) f r = (bn_count n - 1) + (sum_list (map (tree_pot h f) ?A) + tree_pot h f q + sum_list (map (tree_pot h f) ?B))"
    using n m0 [of "tree_pot h f"] by simp
  moreover have "tree_pot h f' q + tree_pot h f' new + 2 \<le> tree_pot h f q" using hv by (simp only: halves_def)
  ultimately show "tree_pot (Suc h) f' r + 1 \<le> tree_pot (Suc h) f r" by linarith
qed

end
