(* ===== verification/Btree_Grow.thy ===== *)
theory Btree_Grow
  imports Btree_Tree
begin

section \<open>Splitting a full page of a tree\<close>

text \<open>
  For keys of a fixed length and entries of at most 789 bytes: a page that has no room for another
  entry has at least three entries, both halves of a split fit a page, and a split of a page below
  a parent with room for the separator changes the tree's pages but not its entries.
\<close>

subsection \<open>Space\<close>

lemma commonLen_commute: "commonLen a b = commonLen b a"
  by (induction a b rule: commonLen.induct) auto

lemma prefix_le_common:
  assumes "within a b sep"
  shows "commonLen a b \<le> commonLen a sep" and "commonLen a b \<le> commonLen sep b"
proof -
  obtain r where r: "sep = take (commonLen a b) a @ r" using within_prefix [OF assms] by blast
  show "commonLen a b \<le> commonLen a sep" by (rule commonLen_ge [OF commonLen_le(1) r])
  have "sep = take (commonLen a b) b @ r" using r commonLen_take [of a b] by simp
  from commonLen_ge [OF commonLen_le(2) this] show "commonLen a b \<le> commonLen sep b"
    by (simp add: commonLen_commute)
qed

lemma fits_part:
  assumes inv: "bn_inv n" and len: "length es + length rs = bn_count n"
    and sum: "sum_list (map (entry_len (bn_prefixLen n)) es) + sum_list (map (entry_len (bn_prefixLen n)) rs)
      = sum_list (map (entry_len (bn_prefixLen n)) (bn_entries n))"
    and p: "bn_prefixLen n \<le> commonLen lo hi"
    and small: "length lo + length hi \<le> length (getLowerFence n) + length (getUpperFence n) + sum_list (map (entry_len (bn_prefixLen n)) rs)"
  shows "page_fits lo hi es"
proof -
  have "sum_list (map (entry_len (commonLen lo hi)) es) \<le> sum_list (map (entry_len (bn_prefixLen n)) es)"
    by (rule sum_list_mono) (use p in \<open>simp add: entry_len_def\<close>)
  moreover have "slotEnd (length es) \<le> slotEnd (bn_count n)" using len by (simp add: slotEnd_def)
  ultimately show ?thesis using fence_bytes [OF inv] sum small by (simp add: page_fits_def)
qed

lemma sum_take_drop:
  "sum_list (map g (take i xs)) + sum_list (map g (drop i xs)) = (sum_list (map g xs) :: nat)"
  by (metis append_take_drop_id map_append sum_list_append)

lemma nth_in_drop: "i \<le> j \<Longrightarrow> j < length xs \<Longrightarrow> xs ! j \<in> set (drop i xs)"
  by (auto simp: in_set_conv_nth intro!: exI [of _ "j - i"])

lemma nth_in_take: "j < i \<Longrightarrow> j < length xs \<Longrightarrow> xs ! j \<in> set (take i xs)"
  by (auto simp: in_set_conv_nth intro!: exI [of _ j])

lemma nth_entry_key: "bn_inv n \<Longrightarrow> i < bn_count n \<Longrightarrow> fst (bn_entries n ! i) = bn_keys n ! i"
  using entries_facts(3) [of n] by (simp flip: map_fst_bn_entries)

lemma separates_within:
  assumes inv: "bn_inv n" and sep: "separates n i sep"
  shows "within (getLowerFence n) (getUpperFence n) sep" and "getUpperFence n = [] \<or> sep < getUpperFence n"
proof -
  have "bn_keys n ! i \<in> set (bn_keys n)" "bn_keys n ! (i + 1) \<in> set (bn_keys n)"
    using inv sep by (simp_all add: separates_def bn_inv_def)
  then have "within (getLowerFence n) (getUpperFence n) (bn_keys n ! i)"
    "within (getLowerFence n) (getUpperFence n) (bn_keys n ! (i + 1))"
    using inv by (simp_all add: bn_inv_def bn_order_def)
  with sep show "within (getLowerFence n) (getUpperFence n) sep" "getUpperFence n = [] \<or> sep < getUpperFence n"
    by (auto simp: separates_def within_def)
qed

lemma fits_leaf:
  assumes n: "leaf_node K n a b" and sep: "separates n i sep" and len: "length sep \<le> K"
  shows "page_fits a sep (take (i + 1) (bn_entries n))" and "page_fits sep b (drop (i + 1) (bn_entries n))"
proof -
  from n have inv: "bn_inv n" and f: "getLowerFence n = a" "getUpperFence n = b" by (simp_all add: leaf_node_def)
  have i: "i + 1 < bn_count n" using sep by (simp add: separates_def)
  have l: "length (bn_entries n) = bn_count n" by (rule entries_facts(3) [OF inv])
  have w: "within a b sep" using separates_within(1) [OF inv sep] f by simp
  have p: "bn_prefixLen n = commonLen a b" using inv f by (simp add: bn_inv_def bn_order_def)
  have K: "K - bn_prefixLen n \<le> entry_len (bn_prefixLen n) e" if "e \<in> set (bn_entries n)" for e
    using that n by (auto simp: leaf_node_def entry_len_def)
  have mem: "bn_entries n ! (i + 1) \<in> set (drop (i + 1) (bn_entries n))" "bn_entries n ! i \<in> set (take (i + 1) (bn_entries n))"
    using i l by (simp_all add: nth_in_drop nth_in_take)
  have big: "K - bn_prefixLen n \<le> sum_list (map (entry_len (bn_prefixLen n)) rs)" if "e \<in> set rs" "set rs \<subseteq> set (bn_entries n)" for e rs
    using K [of e] that member_le_sum_list [of "entry_len (bn_prefixLen n) e" "map (entry_len (bn_prefixLen n)) rs"] by fastforce
  show "page_fits a sep (take (i + 1) (bn_entries n))"
    by (rule fits_part [OF inv, where rs = "drop (i + 1) (bn_entries n)"])
      (use i l p f len big [OF mem(1) set_drop_subset] prefix_le_common(1) [OF w] commonLen_le(2) [of a b] sum_take_drop in auto)
  show "page_fits sep b (drop (i + 1) (bn_entries n))"
    by (rule fits_part [OF inv, where rs = "take (i + 1) (bn_entries n)"])
      (use i l p f len big [OF mem(2) set_take_subset] prefix_le_common(2) [OF w] commonLen_le(1) [of a b]
        sum_take_drop [of "entry_len (bn_prefixLen n)" "i + 1" "bn_entries n"] in \<open>auto simp: add.commute\<close>)
qed

lemma fits_inner:
  assumes n: "inner_node K n a b" and i: "i < bn_count n" and sep: "sep = bn_keys n ! i"
  shows "page_fits a sep (take i (bn_entries n))" and "page_fits sep b (drop (i + 1) (bn_entries n))"
proof -
  from n have inv: "bn_inv n" and f: "getLowerFence n = a" "getUpperFence n = b" by (simp_all add: inner_node_def inner_ok_def)
  have l: "length (bn_entries n) = bn_count n" by (rule entries_facts(3) [OF inv])
  have "sep \<in> set (bn_keys n)" using sep i inner_nodeD(3) [OF n] by simp
  then have w: "within a b sep" using inv f by (simp add: bn_inv_def bn_order_def)
  have p: "bn_prefixLen n = commonLen a b" using inv f by (simp add: bn_inv_def bn_order_def)
  have e: "length sep - bn_prefixLen n \<le> entry_len (bn_prefixLen n) (bn_entries n ! i)"
    using nth_entry_key [OF inv i] sep by (simp add: entry_len_def)
  have mem: "bn_entries n ! i \<in> set (drop i (bn_entries n))" "bn_entries n ! i \<in> set (take (i + 1) (bn_entries n))"
    using i l by (simp_all add: nth_in_drop nth_in_take)
  have big: "length sep - bn_prefixLen n \<le> sum_list (map (entry_len (bn_prefixLen n)) rs)" if "bn_entries n ! i \<in> set rs" for rs
    using e that member_le_sum_list [of "entry_len (bn_prefixLen n) (bn_entries n ! i)" "map (entry_len (bn_prefixLen n)) rs"] by fastforce
  show "page_fits a sep (take i (bn_entries n))"
    by (rule fits_part [OF inv, where rs = "drop i (bn_entries n)"])
      (use i l p f big [OF mem(1)] prefix_le_common(1) [OF w] commonLen_le(2) [of a b] sum_take_drop in auto)
  show "page_fits sep b (drop (i + 1) (bn_entries n))"
    by (rule fits_part [OF inv, where rs = "take (i + 1) (bn_entries n)"])
      (use i l p f big [OF mem(2)] prefix_le_common(2) [OF w] commonLen_le(1) [of a b]
        sum_take_drop [of "entry_len (bn_prefixLen n)" "i + 1" "bn_entries n"] in \<open>auto simp: add.commute\<close>)
qed

lemma full_count:
  assumes inv: "bn_inv n" and fences: "length (getLowerFence n) \<le> 789" "length (getUpperFence n) \<le> 789"
    and small: "\<forall>e \<in> set (bn_entries n). length (fst e) + length (snd e) \<le> 797"
    and kv: "bn_prefixLen n \<le> kl" "kl + vl \<le> 797" and full: "\<not> hasSpaceFor kl vl n"
  shows "2 < bn_count n"
proof (rule ccontr)
  assume c: "\<not> 2 < bn_count n"
  have "sum_list (map (entry_len (bn_prefixLen n)) (bn_entries n)) \<le> 797 * length (bn_entries n)"
    by (rule sum_list_map_bound) (use small in \<open>force simp: entry_len_def\<close>)
  then have "hasSpaceFor kl vl n"
    using fence_bytes [OF inv] freeSpace_eqs(2) [OF inv] entries_facts(3) [OF inv] fences kv c
    by (auto simp: hasSpaceFor_def spaceNeeded_def sub32_eq slotEnd_def layout_defs)
  with full show False by simp
qed

subsection \<open>A separator strictly inside the interval of a child\<close>

definition inside :: "nat \<Rightarrow> bytes \<Rightarrow> bytes \<Rightarrow> bytes \<Rightarrow> bool" where
  "inside K a b sep \<longleftrightarrow> within a b sep \<and> (b = [] \<or> sep < b) \<and> sep \<noteq> [] \<and> length sep \<le> K"

lemma inside_parent:
  assumes n: "inner_node K pn lo hi" and i: "i \<le> bn_count pn"
    and sep: "inside K (lo_at lo (bn_keys pn) i) (hi_at hi (bn_keys pn) i) sep"
  shows "child_ix sep pn = i" and "sep \<notin> set (bn_keys pn)" and "within lo hi sep" and "hi = [] \<or> sep < hi"
proof -
  note D = inner_nodeD [OF n]
  have w: "within (lo_at lo (bn_keys pn) i) (hi_at hi (bn_keys pn) i) sep" using sep by (simp add: inside_def)
  show ix: "child_ix sep pn = i" using child_ix_unique [OF n i w] by simp
  show "within lo hi sep" by (rule within_child [OF n i w])
  have hi: "hi_at hi (bn_keys pn) i = bn_keys pn ! i" if "i < bn_count pn" using that D(3) by (simp add: hi_at_simps)
  show "sep \<notin> set (bn_keys pn)"
  proof
    assume "sep \<in> set (bn_keys pn)"
    then obtain j where j: "j < bn_count pn" "bn_keys pn ! j = sep" using D(3) by (metis in_set_conv_nth)
    have "within (lo_at lo (bn_keys pn) j) (hi_at hi (bn_keys pn) j) sep"
      using j D(3,6) sorted_wrt_nth_less [OF D(5), of "j - 1" j] nth_mem [of 0 "bn_keys pn"]
      by (cases j) (auto simp: within_def lo_at_simps hi_at_simps)
    from child_ix_unique [OF n _ this] j(1) ix have "j = i" by simp
    with hi j sep show False by (auto simp: inside_def)
  qed
  show "hi = [] \<or> sep < hi"
  proof (cases "i < bn_count pn")
    case True
    then have m: "bn_keys pn ! i \<in> set (bn_keys pn)" using D(3) by simp
    with hi [OF True] D(6) [OF m] sep show ?thesis by (auto simp: inside_def)
  next
    case False
    then have "hi_at hi (bn_keys pn) i = hi" using i D(3) hi_at_simps(2) [of hi "bn_keys pn"] by simp
    with sep show ?thesis by (simp add: inside_def)
  qed
qed

lemma not_less_Nil: "\<not> (k :: bytes) < []"
  by simp

lemma leaf_separator:
  assumes n: "leaf_node K n a b" and c: "2 < bn_count n"
  shows "\<exists>info. findSeparator ordered n = Inr info \<and> separates n (si_slot info) (getSep info n) \<and> 0 < si_slot info \<and>
    length (getSep info n) = si_len info \<and> inside K a b (getSep info n)"
proof -
  from n have inv: "bn_inv n" and leaf: "bn_isLeaf n" and f: "getLowerFence n = a" "getUpperFence n = b"
    by (simp_all add: leaf_node_def)
  from findSeparator_leaf [OF inv leaf, of ordered] c obtain info where
    i: "findSeparator ordered n = Inr info" "separates n (si_slot info) (getSep info n)" "length (getSep info n) = si_len info"
      "0 < si_slot info"
      "length (getSep info n) \<le> max (length (bn_keys n ! si_slot info)) (length (bn_keys n ! (si_slot info + 1)))" by auto
  have s: "si_slot info + 1 < bn_count n" using i(2) by (simp add: separates_def)
  have k: "length (bn_keys n ! j) = K" if "j < bn_count n" for j
    using n that nth_entry_key [OF inv that] entries_facts(3) [OF inv] nth_mem [of j "bn_entries n"]
    by (metis leaf_node_def)
  have len: "length (bn_keys n) = bn_count n" "sorted_wrt (<) (bn_keys n)" using inv by (simp_all add: bn_inv_def bn_order_def)
  have "bn_keys n ! 0 < bn_keys n ! si_slot info" using sorted_wrt_nth_less [OF len(2) i(4)] s len(1) by simp
  then have "getSep info n \<noteq> []" using i(2) by (auto simp: separates_def)
  moreover have "length (getSep info n) \<le> K" using i(5) k [of "si_slot info"] k [of "si_slot info + 1"] s by simp
  ultimately show ?thesis
    using i separates_within [OF inv i(2)] f by (auto simp: inside_def)
qed

lemma inner_separator:
  assumes n: "inner_node K n a b" and c: "2 < bn_count n"
  shows "\<exists>info. findSeparator ordered n = Inr info \<and> si_slot info = bn_count n div 2 \<and>
    getSep info n = bn_keys n ! (bn_count n div 2) \<and> length (getSep info n) = si_len info \<and> inside K a b (getSep info n)"
proof -
  note D = inner_nodeD [OF n]
  have "\<not> bn_isLeaf n" using D(1) by (simp add: inner_ok_def)
  from findSeparator_inner [OF D(2) this, of ordered] c obtain info where
    i: "findSeparator ordered n = Inr info" "si_slot info = bn_count n div 2"
      "getSep info n = bn_keys n ! (bn_count n div 2)" "length (getSep info n) = si_len info" by auto
  have m: "bn_keys n ! (bn_count n div 2) \<in> set (bn_keys n)" using c D(3) by simp
  have "within a b (bn_keys n ! (bn_count n div 2))"
    using m n D(2) by (auto simp: inner_node_def bn_inv_def bn_order_def)
  with i D(6) [OF m] show ?thesis by (auto simp: inside_def)
qed

lemma bound_length:
  assumes n: "inner_node K pn lo hi" and i: "i \<le> bn_count pn" and len: "length lo \<le> K" "length hi \<le> K"
  shows "length (lo_at lo (bn_keys pn) i) \<le> K" and "length (hi_at hi (bn_keys pn) i) \<le> K"
proof -
  note D = inner_nodeD [OF n]
  show "length (lo_at lo (bn_keys pn) i) \<le> K"
    using D(6) [of "bn_keys pn ! (i - 1)"] D(3) i len by (cases i) (simp_all add: lo_at_simps)
  show "length (hi_at hi (bn_keys pn) i) \<le> K"
    using D(6) [of "bn_keys pn ! i"] D(3) i len hi_at_simps(2) [of hi "bn_keys pn"]
    by (cases "i = bn_count pn") (simp_all add: hi_at_simps)
qed

subsection \<open>The split of a child\<close>

lemma split_parent_inner:
  assumes pn: "inner_node K pn lo hi" and i: "i \<le> bn_count pn"
    and sep: "inside K (lo_at lo (bn_keys pn) i) (hi_at hi (bn_keys pn) i) sep"
    and p: "split_parent q sep new pn p"
  shows "inner_node K p lo hi" and "bn_keys p = take i (bn_keys pn) @ sep # drop i (bn_keys pn)"
    and "bn_children p = take i (bn_children pn) @ q # new # drop (Suc i) (bn_children pn)"
proof -
  have ix: "length (takeWhile (\<lambda>x. x < sep) (bn_keys pn)) = i"
    using inside_parent(1) [OF pn i sep] by (simp add: child_ix_def)
  from p ix have ok: "inner_ok p" "same_fences pn p"
    and k: "bn_keys p = take i (bn_keys pn) @ sep # drop i (bn_keys pn)"
    and c: "bn_children p = take i (bn_children pn) @ q # new # drop (Suc i) (bn_children pn)"
    by (simp_all add: split_parent_def Let_def)
  show "bn_keys p = take i (bn_keys pn) @ sep # drop i (bn_keys pn)" by (rule k)
  show "bn_children p = take i (bn_children pn) @ q # new # drop (Suc i) (bn_children pn)" by (rule c)
  have "k' \<in> insert sep (set (bn_keys pn))" if "k' \<in> set (bn_keys p)" for k'
    using that unfolding k by (auto dest: in_set_takeD in_set_dropD)
  then show "inner_node K p lo hi"
    using ok pn inner_nodeD(6) [OF pn] inside_parent(4) [OF pn i sep] sep
    by (auto simp: inner_node_def same_fences_def inside_def)
qed

lemma split_child:
  assumes t: "tree K (Suc h) f r lo hi" and d: "distinct (tree_pids (Suc h) f r)"
    and pn: "f r = NodePage pn" and i: "i \<le> bn_count pn" and q: "q = bn_children pn ! i" and n: "f q = NodePage n"
    and c: "2 < bn_count n" and raw: "raw_ok raw"
    and new: "new \<notin> set (tree_pids (Suc h) f r)" "new \<noteq> noNeighbour"
  obtains info where "findSeparator ordered n = Inr info" "length (getSep info n) = si_len info"
    "inside K (lo_at lo (bn_keys pn) i) (hi_at hi (bn_keys pn) i) (getSep info n)"
    "0 < si_slot info" "si_slot info < 512"
    "hasSpaceFor (si_len info) 8 pn \<Longrightarrow> \<exists>l p x.
       splitNode raw (Some (new, zero_page)) q pn (si_slot info) (getSep info n) n = Inr (OK, l, p, Some x) \<and>
       replaces K (Suc h) f (f(new := NodePage x, r := NodePage p, q := NodePage l)) r lo hi {new} \<and>
       tree_ents (Suc h) (f(new := NodePage x, r := NodePage p, q := NodePage l)) r = tree_ents (Suc h) f r \<and>
       tree_pot (Suc h) (f(new := NodePage x, r := NodePage p, q := NodePage l)) r + 1 \<le> tree_pot (Suc h) f r"
proof -
  let ?a = "lo_at lo (bn_keys pn) i" and ?b = "hi_at hi (bn_keys pn) i"
  from t pn have inner: "inner_node K pn lo hi" and tq: "tree K h f q ?a ?b" using i q by auto
  note D = inner_nodeD [OF inner]
  have mem: "q \<in> set (bn_children pn)" using q i D(4) by simp
  then have subq: "set (tree_pids h f q) \<subseteq> set (tree_pids (Suc h) f r)" "r \<notin> set (tree_pids h f q)"
    using d pn by auto
  have dq: "distinct (tree_pids h f q)" using d mem pn by (auto simp: distinct_concat_iff)
  have ne: "q \<noteq> r" "new \<noteq> q" "new \<noteq> r" 
    using subq new root_in_pids [of q h f] root_in_pids [of r "Suc h" f] by blast+
  let ?f = "\<lambda>l p x. f(new := NodePage x, r := NodePage p, q := NodePage l)"
  have parent: "parent_of q sep pn" if "inside K ?a ?b sep" "hasSpaceFor (length sep) 8 pn" for sep
    using inside_parent [OF inner i that(1)] that(2) D(1) inner q
    by (simp add: parent_of_def child_ix_def inner_node_def)
  have finish: "replaces K (Suc h) f (?f l p x) r lo hi {new} \<and> tree_ents (Suc h) (?f l p x) r = tree_ents (Suc h) f r \<and>
      tree_pot (Suc h) (?f l p x) r + 1 \<le> tree_pot (Suc h) f r"
    if "inside K ?a ?b sep" "split_parent q sep new pn p" "halves K h f (?f l p x) q new ?a sep ?b" for l p x sep
  proof -
    note sp = split_parent_inner [OF inner i that(1,2)]
    have r': "?f l p x r = NodePage p" using ne by simp
    have "\<forall>y \<in> set (tree_pids (Suc h) f r). y \<noteq> r \<longrightarrow> y \<notin> set (tree_pids h f q) \<longrightarrow> ?f l p x y = f y"
      using new(1) root_in_pids [of q h f] by (metis fun_upd_apply)
    from replaces_split [OF t d pn i q that(3) r' sp new(1) this] show ?thesis by (intro conjI)
  qed
  show ?thesis
  proof (cases h)
    case 0
    with tq n have leaf: "leaf_node K n ?a ?b" by simp
    then have inv: "bn_inv n" and lf: "bn_isLeaf n" and f: "getLowerFence n = ?a" "getUpperFence n = ?b"
      and ents: "\<forall>e \<in> set (bn_entries n). length (fst e) = K \<and> length (fst e) + length (snd e) \<le> 789"
      and nx: "bn_next n = noNeighbour \<longleftrightarrow> ?b = []" by (auto simp: leaf_node_def)
    obtain info where info: "findSeparator ordered n = Inr info" "separates n (si_slot info) (getSep info n)" "0 < si_slot info"
      "length (getSep info n) = si_len info" "inside K ?a ?b (getSep info n)"
      using leaf_separator [OF leaf c, of ordered] by blast
    let ?sep = "getSep info n" and ?i = "si_slot info"
    have i1: "?i + 1 < bn_count n" using info(2) by (simp add: separates_def)
    then have "?i < 512" using bn_count_le [of n] inv by (simp add: bn_inv_def)
    note fits = fits_leaf [OF leaf info(2)]
    show ?thesis
    proof (rule that [OF info(1,4,5,3) \<open>?i < 512\<close>])
      assume "hasSpaceFor (si_len info) 8 pn"
      then have "parent_of q ?sep pn" using parent [OF info(5)] info(4) by simp
      from splitNode_leaf [OF inv lf raw zero_page_raw info(2,3) this] fits info(5) f
      obtain l p x where s: "splitNode raw (Some (new, zero_page)) q pn ?i ?sep n = Inr (OK, l, p, Some x)"
        "bn_inv l" "bn_inv x" "bn_isLeaf l" "bn_isLeaf x"
        "bn_entries l = take (?i + 1) (bn_entries n)" "bn_entries x = drop (?i + 1) (bn_entries n)"
        "getLowerFence l = ?a" "getUpperFence l = ?sep" "getLowerFence x = ?sep" "getUpperFence x = ?b"
        "bn_next l = new" "bn_next x = bn_next n" "split_parent q ?sep new pn p"
        by (fastforce simp: inside_def)
      have "leaf_node K l ?a ?sep" "leaf_node K x ?sep ?b"
        using s ents new(2) info(5) nx by (auto simp: leaf_node_def inside_def dest: in_set_takeD in_set_dropD)
      with ne have "halves K h f (?f l p x) q new ?a ?sep ?b"
        unfolding 0 by (intro halves_leaf [where f = f and q = q and f' = "?f l p x" and new = new, OF n leaf i1 _ _ s(6) _ _ s(7) ne(2)]) simp_all
      from finish [OF info(5) s(14) this] s(1) show "\<exists>l p x.
        splitNode raw (Some (new, zero_page)) q pn ?i ?sep n = Inr (OK, l, p, Some x) \<and>
        replaces K (Suc h) f (?f l p x) r lo hi {new} \<and> tree_ents (Suc h) (?f l p x) r = tree_ents (Suc h) f r \<and>
        tree_pot (Suc h) (?f l p x) r + 1 \<le> tree_pot (Suc h) f r" by blast
    qed
  next
    case (Suc h')
    with tq n have ninner: "inner_node K n ?a ?b" by simp
    then have f: "getLowerFence n = ?a" "getUpperFence n = ?b" by (simp_all add: inner_node_def)
    note N = inner_nodeD [OF ninner]
    obtain info where info: "findSeparator ordered n = Inr info" "si_slot info = bn_count n div 2"
      "getSep info n = bn_keys n ! (bn_count n div 2)" "length (getSep info n) = si_len info" "inside K ?a ?b (getSep info n)"
      using inner_separator [OF ninner c, of ordered] by blast
    let ?sep = "getSep info n" and ?i = "si_slot info"
    have i1: "0 < ?i" "?i < bn_count n" using info(2) c by simp_all
    then have "?i < 512" using bn_count_le [of n] N(2) by (simp add: bn_inv_def)
    have sk: "?sep = bn_keys n ! ?i" using info(2,3) by simp
    note fits = fits_inner [OF ninner i1(2) sk]
    show ?thesis
    proof (rule that [OF info(1,4,5) i1(1) \<open>?i < 512\<close>])
      assume "hasSpaceFor (si_len info) 8 pn"
      then have "parent_of q ?sep pn" using parent [OF info(5)] info(4) by simp
      from splitNode_inner [OF N(1) raw zero_page_raw i1 sk this] fits f
      obtain l p x where s: "splitNode raw (Some (new, zero_page)) q pn ?i ?sep n = Inr (OK, l, p, Some x)"
        "inner_ok l" "inner_ok x" "bn_keys l @ ?sep # bn_keys x = bn_keys n" "bn_children l @ bn_children x = bn_children n"
        "getLowerFence l = ?a" "getUpperFence l = ?sep" "getLowerFence x = ?sep" "getUpperFence x = ?b"
        "split_parent q ?sep new pn p"
        by fastforce
      have ks: "set (bn_keys l) \<subseteq> set (bn_keys n)" "set (bn_keys x) \<subseteq> set (bn_keys n)" by (auto simp flip: s(4))
      have "\<forall>k \<in> set (bn_keys l). k < ?sep" using N(5) unfolding s(4) [symmetric] by (auto simp: sorted_wrt_append)
      then have nodes: "inner_node K l ?a ?sep" "inner_node K x ?sep ?b"
        using s N(6) ks by (auto simp: inner_node_def)
      have ll: "length (bn_keys l) = ?i"
      proof -
        have "bn_keys n ! length (bn_keys l) = ?sep" unfolding s(4) [symmetric] by simp
        moreover have "length (bn_keys l) < bn_count n" using arg_cong [OF s(4), of length] N(3) by simp
        ultimately show ?thesis
          using sk i1(2) N(3) sorted_distinct [OF N(5)] by (metis nth_eq_iff_index_eq)
      qed
      have cc: "0 < bn_count l" "0 < bn_count x"
        using ll inner_nodeD(3) [OF nodes(1)] inner_nodeD(3) [OF nodes(2)] arg_cong [OF s(4), of length] N(3) i1 info(2) c by auto
      have "\<forall>y \<in> set (tree_pids (Suc h') f q). y \<noteq> q \<longrightarrow> ?f l p x y = f y"
        using subq new(1) unfolding Suc by (metis fun_upd_apply subsetD)
      then have "halves K h f (?f l p x) q new ?a ?sep ?b"
        unfolding Suc
        by (intro halves_inner [where f = f and q = q and f' = "?f l p x" and new = new,
            OF tq [unfolded Suc] dq [unfolded Suc] n cc _ nodes(1) _ nodes(2) s(4,5)])
          (use ne new(1) subq(1) Suc in auto)
      from finish [OF info(5) s(10) this] s(1) show "\<exists>l p x.
        splitNode raw (Some (new, zero_page)) q pn ?i ?sep n = Inr (OK, l, p, Some x) \<and>
        replaces K (Suc h) f (?f l p x) r lo hi {new} \<and> tree_ents (Suc h) (?f l p x) r = tree_ents (Suc h) f r \<and>
        tree_pot (Suc h) (?f l p x) r + 1 \<le> tree_pot (Suc h) f r" by blast
    qed
  qed
qed

end
