(* ===== verification/Btree_Shrink.thy ===== *)
theory Btree_Shrink
  imports Btree_Grow
begin

section \<open>Merging two leaves of a tree\<close>

text \<open>
  The merge of a leaf with its right neighbour below the same parent: the tree keeps its entries,
  the right page is no longer part of it.
\<close>

lemma merge_bounds:
  assumes i: "i < length ks" and ks: "ks' = take i ks @ drop (Suc i) ks"
  shows "j \<le> i \<Longrightarrow> lo_at lo ks' j = lo_at lo ks j" and "i < j \<Longrightarrow> j < length ks \<Longrightarrow> lo_at lo ks' j = lo_at lo ks (Suc j)"
    and "j < i \<Longrightarrow> hi_at hi ks' j = hi_at hi ks j" and "i \<le> j \<Longrightarrow> j < length ks \<Longrightarrow> hi_at hi ks' j = hi_at hi ks (Suc j)"
  using i by (cases j; auto simp: ks lo_at_def hi_at_def nth_append min_def)+

lemma leaf_level: "concat (map (tree_pids 0 f) cs) = cs" "tree_ents 0 f = (\<lambda>c. bn_entries (node f c))"
  by (induction cs) auto

lemma replaces_merge:
  assumes t: "tree K (Suc 0) f r lo hi" and d: "distinct (tree_pids (Suc 0) f r)" and n: "f r = NodePage n"
    and i: "i + 1 < bn_count n" and q: "q = bn_children n ! i"
    and m: "f' q = NodePage m" "leaf_node K m (lo_at lo (bn_keys n) i) (hi_at hi (bn_keys n) (i + 1))"
    and n': "f' r = NodePage n'" "inner_node K n' lo hi"
    and keys: "bn_keys n' = take i (bn_keys n) @ drop (Suc i) (bn_keys n)"
    and cs: "bn_children n' = take i (bn_children n) @ q # drop (i + 2) (bn_children n)"
    and same: "\<forall>x. x \<noteq> r \<longrightarrow> x \<noteq> q \<longrightarrow> f' x = f x"
  shows "replaces K (Suc 0) f f' r lo hi {}"
    and "\<exists>A B. tree_ents (Suc 0) f r = A @ (bn_entries (node f q) @ bn_entries (node f (bn_children n ! (i + 1)))) @ B \<and>
      tree_ents (Suc 0) f' r = A @ bn_entries m @ B"
proof -
  let ?cs = "bn_children n"
  from t n have inner: "inner_node K n lo hi"
    and ch: "\<And>j. j \<le> bn_count n \<Longrightarrow> tree K 0 f (?cs ! j) (lo_at lo (bn_keys n) j) (hi_at hi (bn_keys n) j)" by auto
  note D = inner_nodeD [OF inner] and D' = inner_nodeD [OF n'(2)]
  have cnt: "bn_count n' = bn_count n - 1" using arg_cong [OF keys, of length] D(3) D'(3) i by simp
  have ik: "i < length (bn_keys n)" and ic: "i < length ?cs" "Suc i < length ?cs" using i D by simp_all
  note mb = merge_bounds [OF ik keys]
  let ?A = "take i ?cs" and ?B = "drop (i + 2) ?cs" and ?x = "?cs ! (i + 1)"
  have cs0: "?cs = ?A @ q # ?x # ?B"
    using id_take_nth_drop [OF ic(1)] Cons_nth_drop_Suc [OF ic(2)] q by simp
  have pids: "tree_pids (Suc 0) f r = r # ?cs" "tree_pids (Suc 0) f' r = r # bn_children n'"
    using n n'(1) by (simp_all add: leaf_level)
  have dc: "distinct (?A @ q # ?x # ?B)" and rc: "r \<notin> set ?cs" using d cs0 unfolding pids by (auto simp del: append_take_drop_id)
  have old: "tree K 0 f' (?cs ! j) a b = tree K 0 f (?cs ! j) a b" if "j \<noteq> i" "j \<le> bn_count n" for j a b
  proof (rule tree_frame(1))
    have "?cs ! j \<noteq> q" unfolding q using that i d D(4) pids by (simp add: nth_eq_iff_index_eq)
    moreover have "?cs ! j \<noteq> r" using rc that D(4) by (metis le_imp_less_Suc nth_mem)
    ultimately show "\<forall>x \<in> set (tree_pids 0 f (?cs ! j)). f' x = f x" using same by simp
  qed
  have "tree K 0 f' (bn_children n' ! j) (lo_at lo (bn_keys n') j) (hi_at hi (bn_keys n') j)" if j: "j \<le> bn_count n'" for j
  proof -
    consider "j < i" | "j = i" | "i < j" by linarith
    then show ?thesis
    proof cases
      case 1
      then have "bn_children n' ! j = ?cs ! j" using ic by (simp add: cs nth_append)
      with 1 old [of j] ch [of j] mb(1) [of j] mb(3) [of j] i show ?thesis by (simp del: tree.simps)
    next
      case 2
      have "bn_children n' ! i = q" using ic by (simp add: cs nth_append)
      with 2 m mb(1) [of i] mb(4) [of i] i D(3) show ?thesis by simp
    next
      case 3
      then have "bn_children n' ! j = ?cs ! Suc j" using ic j cnt D(4) by (simp add: cs nth_append nth_Cons' Suc_diff_Suc)
      with 3 old [of "Suc j"] ch [of "Suc j"] mb(2) [of j] mb(4) [of j] j cnt i D(3) show ?thesis by (simp del: tree.simps)
    qed
  qed
  then have "tree K (Suc 0) f' r lo hi" using n' by simp
  moreover have sub: "set (bn_children n') \<subseteq> set ?cs"
    unfolding cs by (subst (3) cs0) (simp only: set_append list.set, blast)
  moreover have "distinct (bn_children n')" unfolding cs using dc by simp
  ultimately show "replaces K (Suc 0) f f' r lo hi {}"
    unfolding replaces_def pids using rc by auto
  have m0: "map g ?cs = map g ?A @ g q # g ?x # map g ?B" for g :: "PID \<Rightarrow> 'z"
    using arg_cong [OF cs0, of "map g"] unfolding map_append list.map .
  have "f' c = f c" if c: "c \<in> set ?A \<union> set ?B" for c
  proof -
    have "q \<notin> set ?A \<union> set ?B" using dc by auto
    moreover have "c \<in> set ?cs" using c by (auto dest: in_set_takeD in_set_dropD)
    ultimately show ?thesis using same rc c by metis
  qed
  then have "map (\<lambda>c. bn_entries (node f' c)) ?A = map (\<lambda>c. bn_entries (node f c)) ?A"
    "map (\<lambda>c. bn_entries (node f' c)) ?B = map (\<lambda>c. bn_entries (node f c)) ?B" by (auto simp: node_def)
  then have "tree_ents (Suc 0) f' r = concat (map (\<lambda>c. bn_entries (node f c)) ?A) @ bn_entries m @ concat (map (\<lambda>c. bn_entries (node f c)) ?B)"
    using n'(1) m(1) by (simp add: cs leaf_level(2) del: map_eq_conv)
  moreover have "tree_ents (Suc 0) f r = concat (map (\<lambda>c. bn_entries (node f c)) ?A) @
      (bn_entries (node f q) @ bn_entries (node f ?x)) @ concat (map (\<lambda>c. bn_entries (node f c)) ?B)"
    using n m0 [of "\<lambda>c. bn_entries (node f c)"] by (simp add: leaf_level(2))
  ultimately show "\<exists>A B. tree_ents (Suc 0) f r = A @ (bn_entries (node f q) @ bn_entries (node f ?x)) @ B \<and>
      tree_ents (Suc 0) f' r = A @ bn_entries m @ B" by blast
qed

end
