(* ===== verification/Btree_Ops.thy ===== *)
theory Btree_Ops
  imports Page_Guards
begin

section \<open>The operations of the B-tree\<close>

text \<open>
  \<^verbatim>\<open>src/src/buffer_mgr/btree.hpp\<close> and \<^verbatim>\<open>btree.cpp\<close>. Every operation is a loop around an
  attempt: the attempt fixes the pages on its way down from the metadata page, and when a page is
  not in memory (or no frame is free) it drops all its guards and goes to the label \<^verbatim>\<open>restart\<close>,
  which calls \<^verbatim>\<open>bm.handleRestart()\<close>; only there may other fibers run. The definitions are the
  attempts: they end with a result or with \<open>Restart\<close>. The number of levels they may descend is the
  argument \<open>steps\<close>; more than the height of the tree are enough.

  The memory a node on the stack of \<^verbatim>\<open>btree_node.hpp\<close> holds before it is constructed is the
  argument \<open>raw\<close>.
\<close>

definition metadataPageId :: PID where "metadataPageId = 0"

record BTree =
  bt_slotId :: nat
  bt_splitOrdered :: bool

datatype 'a attempt = Done 'a | Restart

definition getRoot :: "PID list \<Rightarrow> nat \<Rightarrow> PID" where
  "getRoot roots slot = roots ! slot"

text \<open>The constructor; the static counter \<^verbatim>\<open>btreeslotcounter\<close> is passed along.\<close>

definition BTree_new :: "'s PageBuffer \<Rightarrow> nat \<Rightarrow> 's \<Rightarrow> ((BTree \<times> nat) \<times> 's) result" where
  "BTree_new pb btreeslotcounter s =
     rbind (GuardX pb metadataPageId s) (\<lambda>(page, s1).
     rbind (AllocGuard pb True s1) (\<lambda>(rootNode, s2).
     rbind (g_meta pb page s2) (\<lambda>roots.
     let s3 = g_put pb page (MetaPage (roots[btreeslotcounter := g_pid rootNode])) s2
     in rbind (GuardX_dtor pb rootNode s3) (\<lambda>s4.
        rbind (GuardX_dtor pb page s4) (\<lambda>s5.
        Inr ((\<lparr>bt_slotId = btreeslotcounter, bt_splitOrdered = False\<rparr>, btreeslotcounter + 1), s5))))))"

subsection \<open>Finding a leaf\<close>

text \<open>
  \<open>findLeafS\<close> and \<open>findLeafSUpper\<close> differ in the child they choose, \<open>lookupInner\<close> or
  \<open>lookupInnerUpper\<close>, the argument \<open>sel\<close>.
\<close>

fun findLeaf_loop :: "'s PageBuffer \<Rightarrow> (bytes \<Rightarrow> BTreeNode \<Rightarrow> PID) \<Rightarrow> bytes \<Rightarrow> nat \<Rightarrow> Guard \<Rightarrow> 's \<Rightarrow>
    (Guard attempt \<times> 's) result" where
  "findLeaf_loop pb sel key 0 node s = Inl OutOfSteps"
| "findLeaf_loop pb sel key (Suc steps) node s =
     rbind (g_node pb node s) (\<lambda>n.
     if bn_isLeaf n then Inr (Done node, s)
     else
       rbind (GuardS pb (sel key n) s) (\<lambda>(child, s1).
       rbind (GuardS_assign pb node child s1) (\<lambda>(node1, s2).
       if g_retry node1 then rbind (GuardS_dtor pb node1 s2) (\<lambda>s3. Inr (Restart, s3))
       else findLeaf_loop pb sel key steps node1 s2)))"

definition findLeaf :: "'s PageBuffer \<Rightarrow> (bytes \<Rightarrow> BTreeNode \<Rightarrow> PID) \<Rightarrow> nat \<Rightarrow> BTree \<Rightarrow> bytes \<Rightarrow> 's \<Rightarrow>
    (Guard attempt \<times> 's) result" where
  "findLeaf pb sel steps bt key s =
     rbind (GuardS pb metadataPageId s) (\<lambda>(meta, s1).
     if g_retry meta then rbind (GuardS_dtor pb meta s1) (\<lambda>s2. Inr (Restart, s2))
     else
       rbind (g_meta pb meta s1) (\<lambda>roots.
       rbind (GuardS pb (getRoot roots (bt_slotId bt)) s1) (\<lambda>(node, s2).
       if g_retry node then
         rbind (GuardS_dtor pb node s2) (\<lambda>s3. rbind (GuardS_dtor pb meta s3) (\<lambda>s4. Inr (Restart, s4)))
       else
         rbind (GuardS_release pb meta s2) (\<lambda>(meta1, s3).
         rbind (findLeaf_loop pb sel key steps node s3) (\<lambda>(r, s4).
         rbind (GuardS_dtor pb meta1 s4) (\<lambda>s5. Inr (r, s5)))))))"

definition findLeafS :: "'s PageBuffer \<Rightarrow> nat \<Rightarrow> BTree \<Rightarrow> bytes \<Rightarrow> 's \<Rightarrow> (Guard attempt \<times> 's) result" where
  "findLeafS pb = findLeaf pb lookupInner"

definition findLeafSUpper :: "'s PageBuffer \<Rightarrow> nat \<Rightarrow> BTree \<Rightarrow> bytes \<Rightarrow> 's \<Rightarrow> (Guard attempt \<times> 's) result" where
  "findLeafSUpper pb = findLeaf pb lookupInnerUpper"

subsection \<open>Lookups and updates in place\<close>

text \<open>
  \<open>lookup\<close> with an output buffer of \<open>payloadOutSize\<close> bytes: the bytes written and the length of the
  payload. \<open>lookup_fn\<close>: the payload the callback is given.
\<close>

definition lookup :: "'s PageBuffer \<Rightarrow> nat \<Rightarrow> BTree \<Rightarrow> bytes \<Rightarrow> nat \<Rightarrow> 's \<Rightarrow>
    ((bytes \<times> nat) option attempt \<times> 's) result" where
  "lookup pb steps bt key payloadOutSize s =
     rbind (findLeafS pb steps bt key s) (\<lambda>(r, s1).
     case r of
       Restart \<Rightarrow> Inr (Restart, s1)
     | Done node \<Rightarrow>
         rbind (g_node pb node s1) (\<lambda>n.
         let (pos, found) = lowerBound key n
         in rbind (GuardS_dtor pb node s1) (\<lambda>s2.
            if \<not> found then Inr (Done None, s2)
            else let len = sl_payloadLen (bn_slot n ! pos)
                 in Inr (Done (Some (take (min len payloadOutSize) (getPayload n pos), len)), s2))))"

definition lookup_fn :: "'s PageBuffer \<Rightarrow> nat \<Rightarrow> BTree \<Rightarrow> bytes \<Rightarrow> 's \<Rightarrow> (bytes option attempt \<times> 's) result" where
  "lookup_fn pb steps bt key s =
     rbind (findLeafS pb steps bt key s) (\<lambda>(r, s1).
     case r of
       Restart \<Rightarrow> Inr (Restart, s1)
     | Done node \<Rightarrow>
         rbind (g_node pb node s1) (\<lambda>n.
         let (pos, found) = lowerBound key n
         in rbind (GuardS_dtor pb node s1) (\<lambda>s2.
            Inr (Done (if \<not> found then None else Some (getPayload n pos)), s2))))"

text \<open>The callback of \<open>updateInPlace\<close> overwrites the bytes of the payload.\<close>

definition updateInPlace :: "'s PageBuffer \<Rightarrow> nat \<Rightarrow> BTree \<Rightarrow> bytes \<Rightarrow> (bytes \<Rightarrow> bytes) \<Rightarrow> 's \<Rightarrow>
    (bool attempt \<times> 's) result" where
  "updateInPlace pb steps bt key fn s =
     rbind (findLeafS pb steps bt key s) (\<lambda>(r, s1).
     case r of
       Restart \<Rightarrow> Inr (Restart, s1)
     | Done node \<Rightarrow>
         rbind (g_node pb node s1) (\<lambda>n.
         let (pos, found) = lowerBound key n
         in if \<not> found then rbind (GuardS_dtor pb node s1) (\<lambda>s2. Inr (Done False, s2))
            else
              rbind (GuardX_of_S node) (\<lambda>nodeLocked.
              let s2 = g_put pb nodeLocked (NodePage (setPayload pos (fn (getPayload n pos)) n)) s1
              in rbind (GuardX_dtor pb nodeLocked s2) (\<lambda>s3. Inr (Done True, s3)))))"

subsection \<open>Walking down with the parent\<close>

definition enter :: "'s PageBuffer \<Rightarrow> BTree \<Rightarrow> 's \<Rightarrow> ((Guard \<times> Guard) attempt \<times> 's) result" where
  "enter pb bt s =
     rbind (GuardS pb metadataPageId s) (\<lambda>(parent, s1).
     if g_retry parent then rbind (GuardS_dtor pb parent s1) (\<lambda>s2. Inr (Restart, s2))
     else
       rbind (g_meta pb parent s1) (\<lambda>roots.
       rbind (GuardS pb (getRoot roots (bt_slotId bt)) s1) (\<lambda>(node, s2).
       if g_retry node then
         rbind (GuardS_dtor pb node s2) (\<lambda>s3. rbind (GuardS_dtor pb parent s3) (\<lambda>s4. Inr (Restart, s4)))
       else Inr (Done (parent, node), s2))))"

text \<open>
  The loop of \<open>insert\<close>, \<open>ensureSpace\<close> and \<open>remove\<close>; it also keeps the position of the child taken,
  which only \<open>remove\<close> uses. \<open>stop\<close> is the extra condition of \<open>ensureSpace\<close>.
\<close>

fun descend :: "'s PageBuffer \<Rightarrow> (Guard \<Rightarrow> bool) \<Rightarrow> bytes \<Rightarrow> nat \<Rightarrow> nat \<Rightarrow> Guard \<Rightarrow> Guard \<Rightarrow> 's \<Rightarrow>
    ((Guard \<times> Guard \<times> nat) attempt \<times> 's) result" where
  "descend pb stop key 0 pos parent node s = Inl OutOfSteps"
| "descend pb stop key (Suc steps) pos parent node s =
     rbind (g_node pb node s) (\<lambda>n.
     if bn_isLeaf n \<or> stop node then Inr (Done (parent, node, pos), s)
     else
       rbind (GuardS_assign pb parent node s) (\<lambda>(parent1, s1).
       rbind (GuardS pb (lookupInner key n) s1) (\<lambda>(child, s2).
       rbind (GuardS_assign pb moved_guard child s2) (\<lambda>(node1, s3).
       if g_retry node1 then
         rbind (GuardS_dtor pb node1 s3) (\<lambda>s4. rbind (GuardS_dtor pb parent1 s4) (\<lambda>s5. Inr (Restart, s5)))
       else descend pb stop key steps (fst (lowerBound key n)) parent1 node1 s3))))"

subsection \<open>Insertion\<close>

text \<open>
  \<open>trySplit\<close> ends by returning an action or, with its guards released, by calling \<open>ensureSpace\<close> for
  the parent's frame and returning \<open>OK\<close>. The guards belong to the caller.
\<close>

datatype split_out = Ret action_t | Call nat bytes

definition newRoot :: "'s PageBuffer \<Rightarrow> BTree \<Rightarrow> Guard \<Rightarrow> Guard \<Rightarrow> 's \<Rightarrow> (Guard option \<times> 's) result" where
  "newRoot pb bt node parent s =
     (if g_pid parent = metadataPageId then
        rbind (AllocGuard pb False s) (\<lambda>(root, s1).
        if g_retry root then rbind (GuardX_dtor pb root s1) (\<lambda>s2. Inr (None, s2))
        else
          rbind (g_node pb root s1) (\<lambda>r.
          let s2 = g_put pb root (NodePage (r\<lparr>bn_next := g_pid node\<rparr>)) s1
          in rbind (g_meta pb parent s2) (\<lambda>roots.
             let s3 = g_put pb parent (MetaPage (roots[bt_slotId bt := g_pid root])) s2
             in rbind (GuardX_assign pb parent root s3) (\<lambda>(parent1, s4). Inr (Some parent1, s4)))))
      else Inr (Some parent, s))"

text \<open>The rest of \<open>trySplit\<close>, below a parent that is a node.\<close>

definition splitBelow :: "'s PageBuffer \<Rightarrow> BTreeNode \<Rightarrow> BTree \<Rightarrow> Guard \<Rightarrow> Guard \<Rightarrow> 's \<Rightarrow>
    ((split_out \<times> Guard \<times> Guard) \<times> 's) result" where
  "splitBelow pb raw bt node parent s =
     rbind (g_node pb node s) (\<lambda>n.
     rbind (findSeparator (bt_splitOrdered bt) n) (\<lambda>sepInfo.
     let sepKey = getSep sepInfo n
     in rbind (g_node pb parent s) (\<lambda>pn.
        if hasSpaceFor (si_len sepInfo) 8 pn then
          rbind (AllocGuard pb (bn_isLeaf n) s) (\<lambda>(newNode, s1).
          rbind (splitNode raw (if g_retry newNode then None else Some (g_pid newNode, zero_page))
                   (g_pid node) pn (si_slot sepInfo) sepKey n) (\<lambda>(act, n1, pn1, right).
          let s2 = (case right of None \<Rightarrow> s1 | Some r \<Rightarrow> g_put pb newNode (NodePage r) s1);
              s3 = g_put pb parent (NodePage pn1) s2;
              s4 = g_put pb node (NodePage n1) s3
          in rbind (GuardX_dtor pb newNode s4) (\<lambda>s5. Inr ((Ret act, node, parent), s5))))
        else
          rbind (GuardX_release pb node s) (\<lambda>(node1, s1).
          rbind (GuardX_release pb parent s1) (\<lambda>(parent1, s2).
          Inr ((Call (the (g_ptr parent1)) sepKey, node1, parent1), s2))))))"

definition trySplit :: "'s PageBuffer \<Rightarrow> BTreeNode \<Rightarrow> BTree \<Rightarrow> Guard \<Rightarrow> Guard \<Rightarrow> 's \<Rightarrow>
    ((split_out \<times> Guard \<times> Guard) \<times> 's) result" where
  "trySplit pb raw bt node parent0 s0 =
     rbind (newRoot pb bt node parent0 s0) (\<lambda>(p, s).
     case p of
       None \<Rightarrow> Inr ((Ret RESTART, node, parent0), s)
     | Some parent \<Rightarrow> splitBelow pb raw bt node parent s)"

text \<open>What the body of the loop of \<open>insert\<close> or \<open>ensureSpace\<close> ends with.\<close>

datatype body_out = Return | Continue | GoRestart | CallEnsure nat bytes

text \<open>Split below the two guards and leave the scope.\<close>

definition splitAndLeave :: "'s PageBuffer \<Rightarrow> BTreeNode \<Rightarrow> BTree \<Rightarrow> body_out \<Rightarrow> Guard \<Rightarrow> Guard \<Rightarrow> 's \<Rightarrow>
    (body_out \<times> 's) result" where
  "splitAndLeave pb raw bt ok parent node s =
     rbind (GuardX_of_S parent) (\<lambda>parentLocked.
     rbind (GuardX_of_S node) (\<lambda>nodeLocked.
     rbind (trySplit pb raw bt nodeLocked parentLocked s) (\<lambda>((out, nodeLocked1, parentLocked1), s1).
     rbind (GuardX_dtor pb nodeLocked1 s1) (\<lambda>s2.
     rbind (GuardX_dtor pb parentLocked1 s2) (\<lambda>s3.
     Inr (case out of Ret RESTART \<Rightarrow> GoRestart | Ret OK \<Rightarrow> ok | Call ptr k \<Rightarrow> CallEnsure ptr k, s3))))))"

definition ensureSpace_body :: "'s PageBuffer \<Rightarrow> BTreeNode \<Rightarrow> nat \<Rightarrow> BTree \<Rightarrow> nat \<Rightarrow> bytes \<Rightarrow> nat \<Rightarrow> 's \<Rightarrow>
    (body_out \<times> 's) result" where
  "ensureSpace_body pb raw steps bt toSplit key payloadLen s0 =
     rbind (enter pb bt s0) (\<lambda>(r, s1).
     case r of
       Restart \<Rightarrow> Inr (GoRestart, s1)
     | Done (parent0, node0) \<Rightarrow>
         rbind (descend pb (\<lambda>g. g_ptr g = Some toSplit) key steps 0 parent0 node0 s1) (\<lambda>(r, s).
         case r of
           Restart \<Rightarrow> Inr (GoRestart, s)
         | Done (parent, node, _) \<Rightarrow>
             rbind (if g_ptr node = Some toSplit
                    then rbind (g_node pb node s) (\<lambda>n. Inr (\<not> hasSpaceFor (length key) payloadLen n))
                    else Inr False) (\<lambda>split.
             if split then splitAndLeave pb raw bt Return parent node s
             else
               rbind (GuardS_dtor pb node s) (\<lambda>s2.
               rbind (GuardS_dtor pb parent s2) (\<lambda>s3. Inr (Return, s3))))))"

definition insert_body :: "'s PageBuffer \<Rightarrow> BTreeNode \<Rightarrow> nat \<Rightarrow> BTree \<Rightarrow> bytes \<Rightarrow> bytes \<Rightarrow> 's \<Rightarrow>
    (body_out \<times> 's) result" where
  "insert_body pb raw steps bt key payload s0 =
     rbind (enter pb bt s0) (\<lambda>(r, s1).
     case r of
       Restart \<Rightarrow> Inr (GoRestart, s1)
     | Done (parent0, node0) \<Rightarrow>
         rbind (descend pb (\<lambda>_. False) key steps 0 parent0 node0 s1) (\<lambda>(r, s).
         case r of
           Restart \<Rightarrow> Inr (GoRestart, s)
         | Done (parent, node, _) \<Rightarrow>
             rbind (g_node pb node s) (\<lambda>n.
             if hasSpaceFor (length key) (length payload) n then
               rbind (GuardX_of_S node) (\<lambda>nodeLocked.
               rbind (GuardS_release pb parent s) (\<lambda>(parent1, s2).
               rbind (insertInPage raw key payload n) (\<lambda>n1.
               let s3 = g_put pb nodeLocked (NodePage n1) s2
               in rbind (GuardX_dtor pb nodeLocked s3) (\<lambda>s4.
                  rbind (GuardS_dtor pb parent1 s4) (\<lambda>s5. Inr (Return, s5))))))
             else splitAndLeave pb raw bt Continue parent node s)))"

text \<open>
  Where a fiber inside \<open>insert\<close> stands: at the head of the loop of \<open>insert\<close>, or at the head of the
  loop of an \<open>ensureSpace\<close> it called. \<open>insert_run\<close> runs the bodies until the insertion is done or a
  body goes to \<^verbatim>\<open>restart\<close>, after which the fiber continues at the same place. \<open>fuel\<close> bounds the
  number of bodies.
\<close>

datatype insert_pc = AtInsert | AtEnsure nat bytes

datatype insert_out = Inserted | Suspended insert_pc

fun insert_run :: "nat \<Rightarrow> 's PageBuffer \<Rightarrow> BTreeNode \<Rightarrow> nat \<Rightarrow> BTree \<Rightarrow> bytes \<Rightarrow> bytes \<Rightarrow> insert_pc \<Rightarrow> 's \<Rightarrow>
    (insert_out \<times> 's) result" where
  "insert_run 0 pb raw steps bt key payload pc s = Inl OutOfSteps"
| "insert_run (Suc fuel) pb raw steps bt key payload pc s =
     (case pc of
        AtInsert \<Rightarrow>
          rbind (insert_body pb raw steps bt key payload s) (\<lambda>(out, s1).
          case out of
            Return \<Rightarrow> Inr (Inserted, s1)
          | Continue \<Rightarrow> insert_run fuel pb raw steps bt key payload AtInsert s1
          | GoRestart \<Rightarrow> Inr (Suspended AtInsert, s1)
          | CallEnsure ptr k \<Rightarrow> insert_run fuel pb raw steps bt key payload (AtEnsure ptr k) s1)
      | AtEnsure toSplit k \<Rightarrow>
          rbind (ensureSpace_body pb raw steps bt toSplit k 8 s) (\<lambda>(out, s1).
          case out of
            Return \<Rightarrow> insert_run fuel pb raw steps bt key payload AtInsert s1
          | Continue \<Rightarrow> insert_run fuel pb raw steps bt key payload AtInsert s1
          | GoRestart \<Rightarrow> Inr (Suspended (AtEnsure toSplit k), s1)
          | CallEnsure ptr k' \<Rightarrow> insert_run fuel pb raw steps bt key payload (AtEnsure ptr k') s1))"

definition insert_start :: "nat \<Rightarrow> 's PageBuffer \<Rightarrow> BTreeNode \<Rightarrow> nat \<Rightarrow> BTree \<Rightarrow> bytes \<Rightarrow> bytes \<Rightarrow> 's \<Rightarrow>
    (insert_out \<times> 's) result" where
  "insert_start fuel pb raw steps bt key payload s =
     rbind (check (length key + length payload \<le> maxKVSize)
       (Assert ''(key.size() + payload.size()) <= BTreeNode::maxKVSize'')) (\<lambda>_.
     insert_run fuel pb raw steps bt key payload AtInsert s)"

subsection \<open>Removal\<close>

text \<open>
  The end of \<open>remove\<close> on the leaf \<open>n\<close> with the key in slot \<open>slotId\<close>: \<open>underfull\<close> is the parent when the
  leaf becomes underfull and may be merged with its right neighbour, \<open>removeMerging\<close> and
  \<open>removeOnly\<close> are the two branches.
\<close>

definition underfull :: "'s PageBuffer \<Rightarrow> Guard \<Rightarrow> nat \<Rightarrow> nat \<Rightarrow> BTreeNode \<Rightarrow> 's \<Rightarrow> BTreeNode option result" where
  "underfull pb parent pos slotId n s =
     (let sizeEntry = sl_keyLen (bn_slot n ! slotId) + sl_payloadLen (bn_slot n ! slotId)
      in if underFullSize \<le> freeSpaceAfterCompaction n + sizeEntry \<and> g_pid parent \<noteq> metadataPageId
         then rbind (g_node pb parent s) (\<lambda>pn. Inr (if 2 \<le> bn_count pn \<and> pos + 1 < bn_count pn then Some pn else None))
         else Inr None)"

definition removeMerging :: "'s PageBuffer \<Rightarrow> BTreeNode \<Rightarrow> Guard \<Rightarrow> Guard \<Rightarrow> nat \<Rightarrow> nat \<Rightarrow> BTreeNode \<Rightarrow> BTreeNode \<Rightarrow> 's \<Rightarrow>
    (bool attempt \<times> 's) result" where
  "removeMerging pb raw parent node pos slotId n pn s =
     rbind (GuardX_of_S parent) (\<lambda>parentLocked.
     rbind (GuardX_of_S node) (\<lambda>nodeLocked.
     rbind (GuardX pb (getChild pn (pos + 1)) s) (\<lambda>(rightLocked, s2).
     if g_retry rightLocked then
       rbind (GuardX_dtor pb rightLocked s2) (\<lambda>s3.
       rbind (GuardX_dtor pb nodeLocked s3) (\<lambda>s4.
       rbind (GuardX_dtor pb parentLocked s4) (\<lambda>s5. Inr (Restart, s5))))
     else
       rbind (g_node pb rightLocked s2) (\<lambda>rn.
       let n1 = snd (removeSlot slotId n)
       in rbind (if pageSize - underFullSize \<le> freeSpaceAfterCompaction rn
                 then mergeNodes raw (g_pid nodeLocked) pos pn rn n1
                 else Inr (False, n1, pn)) (\<lambda>(_, n2, pn2).
          let s3 = g_put pb nodeLocked (NodePage n2) s2;
              s4 = g_put pb parentLocked (NodePage pn2) s3
          in rbind (GuardX_dtor pb rightLocked s4) (\<lambda>s5.
             rbind (GuardX_dtor pb nodeLocked s5) (\<lambda>s6.
             rbind (GuardX_dtor pb parentLocked s6) (\<lambda>s7. Inr (Done True, s7)))))))))"

definition removeOnly :: "'s PageBuffer \<Rightarrow> Guard \<Rightarrow> Guard \<Rightarrow> nat \<Rightarrow> BTreeNode \<Rightarrow> 's \<Rightarrow> (bool attempt \<times> 's) result" where
  "removeOnly pb parent node slotId n s =
     rbind (GuardX_of_S node) (\<lambda>nodeLocked.
     rbind (GuardS_release pb parent s) (\<lambda>(parent1, s2).
     let s3 = g_put pb nodeLocked (NodePage (snd (removeSlot slotId n))) s2
     in rbind (GuardX_dtor pb nodeLocked s3) (\<lambda>s4.
        rbind (GuardS_dtor pb parent1 s4) (\<lambda>s5. Inr (Done True, s5)))))"

definition remove :: "'s PageBuffer \<Rightarrow> BTreeNode \<Rightarrow> nat \<Rightarrow> BTree \<Rightarrow> bytes \<Rightarrow> 's \<Rightarrow> (bool attempt \<times> 's) result" where
  "remove pb raw steps bt key s0 =
     rbind (enter pb bt s0) (\<lambda>(r, s1).
     case r of
       Restart \<Rightarrow> Inr (Restart, s1)
     | Done (parent0, node0) \<Rightarrow>
         rbind (descend pb (\<lambda>_. False) key steps 0 parent0 node0 s1) (\<lambda>(r, s).
         case r of
           Restart \<Rightarrow> Inr (Restart, s)
         | Done (parent, node, pos) \<Rightarrow>
             rbind (g_node pb node s) (\<lambda>n.
             let (slotId, found) = lowerBound key n
             in if \<not> found then
                  rbind (GuardS_dtor pb node s) (\<lambda>s2.
                  rbind (GuardS_dtor pb parent s2) (\<lambda>s3. Inr (Done False, s3)))
                else
                  rbind (underfull pb parent pos slotId n s) (\<lambda>u.
                  case u of
                    Some pn \<Rightarrow> removeMerging pb raw parent node pos slotId n pn s
                  | None \<Rightarrow> removeOnly pb parent node slotId n s))))"

end
