(* ===== verification/Btree_Find.thy ===== *)
theory Btree_Find
  imports Btree_Shrink Btree_Ops
begin

section \<open>Searching a tree through the guards\<close>

text \<open>
  The attempts of \<open>findLeafS\<close>, \<open>lookup\<close>, \<open>updateInPlace\<close> and the walk of the updating operations,
  over any buffer that keeps the contract \<open>page_buffer\<close>: every guard is released on every path, a
  page is never fixed twice, and the leaf reached is the one whose interval holds the key.
\<close>

definition tree_at :: "nat \<Rightarrow> nat \<Rightarrow> BTree \<Rightarrow> (PID \<Rightarrow> Page) \<Rightarrow> PID \<Rightarrow> PID \<Rightarrow> bool" where
  "tree_at K h bt f n root \<longleftrightarrow>
     (\<exists>roots. f 0 = MetaPage roots \<and> bt_slotId bt < length roots \<and> roots ! bt_slotId bt = root) \<and>
     tree K h f root [] [] \<and> distinct (tree_pids h f root) \<and> (\<forall>p \<in> set (tree_pids h f root). p \<noteq> 0 \<and> p < n)"

definition contents :: "nat \<Rightarrow> (PID \<Rightarrow> Page) \<Rightarrow> PID \<Rightarrow> bytes \<Rightarrow> bytes option" where
  "contents h f root = map_of (tree_ents h f root)"

text \<open>
  An operation on one tree keeps the other entries of the metadata page and the allocated pages
  outside the tree; its pages are the old ones and new ones.
\<close>

definition evolves :: "BTree \<Rightarrow> nat \<Rightarrow> (PID \<Rightarrow> Page) \<Rightarrow> PID \<Rightarrow> PID \<Rightarrow> nat \<Rightarrow> (PID \<Rightarrow> Page) \<Rightarrow> PID \<Rightarrow> bool" where
  "evolves bt h f n root h' f' root' \<longleftrightarrow>
     (\<exists>roots. f 0 = MetaPage roots \<and> f' 0 = MetaPage (roots[bt_slotId bt := root'])) \<and>
     (\<forall>p. p \<noteq> 0 \<longrightarrow> p < n \<longrightarrow> p \<notin> set (tree_pids h f root) \<longrightarrow> f' p = f p) \<and>
     set (tree_pids h' f' root') \<subseteq> set (tree_pids h f root) \<union> {p. n \<le> p}"

lemma evolves_same:
  assumes t: "tree_at K h bt f n root"
    and f': "\<forall>p. p \<notin> set (tree_pids h f root) \<longrightarrow> f' p = f p" and sub: "set (tree_pids h f' root) \<subseteq> set (tree_pids h f root)"
  shows "evolves bt h f n root h f' root"
proof -
  from t obtain roots where r: "f 0 = MetaPage roots" "roots ! bt_slotId bt = root" "0 \<notin> set (tree_pids h f root)"
    by (auto simp: tree_at_def)
  then have "f' 0 = MetaPage (roots[bt_slotId bt := root])" using f' by auto
  with r(1) f' sub show ?thesis unfolding evolves_def by auto
qed

lemma evolves_refl: "tree_at K h bt f n root \<Longrightarrow> evolves bt h f n root h f root"
  by (rule evolves_same) simp_all

lemma evolves_trans:
  assumes a: "evolves bt h f n root h1 f1 root1" and b: "evolves bt h1 f1 n1 root1 h2 f2 root2" and n: "n \<le> n1"
  shows "evolves bt h f n root h2 f2 root2"
proof -
  have "f2 p = f p" if p: "p \<noteq> 0" "p < n" "p \<notin> set (tree_pids h f root)" for p
  proof -
    have "p \<notin> set (tree_pids h1 f1 root1)" using a p by (auto simp: evolves_def)
    then show ?thesis using a b p n by (auto simp: evolves_def)
  qed
  moreover have "\<exists>roots. f 0 = MetaPage roots \<and> f2 0 = MetaPage (roots[bt_slotId bt := root2])"
    using a b by (auto simp: evolves_def)
  moreover have "set (tree_pids h2 f2 root2) \<subseteq> set (tree_pids h f root) \<union> {p. n \<le> p}"
  proof
    fix p
    assume "p \<in> set (tree_pids h2 f2 root2)"
    then have "p \<in> set (tree_pids h1 f1 root1) \<or> n1 \<le> p" using b by (auto simp: evolves_def)
    then show "p \<in> set (tree_pids h f root) \<union> {p. n \<le> p}" using a n by (auto simp: evolves_def)
  qed
  ultimately show ?thesis unfolding evolves_def by blast
qed

text \<open>Some page the operations on the tree may need is not in memory.\<close>

definition missing :: "PID set \<Rightarrow> nat \<Rightarrow> (PID \<Rightarrow> Page) \<Rightarrow> PID \<Rightarrow> bool" where
  "missing R h f root \<longleftrightarrow> \<not> insert 0 (set (tree_pids h f root)) \<subseteq> R"

lemma missingI: "p = 0 \<or> p \<in> set (tree_pids h f root) \<Longrightarrow> p \<notin> R \<Longrightarrow> missing R h f root"
  by (auto simp: missing_def)

text \<open>The function \<open>sel\<close> that chooses a child chooses the one at position \<open>ix\<close>.\<close>

definition routes :: "nat \<Rightarrow> (bytes \<Rightarrow> BTreeNode \<Rightarrow> PID) \<Rightarrow> bytes \<Rightarrow> (BTreeNode \<Rightarrow> nat) \<Rightarrow> bool" where
  "routes K sel key ix \<longleftrightarrow>
     (\<forall>n lo hi. inner_node K n lo hi \<longrightarrow> sel key n = bn_children n ! ix n \<and> ix n \<le> bn_count n)"

lemma lookupInner_route: "routes K lookupInner key (child_ix key)"
  using lookupInner_child child_ix_le by (auto simp: routes_def)

lemma child_pids:
  assumes t: "tree K (Suc h) f p lo hi" and n: "f p = NodePage n" and d: "distinct (tree_pids (Suc h) f p)" and i: "i \<le> bn_count n"
  shows "bn_children n ! i \<noteq> p" and "distinct (tree_pids h f (bn_children n ! i))"
    and "set (tree_pids h f (bn_children n ! i)) \<subseteq> set (tree_pids (Suc h) f p) - {p}"
    and "tree K h f (bn_children n ! i) (lo_at lo (bn_keys n) i) (hi_at hi (bn_keys n) i)"
proof -
  from t n have inner: "inner_node K n lo hi" by simp
  have mem: "bn_children n ! i \<in> set (bn_children n)" using i inner_nodeD(4) [OF inner] by simp
  show sub: "set (tree_pids h f (bn_children n ! i)) \<subseteq> set (tree_pids (Suc h) f p) - {p}" using mem d n by auto
  show "bn_children n ! i \<noteq> p" using sub root_in_pids [of "bn_children n ! i" h f] by blast
  show "distinct (tree_pids h f (bn_children n ! i))" using mem d n by (auto simp: distinct_concat_iff)
  show "tree K h f (bn_children n ! i) (lo_at lo (bn_keys n) i) (hi_at hi (bn_keys n) i)" using t n i by simp
qed

subsection \<open>What a leaf says about the whole tree\<close>

lemma map_of_concat_one:
  assumes i: "i < length xss" and other: "\<And>j. j < length xss \<Longrightarrow> j \<noteq> i \<Longrightarrow> k \<notin> fst ` set (xss ! j)"
  shows "map_of (concat xss) k = map_of (xss ! i) k"
proof -
  have "k \<notin> fst ` set (concat (take i xss))" "k \<notin> fst ` set (concat (drop (Suc i) xss))"
  proof -
    have "k \<notin> fst ` set xs" if xs: "xs \<in> set (take i xss)" for xs
    proof -
      from xs i obtain j where "j < i" "xs = xss ! j" by (auto simp: in_set_conv_nth)
      with other [of j] i show ?thesis by simp
    qed
    then show "k \<notin> fst ` set (concat (take i xss))" by (auto 4 3)
    have "k \<notin> fst ` set xs" if xs: "xs \<in> set (drop (Suc i) xss)" for xs
    proof -
      from xs obtain j where "j < length xss - Suc i" "xs = xss ! (Suc i + j)" by (auto simp: in_set_conv_nth)
      with other [of "Suc i + j"] i show ?thesis by simp
    qed
    then show "k \<notin> fst ` set (concat (drop (Suc i) xss))" by (auto 4 3)
  qed
  then have "map_of (concat (take i xss)) k = None" "map_of (concat (drop (Suc i) xss)) k = None"
    by (simp_all add: map_of_eq_None_iff)
  then show ?thesis unfolding concat_at [OF i] by (simp add: map_add_def split: option.splits)
qed

lemma contents_child:
  assumes t: "tree K (Suc h) f p lo hi" and n: "f p = NodePage n" and k: "within lo hi k"
  shows "map_of (tree_ents (Suc h) f p) k = map_of (tree_ents h f (bn_children n ! child_ix k n)) k"
proof -
  from t n have inner: "inner_node K n lo hi"
    and c: "\<And>i. i \<le> bn_count n \<Longrightarrow> tree K h f (bn_children n ! i) (lo_at lo (bn_keys n) i) (hi_at hi (bn_keys n) i)" by auto
  note D = inner_nodeD [OF inner]
  let ?xss = "map (tree_ents h f) (bn_children n)"
  have i: "child_ix k n < length ?xss" using child_ix_le [OF inner, of k] D(4) by simp
  have "map_of (concat ?xss) k = map_of (?xss ! child_ix k n) k"
  proof (rule map_of_concat_one [OF i])
    fix j
    assume j: "j < length ?xss" "j \<noteq> child_ix k n"
    show "k \<notin> fst ` set (?xss ! j)"
    proof
      assume "k \<in> fst ` set (?xss ! j)"
      then have "within (lo_at lo (bn_keys n) j) (hi_at hi (bn_keys n) j) k"
        using tree_within [OF c [of j]] j D(4) by auto
      with child_ix_unique [OF inner, of j k] j D(4) show False by simp
    qed
  qed
  then show ?thesis using n i by simp
qed

lemma contents_leaf:
  assumes "tree K h f p lo hi" and "within lo hi k" and "walk (child_ix k) h f p lo hi = (q, a, b)"
  shows "map_of (tree_ents h f p) k = map_of (bn_entries (node f q)) k"
  using assms
proof (induction h arbitrary: p lo hi)
  case (Suc h)
  from Suc.prems(1) obtain n where n: "f p = NodePage n" "inner_node K n lo hi"
    and c: "\<And>i. i \<le> bn_count n \<Longrightarrow> tree K h f (bn_children n ! i) (lo_at lo (bn_keys n) i) (hi_at hi (bn_keys n) i)"
    by (rule tree_SucE) (rule that)
  from Suc.prems(3) n(1) have w: "walk (child_ix k) h f (bn_children n ! child_ix k n) (lo_at lo (bn_keys n) (child_ix k n))
      (hi_at hi (bn_keys n) (child_ix k n)) = (q, a, b)" by (simp add: Let_def)
  from Suc.IH [OF c [OF child_ix_le [OF n(2)]] child_ix_within [OF n(2) Suc.prems(2)] w]
    contents_child [OF Suc.prems(1) n(1) Suc.prems(2)] show ?case by simp
qed simp

lemma found_payload:
  assumes inv: "bn_inv n" and found: "snd (lowerBound k n)"
  shows "fst (lowerBound k n) < bn_count n" and "map_of (bn_entries n) k = Some (getPayload n (fst (lowerBound k n)))"
    and "length (getPayload n (fst (lowerBound k n))) = sl_payloadLen (bn_slot n ! fst (lowerBound k n))"
    and "bn_keys n ! fst (lowerBound k n) = k"
proof -
  let ?i = "fst (lowerBound k n)"
  from inv have lay: "bn_layout n" and heap: "bn_heap n" by (simp_all add: bn_inv_def)
  have "k \<in> set (bn_keys n)" using found by (simp add: lowerBound_correct [OF inv])
  note lf = lowerBound_found [OF inv this]
  show i: "?i < bn_count n" by (rule lf(1))
  show k: "bn_keys n ! ?i = k" using lf(2) nth_entry_key [OF inv i] by simp
  note e = slot_entry [OF lay heap i]
  show len: "length (getPayload n ?i) = sl_payloadLen (bn_slot n ! ?i)"
    using e by (auto simp: getPayload_def slot_val_def)
  have "bn_entries n ! ?i = (k, getPayload n ?i)"
    using e(1) k nth_entry_key [OF inv i] by (auto simp: getPayload_def slot_val_def prod_eq_iff)
  moreover have "bn_entries n ! ?i \<in> set (bn_entries n)" using i entries_facts(3) [OF inv] by simp
  moreover have "distinct (map fst (bn_entries n))" using entries_facts(1) [OF inv] sorted_distinct by blast
  ultimately show "map_of (bn_entries n) k = Some (getPayload n ?i)" by (metis map_of_is_SomeI)
qed

lemma not_found_payload:
  assumes inv: "bn_inv n" and "\<not> snd (lowerBound k n)"
  shows "map_of (bn_entries n) k = None"
  using assms by (simp add: lowerBound_correct [OF inv] map_of_eq_None_iff set_bn_keys)

subsection \<open>Replacing a leaf\<close>

lemma map_of_replace:
  assumes d: "distinct (map fst (A @ X @ B))" "distinct (map fst (A @ X' @ B))"
    and k: "k \<in> fst ` set X \<or> k \<in> fst ` set X'" and m: "map_of X' = (map_of X)(k := o')"
  shows "map_of (A @ X' @ B) = (map_of (A @ X @ B))(k := o')"
proof
  fix k'
  show "map_of (A @ X' @ B) k' = ((map_of (A @ X @ B))(k := o')) k'"
  proof (cases "k' = k")
    case True
    have "k \<notin> fst ` set A" "k \<notin> fst ` set B" using d k by auto
    then have "map_of A k = None" "map_of B k = None" by (simp_all add: map_of_eq_None_iff)
    with True m show ?thesis by (simp add: map_add_def split: option.splits)
  next
    case False
    then have "map_of X' k' = map_of X k'" using m by simp
    with False show ?thesis by (auto simp: map_add_def split: option.splits)
  qed
qed

lemma replace_leaf:
  assumes t: "tree_at K h bt f n root" and w: "walk (child_ix k) h f root [] [] = (q, a, c)"
    and x: "f q = NodePage x" and x': "leaf_node K x' a c"
    and k: "k \<in> set (bn_keys x) \<or> k \<in> set (bn_keys x')" and m: "map_of (bn_entries x') = (map_of (bn_entries x))(k := o')"
  shows "tree_at K h bt (f(q := NodePage x')) n root"
    and "contents h (f(q := NodePage x')) root = (contents h f root)(k := o')"
    and "q \<in> set (tree_pids h f root)"
    and "evolves bt h f n root h (f(q := NodePage x')) root"
    and "tree_pot h (f(q := NodePage x')) root + 2 * (bn_count x - 1) = tree_pot h f root + 2 * (bn_count x' - 1)"
proof -
  let ?f = "f(q := NodePage x')"
  from t have tr: "tree K h f root [] []" "distinct (tree_pids h f root)" "\<forall>p \<in> set (tree_pids h f root). p \<noteq> 0 \<and> p < n"
    by (simp_all add: tree_at_def)
  have w0: "within [] [] k" by simp
  show q: "q \<in> set (tree_pids h f root)" using walk_tree(3) [OF tr(1) w0 order_refl w] by simp
  have r: "replaces K (h - h) f ?f q a c {}" using replaces_leaf [OF x', of f q] by simp
  have other: "\<forall>y \<in> set (tree_pids h f root) - set (tree_pids (h - h) f q). ?f y = f y" by simp
  have N: "{} \<inter> set (tree_pids h f root) = {}" by simp
  note rw = replace_walk [OF tr(1) w0 tr(2) order_refl w r N other]
  then have t': "tree K h ?f root [] []" "distinct (tree_pids h ?f root)"
    and sub: "set (tree_pids h ?f root) \<subseteq> set (tree_pids h f root)" unfolding replaces_def by blast+
  show "evolves bt h f n root h ?f root" by (rule evolves_same [OF t _ sub]) (use q in auto)
  have "q \<noteq> 0" using q tr(3) by blast
  with t t' sub tr(3) show "tree_at K h bt ?f n root" by (auto simp: tree_at_def)
  have z: "tree_ents (h - h) f q = bn_entries x" "tree_ents (h - h) ?f q = bn_entries x'"
    "tree_pot (h - h) f q = 2 * (bn_count x - 1)" "tree_pot (h - h) ?f q = 2 * (bn_count x' - 1)" using x by simp_all
  from rw z obtain A B where ents: "tree_ents h f root = A @ bn_entries x @ B" "tree_ents h ?f root = A @ bn_entries x' @ B"
    by metis
  show "contents h ?f root = (contents h f root)(k := o')"
    unfolding contents_def ents
    by (rule map_of_replace)
      (use tree_keys_distinct [OF tr(1)] tree_keys_distinct [OF t'(1)] ents k m in \<open>simp_all only: set_bn_keys\<close>)
  show "tree_pot h ?f root + 2 * (bn_count x - 1) = tree_pot h f root + 2 * (bn_count x' - 1)"
    using rw unfolding z by blast
qed

context page_buffer
begin

lemma g_node_rule:
  "at f n H M s \<Longrightarrow> H p = Some b \<Longrightarrow> f p = NodePage x \<Longrightarrow> g_node pb \<lparr>g_pid = p, g_ptr = Some b\<rparr> s = Inr x"
  using g_page_rule by (simp add: g_node_def)

lemma g_meta_rule:
  "at f n H M s \<Longrightarrow> H p = Some b \<Longrightarrow> f p = MetaPage x \<Longrightarrow> g_meta pb \<lparr>g_pid = p, g_ptr = Some b\<rparr> s = Inr x"
  using g_page_rule by (simp add: g_meta_def)

lemma g_put_rule:
  "at f n H M s \<Longrightarrow> H p = Some b \<Longrightarrow> at (f(p := x)) n H (insert p M) (g_put pb \<lparr>g_pid = p, g_ptr = Some b\<rparr> x s)"
  using store_law by (simp add: g_put_def)

lemma releaseS_rule:
  assumes "at f n H M s" and "H p = Some b" and "p \<notin> M"
  shows "\<exists>s'. GuardS_release pb \<lparr>g_pid = p, g_ptr = Some b\<rparr> s = Inr (\<lparr>g_pid = moved, g_ptr = Some b\<rparr>, s') \<and> at f n (H(p := None)) M s'"
  using unfixS_law [OF assms] held_not_moved [OF assms(1,2)] by (auto simp: GuardS_release_def g_live_def)

lemma releaseX_rule:
  assumes "at f n H M s" and "H p = Some b"
  shows "\<exists>s'. GuardX_release pb \<lparr>g_pid = p, g_ptr = Some b\<rparr> s = Inr (\<lparr>g_pid = moved, g_ptr = Some b\<rparr>, s') \<and> at f n (H(p := None)) (M - {p}) s'"
  using unfixX_law [OF assms] held_not_moved [OF assms] by (auto simp: GuardX_release_def g_live_def)

lemma assignS_rule:
  assumes "at f n H M s" and "H p = Some b" and "p \<notin> M" and "g_pid other \<noteq> p"
  shows "\<exists>s'. GuardS_assign pb \<lparr>g_pid = p, g_ptr = Some b\<rparr> other s = Inr (other, s') \<and> at f n (H(p := None)) M s'"
  using dtorS_rule [OF assms(1-3)] assms(4) by (auto simp: GuardS_assign_def)

lemma assignX_rule:
  assumes "at f n H M s" and "H p = Some b" and "g_pid other \<noteq> p"
  shows "\<exists>s'. GuardX_assign pb \<lparr>g_pid = p, g_ptr = Some b\<rparr> other s = Inr (other, s') \<and> at f n (H(p := None)) (M - {p}) s'"
  using dtorX_rule [OF assms(1-2)] assms(3) by (auto simp: GuardX_assign_def)

lemma X_of_S_rule:
  "at f n H M s \<Longrightarrow> H p = Some b \<Longrightarrow> GuardX_of_S \<lparr>g_pid = p, g_ptr = Some b\<rparr> = Inr \<lparr>g_pid = p, g_ptr = Some b\<rparr>"
  using held_not_moved [of f n H M s p b] by (simp add: GuardX_of_S_def)

lemma dtorS_one:
  "at f n [p \<mapsto> b] {} s \<Longrightarrow> \<exists>s'. GuardS_dtor pb \<lparr>g_pid = p, g_ptr = Some b\<rparr> s = Inr s' \<and> at f n Map.empty {} s'"
  using dtorS_rule [of f n "[p \<mapsto> b]" "{}" s p b] by simp

lemma upd_two: "p \<noteq> q \<Longrightarrow> [p \<mapsto> b, q \<mapsto> c](p := None) = [q \<mapsto> c]" "p \<noteq> q \<Longrightarrow> [p \<mapsto> b, q \<mapsto> c](q := None) = [p \<mapsto> b]"
  by auto

lemma releaseS_two:
  assumes "at f n [p \<mapsto> b, q \<mapsto> c] {} s" and "p \<noteq> q"
  shows "\<exists>s'. GuardS_release pb \<lparr>g_pid = p, g_ptr = Some b\<rparr> s = Inr (\<lparr>g_pid = moved, g_ptr = Some b\<rparr>, s') \<and> at f n [q \<mapsto> c] {} s'"
  using releaseS_rule [OF assms(1), of p b] assms(2) by (simp add: upd_two)

lemma GuardS_first:
  assumes "at f n Map.empty M s"
  obtains (retry) s' where "GuardS pb pid s = Inr (\<lparr>g_pid = pid, g_ptr = None\<rparr>, s')" "at f n Map.empty M s'" "pid \<notin> R"
  | (fixed) b s' where "GuardS pb pid s = Inr (\<lparr>g_pid = pid, g_ptr = Some b\<rparr>, s')" "at f n [pid \<mapsto> b] M s'"
  using fixS_law [OF assms, of pid] by (auto simp: GuardS_def)

subsection \<open>Down to a leaf\<close>

lemma findLeaf_loop_rule:
  assumes sel: "routes K sel key ix"
    and "at f n [p \<mapsto> b] {} s" and "tree K h f p lo hi" and "distinct (tree_pids h f p)" and "h < steps"
  shows "\<exists>out s'. findLeaf_loop pb sel key steps \<lparr>g_pid = p, g_ptr = Some b\<rparr> s = Inr (out, s') \<and>
    (out = Restart \<and> at f n Map.empty {} s' \<and> \<not> set (tree_pids h f p) \<subseteq> R \<or>
     (\<exists>q a c b'. out = Done \<lparr>g_pid = q, g_ptr = Some b'\<rparr> \<and> at f n [q \<mapsto> b'] {} s' \<and>
       walk ix h f p lo hi = (q, a, c) \<and> tree K 0 f q a c))"
  using assms(2-)
proof (induction h arbitrary: p b s lo hi steps)
  case 0
  then obtain x where x: "f p = NodePage x" "leaf_node K x lo hi" by auto
  have "g_node pb \<lparr>g_pid = p, g_ptr = Some b\<rparr> s = Inr x" by (rule g_node_rule [OF 0(1) _ x(1)]) simp
  moreover obtain st where "steps = Suc st" using 0(4) by (cases steps) auto
  ultimately have "findLeaf_loop pb sel key steps \<lparr>g_pid = p, g_ptr = Some b\<rparr> s = Inr (Done \<lparr>g_pid = p, g_ptr = Some b\<rparr>, s)"
    using x(2) by (simp add: leaf_node_def)
  with 0 show ?case by auto
next
  case (Suc h)
  from Suc.prems(2) obtain x where x: "f p = NodePage x" "inner_node K x lo hi" by auto
  have s1: "sel key x = bn_children x ! ix x \<and> ix x \<le> bn_count x" using sel x(2) by (auto simp: routes_def)
  let ?c = "bn_children x ! ix x"
  note c = child_pids [OF Suc.prems(2) x(1) Suc.prems(3) conjunct2 [OF s1]]
  obtain st where st: "steps = Suc st" "h < st" using Suc.prems(4) by (cases steps) auto
  have gn: "g_node pb \<lparr>g_pid = p, g_ptr = Some b\<rparr> s = Inr x" by (rule g_node_rule [OF Suc.prems(1) _ x(1)]) simp
  have inner: "\<not> bn_isLeaf x" using x(2) by (simp add: inner_node_def inner_ok_def)
  have free: "[p \<mapsto> b] ?c = None" using c(1) by simp
  have w: "walk ix (Suc h) f p lo hi = walk ix h f ?c (lo_at lo (bn_keys x) (ix x)) (hi_at hi (bn_keys x) (ix x))"
    using x(1) by (simp add: Let_def)
  from Suc.prems(1) free show ?case
  proof (cases rule: GuardS_rule)
    case (retry s1)
    have "\<exists>s2. GuardS_assign pb \<lparr>g_pid = p, g_ptr = Some b\<rparr> \<lparr>g_pid = ?c, g_ptr = None\<rparr> s1 = Inr (\<lparr>g_pid = ?c, g_ptr = None\<rparr>, s2) \<and>
      at f n ([p \<mapsto> b](p := None)) {} s2"
      by (rule assignS_rule [OF retry(2)]) (use c(1) in simp_all)
    then obtain s2 where a: "GuardS_assign pb \<lparr>g_pid = p, g_ptr = Some b\<rparr> \<lparr>g_pid = ?c, g_ptr = None\<rparr> s1 = Inr (\<lparr>g_pid = ?c, g_ptr = None\<rparr>, s2)"
      "at f n Map.empty {} s2" by auto
    have "findLeaf_loop pb sel key steps \<lparr>g_pid = p, g_ptr = Some b\<rparr> s = Inr (Restart, s2)"
      using retry(1) s1 gn inner st(1) a(1) by simp
    moreover have "\<not> set (tree_pids (Suc h) f p) \<subseteq> R" using retry(3) c(3) root_in_pids [of ?c h f] by blast
    ultimately show ?thesis using a(2) by blast
  next
    case (fixed b' s1)
    have "\<exists>s2. GuardS_assign pb \<lparr>g_pid = p, g_ptr = Some b\<rparr> \<lparr>g_pid = ?c, g_ptr = Some b'\<rparr> s1 = Inr (\<lparr>g_pid = ?c, g_ptr = Some b'\<rparr>, s2) \<and>
      at f n ([p \<mapsto> b, ?c \<mapsto> b'](p := None)) {} s2"
      by (rule assignS_rule [OF fixed(2)]) (use c(1) in simp_all)
    then obtain s2 where a: "GuardS_assign pb \<lparr>g_pid = p, g_ptr = Some b\<rparr> \<lparr>g_pid = ?c, g_ptr = Some b'\<rparr> s1 = Inr (\<lparr>g_pid = ?c, g_ptr = Some b'\<rparr>, s2)"
      "at f n ([p \<mapsto> b, ?c \<mapsto> b'](p := None)) {} s2" by blast
    have "[p \<mapsto> b, ?c \<mapsto> b'](p := None) = [?c \<mapsto> b']" using c(1) by auto
    with a(2) have at2: "at f n [?c \<mapsto> b'] {} s2" by simp
    have "findLeaf_loop pb sel key steps \<lparr>g_pid = p, g_ptr = Some b\<rparr> s = findLeaf_loop pb sel key st \<lparr>g_pid = ?c, g_ptr = Some b'\<rparr> s2"
      using fixed(1) s1 gn inner st(1) a(1) by simp
    then have run: "findLeaf_loop pb sel key steps \<lparr>g_pid = p, g_ptr = Some b\<rparr> s = Inr z \<longleftrightarrow>
        findLeaf_loop pb sel key st \<lparr>g_pid = ?c, g_ptr = Some b'\<rparr> s2 = Inr z" for z by simp
    have up: "\<not> set (tree_pids h f ?c) \<subseteq> R \<Longrightarrow> \<not> set (tree_pids (Suc h) f p) \<subseteq> R" using c(3) by blast
    from Suc.IH [OF at2 c(4,2) st(2)] show ?thesis unfolding run w using up by blast
  qed
qed

lemma findLeaf_rule:
  assumes sel: "routes K sel key ix"
    and s: "at f n Map.empty {} s" and t: "tree_at K h bt f n root" and steps: "h < steps"
  shows "\<exists>out s'. findLeaf pb sel steps bt key s = Inr (out, s') \<and>
    (out = Restart \<and> at f n Map.empty {} s' \<and> missing R h f root \<or>
     (\<exists>q a c b'. out = Done \<lparr>g_pid = q, g_ptr = Some b'\<rparr> \<and> at f n [q \<mapsto> b'] {} s' \<and>
       walk ix h f root [] [] = (q, a, c) \<and> tree K 0 f q a c))"
proof -
  from t obtain roots where meta: "f 0 = MetaPage roots" "roots ! bt_slotId bt = root"
    and tr: "tree K h f root [] []" "distinct (tree_pids h f root)" and r0: "root \<noteq> 0"
    using root_in_pids [of root h f] by (auto simp: tree_at_def)
  from s show ?thesis
  proof (cases rule: GuardS_first [where pid = 0])
    case (retry s1)
    then have "findLeaf pb sel steps bt key s = Inr (Restart, s1)" by (simp add: findLeaf_def metadataPageId_def)
    with retry(2) missingI [of 0 h f root R, OF disjI1 [OF refl] retry(3)] show ?thesis by blast
  next
    case (fixed b0 s1)
    have m: "g_meta pb \<lparr>g_pid = 0, g_ptr = Some b0\<rparr> s1 = Inr roots" by (rule g_meta_rule [OF fixed(2) _ meta(1)]) simp
    have free: "[0 \<mapsto> b0] root = None" using r0 by simp
    note f0 = fixed(1) m meta(2)
    from fixed(2) free show ?thesis
    proof (cases rule: GuardS_rule)
      case (retry s2)
      obtain s3 where "GuardS_dtor pb \<lparr>g_pid = 0, g_ptr = Some b0\<rparr> s2 = Inr s3" "at f n Map.empty {} s3"
        using dtorS_one [OF retry(2)] by blast
      moreover from this(1) f0 retry(1) have "findLeaf pb sel steps bt key s = Inr (Restart, s3)"
        by (simp add: findLeaf_def metadataPageId_def getRoot_def)
      ultimately show ?thesis using missingI [of root h f root R, OF disjI2 [OF root_in_pids] retry(3)] by blast
    next
      case (fixed b s2)
      obtain s3 where s3: "GuardS_release pb \<lparr>g_pid = 0, g_ptr = Some b0\<rparr> s2 = Inr (\<lparr>g_pid = moved, g_ptr = Some b0\<rparr>, s3)"
        "at f n [root \<mapsto> b] {} s3"
        using releaseS_two [OF fixed(2)] r0 by metis
      from findLeaf_loop_rule [OF sel s3(2) tr steps] obtain out s4 where
        o: "findLeaf_loop pb sel key steps \<lparr>g_pid = root, g_ptr = Some b\<rparr> s3 = Inr (out, s4)"
        "out = Restart \<and> at f n Map.empty {} s4 \<and> \<not> set (tree_pids h f root) \<subseteq> R \<or>
          (\<exists>q a c b'. out = Done \<lparr>g_pid = q, g_ptr = Some b'\<rparr> \<and> at f n [q \<mapsto> b'] {} s4 \<and>
            walk ix h f root [] [] = (q, a, c) \<and> tree K 0 f q a c)" by blast
      have "findLeaf pb sel steps bt key s = Inr (out, s4)"
        using f0 fixed(1) s3(1) o(1) by (simp add: findLeaf_def metadataPageId_def getRoot_def)
      moreover have "\<not> set (tree_pids h f root) \<subseteq> R \<Longrightarrow> missing R h f root" by (auto simp: missing_def)
      ultimately show ?thesis using o(2) by blast
    qed
  qed
qed

subsection \<open>Lookups and updates in place\<close>

lemma findLeafS_rule:
  assumes s: "at f n Map.empty {} s" and t: "tree_at K h bt f n root" and steps: "h < steps"
  obtains (restart) s' where "findLeafS pb steps bt key s = Inr (Restart, s')" "at f n Map.empty {} s'" "missing R h f root"
  | (found) q a c b x s' where "findLeafS pb steps bt key s = Inr (Done \<lparr>g_pid = q, g_ptr = Some b\<rparr>, s')"
      "at f n [q \<mapsto> b] {} s'" "walk (child_ix key) h f root [] [] = (q, a, c)" "f q = NodePage x" "leaf_node K x a c"
      "g_node pb \<lparr>g_pid = q, g_ptr = Some b\<rparr> s' = Inr x" "contents h f root key = map_of (bn_entries x) key"
proof -
  from findLeaf_rule [OF lookupInner_route s t steps, of key] obtain out s' where
    o: "findLeafS pb steps bt key s = Inr (out, s')"
    "out = Restart \<and> at f n Map.empty {} s' \<and> missing R h f root \<or>
      (\<exists>q a c b'. out = Done \<lparr>g_pid = q, g_ptr = Some b'\<rparr> \<and> at f n [q \<mapsto> b'] {} s' \<and>
        walk (child_ix key) h f root [] [] = (q, a, c) \<and> tree K 0 f q a c)"
    unfolding findLeafS_def by blast
  from o(2) show ?thesis
  proof (elim disjE conjE exE, goal_cases)
    case 1
    with o(1) restart show ?case by blast
  next
    case (2 q a c b)
    from 2(4) obtain x where x: "f q = NodePage x" "leaf_node K x a c" by auto
    have "contents h f root key = map_of (bn_entries (node f q)) key"
      unfolding contents_def by (rule contents_leaf [where K = K, OF _ _ 2(3)]) (use t in \<open>simp_all add: tree_at_def\<close>)
    then show ?case using found [OF _ 2(2,3) x] o(1) 2(1) g_node_rule [OF 2(2) _ x(1)] x(1) by simp
  qed
qed

lemma lookup_fn_rule:
  assumes s: "at f n Map.empty {} s" and t: "tree_at K h bt f n root" and steps: "h < steps"
  shows "\<exists>out s'. lookup_fn pb steps bt key s = Inr (out, s') \<and> at f n Map.empty {} s' \<and>
    (out = Restart \<and> missing R h f root \<or> out = Done (contents h f root key))"
  using s t steps
proof (cases rule: findLeafS_rule [where key = key])
  case (restart s')
  then have "lookup_fn pb steps bt key s = Inr (Restart, s')" by (simp add: lookup_fn_def)
  with restart(2,3) show ?thesis by blast
next
  case (found q a c b x s1)
  obtain s2 where s2: "GuardS_dtor pb \<lparr>g_pid = q, g_ptr = Some b\<rparr> s1 = Inr s2" "at f n Map.empty {} s2"
    using dtorS_one [OF found(2)] by blast
  have inv: "bn_inv x" using found(5) by (simp add: leaf_node_def)
  have "lookup_fn pb steps bt key s = Inr (Done (contents h f root key), s2)"
    using found(1,6,7) s2(1) found_payload(2) [OF inv, of key] not_found_payload [OF inv, of key]
    by (cases "lowerBound key x") (auto simp: lookup_fn_def)
  with s2(2) show ?thesis by blast
qed

lemma lookup_rule:
  assumes s: "at f n Map.empty {} s" and t: "tree_at K h bt f n root" and steps: "h < steps"
  shows "\<exists>out s'. lookup pb steps bt key sz s = Inr (out, s') \<and> at f n Map.empty {} s' \<and>
    (out = Restart \<and> missing R h f root \<or> out = Done (map_option (\<lambda>v. (take sz v, length v)) (contents h f root key)))"
  using s t steps
proof (cases rule: findLeafS_rule [where key = key])
  case (restart s')
  then have "lookup pb steps bt key sz s = Inr (Restart, s')" by (simp add: lookup_def)
  with restart(2,3) show ?thesis by blast
next
  case (found q a c b x s1)
  obtain s2 where s2: "GuardS_dtor pb \<lparr>g_pid = q, g_ptr = Some b\<rparr> s1 = Inr s2" "at f n Map.empty {} s2"
    using dtorS_one [OF found(2)] by blast
  have inv: "bn_inv x" using found(5) by (simp add: leaf_node_def)
  have "lookup pb steps bt key sz s = Inr (Done (map_option (\<lambda>v. (take sz v, length v)) (contents h f root key)), s2)"
    using found(1,6,7) s2(1) found_payload(2,3) [OF inv, of key] not_found_payload [OF inv, of key]
    by (cases "lowerBound key x") (auto simp: lookup_def Let_def min_def)
  with s2(2) show ?thesis by blast
qed

lemma dtorX_one:
  "at f n [p \<mapsto> b] M s \<Longrightarrow> \<exists>s'. GuardX_dtor pb \<lparr>g_pid = p, g_ptr = Some b\<rparr> s = Inr s' \<and> at f n Map.empty (M - {p}) s'"
  using dtorX_rule [of f n "[p \<mapsto> b]" M s p b] by simp

lemma write_release:
  assumes "at f n [p \<mapsto> b] {} s"
  shows "\<exists>s'. GuardX_dtor pb \<lparr>g_pid = p, g_ptr = Some b\<rparr> (g_put pb \<lparr>g_pid = p, g_ptr = Some b\<rparr> x s) = Inr s' \<and>
    at (f(p := x)) n Map.empty {} s'"
  using dtorX_one [OF g_put_rule [OF assms, of p b x]] by simp

lemma updateInPlace_rule:
  assumes s: "at f n Map.empty {} s" and t: "tree_at K h bt f n root" and steps: "h < steps"
    and fn: "\<And>v. contents h f root key = Some v \<Longrightarrow> length (fn v) = length v"
  shows "\<exists>out s' f'. updateInPlace pb steps bt key fn s = Inr (out, s') \<and> at f' n Map.empty {} s' \<and> tree_at K h bt f' n root \<and>
    evolves bt h f n root h f' root \<and>
    (out = Restart \<and> f' = f \<and> missing R h f root \<or> out = Done False \<and> f' = f \<and> contents h f root key = None \<or>
     (\<exists>v. out = Done True \<and> contents h f root key = Some v \<and> contents h f' root = (contents h f root)(key \<mapsto> fn v)))"
  using s t steps
proof (cases rule: findLeafS_rule [where key = key])
  case (restart s')
  then have "updateInPlace pb steps bt key fn s = Inr (Restart, s')" by (simp add: updateInPlace_def)
  with restart(2,3) t evolves_refl [OF t] show ?thesis by blast
next
  case (found q a c b x s1)
  have inv: "bn_inv x" using found(5) by (simp add: leaf_node_def)
  show ?thesis
  proof (cases "snd (lowerBound key x)")
    case False
    obtain s2 where s2: "GuardS_dtor pb \<lparr>g_pid = q, g_ptr = Some b\<rparr> s1 = Inr s2" "at f n Map.empty {} s2"
      using dtorS_one [OF found(2)] by blast
    have "updateInPlace pb steps bt key fn s = Inr (Done False, s2)"
      using found(1,6) s2(1) False by (cases "lowerBound key x") (simp add: updateInPlace_def)
    moreover have "contents h f root key = None" using found(7) not_found_payload [OF inv False] by simp
    ultimately show ?thesis using s2(2) t evolves_refl [OF t] by blast
  next
    case True
    let ?i = "fst (lowerBound key x)"
    let ?v = "getPayload x ?i"
    let ?x = "setPayload ?i (fn ?v) x"
    note fp = found_payload [OF inv True]
    have c: "contents h f root key = Some ?v" using found(7) fp(2) by simp
    have len: "length (fn ?v) = sl_payloadLen (bn_slot x ! ?i)" using fn [OF c] fp(3) by simp
    note sp = setPayload_correct [OF inv fp(1) len]
    have ne: "length (bn_entries x) = bn_count x" by (rule entries_facts(3) [OF inv])
    have e: "bn_entries x ! ?i = (key, ?v)"
    proof -
      have "fst (bn_entries x ! ?i) = key" using nth_entry_key [OF inv fp(1)] fp(4) by simp
      moreover have "bn_entries x ! ?i \<in> set (bn_entries x)" using fp(1) ne by simp
      moreover have "distinct (map fst (bn_entries x))" using entries_facts(1) [OF inv] sorted_distinct by blast
      ultimately show ?thesis using fp(2) by (metis map_of_is_SomeI option.inject prod.collapse)
    qed
    have leaf: "leaf_node K ?x a c"
      using found(5) sp e len fp(3) nth_mem [of ?i "bn_entries x"] ne fp(1)
      by (auto simp: leaf_node_def same_fences_def simp del: nth_mem dest!: set_update_subset_insert [THEN subsetD])
    have split: "bn_entries x = take ?i (bn_entries x) @ (key, ?v) # drop (Suc ?i) (bn_entries x)"
      using id_take_nth_drop [of ?i "bn_entries x"] e ne fp(1) by simp
    have "map_of (bn_entries ?x) = (map_of (bn_entries x))(key \<mapsto> fn ?v)"
    proof -
      let ?A = "take ?i (bn_entries x)" and ?B = "drop (Suc ?i) (bn_entries x)"
      have split': "bn_entries ?x = ?A @ [(key, fn ?v)] @ ?B"
        unfolding sp(2) e using ne fp(1) by (simp add: upd_conv_take_nth_drop)
      have d: "distinct (map fst (bn_entries x))" "distinct (map fst (bn_entries ?x))"
        using entries_facts(1) inv sp(1) sorted_distinct by blast+
      have "map_of (?A @ [(key, fn ?v)] @ ?B) = (map_of (?A @ [(key, ?v)] @ ?B))(key \<mapsto> fn ?v)"
        by (rule map_of_replace) (use d split split' in \<open>simp_all only: append_Cons append_Nil\<close>, simp, auto)
      then show ?thesis using split split' by (simp only: append_Cons append_Nil)
    qed
    moreover have "key \<in> set (bn_keys x)" using fp(1,4) inv by (metis bn_inv_def length_bn_keys nth_mem)
    ultimately have r: "tree_at K h bt (f(q := NodePage ?x)) n root"
      "contents h (f(q := NodePage ?x)) root = (contents h f root)(key \<mapsto> fn ?v)"
      "evolves bt h f n root h (f(q := NodePage ?x)) root"
      using replace_leaf(1,2,4) [OF t found(3,4) leaf] by blast+
    obtain s2 where s2: "GuardX_dtor pb \<lparr>g_pid = q, g_ptr = Some b\<rparr> (g_put pb \<lparr>g_pid = q, g_ptr = Some b\<rparr> (NodePage ?x) s1) = Inr s2"
      "at (f(q := NodePage ?x)) n Map.empty {} s2" using write_release [OF found(2)] by blast
    have "GuardX_of_S \<lparr>g_pid = q, g_ptr = Some b\<rparr> = Inr \<lparr>g_pid = q, g_ptr = Some b\<rparr>" by (rule X_of_S_rule [OF found(2)]) simp
    then have "updateInPlace pb steps bt key fn s = Inr (Done True, s2)"
      using found(1,6) s2(1) True by (cases "lowerBound key x") (simp add: updateInPlace_def)
    with s2(2) r c show ?thesis by blast
  qed
qed

end

end
