(* ===== verification/Btree_Walk.thy ===== *)
theory Btree_Walk
  imports Btree_Find
begin

section \<open>Walking down with the parent\<close>

text \<open>
  \<open>enter\<close> and \<open>descend\<close>, the first half of \<open>insert\<close>, \<open>ensureSpace\<close> and \<open>remove\<close>: they end with a node of
  the search path of the key and its parent fixed, and no other page, or with no page fixed.
\<close>

lemma less_not_moved: "p < (n :: PID) \<Longrightarrow> p \<noteq> moved"
  using word_order.extremum_strict [of n] by (auto simp: moved_def)

lemma walk_distinct:
  assumes "tree K h f p lo hi" and "within lo hi k" and "distinct (tree_pids h f p)" and "d \<le> h"
    and "walk (child_ix k) d f p lo hi = (q, a, b)"
  shows "distinct (tree_pids (h - d) f q)"
  using assms
proof (induction d arbitrary: h p lo hi)
  case (Suc d)
  then obtain h' where h: "h = Suc h'" by (cases h) auto
  from Suc.prems(1) obtain n where n: "f p = NodePage n" "inner_node K n lo hi" unfolding h by (rule tree_SucE) (rule that)
  note c = child_pids [OF Suc.prems(1) [unfolded h] n(1) Suc.prems(3) [unfolded h] child_ix_le [OF n(2)]]
  have w: "walk (child_ix k) d f (bn_children n ! child_ix k n) (lo_at lo (bn_keys n) (child_ix k n))
      (hi_at hi (bn_keys n) (child_ix k n)) = (q, a, b)" using Suc.prems(5) n(1) by (simp add: Let_def)
  have "d \<le> h'" using Suc.prems(4) h by simp
  from Suc.IH [OF c(4) child_ix_within [OF n(2) Suc.prems(2)] c(2) this w] show ?case by (simp add: h)
qed simp

lemma tree_inner: "tree K (Suc h) f p a c \<Longrightarrow> inner_node K (node f p) a c"
  by auto

lemma tree_leaf: "tree K 0 f p a c \<Longrightarrow> leaf_node K (node f p) a c"
  by auto

definition reaches :: "bytes \<Rightarrow> nat \<Rightarrow> (PID \<Rightarrow> Page) \<Rightarrow> PID \<Rightarrow> nat \<Rightarrow> PID \<Rightarrow> PID \<Rightarrow> nat \<Rightarrow> bool" where
  "reaches k h f root d r q i \<longleftrightarrow> d \<le> h \<and> (\<exists>a c. walk (child_ix k) d f root [] [] = (q, a, c)) \<and>
     (case d of 0 \<Rightarrow> r = 0 \<and> i = 0
      | Suc d' \<Rightarrow> (\<exists>a c. walk (child_ix k) d' f root [] [] = (r, a, c)) \<and> i = child_ix k (node f r))"

lemma reaches_start: "reaches k h f root 0 0 root 0"
  by (simp add: reaches_def)

lemma reaches_step:
  "reaches k h f root d r q i \<Longrightarrow> d < h \<Longrightarrow>
    reaches k h f root (Suc d) q (bn_children (node f q) ! child_ix k (node f q)) (child_ix k (node f q))"
  by (auto simp: reaches_def walk_Suc simp del: walk.simps)

lemma reaches_at:
  assumes t: "tree_at K h bt f n root" and w: "reaches k h f root d r q i"
  obtains a c where "walk (child_ix k) d f root [] [] = (q, a, c)" "tree K (h - d) f q a c" "within a c k" "q \<noteq> 0" "q \<noteq> moved"
    "q \<in> set (tree_pids h f root)" "f q = NodePage (node f q)" "distinct (tree_pids (h - d) f q)"
proof -
  from w obtain a c where wq: "walk (child_ix k) d f root [] [] = (q, a, c)" "d \<le> h" by (auto simp: reaches_def)
  from t have tr: "tree K h f root [] []" "distinct (tree_pids h f root)" "\<forall>p \<in> set (tree_pids h f root). p \<noteq> 0 \<and> p < n"
    by (simp_all add: tree_at_def)
  have w0: "within [] [] k" by simp
  note wt = walk_tree [OF tr(1) w0 wq(2,1)]
  have q: "q \<in> set (tree_pids h f root)" using wt(3) root_in_pids by blast
  have q0: "q \<noteq> 0" "q < n" using q tr(3) by blast+
  show ?thesis
    by (rule that [OF wq(1) wt(1,2) q0(1) less_not_moved [OF q0(2)] q tree_node [OF wt(1)]
          walk_distinct [OF tr(1) w0 tr(2) wq(2,1)]])
qed

lemma reaches_parent:
  assumes t: "tree_at K h bt f n root" and w: "reaches k h f root (Suc d) r q i"
  obtains a c where "walk (child_ix k) d f root [] [] = (r, a, c)" "d < h" "tree K (Suc (h - Suc d)) f r a c"
    "distinct (tree_pids (Suc (h - Suc d)) f r)" "f r = NodePage (node f r)" "inner_node K (node f r) a c"
    "i = child_ix k (node f r)" "i \<le> bn_count (node f r)" "q = bn_children (node f r) ! i" "q \<noteq> r" "r \<noteq> 0"
    "r \<in> set (tree_pids h f root)"
    "tree K (h - Suc d) f q (lo_at a (bn_keys (node f r)) i) (hi_at c (bn_keys (node f r)) i)"
    "walk (child_ix k) (Suc d) f root [] [] = (q, lo_at a (bn_keys (node f r)) i, hi_at c (bn_keys (node f r)) i)"
proof -
  from w obtain a c a' c' where wr: "walk (child_ix k) d f root [] [] = (r, a, c)" and d: "d < h" and i: "i = child_ix k (node f r)"
    and wq: "walk (child_ix k) (Suc d) f root [] [] = (q, a', c')"
    by (auto simp: reaches_def simp del: walk.simps)
  from wq wr have q: "q = bn_children (node f r) ! i" "a' = lo_at a (bn_keys (node f r)) i" "c' = hi_at c (bn_keys (node f r)) i"
    by (simp_all add: walk_Suc i del: walk.simps)
  from t have tr: "tree K h f root [] []" "distinct (tree_pids h f root)" "\<forall>p \<in> set (tree_pids h f root). p \<noteq> 0"
    by (simp_all add: tree_at_def)
  have w0: "within [] [] k" by simp
  have hd': "Suc (h - Suc d) = h - d" and dle: "d \<le> h" using d by linarith+
  have wt: "tree K (Suc (h - Suc d)) f r a c" "set (tree_pids (Suc (h - Suc d)) f r) \<subseteq> set (tree_pids h f root)"
    using walk_tree(1,3) [OF tr(1) w0 dle wr] unfolding hd' by blast+
  have dr: "distinct (tree_pids (Suc (h - Suc d)) f r)"
    unfolding hd' by (rule walk_distinct [OF tr(1) w0 tr(2) dle wr])
  note nd = tree_node [OF wt(1)]
  have inner: "inner_node K (node f r) a c" by (rule tree_inner [OF wt(1)])
  have ile: "i \<le> bn_count (node f r)" unfolding i by (rule child_ix_le [OF inner])
  note c = child_pids [OF wt(1) nd dr ile]
  have rm: "r \<in> set (tree_pids h f root)" using wt(2) root_in_pids by blast
  then have r0: "r \<noteq> 0" using tr(3) by blast
  show ?thesis
    by (rule that [OF wr d wt(1) dr nd inner i ile q(1) c(1) [folded q(1)] r0 rm c(4) [folded q(1)] wq [unfolded q(2,3)]])
qed

context page_buffer
begin

lemma assignS_two:
  assumes "at f n [r \<mapsto> b0, q \<mapsto> b] {} s" and "r \<noteq> q"
  shows "\<exists>s'. GuardS_assign pb \<lparr>g_pid = r, g_ptr = Some b0\<rparr> \<lparr>g_pid = q, g_ptr = Some b\<rparr> s = Inr (\<lparr>g_pid = q, g_ptr = Some b\<rparr>, s') \<and>
    at f n [q \<mapsto> b] {} s'"
  using assignS_rule [OF assms(1), of r b0 "\<lparr>g_pid = q, g_ptr = Some b\<rparr>"] assms(2) by (simp add: upd_two)

lemma enter_rule:
  assumes s: "at f n Map.empty {} s" and t: "tree_at K h bt f n root"
  obtains (restart) s' where "enter pb bt s = Inr (Restart, s')" "at f n Map.empty {} s'" "missing R h f root"
  | (entered) b0 b s' where "enter pb bt s = Inr (Done (\<lparr>g_pid = 0, g_ptr = Some b0\<rparr>, \<lparr>g_pid = root, g_ptr = Some b\<rparr>), s')"
      "at f n [0 \<mapsto> b0, root \<mapsto> b] {} s'"
proof -
  from t obtain roots where meta: "f 0 = MetaPage roots" "roots ! bt_slotId bt = root" and r0: "root \<noteq> 0"
    using root_in_pids [of root h f] by (auto simp: tree_at_def)
  from s show ?thesis
  proof (cases rule: GuardS_first [where pid = 0])
    case (retry s1)
    then have "enter pb bt s = Inr (Restart, s1)" by (simp add: enter_def metadataPageId_def)
    with retry(2) restart missingI [of 0 h f root R, OF disjI1 [OF refl] retry(3)] show ?thesis by blast
  next
    case (fixed b0 s1)
    have m: "g_meta pb \<lparr>g_pid = 0, g_ptr = Some b0\<rparr> s1 = Inr roots" by (rule g_meta_rule [OF fixed(2) _ meta(1)]) simp
    have free: "[0 \<mapsto> b0] root = None" using r0 by simp
    note f0 = fixed(1) m meta(2)
    from fixed(2) free show ?thesis
    proof (cases rule: GuardS_rule)
      case (retry s2)
      obtain s3 where "GuardS_dtor pb \<lparr>g_pid = 0, g_ptr = Some b0\<rparr> s2 = Inr s3" "at f n Map.empty {} s3"
        using dtorS_one [OF retry(2)] by blast
      moreover from this(1) f0 retry(1) have "enter pb bt s = Inr (Restart, s3)"
        by (simp add: enter_def metadataPageId_def getRoot_def)
      ultimately show ?thesis using restart missingI [of root h f root R, OF disjI2 [OF root_in_pids] retry(3)] by blast
    next
      case (fixed b s2)
      have "enter pb bt s = Inr (Done (\<lparr>g_pid = 0, g_ptr = Some b0\<rparr>, \<lparr>g_pid = root, g_ptr = Some b\<rparr>), s2)"
        using f0 fixed(1) by (simp add: enter_def metadataPageId_def getRoot_def)
      with fixed(2) entered show ?thesis by blast
    qed
  qed
qed

lemma descend_rule:
  assumes t: "tree_at K h bt f n root"
    and "at f n [r \<mapsto> b0, q \<mapsto> b] {} s" and "reaches key h f root d r q i" and "r \<noteq> q" and "h - d < steps"
  shows "\<exists>out s'. descend pb stop key steps i \<lparr>g_pid = r, g_ptr = Some b0\<rparr> \<lparr>g_pid = q, g_ptr = Some b\<rparr> s = Inr (out, s') \<and>
    (out = Restart \<and> at f n Map.empty {} s' \<and> missing R h f root \<or>
     (\<exists>d' r' q' i' b0' b'. out = Done (\<lparr>g_pid = r', g_ptr = Some b0'\<rparr>, \<lparr>g_pid = q', g_ptr = Some b'\<rparr>, i') \<and>
       at f n [r' \<mapsto> b0', q' \<mapsto> b'] {} s' \<and> reaches key h f root d' r' q' i' \<and> r' \<noteq> q' \<and>
       (d' = h \<or> stop \<lparr>g_pid = q', g_ptr = Some b'\<rparr>) \<and>
       (\<forall>e. d \<le> e \<and> e < d' \<longrightarrow> (\<exists>re qe ie be He se. reaches key h f root e re qe ie \<and> at f n He {} se \<and> He qe = Some be \<and>
         \<not> stop \<lparr>g_pid = qe, g_ptr = Some be\<rparr>))))"
  using assms(2-)
proof (induction steps arbitrary: r b0 q b s d i)
  case (Suc st)
  from t Suc.prems(2) obtain a c where wq: "walk (child_ix key) d f root [] [] = (q, a, c)" and tq: "tree K (h - d) f q a c"
    and x: "f q = NodePage (node f q)" and dq: "distinct (tree_pids (h - d) f q)" by (rule reaches_at)
  have dle: "d \<le> h" using Suc.prems(2) by (simp add: reaches_def)
  let ?x = "node f q"
  have gn: "g_node pb \<lparr>g_pid = q, g_ptr = Some b\<rparr> s = Inr ?x" by (rule g_node_rule [OF Suc.prems(1) _ x]) simp
  show ?case
  proof (cases "bn_isLeaf ?x \<or> stop \<lparr>g_pid = q, g_ptr = Some b\<rparr>")
    case True
    have "d = h" if "bn_isLeaf ?x"
    proof (rule ccontr)
      assume "d \<noteq> h"
      then have "h - d = Suc (h - Suc d)" using dle by simp
      with tq have "tree K (Suc (h - Suc d)) f q a c" by (simp only:)
      from tree_inner [OF this] that show False by (simp add: inner_node_def inner_ok_def)
    qed
    moreover have "descend pb stop key (Suc st) i \<lparr>g_pid = r, g_ptr = Some b0\<rparr> \<lparr>g_pid = q, g_ptr = Some b\<rparr> s =
        Inr (Done (\<lparr>g_pid = r, g_ptr = Some b0\<rparr>, \<lparr>g_pid = q, g_ptr = Some b\<rparr>, i), s)" using gn True by simp
    moreover have "\<forall>e. d \<le> e \<and> e < d \<longrightarrow> P e" for P :: "nat \<Rightarrow> bool" by auto
    ultimately show ?thesis using Suc.prems(1-3) True by blast
  next
    case False
    have dl: "d < h"
    proof (rule ccontr)
      assume "\<not> d < h"
      then have "h - d = 0" by simp
      with tq have "tree K 0 f q a c" by (simp only:)
      from tree_leaf [OF this] False show False by (simp add: leaf_node_def)
    qed
    then have hd: "h - d = Suc (h - Suc d)" by simp
    let ?i = "child_ix key ?x"
    let ?c = "bn_children ?x ! ?i"
    have inner: "inner_node K ?x a c" using tree_inner tq unfolding hd by blast
    have ile: "?i \<le> bn_count ?x" by (rule child_ix_le [OF inner])
    note ch = child_pids [OF tq [unfolded hd] x dq [unfolded hd] ile]
    have sel: "lookupInner key ?x = ?c" by (rule lookupInner_child [OF inner])
    have pos: "fst (lowerBound key ?x) = ?i"
      by (simp add: lowerBound_correct [OF inner_nodeD(2) [OF inner]] child_ix_def)
    obtain s1 where a1: "GuardS_assign pb \<lparr>g_pid = r, g_ptr = Some b0\<rparr> \<lparr>g_pid = q, g_ptr = Some b\<rparr> s = Inr (\<lparr>g_pid = q, g_ptr = Some b\<rparr>, s1)"
      "at f n [q \<mapsto> b] {} s1"
      using assignS_two [OF Suc.prems(1,3)] by blast
    have free: "[q \<mapsto> b] ?c = None" using ch(1) by simp
    note nxt = reaches_step [OF Suc.prems(2) dl]
    have "?c \<noteq> moved" using t nxt by (rule reaches_at)
    have c_in: "?c \<in> set (tree_pids h f root)" using t nxt by (rule reaches_at)
    note run = \<open>?c \<noteq> moved\<close> gn False a1(1) sel pos
    from a1(2) free show ?thesis
    proof (cases rule: GuardS_rule)
      case (retry s2)
      obtain s3 where s3: "GuardS_dtor pb \<lparr>g_pid = q, g_ptr = Some b\<rparr> s2 = Inr s3" "at f n Map.empty {} s3"
        using dtorS_one [OF retry(2)] by blast
      have "descend pb stop key (Suc st) i \<lparr>g_pid = r, g_ptr = Some b0\<rparr> \<lparr>g_pid = q, g_ptr = Some b\<rparr> s = Inr (Restart, s3)"
        using run retry(1) s3(1) by (simp add: GuardS_assign_def moved_guard_def)
      with s3(2) missingI [OF disjI2 [OF c_in] retry(3)] show ?thesis by blast
    next
      case (fixed b' s2)
      have "descend pb stop key (Suc st) i \<lparr>g_pid = r, g_ptr = Some b0\<rparr> \<lparr>g_pid = q, g_ptr = Some b\<rparr> s =
          descend pb stop key st ?i \<lparr>g_pid = q, g_ptr = Some b\<rparr> \<lparr>g_pid = ?c, g_ptr = Some b'\<rparr> s2"
        using run fixed(1) by (simp add: GuardS_assign_def moved_guard_def)
      then have run': "descend pb stop key (Suc st) i \<lparr>g_pid = r, g_ptr = Some b0\<rparr> \<lparr>g_pid = q, g_ptr = Some b\<rparr> s = Inr z \<longleftrightarrow>
          descend pb stop key st ?i \<lparr>g_pid = q, g_ptr = Some b\<rparr> \<lparr>g_pid = ?c, g_ptr = Some b'\<rparr> s2 = Inr z" for z by simp
      have here: "reaches key h f root d r q i \<and> at f n [r \<mapsto> b0, q \<mapsto> b] {} s \<and> [r \<mapsto> b0, q \<mapsto> b] q = Some b \<and>
          \<not> stop \<lparr>g_pid = q, g_ptr = Some b\<rparr>"
        by (intro conjI Suc.prems(1,2)) (use False in simp_all)
      have le: "d \<le> e \<and> e < d' \<Longrightarrow> e = d \<or> Suc d \<le> e \<and> e < d'" for e d' by auto
      have "q \<noteq> ?c" "h - Suc d < st" using ch(1) Suc.prems(4) dl by auto
      from Suc.IH [OF fixed(2) nxt this] show ?thesis
        unfolding run'
      proof (elim exE conjE disjE, goal_cases)
        case 1
        then show ?case by blast
      next
        case (2 out s' d' r' q' i' b0' b')
        have "\<exists>re qe ie be He se. reaches key h f root e re qe ie \<and> at f n He {} se \<and> He qe = Some be \<and>
            \<not> stop \<lparr>g_pid = qe, g_ptr = Some be\<rparr>" if "d \<le> e \<and> e < d'" for e
          using le [OF that] here 2(6) by blast
        with 2(1-5,7) show ?case by blast
      next
        case (3 out s' d' r' q' i' b0' b')
        have "\<exists>re qe ie be He se. reaches key h f root e re qe ie \<and> at f n He {} se \<and> He qe = Some be \<and>
            \<not> stop \<lparr>g_pid = qe, g_ptr = Some be\<rparr>" if "d \<le> e \<and> e < d'" for e
          using le [OF that] here 3(6) by blast
        with 3(1-5,7) show ?case by blast
      qed
    qed
  qed
qed simp

lemma dtorS_both:
  assumes "at f n [r \<mapsto> b0, q \<mapsto> b] {} s" and "r \<noteq> q"
  obtains s1 s2 where "GuardS_dtor pb \<lparr>g_pid = q, g_ptr = Some b\<rparr> s = Inr s1"
    "GuardS_dtor pb \<lparr>g_pid = r, g_ptr = Some b0\<rparr> s1 = Inr s2" "at f n Map.empty {} s2"
proof -
  obtain s1 where s1: "GuardS_dtor pb \<lparr>g_pid = q, g_ptr = Some b\<rparr> s = Inr s1" "at f n [r \<mapsto> b0] {} s1"
    using dtorS_rule [OF assms(1), of q b] assms(2) by (auto simp: upd_two)
  with dtorS_one [OF s1(2)] that show ?thesis by blast
qed

text \<open>Where the walk of \<open>insert\<close> and \<open>ensureSpace\<close> ends.\<close>

lemma arrive:
  assumes s: "at f n Map.empty {} s" and t: "tree_at K h bt f n root" and steps: "h < steps"
  obtains (enter_restart) s1 where "enter pb bt s = Inr (Restart, s1)" "at f n Map.empty {} s1" "missing R h f root"
  | (restart) g1 g2 s1 s2 where "enter pb bt s = Inr (Done (g1, g2), s1)"
      "descend pb stop key steps 0 g1 g2 s1 = Inr (Restart, s2)" "at f n Map.empty {} s2" "missing R h f root"
  | (arrived) g1 g2 s1 s2 d r q i b0 b where "enter pb bt s = Inr (Done (g1, g2), s1)"
      "descend pb stop key steps 0 g1 g2 s1 = Inr (Done (\<lparr>g_pid = r, g_ptr = Some b0\<rparr>, \<lparr>g_pid = q, g_ptr = Some b\<rparr>, i), s2)"
      "at f n [r \<mapsto> b0, q \<mapsto> b] {} s2" "reaches key h f root d r q i" "r \<noteq> q" "d = h \<or> stop \<lparr>g_pid = q, g_ptr = Some b\<rparr>"
      "\<forall>e. 0 \<le> e \<and> e < d \<longrightarrow> (\<exists>re qe ie be He se. reaches key h f root e re qe ie \<and> at f n He {} se \<and> He qe = Some be \<and>
         \<not> stop \<lparr>g_pid = qe, g_ptr = Some be\<rparr>)"
  using s t
proof (cases rule: enter_rule)
  case (restart s')
  with enter_restart show ?thesis by blast
next
  case (entered b0 b s1)
  have r0: "0 \<noteq> root" using t root_in_pids [of root h f] by (auto simp: tree_at_def)
  have "h - 0 < steps" using steps by simp
  from descend_rule [OF t entered(2) reaches_start r0 this, of stop key] show ?thesis
  proof (elim exE conjE disjE, goal_cases)
    case (1 out s2)
    with restart [OF entered(1)] show ?case by simp
  next
    case (2 out s2 d r q i b0' b')
    with arrived [OF entered(1)] show ?case by simp
  next
    case (3 out s2 d r q i b0' b')
    with arrived [OF entered(1)] show ?case by simp
  qed
qed

end

end
