(* ===== verification/Btree_Insert.thy ===== *)
theory Btree_Insert
  imports Btree_Walk
begin

section \<open>Insertion into the tree\<close>

text \<open>
  The attempts of \<open>insert\<close> and \<open>ensureSpace\<close> over any buffer that keeps the contract \<open>page_buffer\<close>, for
  keys of a fixed length: a new root, a split below a parent with room, and an insertion keep the
  tree; only the insertion changes its contents; and every attempt ends, with all guards released.
\<close>

subsection \<open>A new root\<close>

lemma fresh_page: "is_page leaf [] [] nxt [] ((bn_construct leaf zero_page)\<lparr>bn_next := nxt\<rparr>)"
  by (simp add: is_page_def bn_inv_def bn_layout_def page_ok_def bn_heap_def heap_ok_def bn_order_def bn_hints_def
      bn_construct_def zero_page_def bn_slots_def bn_keys_def bn_entries_def getLowerFence_def getUpperFence_def
      fence_ok_def layout_defs slotEnd_def mem_read_def)

lemma fresh_space:
  assumes "is_page leaf [] [] nxt [] x" and "k + v \<le> 797"
  shows "hasSpaceFor k v x"
proof -
  have "hasSpaceFor (length (replicate k (0 :: u8))) (length (replicate v (0 :: u8))) x \<or> length (replicate k (0 :: u8)) < bn_prefixLen x"
    by (rule is_page_space [OF assms(1)]) (use assms(2) in \<open>simp_all add: slotEnd_def layout_defs\<close>)
  moreover have "bn_prefixLen x = 0" using is_pageD(1,3,4) [OF assms(1)] by (simp add: bn_inv_def bn_order_def)
  ultimately show ?thesis by simp
qed

lemma grow_root:
  assumes t: "tree_at K h bt f n root" and roots: "f 0 = MetaPage roots" and x: "is_page False [] [] root [] x"
    and n: "n \<noteq> NOT 0" and f': "f' = f(n := NodePage x, 0 := MetaPage (roots[bt_slotId bt := n]))"
  shows "tree_at K (Suc h) bt f' (n + 1) n" and "contents (Suc h) f' n = contents h f root"
    and "tree_pot (Suc h) f' n = tree_pot h f root" and "evolves bt h f n root (Suc h) f' n"
    and "reaches key (Suc h) f' n 1 n root 0" and "n \<noteq> 0" and "n \<notin> set (tree_pids h f root)"
proof -
  from t roots have slot: "bt_slotId bt < length roots" "roots ! bt_slotId bt = root" and tr: "tree K h f root [] []"
    and d: "distinct (tree_pids h f root)" and ps: "\<forall>p \<in> set (tree_pids h f root). p \<noteq> 0 \<and> p < n"
    by (auto simp: tree_at_def)
  show n_new: "n \<notin> set (tree_pids h f root)" using ps by auto
  have "root < n" using ps root_in_pids by blast
  then show n0: "n \<noteq> 0" by auto
  have same: "\<forall>q \<in> set (tree_pids h f root). f' q = f q" using ps n_new unfolding f' by auto
  note fr = tree_frame [OF same]
  have fx: "f' n = NodePage x" and f0: "f' 0 = MetaPage (roots[bt_slotId bt := n])" using n0 unfolding f' by auto
  note p = is_pageD [OF x]
  have inner: "inner_node K x [] []" using p by (simp add: inner_node_def)
  have pids: "tree_pids (Suc h) f' n = n # tree_pids h f root" using fx p(10) fr(2) by simp
  have tr': "tree K (Suc h) f' n [] []" using fx inner p(7,8,10) fr(1) tr by (simp add: lo_at_def hi_at_def)
  show "tree_at K (Suc h) bt f' (n + 1) n"
    unfolding tree_at_def pids using tr' d n_new ps n0 slot(1) f0 word_less_next(1) [OF _ n] word_less_next(2) [OF n] by auto
  show "contents (Suc h) f' n = contents h f root" using fx p(10) fr(3) by (simp add: contents_def)
  show "tree_pot (Suc h) f' n = tree_pot h f root" using fx p(8,10) fr(4) by simp
  show "evolves bt h f n root (Suc h) f' n" unfolding evolves_def pids using roots f0 f' by auto
  show "reaches key (Suc h) f' n 1 n root 0" using fx p(7,10) by (simp add: reaches_def child_ix_def)
qed

subsection \<open>A split below a parent\<close>

lemma walk_bounds:
  assumes "tree K h f p lo hi" and "length lo \<le> K" and "length hi \<le> K" and "d \<le> h"
    and "walk (child_ix k) d f p lo hi = (q, a, c)"
  shows "length a \<le> K \<and> length c \<le> K"
  using assms
proof (induction d arbitrary: h p lo hi)
  case (Suc d)
  then obtain h' where h: "h = Suc h'" by (cases h) auto
  from Suc.prems(1) obtain n where n: "f p = NodePage n" "inner_node K n lo hi"
    and ch: "\<And>i. i \<le> bn_count n \<Longrightarrow> tree K h' f (bn_children n ! i) (lo_at lo (bn_keys n) i) (hi_at hi (bn_keys n) i)"
    unfolding h by (rule tree_SucE) (rule that)
  have i: "child_ix k n \<le> bn_count n" by (rule child_ix_le [OF n(2)])
  have w: "walk (child_ix k) d f (bn_children n ! child_ix k n) (lo_at lo (bn_keys n) (child_ix k n))
      (hi_at hi (bn_keys n) (child_ix k n)) = (q, a, c)" using Suc.prems(5) n(1) by (simp add: Let_def)
  have "d \<le> h'" using Suc.prems(4) h by simp
  from Suc.IH [OF ch [OF i] bound_length [OF n(2) i Suc.prems(2,3)] this w] show ?case .
qed simp

lemma walk_same:
  assumes "tree K h f p lo hi" and "d \<le> h" and "walk (child_ix key) d f p lo hi = (q, a, c)" and "within a c k"
  shows "walk (child_ix k) d f p lo hi = (q, a, c) \<and> within lo hi k"
  using assms
proof (induction d arbitrary: h p lo hi)
  case (Suc d)
  then obtain h' where h: "h = Suc h'" by (cases h) auto
  from Suc.prems(1) obtain n where n: "f p = NodePage n" "inner_node K n lo hi"
    and ch: "\<And>i. i \<le> bn_count n \<Longrightarrow> tree K h' f (bn_children n ! i) (lo_at lo (bn_keys n) i) (hi_at hi (bn_keys n) i)"
    unfolding h by (rule tree_SucE) (rule that)
  let ?i = "child_ix key n"
  have i: "?i \<le> bn_count n" by (rule child_ix_le [OF n(2)])
  have w: "walk (child_ix key) d f (bn_children n ! ?i) (lo_at lo (bn_keys n) ?i) (hi_at hi (bn_keys n) ?i) = (q, a, c)"
    using Suc.prems(3) n(1) by (simp add: Let_def)
  have "d \<le> h'" using Suc.prems(2) h by simp
  note IH = Suc.IH [OF ch [OF i] this w Suc.prems(4)]
  have "?i = child_ix k n" using child_ix_unique [OF n(2) i] IH by blast
  with IH n(1) within_child [OF n(2) i] show ?case by (simp add: Let_def)
qed simp

lemma reaches_other_key:
  assumes t: "tree_at K h bt f n root" and w: "reaches key h f root (Suc d) r q i"
    and k: "\<And>a c. walk (child_ix key) (Suc d) f root [] [] = (q, a, c) \<Longrightarrow> within a c k"
  shows "reaches k h f root (Suc d) r q i"
proof -
  from t w obtain a c where wr: "walk (child_ix key) d f root [] [] = (r, a, c)" "d < h" and inner: "inner_node K (node f r) a c"
    and i: "i \<le> bn_count (node f r)"
    and wq: "walk (child_ix key) (Suc d) f root [] [] = (q, lo_at a (bn_keys (node f r)) i, hi_at c (bn_keys (node f r)) i)"
    by (rule reaches_parent)
  from t have tr: "tree K h f root [] []" by (simp add: tree_at_def)
  note kq = k [OF wq]
  have d: "d \<le> h" "Suc d \<le> h" using wr(2) by simp_all
  show ?thesis
    using walk_same [OF tr d(1) wr(1) within_child [OF inner i kq]] walk_same [OF tr d(2) wq kq]
      child_ix_unique [OF inner i kq] d(2)
    unfolding reaches_def by (simp del: walk.simps)
qed

lemma split_tree:
  assumes t: "tree_at K h bt f n root" and w: "reaches key h f root (Suc d) r q i" and c: "2 < bn_count (node f q)"
    and raw: "raw_ok raw"
  obtains info where "findSeparator ordered (node f q) = Inr info" "length (getSep info (node f q)) = si_len info"
    "length (getSep info (node f q)) \<le> K" "reaches (getSep info (node f q)) h f root (Suc d) r q i"
    "0 < si_slot info" "si_slot info < 512"
    "hasSpaceFor (si_len info) 8 (node f r) \<Longrightarrow> n \<noteq> NOT 0 \<Longrightarrow> \<exists>l p x f'.
       splitNode raw (Some (n, zero_page)) q (node f r) (si_slot info) (getSep info (node f q)) (node f q) = Inr (OK, l, p, Some x) \<and>
       f' = f(n := NodePage x, r := NodePage p, q := NodePage l) \<and> tree_at K h bt f' (n + 1) root \<and>
       contents h f' root = contents h f root \<and> tree_pot h f' root < tree_pot h f root \<and> evolves bt h f n root h f' root"
proof -
  from t w obtain a b where wr: "walk (child_ix key) d f root [] [] = (r, a, b)" "d < h" and tr: "tree K (Suc (h - Suc d)) f r a b"
    "distinct (tree_pids (Suc (h - Suc d)) f r)" "f r = NodePage (node f r)" and i: "i \<le> bn_count (node f r)" "q = bn_children (node f r) ! i"
    and r: "r \<noteq> 0" "r \<in> set (tree_pids h f root)"
    and wq: "walk (child_ix key) (Suc d) f root [] [] = (q, lo_at a (bn_keys (node f r)) i, hi_at b (bn_keys (node f r)) i)"
    by (rule reaches_parent)
  from t w obtain q0: "q \<noteq> 0" "q \<in> set (tree_pids h f root)" "f q = NodePage (node f q)" by (rule reaches_at)
  from t have at: "tree K h f root [] []" "distinct (tree_pids h f root)" "\<forall>p \<in> set (tree_pids h f root). p \<noteq> 0 \<and> p < n"
    by (simp_all add: tree_at_def)
  have n_new: "n \<notin> set (tree_pids h f root)" using at(3) by auto
  have "set (tree_pids (h - d) f r) \<subseteq> set (tree_pids h f root)"
    by (rule walk_tree(3) [OF at(1) _ _ wr(1)]) (use wr(2) in simp_all)
  moreover have hd: "h - d = Suc (h - Suc d)" using wr(2) by simp
  ultimately have sub: "set (tree_pids (Suc (h - Suc d)) f r) \<subseteq> set (tree_pids h f root)" by (simp only:)
  define new where "new = (if n = NOT 0 then 0 else n)"
  have n_r: "new \<notin> set (tree_pids (Suc (h - Suc d)) f r)" "new \<noteq> noNeighbour"
    using n_new sub at(3) by (auto simp: noNeighbour_def new_def)
  from tr i q0(3) c raw n_r show ?thesis
  proof (cases rule: split_child [where ordered = ordered])
    case (1 info)
    show ?thesis
    proof (rule that [OF 1(1,2) _ _ 1(4,5)])
      show "length (getSep info (node f q)) \<le> K" using 1(3) by (simp add: inside_def)
      show "reaches (getSep info (node f q)) h f root (Suc d) r q i"
        by (rule reaches_other_key [OF t w]) (use 1(3) wq in \<open>simp add: inside_def\<close>)
      assume space: "hasSpaceFor (si_len info) 8 (node f r)" and n: "n \<noteq> NOT 0"
      then have "new = n" by (simp add: new_def)
      from 1(6) [OF space, unfolded this] obtain l p x where
        s: "splitNode raw (Some (n, zero_page)) q (node f r) (si_slot info) (getSep info (node f q)) (node f q) = Inr (OK, l, p, Some x)"
          "replaces K (Suc (h - Suc d)) f (f(n := NodePage x, r := NodePage p, q := NodePage l)) r a b {n}"
          "tree_ents (Suc (h - Suc d)) (f(n := NodePage x, r := NodePage p, q := NodePage l)) r = tree_ents (Suc (h - Suc d)) f r"
          "tree_pot (Suc (h - Suc d)) (f(n := NodePage x, r := NodePage p, q := NodePage l)) r + 1 \<le> tree_pot (Suc (h - Suc d)) f r"
        by blast
      define f' where "f' = f(n := NodePage x, r := NodePage p, q := NodePage l)"
      note s = s [folded f'_def hd]
      have q_sub: "q \<in> set (tree_pids (h - d) f r)"
        unfolding hd using child_pids(3) [OF tr(1) tr(3) tr(2) i(1)] root_in_pids i(2) by blast
      have same: "\<forall>y \<in> set (tree_pids h f root) - set (tree_pids (h - d) f r). f' y = f y"
        using q_sub n_new by (auto simp: f'_def)
      have dle: "d \<le> h" and w0: "within [] [] key" and N: "{n} \<inter> set (tree_pids h f root) = {}" using wr(2) n_new by simp_all
      note rw = replace_walk [OF at(1) w0 at(2) dle wr(1) s(2) N same]
      have pids: "set (tree_pids h f' root) \<subseteq> set (tree_pids h f root) \<union> {n}" and tr': "tree K h f' root [] []" "distinct (tree_pids h f' root)"
        using rw unfolding replaces_def by blast+
      have ents: "tree_ents h f' root = tree_ents h f root" using rw s(3) by metis
      have pot: "tree_pot h f' root < tree_pot h f root" using rw s(4) by linarith
      have n0: "n \<noteq> 0" using at(3) q0(2) by auto
      then have f0: "f' 0 = f 0" using r(1) q0(1) by (simp add: f'_def)
      have bound: "p \<noteq> 0 \<and> p < n + 1" if "p \<in> set (tree_pids h f' root)" for p
      proof -
        from that pids consider "p = n" | "p \<in> set (tree_pids h f root)" by blast
        then show ?thesis using at(3) n0 word_less_next(1) [OF _ n] word_less_next(2) [OF n] by cases auto
      qed
      have "tree_at K h bt f' (n + 1) root" using t tr' bound unfolding tree_at_def f0 by blast
      moreover have "contents h f' root = contents h f root" by (simp add: contents_def ents)
      moreover have "evolves bt h f n root h f' root"
      proof -
        from t obtain roots where "f 0 = MetaPage roots" "roots ! bt_slotId bt = root" by (auto simp: tree_at_def)
        then have "f 0 = MetaPage roots \<and> f' 0 = MetaPage (roots[bt_slotId bt := root])" using f0 by auto
        moreover have "f' p = f p" if "p < n" "p \<notin> set (tree_pids h f root)" for p
          using that r(2) q0(2) by (auto simp: f'_def)
        ultimately show ?thesis using pids unfolding evolves_def by auto
      qed
      ultimately show "\<exists>l p x f'.
         splitNode raw (Some (n, zero_page)) q (node f r) (si_slot info) (getSep info (node f q)) (node f q) = Inr (OK, l, p, Some x) \<and>
         f' = f(n := NodePage x, r := NodePage p, q := NodePage l) \<and> tree_at K h bt f' (n + 1) root \<and>
         contents h f' root = contents h f root \<and> tree_pot h f' root < tree_pot h f root \<and> evolves bt h f n root h f' root"
        using s(1) pot f'_def by blast
    qed
  qed
qed

context page_buffer
begin

lemma dtorX_last:
  assumes "at f n (H(p \<mapsto> b)) M s" and "H p = None"
  shows "\<exists>s'. GuardX_dtor pb \<lparr>g_pid = p, g_ptr = Some b\<rparr> s = Inr s' \<and> at f n H (M - {p}) s'"
  using dtorX_rule [OF assms(1), of p b] assms(2) by (simp add: fun_upd_idem)

lemma releaseX_last:
  assumes "at f n (H(p \<mapsto> b)) M s" and "H p = None"
  shows "\<exists>s'. GuardX_release pb \<lparr>g_pid = p, g_ptr = Some b\<rparr> s = Inr (\<lparr>g_pid = moved, g_ptr = Some b\<rparr>, s') \<and> at f n H (M - {p}) s'"
  using releaseX_rule [OF assms(1), of p b] assms(2) by (simp add: fun_upd_idem)

text \<open>The two guards are released where the scope of the caller ends.\<close>

lemma dtorX_both:
  assumes "at f n [r \<mapsto> b0, q \<mapsto> b] M s" and "r \<noteq> q" and "M \<subseteq> {r, q}"
  obtains s1 s2 where "GuardX_dtor pb \<lparr>g_pid = q, g_ptr = Some b\<rparr> s = Inr s1"
    "GuardX_dtor pb \<lparr>g_pid = r, g_ptr = Some b0\<rparr> s1 = Inr s2" "at f n Map.empty {} s2"
proof -
  obtain s1 where s1: "GuardX_dtor pb \<lparr>g_pid = q, g_ptr = Some b\<rparr> s = Inr s1" "at f n [r \<mapsto> b0] (M - {q}) s1"
    using dtorX_last [OF assms(1)] assms(2) by auto
  moreover obtain s2 where "GuardX_dtor pb \<lparr>g_pid = r, g_ptr = Some b0\<rparr> s1 = Inr s2" "at f n Map.empty (M - {q} - {r}) s2"
    using dtorX_last [OF s1(2)] by auto
  moreover have "M - {q} - {r} = {}" using assms(3) by blast
  ultimately show ?thesis using that by simp
qed

lemma splitBelow_rule:
  assumes s: "at f n [r \<mapsto> b0, q \<mapsto> b] M s" and M: "M \<subseteq> {r}" and t: "tree_at K h bt f n root"
    and w: "reaches key h f root (Suc d) r q i" and c: "2 < bn_count (node f q)" and raw: "raw_ok raw"
  shows "(\<exists>e. splitBelow pb raw bt \<lparr>g_pid = q, g_ptr = Some b\<rparr> \<lparr>g_pid = r, g_ptr = Some b0\<rparr> s = Inl e \<and> bad e) \<or>
    (\<exists>out g1 g2 s1 s2 s3 f' n'. splitBelow pb raw bt \<lparr>g_pid = q, g_ptr = Some b\<rparr> \<lparr>g_pid = r, g_ptr = Some b0\<rparr> s = Inr ((out, g1, g2), s1) \<and>
      GuardX_dtor pb g1 s1 = Inr s2 \<and> GuardX_dtor pb g2 s2 = Inr s3 \<and> at f' n' Map.empty {} s3 \<and>
      tree_at K h bt f' n' root \<and> contents h f' root = contents h f root \<and> evolves bt h f n root h f' root \<and> n \<le> n' \<and>
      (out = Ret RESTART \<and> f' = f \<and> n' = n \<or> out = Ret OK \<and> tree_pot h f' root < tree_pot h f root \<or>
       (\<exists>k. out = Call b0 k \<and> f' = f \<and> n' = n \<and> length k \<le> K \<and> \<not> hasSpaceFor (length k) 8 (node f r) \<and>
         reaches k h f root (Suc d) r q i)))"
proof -
  let ?gq = "\<lparr>g_pid = q, g_ptr = Some b\<rparr>" and ?gr = "\<lparr>g_pid = r, g_ptr = Some b0\<rparr>"
  from t w obtain ne: "q \<noteq> r" and fr: "f r = NodePage (node f r)" by (rule reaches_parent)
  from t w obtain fq: "f q = NodePage (node f q)" by (rule reaches_at)
  have gq: "g_node pb ?gq s = Inr (node f q)" by (rule g_node_rule [OF s _ fq]) simp
  have gr: "g_node pb ?gr s = Inr (node f r)" by (rule g_node_rule [OF s _ fr]) (use ne in simp)
  from t w c raw show ?thesis
  proof (cases rule: split_tree [where ordered = "bt_splitOrdered bt"])
    case (1 info)
    let ?sep = "getSep info (node f q)"
    show ?thesis
    proof (cases "hasSpaceFor (si_len info) 8 (node f r)")
      case False
      obtain s1 where s1: "GuardX_release pb ?gq s = Inr (\<lparr>g_pid = moved, g_ptr = Some b\<rparr>, s1)" "at f n [r \<mapsto> b0] (M - {q}) s1"
        using releaseX_last [OF s] ne by auto
      obtain s2 where s2: "GuardX_release pb ?gr s1 = Inr (\<lparr>g_pid = moved, g_ptr = Some b0\<rparr>, s2)" "at f n Map.empty (M - {q} - {r}) s2"
        using releaseX_last [OF s1(2)] by auto
      have "M - {q} - {r} = {}" using M by blast
      then have at2: "at f n Map.empty {} s2" using s2(2) by (simp only:)
      have run: "splitBelow pb raw bt ?gq ?gr s =
          Inr ((Call b0 ?sep, \<lparr>g_pid = moved, g_ptr = Some b\<rparr>, \<lparr>g_pid = moved, g_ptr = Some b0\<rparr>), s2)"
        using gq gr 1(1) False s1(1) s2(1) by (simp add: splitBelow_def Let_def)
      have "\<not> hasSpaceFor (length ?sep) 8 (node f r)" using False 1(2) by simp
      then show ?thesis
        using run at2 t evolves_refl [OF t] order_refl [of n] 1(3,4) dtor_none(6) [of pb "Some b" s2] dtor_none(6) [of pb "Some b0" s2] by blast
    next
      case space: True
      from s show ?thesis
      proof (cases rule: AllocGuard_rule [where leaf = "bn_isLeaf (node f q)"])
        case (failed e)
        then show ?thesis using gq gr 1(1) space by (simp add: splitBelow_def Let_def)
      next
        case (retry s1)
        let ?s4 = "g_put pb ?gq (NodePage (node f q)) (g_put pb ?gr (NodePage (node f r)) s1)"
        have split: "splitNode raw None q (node f r) (si_slot info) ?sep (node f q) = Inr (RESTART, node f q, node f r, None)"
          using 1(5,6) by (simp add: splitNode_def check_def layout_defs)
        have "at (f(r := NodePage (node f r), q := NodePage (node f q))) n [r \<mapsto> b0, q \<mapsto> b] (insert q (insert r M)) ?s4"
          by (rule g_put_rule [OF g_put_rule [OF retry(2)]]) (use ne in simp_all)
        moreover have "f(r := NodePage (node f r), q := NodePage (node f q)) = f" using fr fq by (metis fun_upd_triv)
        ultimately have at4: "at f n [r \<mapsto> b0, q \<mapsto> b] (insert q (insert r M)) ?s4" by simp
        obtain s5 s6 where s6: "GuardX_dtor pb ?gq ?s4 = Inr s5" "GuardX_dtor pb ?gr s5 = Inr s6" "at f n Map.empty {} s6"
          by (rule dtorX_both [OF at4]) (use ne M in auto)
        have run: "splitBelow pb raw bt ?gq ?gr s = Inr ((Ret RESTART, ?gq, ?gr), ?s4)"
          using gq gr 1(1) space retry(1) split by (simp add: splitBelow_def Let_def)
        show ?thesis
          using run s6 t evolves_refl [OF t] order_refl [of n] by blast
      next
        case (fixed b2 s1)
        from fixed(3) have nmax: "n \<noteq> NOT 0" by (simp add: moved_def)
        from 1(7) [OF space nmax] obtain l p x f' where
          sp: "splitNode raw (Some (n, zero_page)) q (node f r) (si_slot info) ?sep (node f q) = Inr (OK, l, p, Some x)"
          and f': "f' = f(n := NodePage x, r := NodePage p, q := NodePage l)" and t': "tree_at K h bt f' (n + 1) root"
          and rest: "contents h f' root = contents h f root" "tree_pot h f' root < tree_pot h f root" "evolves bt h f n root h f' root"
          by blast
        let ?gn = "\<lparr>g_pid = n, g_ptr = Some b2\<rparr>"
        let ?H = "[r \<mapsto> b0, q \<mapsto> b]"
        have nn: "?H n = None" by (rule fixed(2))
        then have nrq: "n \<noteq> r" "n \<noteq> q" by (auto split: if_splits)
        let ?s4 = "g_put pb ?gq (NodePage l) (g_put pb ?gr (NodePage p) (g_put pb ?gn (NodePage x) s1))"
        have "at (f(n := NodePage (bn_construct (bn_isLeaf (node f q)) zero_page), n := NodePage x, r := NodePage p, q := NodePage l)) (n + 1)
            (?H(n \<mapsto> b2)) (insert q (insert r (insert n (insert n M)))) ?s4"
          by (rule g_put_rule [OF g_put_rule [OF g_put_rule [OF fixed(4)]]]) (use ne nrq in auto)
        then have at4: "at f' (n + 1) (?H(n \<mapsto> b2)) (insert q (insert r (insert n M))) ?s4" by (simp add: f')
        obtain s5 where s5: "GuardX_dtor pb ?gn ?s4 = Inr s5" "at f' (n + 1) ?H (insert q (insert r (insert n M)) - {n}) s5"
          using dtorX_last [OF at4 nn] by blast
        obtain s6 s7 where s7: "GuardX_dtor pb ?gq s5 = Inr s6" "GuardX_dtor pb ?gr s6 = Inr s7" "at f' (n + 1) Map.empty {} s7"
          by (rule dtorX_both [OF s5(2)]) (use ne M in auto)
        have run: "splitBelow pb raw bt ?gq ?gr s = Inr ((Ret OK, ?gq, ?gr), s5)"
          using gq gr 1(1) space fixed(1) sp s5(1) by (simp add: splitBelow_def Let_def)
        have "n \<le> n + 1" using word_less_next(2) [OF nmax] by (rule less_imp_le)
        then show ?thesis
          using run s7 t' rest by blast
      qed
    qed
  qed
qed

lemma newRoot_rule:
  assumes s: "at f n [0 \<mapsto> b0, root \<mapsto> b] {} s" and t: "tree_at K h bt f n root"
  shows "(\<exists>e. newRoot pb bt \<lparr>g_pid = root, g_ptr = Some b\<rparr> \<lparr>g_pid = 0, g_ptr = Some b0\<rparr> s = Inl e \<and> bad e) \<or>
    (\<exists>s'. newRoot pb bt \<lparr>g_pid = root, g_ptr = Some b\<rparr> \<lparr>g_pid = 0, g_ptr = Some b0\<rparr> s = Inr (None, s') \<and>
      at f n [0 \<mapsto> b0, root \<mapsto> b] {} s') \<or>
    (\<exists>b1 s' f'. newRoot pb bt \<lparr>g_pid = root, g_ptr = Some b\<rparr> \<lparr>g_pid = 0, g_ptr = Some b0\<rparr> s =
        Inr (Some \<lparr>g_pid = n, g_ptr = Some b1\<rparr>, s') \<and>
      at f' (n + 1) [n \<mapsto> b1, root \<mapsto> b] {n} s' \<and> tree_at K (Suc h) bt f' (n + 1) n \<and>
      contents (Suc h) f' n = contents h f root \<and> tree_pot (Suc h) f' n = tree_pot h f root \<and>
      evolves bt h f n root (Suc h) f' n \<and> node f' root = node f root \<and> n < n + 1 \<and> is_page False [] [] root [] (node f' n) \<and>
      (\<forall>key. reaches key (Suc h) f' n 1 n root 0))"
proof -
  let ?gq = "\<lparr>g_pid = root, g_ptr = Some b\<rparr>" and ?g0 = "\<lparr>g_pid = 0, g_ptr = Some b0\<rparr>"
  from t obtain roots where roots: "f 0 = MetaPage roots" by (auto simp: tree_at_def)
  have rt: "root \<noteq> 0" using t root_in_pids [of root h f] by (auto simp: tree_at_def)
  from s show ?thesis
  proof (cases rule: AllocGuard_rule [where leaf = False])
    case (failed e)
    then show ?thesis by (simp add: newRoot_def metadataPageId_def)
  next
    case (retry s1)
    then have "newRoot pb bt ?gq ?g0 s = Inr (None, s1)" by (simp add: newRoot_def metadataPageId_def)
    with retry(2) show ?thesis by blast
  next
    case (fixed b1 s1)
    from fixed(3) have nmax: "n \<noteq> NOT 0" by (simp add: moved_def)
    let ?x = "(bn_construct False zero_page)\<lparr>bn_next := root\<rparr>"
    define f' where "f' = f(n := NodePage ?x, 0 := MetaPage (roots[bt_slotId bt := n]))"
    note g = grow_root [OF t roots fresh_page nmax f'_def]
    have nr: "n \<noteq> root" using g(7) root_in_pids by metis
    let ?gn = "\<lparr>g_pid = n, g_ptr = Some b1\<rparr>"
    let ?H = "[0 \<mapsto> b0, root \<mapsto> b, n \<mapsto> b1]"
    have r: "g_node pb ?gn s1 = Inr (bn_construct False zero_page)" by (rule g_node_rule [OF fixed(4)]) simp_all
    have at2: "at (f(n := NodePage ?x)) (n + 1) ?H {n} (g_put pb ?gn (NodePage ?x) s1)"
      using g_put_rule [OF fixed(4), of n b1 "NodePage ?x"] by simp
    let ?s2 = "g_put pb ?gn (NodePage ?x) s1"
    have m: "g_meta pb ?g0 ?s2 = Inr roots" by (rule g_meta_rule [OF at2]) (use g(6) rt roots in simp_all)
    let ?s3 = "g_put pb ?g0 (MetaPage (roots[bt_slotId bt := n])) ?s2"
    have at3: "at f' (n + 1) ?H {0, n} ?s3" unfolding f'_def by (rule g_put_rule [OF at2]) (use g(6) rt in simp)
    obtain s4 where s4: "GuardX_assign pb ?g0 ?gn ?s3 = Inr (?gn, s4)" "at f' (n + 1) (?H(0 := None)) ({0, n} - {0}) s4"
      using assignX_rule [OF at3, of 0 b0 ?gn] g(6) rt by auto
    have "?H(0 := None) = [n \<mapsto> b1, root \<mapsto> b]" using g(6) rt nr by auto
    moreover have "{0, n} - {0} = {n}" using g(6) by auto
    ultimately have at4: "at f' (n + 1) [n \<mapsto> b1, root \<mapsto> b] {n} s4" using s4(2) by (simp only:)
    have run: "newRoot pb bt ?gq ?g0 s = Inr (Some ?gn, s4)"
      using fixed(1) r m s4(1) by (simp add: newRoot_def metadataPageId_def Let_def)
    have "node f' root = node f root" using nr rt by (simp add: f'_def node_def)
    moreover have "is_page False [] [] root [] (node f' n)" using fresh_page g(6) by (simp add: f'_def node_def)
    ultimately show ?thesis using run at4 g(1-5) word_less_next(2) [OF nmax] by blast
  qed
qed

lemma splitAndLeave_rule:
  assumes s: "at f n [r \<mapsto> b0, q \<mapsto> b] {} s" and t: "tree_at K h bt f n root"
    and w: "reaches key h f root d r q i" and c: "2 < bn_count (node f q)" and raw: "raw_ok raw" and K: "K \<le> 789" and ne: "r \<noteq> q"
  shows "(\<exists>e. splitAndLeave pb raw bt ok \<lparr>g_pid = r, g_ptr = Some b0\<rparr> \<lparr>g_pid = q, g_ptr = Some b\<rparr> s = Inl e \<and> bad e) \<or>
    (\<exists>out s' f' n' h' root'. splitAndLeave pb raw bt ok \<lparr>g_pid = r, g_ptr = Some b0\<rparr> \<lparr>g_pid = q, g_ptr = Some b\<rparr> s = Inr (out, s') \<and>
      at f' n' Map.empty {} s' \<and> tree_at K h' bt f' n' root' \<and> contents h' f' root' = contents h f root \<and>
      evolves bt h f n root h' f' root' \<and> n \<le> n' \<and> h \<le> h' \<and>
      (out = GoRestart \<and> h' + tree_pot h' f' root' \<le> Suc (h + tree_pot h f root) \<or>
       out = ok \<and> tree_pot h' f' root' < tree_pot h f root \<and> h' + tree_pot h' f' root' \<le> h + tree_pot h f root \<or>
       (\<exists>k. out = CallEnsure b0 k \<and> f' = f \<and> n' = n \<and> h' = h \<and> root' = root \<and> d \<noteq> 0 \<and> length k \<le> K \<and>
         \<not> hasSpaceFor (length k) 8 (node f r) \<and> reaches k h f root d r q i)))"
proof -
  let ?gq = "\<lparr>g_pid = q, g_ptr = Some b\<rparr>" and ?gr = "\<lparr>g_pid = r, g_ptr = Some b0\<rparr>"
  have X: "GuardX_of_S ?gr = Inr ?gr" "GuardX_of_S ?gq = Inr ?gq" by (rule X_of_S_rule [OF s], use ne in simp)+
  show ?thesis
  proof (cases d)
    case (Suc d')
    from t w [unfolded Suc] obtain "r \<noteq> 0" by (rule reaches_parent)
    then have ts: "trySplit pb raw bt ?gq ?gr s = splitBelow pb raw bt ?gq ?gr s"
      by (simp add: trySplit_def newRoot_def metadataPageId_def)
    from splitBelow_rule [OF s empty_subsetI t w [unfolded Suc] c raw] show ?thesis
    proof (elim disjE exE conjE, goal_cases)
      case (1 e)
      then show ?case using X ts by (simp add: splitAndLeave_def)
    next
      case (2 out g1 g2 s1 s2 s3 f' n')
      then have "splitAndLeave pb raw bt ok ?gr ?gq s = Inr (GoRestart, s3)" using X ts by (simp add: splitAndLeave_def)
      moreover have "h + tree_pot h f' root \<le> Suc (h + tree_pot h f root)" using 2(10) by simp
      ultimately show ?case using 2(4-8) order_refl [of h] by blast
    next
      case (3 out g1 g2 s1 s2 s3 f' n')
      then have "splitAndLeave pb raw bt ok ?gr ?gq s = Inr (ok, s3)" using X ts by (simp add: splitAndLeave_def)
      moreover have "h + tree_pot h f' root \<le> h + tree_pot h f root" using 3(10) by simp
      ultimately show ?case using 3(4-8) 3(10) order_refl [of h] by blast
    next
      case (4 out g1 g2 s1 s2 s3 f' n' k)
      then have run: "splitAndLeave pb raw bt ok ?gr ?gq s = Inr (CallEnsure b0 k, s3)" using X ts by (simp add: splitAndLeave_def)
      have "reaches k h f root d r q i" using 4(14) Suc by simp
      then show ?case using run 4(4-8) 4(10-13) Suc order_refl [of h] by blast
    qed
  next
    case 0
    with w have rq: "r = 0" "q = root" by (auto simp: reaches_def)
    have leave: "splitAndLeave pb raw bt ok ?gr ?gq s = rbind (newRoot pb bt ?gq ?gr s) (\<lambda>(p, s0).
        rbind (case p of None \<Rightarrow> Inr ((Ret RESTART, ?gq, ?gr), s0) | Some parent \<Rightarrow> splitBelow pb raw bt ?gq parent s0)
          (\<lambda>((out, g1, g2), s1). rbind (GuardX_dtor pb g1 s1) (\<lambda>s2. rbind (GuardX_dtor pb g2 s2) (\<lambda>s3.
            Inr (case out of Ret RESTART \<Rightarrow> GoRestart | Ret OK \<Rightarrow> ok | Call ptr k \<Rightarrow> CallEnsure ptr k, s3)))))"
      using X by (cases "newRoot pb bt ?gq ?gr s") (auto simp: splitAndLeave_def trySplit_def)
    from newRoot_rule [OF s [unfolded rq] t] show ?thesis
    proof (elim disjE exE conjE, goal_cases)
      case (1 e)
      then show ?case unfolding leave unfolding rq by simp
    next
      case (2 s1)
      from 2(2) obtain s2 s3 where s3: "GuardX_dtor pb \<lparr>g_pid = root, g_ptr = Some b\<rparr> s1 = Inr s2"
        "GuardX_dtor pb \<lparr>g_pid = 0, g_ptr = Some b0\<rparr> s2 = Inr s3" "at f n Map.empty {} s3"
        by (rule dtorX_both) (use ne rq in auto)
      have "splitAndLeave pb raw bt ok ?gr ?gq s = Inr (GoRestart, s3)"
        unfolding leave unfolding rq using 2(1) s3(1,2) by simp
      moreover have "h + tree_pot h f root \<le> Suc (h + tree_pot h f root)" by simp
      ultimately show ?case using s3(3) t evolves_refl [OF t] order_refl [of n] order_refl [of h] by blast
    next
      case (3 b1 s1 f1)
      note g = 3
      have c1: "2 < bn_count (node f1 root)" using c rq g(7) by simp
      have w1: "reaches key (Suc h) f1 n (Suc 0) n root 0" using g(10) by simp
      have le: "n \<le> n + 1" using g(8) by (rule less_imp_le)
      from splitBelow_rule [OF g(2) subset_refl g(3) w1 c1 raw] show ?case
      proof (elim disjE exE conjE, goal_cases)
        case (1 e)
        then show ?case unfolding leave unfolding rq using g(1) by simp
      next
        case (2 out g1 g2 s2 s3 s4 f' n')
        then have run: "splitAndLeave pb raw bt ok ?gr ?gq s = Inr (GoRestart, s4)"
          unfolding leave unfolding rq using g(1) by simp
        have "Suc h + tree_pot (Suc h) f' n \<le> Suc (h + tree_pot h f root)" using 2(10) g(5) by simp
        moreover have "contents (Suc h) f' n = contents h f root" using 2(6) g(4) by simp
        moreover have "evolves bt h f n root (Suc h) f' n" by (rule evolves_trans [OF g(6) 2(7) le])
        moreover have "n \<le> n'" using le 2(8) by (rule order_trans)
        ultimately show ?case using run 2(4,5) le_SucI [OF order_refl [of h]] by blast
      next
        case (3 out g1 g2 s2 s3 s4 f' n')
        then have run: "splitAndLeave pb raw bt ok ?gr ?gq s = Inr (ok, s4)"
          unfolding leave unfolding rq using g(1) by simp
        have "tree_pot (Suc h) f' n < tree_pot h f root" "Suc h + tree_pot (Suc h) f' n \<le> h + tree_pot h f root"
          using 3(10) g(5) by simp_all
        moreover have "contents (Suc h) f' n = contents h f root" using 3(6) g(4) by simp
        moreover have "evolves bt h f n root (Suc h) f' n" by (rule evolves_trans [OF g(6) 3(7) le])
        moreover have "n \<le> n'" using le 3(8) by (rule order_trans)
        ultimately show ?case using run 3(4,5) le_SucI [OF order_refl [of h]] by blast
      next
        case (4 out g1 g2 s2 s3 s4 f' n' k)
        have "hasSpaceFor (length k) 8 (node f1 n)" by (rule fresh_space [OF g(9)]) (use 4(12) K in simp)
        with 4(13) show ?case by blast
      qed
    qed
  qed
qed

end

end
