(* ===== verification/Btree_Run.thy ===== *)
theory Btree_Run
  imports Btree_Insert
begin

section \<open>An insertion from start to end\<close>

text \<open>
  The bodies of the loops of \<open>insert\<close> and \<open>ensureSpace\<close>, and the run of an insertion up to its end or its
  next suspension. A full page has at least three entries, so every split makes progress; the page
  an \<open>ensureSpace\<close> is asked to split is found again in its frame as long as the fiber is not suspended,
  so the run ends.
\<close>

subsection \<open>Full pages on the way\<close>

lemma full_on_path:
  assumes t: "tree_at K h bt f n root" and w: "reaches k h f root d r q i" and K: "K \<le> 789"
    and len: "length k + v \<le> 797" and full: "\<not> hasSpaceFor (length k) v (node f q)"
  shows "2 < bn_count (node f q)"
proof -
  from t w obtain a c where wq: "walk (child_ix k) d f root [] [] = (q, a, c)" and tq: "tree K (h - d) f q a c"
    and in_q: "within a c k" by (rule reaches_at)
  from t w have tr: "tree K h f root [] []" and d: "d \<le> h" by (simp_all add: tree_at_def reaches_def)
  have b: "length a \<le> 789" "length c \<le> 789" using walk_bounds [OF tr _ _ d wq] K by auto
  have "bn_inv (node f q) \<and> getLowerFence (node f q) = a \<and> getUpperFence (node f q) = c \<and>
    (\<forall>e \<in> set (bn_entries (node f q)). length (fst e) + length (snd e) \<le> 797)"
  proof (cases "h - d")
    case 0
    with tq have "leaf_node K (node f q) a c" using tree_leaf [of K f q a c] by (simp only:)
    then show ?thesis by (fastforce simp: leaf_node_def)
  next
    case (Suc h')
    with tq have n: "inner_node K (node f q) a c" using tree_inner [of K h' f q a c] by (simp only:)
    have "length (fst e) + length (snd e) \<le> 797" if "e \<in> set (bn_entries (node f q))" for e
    proof -
      have "fst e \<in> set (bn_keys (node f q))" using that by (simp add: set_bn_keys)
      then have "length (fst e) \<le> K" using inner_nodeD(6) [OF n] by blast
      moreover have "length (snd e) = 8" using inner_nodeD(1) [OF n] that by (simp add: inner_ok_def)
      ultimately show ?thesis using K by simp
    qed
    with n inner_nodeD(2) [OF n] show ?thesis by (simp add: inner_node_def)
  qed
  then have node: "bn_inv (node f q)" "getLowerFence (node f q) = a" "getUpperFence (node f q) = c"
    and small: "\<forall>e \<in> set (bn_entries (node f q)). length (fst e) + length (snd e) \<le> 797" by blast+
  have "bn_prefixLen (node f q) \<le> length k"
    using within_prefix [OF in_q] bn_prefix_fence [OF node(1)] node by (auto simp: bn_inv_def bn_order_def)
  from full_count [OF node(1) _ _ small this len full] b node show ?thesis by simp
qed

subsection \<open>The bodies\<close>

text \<open>The page in frame \<open>t\<close> lies on the search path of \<open>k\<close> at depth \<open>d\<close> and has no room for the separator \<open>k\<close>.\<close>

definition needs :: "(PID \<Rightarrow> nat option) \<Rightarrow> bytes \<Rightarrow> nat \<Rightarrow> (PID \<Rightarrow> Page) \<Rightarrow> PID \<Rightarrow> nat \<Rightarrow> nat \<Rightarrow> bool" where
  "needs F k h f root d t \<longleftrightarrow>
     (\<exists>q r i. reaches k h f root d r q i \<and> F q = Some t \<and> \<not> hasSpaceFor (length k) 8 (node f q))"

text \<open>The tree was changed, but not its contents.\<close>

definition keeps :: "nat \<Rightarrow> BTree \<Rightarrow> nat \<Rightarrow> (PID \<Rightarrow> Page) \<Rightarrow> PID \<Rightarrow> PID \<Rightarrow> nat \<Rightarrow> (PID \<Rightarrow> Page) \<Rightarrow> PID \<Rightarrow> PID \<Rightarrow> bool" where
  "keeps K bt h f n root h' f' n' root' \<longleftrightarrow> tree_at K h' bt f' n' root' \<and> contents h' f' root' = contents h f root \<and>
     evolves bt h f n root h' f' root' \<and> n \<le> n' \<and> h \<le> h'"

lemma keeps_refl: "tree_at K h bt f n root \<Longrightarrow> keeps K bt h f n root h f n root"
  by (simp add: keeps_def evolves_refl)

lemma keeps_trans:
  "keeps K bt h f n root h1 f1 n1 root1 \<Longrightarrow> keeps K bt h1 f1 n1 root1 h2 f2 n2 root2 \<Longrightarrow> keeps K bt h f n root h2 f2 n2 root2"
  unfolding keeps_def using evolves_trans order_trans by metis

lemma reaches_fun: "reaches k h f root d r q i \<Longrightarrow> reaches k h f root d r' q' i' \<Longrightarrow> q' = q"
  by (auto simp: reaches_def)

lemma reaches_up:
  assumes "reaches k h f root (Suc d) r q i"
  shows "\<exists>r' i'. reaches k h f root d r' r i'"
  using assms by (cases d) (auto simp: reaches_def walk_Suc simp del: walk.simps)

lemma reaches_less:
  assumes "tree_at K h bt f n root" and "reaches k h f root d r q i"
  shows "q < n"
proof -
  from assms obtain "q \<in> set (tree_pids h f root)" by (rule reaches_at)
  with assms(1) show ?thesis by (simp add: tree_at_def)
qed

text \<open>The leaf for the key has room for the entry.\<close>

definition fits_at :: "nat \<Rightarrow> (PID \<Rightarrow> Page) \<Rightarrow> PID \<Rightarrow> bytes \<Rightarrow> bytes \<Rightarrow> bool" where
  "fits_at h f root key v \<longleftrightarrow> hasSpaceFor (length key) (length v) (node f (fst (walk (child_ix key) h f root [] [])))"

lemma insert_leaf:
  assumes t: "tree_at K h bt f n root" and w: "reaches key h f root h r q i" and raw: "raw_ok raw"
    and key: "length key = K" "length key + length v \<le> 789" and new: "contents h f root key = None"
    and space: "hasSpaceFor (length key) (length v) (node f q)"
  shows "\<exists>x. insertInPage raw key v (node f q) = Inr x \<and> tree_at K h bt (f(q := NodePage x)) n root \<and>
    contents h (f(q := NodePage x)) root = (contents h f root)(key \<mapsto> v) \<and> evolves bt h f n root h (f(q := NodePage x)) root"
proof -
  from t w obtain a c where wq: "walk (child_ix key) h f root [] [] = (q, a, c)" and tq: "tree K (h - h) f q a c"
    and in_q: "within a c key" and fq: "f q = NodePage (node f q)" by (rule reaches_at)
  let ?x = "node f q"
  have leaf: "leaf_node K ?x a c" using tq tree_leaf by simp
  then have inv: "bn_inv ?x" and fences: "getLowerFence ?x = a" "getUpperFence ?x = c" by (simp_all add: leaf_node_def)
  have "contents h f root key = map_of (bn_entries ?x) key"
    unfolding contents_def by (rule contents_leaf [where K = K, OF _ _ wq]) (use t in \<open>simp_all add: tree_at_def\<close>)
  then have "map_of (bn_entries ?x) key = None" using new by (simp only:)
  then have nk: "key \<notin> set (bn_keys ?x)" by (simp add: map_of_eq_None_iff set_bn_keys)
  have small: "length key + length v < 65536" using key(2) by simp
  from insertInPage_correct [OF inv raw nk in_q [folded fences] space small] obtain x where
    x: "insertInPage raw key v ?x = Inr x" "bn_inv x" "bn_entries x = sorted_insert key v (bn_entries ?x)" "same_fences ?x x"
      "bn_next x = bn_next ?x" by blast
  have leaf': "leaf_node K x a c"
    using leaf x(2-5) key by (auto simp: leaf_node_def same_fences_def set_sorted_insert)
  have "map_of (bn_entries x) = (map_of (bn_entries ?x))(key \<mapsto> v)"
    unfolding x(3) by (rule map_of_sorted_insert) (use nk in \<open>simp add: set_bn_keys\<close>)
  moreover have "key \<in> set (bn_keys x)" by (simp add: set_bn_keys x(3) set_sorted_insert)
  ultimately show ?thesis using x(1) replace_leaf(1,2,4) [OF t wq fq leaf'] by blast
qed

context page_frames
begin

lemma ensureSpace_rule:
  assumes s: "at f n0 Map.empty {} s" and t: "tree_at K h bt f n0 root" and steps: "h < steps" and K: "K \<le> 789"
    and k: "length k \<le> K" and raw: "raw_ok raw"
  shows "(\<exists>e. ensureSpace_body pb raw steps bt toSplit k 8 s = Inl e \<and> bad e) \<or>
    (\<exists>out s' f' n' h' root'. ensureSpace_body pb raw steps bt toSplit k 8 s = Inr (out, s') \<and> at f' n' Map.empty {} s' \<and>
      keeps K bt h f n0 root h' f' n' root' \<and>
      (out = GoRestart \<and> h' + tree_pot h' f' root' \<le> Suc (h + tree_pot h f root) \<or>
       out = Return \<and> h' + tree_pot h' f' root' \<le> h + tree_pot h f root \<and>
         (tree_pot h' f' root' < tree_pot h f root \<or> f' = f \<and> n' = n0 \<and> h' = h \<and> root' = root \<and> (\<forall>d. \<not> needs F k h f root d toSplit)) \<or>
       (\<exists>b k' d'. out = CallEnsure b k' \<and> f' = f \<and> n' = n0 \<and> h' = h \<and> root' = root \<and> length k' \<le> K \<and>
         needs F k' h f root d' b \<and> d' < h \<and> (\<forall>d. needs F k h f root d toSplit \<longrightarrow> d' < d))))"
proof -
  let ?stop = "\<lambda>g. g_ptr g = Some toSplit"
  from s t steps show ?thesis
  proof (cases rule: arrive [where stop = ?stop and key = k])
    case (enter_restart s1)
    then have "ensureSpace_body pb raw steps bt toSplit k 8 s = Inr (GoRestart, s1)" by (simp add: ensureSpace_body_def)
    moreover have "h + tree_pot h f root \<le> Suc (h + tree_pot h f root)" by simp
    ultimately show ?thesis using enter_restart(2) keeps_refl [OF t] by blast
  next
    case (restart g1 g2 s1 s2)
    then have "ensureSpace_body pb raw steps bt toSplit k 8 s = Inr (GoRestart, s2)" by (simp add: ensureSpace_body_def)
    moreover have "h + tree_pot h f root \<le> Suc (h + tree_pot h f root)" by simp
    ultimately show ?thesis using restart(3) keeps_refl [OF t] by blast
  next
    case (arrived g1 g2 s1 s2 d r q i b0 b)
    let ?gr = "\<lparr>g_pid = r, g_ptr = Some b0\<rparr>" and ?gq = "\<lparr>g_pid = q, g_ptr = Some b\<rparr>"
    have Fq: "F q = Some b" by (rule frame_law [OF arrived(3) _ reaches_less [OF t arrived(4)]]) simp
    from t arrived(4) obtain fq: "f q = NodePage (node f q)" by (rule reaches_at)
    have gq: "g_node pb ?gq s2 = Inr (node f q)" by (rule g_node_rule [OF arrived(3) _ fq]) simp
    have target: "d \<le> e \<and> b = toSplit \<and> \<not> hasSpaceFor (length k) 8 (node f q)" if "needs F k h f root e toSplit" for e
    proof -
      from that obtain q' r' i' where e: "reaches k h f root e r' q' i'" "F q' = Some toSplit" "\<not> hasSpaceFor (length k) 8 (node f q')"
        by (auto simp: needs_def)
      have le: "d \<le> e"
      proof (rule ccontr)
        assume "\<not> d \<le> e"
        then have "0 \<le> e \<and> e < d" by simp
        then obtain re qe ie be He se where w: "reaches k h f root e re qe ie" "at f n0 He {} se" "He qe = Some be" "be \<noteq> toSplit"
          using arrived(7) by force
        have "q' = qe" by (rule reaches_fun [OF w(1) e(1)])
        with frame_law [OF w(2,3) reaches_less [OF t w(1)]] e(2) w(4) show False by simp
      qed
      have "q' = q"
      proof (cases "d = e")
        case True
        with reaches_fun [OF arrived(4)] e(1) show ?thesis by simp
      next
        case False
        moreover have "e \<le> h" using e(1) by (simp add: reaches_def)
        ultimately have "b = toSplit" using arrived(6) le by simp
        then show ?thesis
          using same_frame_law [OF s e(2)] Fq reaches_less [OF t e(1)] reaches_less [OF t arrived(4)] by simp
      qed
      with le e Fq show ?thesis by simp
    qed
    show ?thesis
    proof (cases "b = toSplit \<and> \<not> hasSpaceFor (length k) 8 (node f q)")
      case False
      from arrived(3,5) obtain s3 s4 where s4: "GuardS_dtor pb ?gq s2 = Inr s3" "GuardS_dtor pb ?gr s3 = Inr s4" "at f n0 Map.empty {} s4"
        by (rule dtorS_both)
      have "ensureSpace_body pb raw steps bt toSplit k 8 s = Inr (Return, s4)"
        using arrived(1,2) gq s4(1,2) False by (auto simp: ensureSpace_body_def)
      moreover have "\<forall>e. \<not> needs F k h f root e toSplit" using target False by blast
      ultimately show ?thesis using s4(3) keeps_refl [OF t] order_refl [of "h + tree_pot h f root"] by blast
    next
      case True
      then have run: "ensureSpace_body pb raw steps bt toSplit k 8 s = splitAndLeave pb raw bt Return ?gr ?gq s2"
        using arrived(1,2) gq by (simp add: ensureSpace_body_def)
      have c: "2 < bn_count (node f q)" by (rule full_on_path [OF t arrived(4) K]) (use True k K in auto)
      from splitAndLeave_rule [OF arrived(3) t arrived(4) c raw K arrived(5), of Return] show ?thesis
        unfolding run
      proof (elim disjE exE conjE, goal_cases)
        case 1
        then show ?case by blast
      next
        case 2
        then show ?case unfolding keeps_def by blast
      next
        case 3
        then show ?case unfolding keeps_def by blast
      next
        case (4 out s' f' n' h' root' k')
        then obtain d' where d': "d = Suc d'" by (cases d) auto
        obtain r' i' where up: "reaches k' h f root d' r' r i'" using reaches_up 4(16) d' by blast
        have rq: "[r \<mapsto> b0, q \<mapsto> b] r = Some b0" using arrived(5) by simp
        have "F r = Some b0" by (rule frame_law [OF arrived(3) rq reaches_less [OF t up]])
        then have n: "needs F k' h f root d' b0" using up 4(15) by (auto simp: needs_def)
        have "d' < h" using arrived(4) d' by (simp add: reaches_def)
        moreover have "\<forall>e. needs F k h f root e toSplit \<longrightarrow> d' < e" using target d' by fastforce
        ultimately show ?case using 4 n keeps_refl [OF t] by blast
      qed
    qed
  qed
qed

lemma insert_body_rule:
  assumes s: "at f n0 Map.empty {} s" and t: "tree_at K h bt f n0 root" and steps: "h < steps" and K: "K \<le> 789"
    and key: "length key = K" "length key + length v \<le> 789" and new: "contents h f root key = None" and raw: "raw_ok raw"
  shows "(\<exists>e. insert_body pb raw steps bt key v s = Inl e \<and> bad e \<and> \<not> fits_at h f root key v) \<or>
    (\<exists>s' f'. insert_body pb raw steps bt key v s = Inr (Return, s') \<and> at f' n0 Map.empty {} s' \<and> tree_at K h bt f' n0 root \<and>
      contents h f' root = (contents h f root)(key \<mapsto> v) \<and> evolves bt h f n0 root h f' root) \<or>
    (\<exists>out s' f' n' h' root'. insert_body pb raw steps bt key v s = Inr (out, s') \<and> at f' n' Map.empty {} s' \<and>
      keeps K bt h f n0 root h' f' n' root' \<and> (fits_at h f root key v \<longrightarrow> missing R h f root) \<and>
      (out = GoRestart \<and> h' + tree_pot h' f' root' \<le> Suc (h + tree_pot h f root) \<or>
       out = Continue \<and> h' + tree_pot h' f' root' \<le> h + tree_pot h f root \<and> tree_pot h' f' root' < tree_pot h f root \<or>
       (\<exists>b k' d'. out = CallEnsure b k' \<and> f' = f \<and> n' = n0 \<and> h' = h \<and> root' = root \<and> length k' \<le> K \<and>
         needs F k' h f root d' b \<and> d' < h)))"
proof -
  let ?stop = "\<lambda>g :: Guard. False"
  from s t steps show ?thesis
  proof (cases rule: arrive [where stop = ?stop and key = key])
    case (enter_restart s1)
    then have "insert_body pb raw steps bt key v s = Inr (GoRestart, s1)" by (simp add: insert_body_def)
    moreover have "h + tree_pot h f root \<le> Suc (h + tree_pot h f root)" by simp
    ultimately show ?thesis using enter_restart(2,3) keeps_refl [OF t] by blast
  next
    case (restart g1 g2 s1 s2)
    then have "insert_body pb raw steps bt key v s = Inr (GoRestart, s2)" by (simp add: insert_body_def)
    moreover have "h + tree_pot h f root \<le> Suc (h + tree_pot h f root)" by simp
    ultimately show ?thesis using restart(3,4) keeps_refl [OF t] by blast
  next
    case (arrived g1 g2 s1 s2 d r q i b0 b)
    let ?gr = "\<lparr>g_pid = r, g_ptr = Some b0\<rparr>" and ?gq = "\<lparr>g_pid = q, g_ptr = Some b\<rparr>"
    have w: "reaches key h f root h r q i" using arrived(4,6) by simp
    from t w obtain fq: "f q = NodePage (node f q)" by (rule reaches_at)
    have gq: "g_node pb ?gq s2 = Inr (node f q)" by (rule g_node_rule [OF arrived(3) _ fq]) simp
    show ?thesis
    proof (cases "hasSpaceFor (length key) (length v) (node f q)")
      case True
      from insert_leaf [OF t w raw key new True] obtain x where x: "insertInPage raw key v (node f q) = Inr x"
        "tree_at K h bt (f(q := NodePage x)) n0 root" "contents h (f(q := NodePage x)) root = (contents h f root)(key \<mapsto> v)"
        "evolves bt h f n0 root h (f(q := NodePage x)) root" by blast
      have X: "GuardX_of_S ?gq = Inr ?gq" by (rule X_of_S_rule [OF arrived(3)]) simp
      obtain s3 where s3: "GuardS_release pb ?gr s2 = Inr (\<lparr>g_pid = moved, g_ptr = Some b0\<rparr>, s3)" "at f n0 [q \<mapsto> b] {} s3"
        using releaseS_two [OF arrived(3,5)] by blast
      obtain s4 where s4: "GuardX_dtor pb ?gq (g_put pb ?gq (NodePage x) s3) = Inr s4" "at (f(q := NodePage x)) n0 Map.empty {} s4"
        using write_release [OF s3(2)] by blast
      have "insert_body pb raw steps bt key v s = Inr (Return, s4)"
        using arrived(1,2) gq True X s3(1) x(1) s4(1) by (simp add: insert_body_def Let_def)
      with s4(2) x(2-) show ?thesis by blast
    next
      case False
      then have run: "insert_body pb raw steps bt key v s = splitAndLeave pb raw bt Continue ?gr ?gq s2"
        using arrived(1,2) gq by (simp add: insert_body_def)
      have c: "2 < bn_count (node f q)" by (rule full_on_path [OF t w K _ False]) (use key(2) in simp)
      have nofit: "\<not> fits_at h f root key v" using False w by (auto simp: fits_at_def reaches_def)
      from splitAndLeave_rule [OF arrived(3) t w c raw K arrived(5), of Continue] show ?thesis
        unfolding run
      proof (elim disjE exE conjE, goal_cases)
        case 1
        then show ?case using nofit by blast
      next
        case 2
        then show ?case unfolding keeps_def using nofit by blast
      next
        case 3
        then show ?case unfolding keeps_def using nofit by blast
      next
        case (4 out s' f' n' h' root' k')
        then obtain d' where d': "h = Suc d'" by (cases h) auto
        obtain r' i' where up: "reaches k' h f root d' r' r i'" using reaches_up 4(16) d' by blast
        have rq: "[r \<mapsto> b0, q \<mapsto> b] r = Some b0" using arrived(5) by simp
        have "F r = Some b0" by (rule frame_law [OF arrived(3) rq reaches_less [OF t up]])
        then have n: "needs F k' h f root d' b0" using up 4(15) by (auto simp: needs_def)
        have "d' < h" using d' by simp
        then show ?case using 4 n keeps_refl [OF t] nofit by blast
      qed
    qed
  qed
qed

end

subsection \<open>The run\<close>

text \<open>
  The place \<open>pc\<close> where the fiber stands and a bound \<open>L\<close> on the bodies until the next split: an \<open>ensureSpace\<close>
  that was called since the last suspension splits a page at a known depth, one that was called
  earlier may find nothing to do.
\<close>

definition pc_level :: "nat \<Rightarrow> (PID \<Rightarrow> nat option) \<Rightarrow> nat \<Rightarrow> (PID \<Rightarrow> Page) \<Rightarrow> PID \<Rightarrow> insert_pc \<Rightarrow> nat \<Rightarrow> bool" where
  "pc_level K F h f root pc L \<longleftrightarrow>
     (case pc of
        AtInsert \<Rightarrow> L = h + 1
      | AtEnsure t k \<Rightarrow> length k \<le> K \<and> (L = h + 2 \<or> (\<exists>d. needs F k h f root d t \<and> d < h \<and> L = d + 1)))"

definition pc_ok :: "nat \<Rightarrow> insert_pc \<Rightarrow> bool" where
  "pc_ok K pc \<longleftrightarrow> (case pc of AtInsert \<Rightarrow> True | AtEnsure t k \<Rightarrow> length k \<le> K)"

lemma pc_level_stale: "pc_ok K pc \<Longrightarrow> \<exists>L \<le> h + 2. pc_level K F h f root pc L"
  by (cases pc) (auto simp: pc_level_def pc_ok_def)

lemma fuel_round:
  assumes "(p :: nat) * (h + p + 2) + L < Suc fuel" and "p' < p" and "h' + p' \<le> h + p"
  shows "p' * (h' + p' + 2) + (h' + 1) < fuel"
proof -
  have "p' * (h' + p' + 2) \<le> p' * (h + p + 2)" using assms(3) by (intro mult_le_mono) simp_all
  moreover have "Suc p' * (h + p + 2) \<le> p * (h + p + 2)" using assms(2) by (intro mult_le_mono) simp_all
  moreover have "Suc p' * (h + p + 2) = p' * (h + p + 2) + (h + p + 2)" by simp
  ultimately show ?thesis using assms(1,3) by linarith
qed

definition run_ends :: "nat \<Rightarrow> BTree \<Rightarrow> bytes \<Rightarrow> bytes \<Rightarrow> nat \<Rightarrow> (PID \<Rightarrow> Page) \<Rightarrow> PID \<Rightarrow> PID \<Rightarrow> insert_out \<Rightarrow> nat \<Rightarrow> (PID \<Rightarrow> Page) \<Rightarrow> PID \<Rightarrow> PID \<Rightarrow> bool" where
  "run_ends K bt key v h f n root out h' f' n' root' \<longleftrightarrow>
     tree_at K h' bt f' n' root' \<and> evolves bt h f n root h' f' root' \<and> n \<le> n' \<and> h \<le> h' \<and>
     h' \<le> Suc (h + tree_pot h f root) \<and>
     (case out of Inserted \<Rightarrow> contents h' f' root' = (contents h f root)(key \<mapsto> v)
      | Suspended pc \<Rightarrow> contents h' f' root' = contents h f root \<and> pc_ok K pc)"

lemma run_ends_keeps:
  assumes k: "keeps K bt h f n root h1 f1 n1 root1" and r: "run_ends K bt key v h1 f1 n1 root1 out h2 f2 n2 root2"
    and pot: "h1 + tree_pot h1 f1 root1 \<le> h + tree_pot h f root"
  shows "run_ends K bt key v h f n root out h2 f2 n2 root2"
proof -
  from k have c: "contents h1 f1 root1 = contents h f root" and n: "n \<le> n1" and h: "h \<le> h1" and e: "evolves bt h f n root h1 f1 root1"
    by (simp_all add: keeps_def)
  from r have "evolves bt h1 f1 n1 root1 h2 f2 root2" and n': "n1 \<le> n2" "h1 \<le> h2" by (simp_all add: run_ends_def)
  then have "evolves bt h f n root h2 f2 root2" using evolves_trans [OF e] n by blast
  moreover have "h2 \<le> Suc (h + tree_pot h f root)" using r pot by (simp add: run_ends_def)
  ultimately show ?thesis using r c order_trans [OF n n'(1)] order_trans [OF h n'(2)]
    by (simp add: run_ends_def split: insert_out.splits)
qed

context frame_buffer
begin

lemma insert_run_rule:
  assumes "atF n F R f n Map.empty {} s" and "tree_at K h bt f n root" and "h + tree_pot h f root < steps"
    and "contents h f root key = None" and "pc_level K F h f root pc L"
    and "tree_pot h f root * (h + tree_pot h f root + 2) + L < fuel"
    and K: "K \<le> 789" and key: "length key = K" "length key + length v \<le> 789" and raw: "raw_ok raw"
  shows "(\<exists>e. insert_run fuel pb raw steps bt key v pc s = Inl e \<and> bad e) \<or>
    (\<exists>out s' f' n' h' root' F'. insert_run fuel pb raw steps bt key v pc s = Inr (out, s') \<and> atF n' F' R f' n' Map.empty {} s' \<and>
      run_ends K bt key v h f n root out h' f' n' root')"
  using assms(1-6)
proof (induction fuel arbitrary: n F f s h root pc L)
  case (Suc fuel)
  let ?out = "\<lambda>r. (\<exists>e. r = Inl e \<and> bad e) \<or> (\<exists>out s' f' n' h' root' F'. r = Inr (out, s') \<and> atF n' F' R f' n' Map.empty {} s' \<and>
      run_ends K bt key v h f n root out h' f' n' root')"
  have h: "h < steps" using Suc.prems(3) by simp
  have suspend: "?out (Inr (Suspended pc', s'))"
    if a: "atF n F R f' n' Map.empty {} s'" "keeps K bt h f n root h' f' n' root'" "pc_ok K pc'"
      "h' + tree_pot h' f' root' \<le> Suc (h + tree_pot h f root)" for f' n' s' h' root' pc'
  proof -
    obtain F' where "atF n' F' R f' n' Map.empty {} s'" using record_law [OF a(1)] by blast
    moreover have "run_ends K bt key v h f n root (Suspended pc') h' f' n' root'"
      using a(2-4) by (simp add: run_ends_def keeps_def)
    ultimately show ?thesis by blast
  qed
  have again: "?out (insert_run fuel pb raw steps bt key v AtInsert s')"
    if a: "atF n F R f' n' Map.empty {} s'" "keeps K bt h f n root h' f' n' root'"
      "h' + tree_pot h' f' root' \<le> h + tree_pot h f root" "tree_pot h' f' root' * (h' + tree_pot h' f' root' + 2) + (h' + 1) < fuel"
    for f' n' s' h' root'
  proof -
    obtain F' where aF: "atF n' F' R f' n' Map.empty {} s'" using record_law [OF a(1)] by blast
    have t': "tree_at K h' bt f' n' root'" and new: "contents h' f' root' key = None" using a(2) Suc.prems(4) by (simp_all add: keeps_def)
    have st: "h' + tree_pot h' f' root' < steps" using a(3) Suc.prems(3) by simp
    have pc: "pc_level K F' h' f' root' AtInsert (h' + 1)" by (simp add: pc_level_def)
    from Suc.IH [OF aF t' st new pc a(4)] show ?thesis
    proof (elim disjE exE conjE, goal_cases)
      case 1
      then show ?case by blast
    next
      case 2
      from run_ends_keeps [OF a(2) 2(3) a(3)] 2(1,2) show ?case by blast
    qed
  qed
  have call: "?out (insert_run fuel pb raw steps bt key v (AtEnsure b k') s')"
    if "atF n F R f n Map.empty {} s'" "length k' \<le> K" "needs F k' h f root d' b" "d' < h" "d' + 1 < L" for b k' d' s'
  proof -
    have "pc_level K F h f root (AtEnsure b k') (d' + 1)" using that(2-4) by (auto simp: pc_level_def)
    then show ?thesis using Suc.IH [OF that(1) Suc.prems(2,3,4)] that(5) Suc.prems(6) by simp
  qed
  show ?case
  proof (cases pc)
    case AtInsert
    then have L: "L = h + 1" using Suc.prems(5) by (simp add: pc_level_def)
    from page_frames.insert_body_rule [OF frames Suc.prems(1,2) h K key Suc.prems(4) raw] show ?thesis
    proof (elim disjE exE conjE, goal_cases)
      case (1 e)
      then show ?case using AtInsert by simp
    next
      case (2 s' f')
      then have "insert_run (Suc fuel) pb raw steps bt key v pc s = Inr (Inserted, s')" using AtInsert by simp
      moreover have "run_ends K bt key v h f n root Inserted h f' n root" using 2 by (simp add: run_ends_def)
      ultimately show ?case using 2(2) by blast
    next
      case (3 out s' f' n' h' root')
      then show ?case using AtInsert suspend [OF 3(2,3), of AtInsert] by (simp add: pc_ok_def)
    next
      case (4 out s' f' n' h' root')
      have "insert_run (Suc fuel) pb raw steps bt key v pc s = insert_run fuel pb raw steps bt key v AtInsert s'" using 4 AtInsert by simp
      with again [OF 4(2,3,6) fuel_round [OF Suc.prems(6) 4(7,6)]] show ?case by (simp only:)
    next
      case (5 out s' f' n' h' root' b k' d')
      then have "insert_run (Suc fuel) pb raw steps bt key v pc s = insert_run fuel pb raw steps bt key v (AtEnsure b k') s'" using AtInsert by simp
      moreover have "d' + 1 < L" "atF n F R f n Map.empty {} s'" using 5 L by simp_all
      ultimately show ?case using call [of s' k' d' b] 5 by (simp only:)
    qed
  next
    case (AtEnsure toSplit k)
    then have k: "length k \<le> K" and L: "L = h + 2 \<or> (\<exists>d. needs F k h f root d toSplit \<and> d < h \<and> L = d + 1)"
      using Suc.prems(5) by (simp_all add: pc_level_def)
    from page_frames.ensureSpace_rule [OF frames Suc.prems(1,2) h K k raw, of toSplit] show ?thesis
    proof (elim disjE exE conjE, goal_cases)
      case (1 e)
      then show ?case using AtEnsure by simp
    next
      case (2 out s' f' n' h' root')
      then show ?case using AtEnsure suspend [OF 2(2,3), of "AtEnsure toSplit k"] k by (simp add: pc_ok_def)
    next
      case (3 out s' f' n' h' root')
      have "insert_run (Suc fuel) pb raw steps bt key v pc s = insert_run fuel pb raw steps bt key v AtInsert s'" using 3 AtEnsure by simp
      with again [OF 3(2,3,5) fuel_round [OF Suc.prems(6) 3(6,5)]] show ?case by (simp only:)
    next
      case (4 out s' f' n' h' root')
      then have "L = h + 2" using L by blast
      then have fuel: "tree_pot h' f' root' * (h' + tree_pot h' f' root' + 2) + (h' + 1) < fuel" using Suc.prems(6) 4 by simp
      have "insert_run (Suc fuel) pb raw steps bt key v pc s = insert_run fuel pb raw steps bt key v AtInsert s'" using 4 AtEnsure by simp
      with again [OF 4(2,3,5) fuel] show ?case by (simp only:)
    next
      case (5 out s' f' n' h' root' b k' d')
      then have "insert_run (Suc fuel) pb raw steps bt key v pc s = insert_run fuel pb raw steps bt key v (AtEnsure b k') s'" using AtEnsure by simp
      moreover have "d' + 1 < L" "atF n F R f n Map.empty {} s'" using 5 L by auto
      ultimately show ?case using call [of s' k' d' b] 5 by (simp only:)
    qed
  qed
qed simp

text \<open>With all pages of the tree in memory and room in the leaf, the insertion is done at once.\<close>

lemma insert_run_fits:
  assumes "atF n F R f n Map.empty {} s" and "tree_at K h bt f n root" and "h < steps"
    and "contents h f root key = None" and "\<not> missing R h f root" and "fits_at h f root key v"
    and "K \<le> 789" and "length key = K" "length key + length v \<le> 789" and "raw_ok raw"
  shows "\<exists>s' f'. insert_run (Suc fuel) pb raw steps bt key v AtInsert s = Inr (Inserted, s') \<and> atF n F R f' n Map.empty {} s' \<and>
    tree_at K h bt f' n root \<and> contents h f' root = (contents h f root)(key \<mapsto> v) \<and> \<not> missing R h f' root"
proof -
  from page_frames.insert_body_rule [OF frames assms(1-3,7-9,4,10)] assms(5,6)
  obtain s' f' where r: "insert_body pb raw steps bt key v s = Inr (Return, s')" "atF n F R f' n Map.empty {} s'"
    and t: "tree_at K h bt f' n root" and c: "contents h f' root = (contents h f root)(key \<mapsto> v)" and e: "evolves bt h f n root h f' root"
    by blast
  have "set (tree_pids h f' root) \<subseteq> set (tree_pids h f root)" using t e by (fastforce simp: tree_at_def evolves_def)
  then have "\<not> missing R h f' root" using assms(5) by (auto simp: missing_def)
  with r t c show ?thesis by auto
qed

end

end
