(* ===== verification/Btree_Delete.thy ===== *)
theory Btree_Delete
  imports Btree_Insert
begin

section \<open>Removal from the tree\<close>

text \<open>
  The attempt of \<open>remove\<close> over any buffer that keeps the contract \<open>page_buffer\<close>: it answers whether the key
  was there, removes exactly its entry, and a merge with the right neighbour keeps the rest.
\<close>

lemma walk_frame:
  assumes "tree K h f p lo hi" and "within lo hi k" and "distinct (tree_pids h f p)" and "d \<le> h"
    and "walk (child_ix k) d f p lo hi = (q, a, b)"
    and "\<forall>y \<in> set (tree_pids h f p) - set (tree_pids (h - d) f q). f' y = f y"
  shows "walk (child_ix k) d f' p lo hi = (q, a, b)"
  using assms
proof (induction d arbitrary: h p lo hi)
  case (Suc d)
  then obtain h' where h: "h = Suc h'" by (cases h) auto
  from Suc.prems(1) obtain n where n: "f p = NodePage n" "inner_node K n lo hi" unfolding h by (rule tree_SucE) (rule that)
  let ?i = "child_ix k n"
  note c = child_pids [OF Suc.prems(1) [unfolded h] n(1) Suc.prems(3) [unfolded h] child_ix_le [OF n(2), of k]]
  have w: "walk (child_ix k) d f (bn_children n ! ?i) (lo_at lo (bn_keys n) ?i) (hi_at hi (bn_keys n) ?i) = (q, a, b)"
    using Suc.prems(5) n(1) by (simp add: Let_def)
  have d: "d \<le> h'" using Suc.prems(4) h by simp
  note in_c = child_ix_within [OF n(2) Suc.prems(2)]
  have sub: "set (tree_pids (h' - d) f q) \<subseteq> set (tree_pids h' f (bn_children n ! ?i))"
    by (rule walk_tree(3) [OF c(4) in_c d w])
  have hd: "h - Suc d = h' - d" using h by simp
  have "p \<notin> set (tree_pids (h' - d) f q)" using sub c(3) by blast
  then have fp: "f' p = NodePage n" using Suc.prems(6) root_in_pids [of p h f] n(1) unfolding hd by (metis DiffI)
  have "\<forall>y \<in> set (tree_pids h' f (bn_children n ! ?i)) - set (tree_pids (h' - d) f q). f' y = f y"
    using Suc.prems(6) c(3) unfolding hd unfolding h by blast
  from Suc.IH [OF c(4) in_c c(2) d w this] fp show ?case by (simp add: Let_def)
qed simp

subsection \<open>Merging two leaves of the tree\<close>

lemma merge_tree:
  assumes t: "tree_at K (Suc d) bt f n root" and w: "reaches key (Suc d) f root (Suc d) r q i"
    and i: "i + 1 < bn_count (node f r)" and raw: "raw_ok raw" and K: "K \<le> 789"
  shows "\<exists>b m p. mergeNodes raw q i (node f r) (node f (bn_children (node f r) ! (i + 1))) (node f q) = Inr (b, m, p) \<and>
    tree_at K (Suc d) bt (f(q := NodePage m, r := NodePage p)) n root \<and>
    contents (Suc d) (f(q := NodePage m, r := NodePage p)) root = contents (Suc d) f root \<and>
    evolves bt (Suc d) f n root (Suc d) (f(q := NodePage m, r := NodePage p)) root"
proof -
  from t w obtain a c where wr: "walk (child_ix key) d f root [] [] = (r, a, c)" and tr: "tree K (Suc (Suc d - Suc d)) f r a c"
    "distinct (tree_pids (Suc (Suc d - Suc d)) f r)" "f r = NodePage (node f r)" and inner: "inner_node K (node f r) a c"
    and q: "q = bn_children (node f r) ! i" "q \<noteq> r" "r \<noteq> 0" "r \<in> set (tree_pids (Suc d) f root)"
    and tq: "tree K (Suc d - Suc d) f q (lo_at a (bn_keys (node f r)) i) (hi_at c (bn_keys (node f r)) i)"
    by (rule reaches_parent)
  from t w obtain q0: "q \<noteq> 0" "q \<in> set (tree_pids (Suc d) f root)" "f q = NodePage (node f q)" by (rule reaches_at)
  from t have at: "tree K (Suc d) f root [] []" "distinct (tree_pids (Suc d) f root)"
    "\<forall>p \<in> set (tree_pids (Suc d) f root). p \<noteq> 0 \<and> p < n" by (simp_all add: tree_at_def)
  note tr = tr [unfolded diff_self_eq_0] and tq = tq [unfolded diff_self_eq_0]
  let ?pn = "node f r" and ?x = "node f q"
  let ?ks = "bn_keys ?pn" and ?z = "bn_children ?pn ! (i + 1)"
  let ?rn = "node f ?z"
  note D = inner_nodeD [OF inner]
  have tz: "tree K 0 f ?z (lo_at a ?ks (i + 1)) (hi_at c ?ks (i + 1))"
    by (rule child_pids(4) [OF tr(1,3,2)]) (use i in simp)
  note lx = tree_leaf [OF tq] and lz = tree_leaf [OF tz]
  have mid: "hi_at c ?ks i = ?ks ! i" "lo_at a ?ks (i + 1) = ?ks ! i" "hi_at c ?ks (i + 1) = ?ks ! (i + 1)"
    using i D(3) by (simp_all add: hi_at_simps lo_at_simps)
  have mem: "?ks ! i \<in> set ?ks" "?ks ! (i + 1) \<in> set ?ks" using i D(3) by simp_all
  have up: "?ks ! i < ?ks ! (i + 1)" using D(5) i D(3) by (simp add: sorted_wrt_nth_less)
  have low: "lo_at a ?ks i = [] \<or> lo_at a ?ks i < ?ks ! i"
  proof (cases i)
    case 0
    then show ?thesis using D(6) [OF mem(1)] by (auto simp: lo_at_simps)
  next
    case (Suc j)
    then show ?thesis using D(5) i D(3) by (simp add: sorted_wrt_nth_less lo_at_simps)
  qed
  from t have "length a \<le> K \<and> length c \<le> K" using walk_bounds [OF at(1) _ _ _ wr] by simp
  then have "length (lo_at a ?ks i) \<le> K" using bound_length(1) [OF inner, of i] i by simp
  moreover have "length (?ks ! (i + 1)) \<le> K" using D(6) [OF mem(2)] by simp
  ultimately have nb: "neighbours ?x ?rn"
    using lx lz mid low up D(6) [OF mem(1)] K by (auto simp: neighbours_def leaf_node_def)
  from mergeNodes_leaf [OF nb raw D(1) i, of q] obtain b m p where
    run: "mergeNodes raw q i ?pn ?rn ?x = Inr (b, m, p)" and not_b: "\<not> b \<Longrightarrow> m = ?x \<and> p = ?pn"
    and is_b: "b \<Longrightarrow> bn_inv m \<and> bn_isLeaf m \<and> bn_entries m = bn_entries ?x @ bn_entries ?rn \<and>
      getLowerFence m = getLowerFence ?x \<and> getUpperFence m = getUpperFence ?rn \<and> bn_next m = bn_next ?rn \<and>
      inner_ok p \<and> same_fences ?pn p \<and> bn_keys p = take i ?ks @ drop (Suc i) ?ks \<and>
      bn_children p = take i (bn_children ?pn) @ q # drop (i + 2) (bn_children ?pn)"
    by blast
  define f' where "f' = f(q := NodePage m, r := NodePage p)"
  have "tree_at K (Suc d) bt f' n root \<and> contents (Suc d) f' root = contents (Suc d) f root \<and>
      evolves bt (Suc d) f n root (Suc d) f' root"
  proof (cases b)
    case False
    then have "f' = f" using not_b q0(3) tr(3) unfolding f'_def by (metis fun_upd_triv)
    then show ?thesis using t evolves_refl by simp
  next
    case True
    note B = is_b [OF True]
    have m: "leaf_node K m (lo_at a ?ks i) (hi_at c ?ks (i + 1))" using B lx lz by (auto simp: leaf_node_def)
    have p: "inner_node K p a c" using B inner by (auto simp: inner_node_def same_fences_def dest: in_set_takeD in_set_dropD)
    have f1: "f' q = NodePage m" "f' r = NodePage p" "\<forall>y. y \<noteq> r \<longrightarrow> y \<noteq> q \<longrightarrow> f' y = f y" using q(2) by (simp_all add: f'_def)
    have keys: "bn_keys p = take i ?ks @ drop (Suc i) ?ks" "bn_children p = take i (bn_children ?pn) @ q # drop (i + 2) (bn_children ?pn)"
      using B by blast+
    note rm = replaces_merge [OF tr(1,2,3) i q(1) f1(1) m f1(2) p keys f1(3)]
    have same_ents: "tree_ents (Suc 0) f' r = tree_ents (Suc 0) f r" using rm(2) B by auto
    have hd: "Suc d - d = Suc 0" by simp
    have "q \<in> set (tree_pids (Suc 0) f r)"
      using child_pids(3) [OF tr(1,3,2), of i] i root_in_pids [of q 0 f] unfolding q(1) by auto
    then have same: "\<forall>y \<in> set (tree_pids (Suc d) f root) - set (tree_pids (Suc 0) f r). f' y = f y"
      using f1(3) root_in_pids [of r "Suc 0" f] by (metis DiffD2)
    have w0: "within [] [] key" and dle: "d \<le> Suc d" and N: "{} \<inter> set (tree_pids (Suc d) f root) = {}" by simp_all
    note rw = replace_walk [OF at(1) w0 at(2) dle wr, unfolded hd, OF rm(1) N same]
    have t': "tree K (Suc d) f' root [] []" "distinct (tree_pids (Suc d) f' root)"
      and sub: "set (tree_pids (Suc d) f' root) \<subseteq> set (tree_pids (Suc d) f root)" using rw unfolding replaces_def by blast+
    have ents: "tree_ents (Suc d) f' root = tree_ents (Suc d) f root" using rw same_ents by metis
    have f0: "f' 0 = f 0" using q(3) q0(1) by (simp add: f'_def)
    have "tree_at K (Suc d) bt f' n root" using t t' sub at(3) unfolding tree_at_def f0 by blast
    moreover have "evolves bt (Suc d) f n root (Suc d) f' root"
      by (rule evolves_same [OF t _ sub]) (use f1(3) q(4) q0(2) in auto)
    moreover have "contents (Suc d) f' root = contents (Suc d) f root" unfolding contents_def ents by (rule refl)
    ultimately show ?thesis by blast
  qed
  with run show ?thesis unfolding f'_def by blast
qed

subsection \<open>Removing an entry of a leaf\<close>

lemma remove_leaf:
  assumes t: "tree_at K h bt f n root" and w: "reaches key h f root h r q i" and found: "snd (lowerBound key (node f q))"
  defines "x \<equiv> snd (removeSlot (fst (lowerBound key (node f q))) (node f q))"
  shows "tree_at K h bt (f(q := NodePage x)) n root" and "contents h (f(q := NodePage x)) root = (contents h f root)(key := None)"
    and "evolves bt h f n root h (f(q := NodePage x)) root" and "reaches key h (f(q := NodePage x)) root h r q i"
    and "contents h f root key \<noteq> None"
proof -
  from t w obtain a c where wq: "walk (child_ix key) h f root [] [] = (q, a, c)" and tq: "tree K (h - h) f q a c"
    and fq: "f q = NodePage (node f q)" by (rule reaches_at)
  let ?n = "node f q" and ?s = "fst (lowerBound key (node f q))"
  have leaf: "leaf_node K ?n a c" using tq tree_leaf by simp
  then have inv: "bn_inv ?n" by (simp add: leaf_node_def)
  note fp = found_payload [OF inv found]
  note rs = removeSlot_correct [OF inv fp(1), folded x_def]
  have ne: "length (bn_entries ?n) = bn_count ?n" by (rule entries_facts(3) [OF inv])
  have leaf': "leaf_node K x a c"
    using leaf rs by (auto simp: leaf_node_def same_fences_def dest: in_set_takeD in_set_dropD)
  let ?A = "take ?s (bn_entries ?n)" and ?B = "drop (Suc ?s) (bn_entries ?n)"
  have kin: "key \<in> set (bn_keys ?n)" using found by (simp add: lowerBound_correct [OF inv])
  have "fst (bn_entries ?n ! ?s) = key" using nth_entry_key [OF inv fp(1)] fp(4) by simp
  then have split: "bn_entries ?n = ?A @ [(key, snd (bn_entries ?n ! ?s))] @ ?B"
    using id_take_nth_drop [of ?s "bn_entries ?n"] ne fp(1) by (metis append_Cons append_Nil prod.collapse)
  have d: "distinct (map fst (bn_entries ?n))" using entries_facts(1) [OF inv] sorted_distinct by blast
  then have d2: "distinct (map fst (?A @ [(key, snd (bn_entries ?n ! ?s))] @ ?B))" using split by simp
  have "map_of (?A @ [] @ ?B) = (map_of (?A @ [(key, snd (bn_entries ?n ! ?s))] @ ?B))(key := None)"
    by (rule map_of_replace [OF d2]) (use d2 in auto)
  then have m: "map_of (bn_entries x) = (map_of (bn_entries ?n))(key := None)"
    unfolding rs(2) append_Nil by (simp only: split [symmetric])
  note r = replace_leaf [OF t wq fq leaf' disjI1 [OF kin] m]
  show "tree_at K h bt (f(q := NodePage x)) n root" "contents h (f(q := NodePage x)) root = (contents h f root)(key := None)"
    "evolves bt h f n root h (f(q := NodePage x)) root" by (rule r)+
  from t have tr: "tree K h f root [] []" "distinct (tree_pids h f root)" by (simp_all add: tree_at_def)
  have w0: "within [] [] key" by simp
  have "contents h f root key = map_of (bn_entries ?n) key"
    unfolding contents_def by (rule contents_leaf [where K = K, OF tr(1) w0 wq])
  then show "contents h f root key \<noteq> None" using fp(2) by simp
  show "reaches key h (f(q := NodePage x)) root h r q i"
  proof (cases h)
    case 0
    with w show ?thesis by (simp add: reaches_def)
  next
    case (Suc d)
    from t [unfolded Suc] w [unfolded Suc] obtain a' c' where wr: "walk (child_ix key) d f root [] [] = (r, a', c')"
      and tree_r: "tree K (Suc (Suc d - Suc d)) f r a' c'" "distinct (tree_pids (Suc (Suc d - Suc d)) f r)" "f r = NodePage (node f r)"
      and i: "i = child_ix key (node f r)" "i \<le> bn_count (node f r)" "q = bn_children (node f r) ! i" and qr: "q \<noteq> r"
      by (rule reaches_parent)
    have "walk (child_ix key) h (f(q := NodePage x)) root [] [] = (q, a, c)"
      by (rule walk_frame [OF tr(1) w0 tr(2) order_refl wq]) auto
    moreover have "walk (child_ix key) d (f(q := NodePage x)) root [] [] = (r, a', c')"
    proof (rule walk_frame [OF tr(1) w0 tr(2) _ wr])
      have "q \<in> set (tree_pids (Suc (Suc d - Suc d)) f r)"
        using child_pids(3) [OF tree_r(1,3,2) i(2)] root_in_pids i(3) by blast
      moreover have "h - d = Suc (Suc d - Suc d)" using Suc by simp
      ultimately have "q \<in> set (tree_pids (h - d) f r)" by (simp only:)
      then show "\<forall>y \<in> set (tree_pids h f root) - set (tree_pids (h - d) f r). (f(q := NodePage x)) y = f y" by auto
    qed (use Suc in simp)
    moreover have "node (f(q := NodePage x)) r = node f r" using qr by (simp add: node_def)
    ultimately show ?thesis using i(1) by (simp add: reaches_def Suc del: walk.simps)
  qed
qed

subsection \<open>The attempt\<close>

context page_buffer
begin

text \<open>Both guards are held exclusively and the two pages are written.\<close>

lemma write_both:
  assumes "at f n [r \<mapsto> b0, q \<mapsto> b] {} s" and "r \<noteq> q"
  obtains s1 s2 where "GuardX_dtor pb \<lparr>g_pid = q, g_ptr = Some b\<rparr> s = Inr s1"
    "GuardX_dtor pb \<lparr>g_pid = r, g_ptr = Some b0\<rparr> s1 = Inr s2" "at f n Map.empty {} s2"
  by (rule dtorX_both [OF assms(1,2)]) auto

lemma removeMerging_rule:
  assumes s: "at f n [r \<mapsto> b0, q \<mapsto> b] {} s" and t: "tree_at K (Suc d) bt f n root" and w: "reaches key (Suc d) f root (Suc d) r q i"
    and i: "i + 1 < bn_count (node f r)" and raw: "raw_ok raw" and K: "K \<le> 789" and found: "snd (lowerBound key (node f q))"
    and ne: "r \<noteq> q"
  defines "sl \<equiv> fst (lowerBound key (node f q))"
  shows "\<exists>out s' f'. removeMerging pb raw \<lparr>g_pid = r, g_ptr = Some b0\<rparr> \<lparr>g_pid = q, g_ptr = Some b\<rparr> i sl (node f q) (node f r) s = Inr (out, s') \<and>
    at f' n Map.empty {} s' \<and> tree_at K (Suc d) bt f' n root \<and> evolves bt (Suc d) f n root (Suc d) f' root \<and>
    (out = Restart \<and> f' = f \<and> missing R (Suc d) f root \<or> out = Done True \<and> contents (Suc d) f' root = (contents (Suc d) f root)(key := None))"
proof -
  let ?gr = "\<lparr>g_pid = r, g_ptr = Some b0\<rparr>" and ?gq = "\<lparr>g_pid = q, g_ptr = Some b\<rparr>"
  let ?pn = "node f r" and ?n = "node f q"
  let ?x = "snd (removeSlot sl ?n)" and ?z = "bn_children (node f r) ! (i + 1)"
  from t w obtain a c where wr: "walk (child_ix key) d f root [] [] = (r, a, c)"
    and tr: "tree K (Suc (Suc d - Suc d)) f r a c" "distinct (tree_pids (Suc (Suc d - Suc d)) f r)" "f r = NodePage ?pn"
    and inner: "inner_node K ?pn a c" and q: "q = bn_children ?pn ! i" by (rule reaches_parent)
  note tr = tr [unfolded diff_self_eq_0]
  have X: "GuardX_of_S ?gr = Inr ?gr" "GuardX_of_S ?gq = Inr ?gq" by (rule X_of_S_rule [OF s], use ne in simp)+
  have ch: "getChild ?pn (i + 1) = ?z" by (rule getChild_nth(1) [OF inner_nodeD(1) [OF inner] i])
  have i1: "i + 1 \<le> bn_count ?pn" using i by simp
  note cz = child_pids [OF tr(1,3,2) i1]
  have "distinct (bn_children ?pn)" using tr(2) by (simp add: leaf_level)
  then have zq: "?z \<noteq> q" unfolding q using i inner_nodeD(4) [OF inner] by (simp add: nth_eq_iff_index_eq)
  have zr: "?z \<noteq> r" by (rule cz(1))
  have fz: "f ?z = NodePage (node f ?z)" by (rule tree_node [OF cz(4)])
  have free: "[r \<mapsto> b0, q \<mapsto> b] ?z = None" using zq zr by simp
  note rl = remove_leaf [OF t w found, folded sl_def]
  from s free show ?thesis
  proof (cases rule: GuardX_rule)
    case (retry s1)
    from retry(2) ne obtain s2 s3 where s3: "GuardX_dtor pb ?gq s1 = Inr s2" "GuardX_dtor pb ?gr s2 = Inr s3" "at f n Map.empty {} s3"
      by (rule write_both)
    have "removeMerging pb raw ?gr ?gq i sl ?n ?pn s = Inr (Restart, s3)"
      using X retry(1) ch s3(1,2) by (simp add: removeMerging_def)
    moreover have "?z \<in> set (tree_pids (Suc d) f root)"
    proof -
      have "set (tree_pids (Suc d - d) f r) \<subseteq> set (tree_pids (Suc d) f root)"
        by (rule walk_tree(3) [where K = K, OF _ _ _ wr]) (use t in \<open>simp_all add: tree_at_def del: tree.simps\<close>)
      moreover have "Suc d - d = Suc 0" by simp
      ultimately have "set (tree_pids (Suc 0) f r) \<subseteq> set (tree_pids (Suc d) f root)" by (simp only:)
      then show ?thesis using cz(3) root_in_pids by blast
    qed
    ultimately show ?thesis using s3(3) t evolves_refl [OF t] missingI [of ?z "Suc d" f root R, OF disjI2 retry(3)] by blast
  next
    case (fixed b2 s1)
    let ?gz = "\<lparr>g_pid = ?z, g_ptr = Some b2\<rparr>" and ?H = "[r \<mapsto> b0, q \<mapsto> b]"
    define f1 where "f1 = f(q := NodePage ?x)"
    note rl = rl [folded f1_def]
    have f1: "node f1 r = ?pn" "node f1 q = ?x" "node f1 ?z = node f ?z" "f1 r = NodePage ?pn"
      unfolding f1_def node_def using ne zq tr(3) unfolding node_def by auto
    obtain m p z where mp: "(if pageSize - underFullSize \<le> freeSpaceAfterCompaction (node f ?z)
        then mergeNodes raw q i ?pn (node f ?z) ?x else Inr (False, ?x, ?pn)) = Inr (z, m, p)"
      and t': "tree_at K (Suc d) bt (f1(q := NodePage m, r := NodePage p)) n root"
      and rest: "contents (Suc d) (f1(q := NodePage m, r := NodePage p)) root = contents (Suc d) f1 root"
        "evolves bt (Suc d) f1 n root (Suc d) (f1(q := NodePage m, r := NodePage p)) root"
    proof (cases "pageSize - underFullSize \<le> freeSpaceAfterCompaction (node f ?z)")
      case True
      from merge_tree [OF rl(1) rl(4) _ raw K] i True f1 that show ?thesis by auto
    next
      case False
      have "f1(q := NodePage ?x, r := NodePage ?pn) = f1"
        unfolding f1(4) [symmetric] by (simp add: f1_def fun_upd_idem)
      then show ?thesis using that [of False ?x ?pn] False rl(1) evolves_refl [OF rl(1)] by simp
    qed
    define f2 where "f2 = f1(q := NodePage m, r := NodePage p)"
    have gz: "g_node pb ?gz s1 = Inr (node f ?z)" by (rule g_node_rule [OF fixed(2) _ fz]) simp
    let ?s4 = "g_put pb ?gr (NodePage p) (g_put pb ?gq (NodePage m) s1)"
    have "at (f(q := NodePage m, r := NodePage p)) n (?H(?z \<mapsto> b2)) (insert r (insert q {})) ?s4"
      by (rule g_put_rule [OF g_put_rule [OF fixed(2)]]) (use ne zq zr in auto)
    moreover have "f(q := NodePage m, r := NodePage p) = f2" by (simp add: f2_def f1_def)
    ultimately have at4: "at f2 n (?H(?z \<mapsto> b2)) {r, q} ?s4" by simp
    obtain s5 where s5: "GuardX_dtor pb ?gz ?s4 = Inr s5" "at f2 n ?H ({r, q} - {?z}) s5" using dtorX_last [OF at4 free] by blast
    obtain s6 s7 where s7: "GuardX_dtor pb ?gq s5 = Inr s6" "GuardX_dtor pb ?gr s6 = Inr s7" "at f2 n Map.empty {} s7"
      by (rule dtorX_both [OF s5(2) ne]) auto
    have "removeMerging pb raw ?gr ?gq i sl ?n ?pn s = Inr (Done True, s7)"
      unfolding removeMerging_def using X fixed(1) ch gz mp s5(1) s7(1,2) by (simp add: Let_def split del: if_split cong: if_cong)
    moreover have "contents (Suc d) f2 root = (contents (Suc d) f root)(key := None)" using rest(1) rl(2) by (simp add: f2_def)
    moreover have "evolves bt (Suc d) f n root (Suc d) f2 root"
      by (rule evolves_trans [OF rl(3) rest(2) [folded f2_def] order_refl])
    ultimately show ?thesis using s7(3) t' [folded f2_def] by blast
  qed
qed

lemma remove_rule:
  assumes s: "at f n Map.empty {} s" and t: "tree_at K h bt f n root" and steps: "h < steps" and raw: "raw_ok raw" and K: "K \<le> 789"
  shows "\<exists>out s' f'. remove pb raw steps bt key s = Inr (out, s') \<and> at f' n Map.empty {} s' \<and> tree_at K h bt f' n root \<and>
    evolves bt h f n root h f' root \<and>
    (out = Restart \<and> f' = f \<and> missing R h f root \<or> out = Done False \<and> f' = f \<and> contents h f root key = None \<or>
     out = Done True \<and> contents h f root key \<noteq> None \<and> contents h f' root = (contents h f root)(key := None))"
  using s t steps
proof (cases rule: arrive [where stop = "\<lambda>_. False" and key = key])
  case (enter_restart s1)
  then have "remove pb raw steps bt key s = Inr (Restart, s1)" by (simp add: remove_def)
  then show ?thesis using enter_restart(2,3) t evolves_refl [OF t] by blast
next
  case (restart g1 g2 s1 s2)
  then have "remove pb raw steps bt key s = Inr (Restart, s2)" by (simp add: remove_def)
  then show ?thesis using restart(3,4) t evolves_refl [OF t] by blast
next
  case (arrived g1 g2 s1 s2 d r q i b0 b)
  let ?gr = "\<lparr>g_pid = r, g_ptr = Some b0\<rparr>" and ?gq = "\<lparr>g_pid = q, g_ptr = Some b\<rparr>"
  have w: "reaches key h f root h r q i" using arrived(4,6) by simp
  from t w obtain a c where wq: "walk (child_ix key) h f root [] [] = (q, a, c)" and tq: "tree K (h - h) f q a c"
    and fq: "f q = NodePage (node f q)" by (rule reaches_at)
  let ?n = "node f q"
  have inv: "bn_inv ?n" using tq tree_leaf [of K f q a c] by (simp add: leaf_node_def)
  have gq: "g_node pb ?gq s2 = Inr ?n" by (rule g_node_rule [OF arrived(3) _ fq]) simp
  have X: "GuardX_of_S ?gr = Inr ?gr" "GuardX_of_S ?gq = Inr ?gq" by (rule X_of_S_rule [OF arrived(3)], use arrived(5) in simp)+
  obtain sl fd where lb: "lowerBound key ?n = (sl, fd)" by (cases "lowerBound key ?n")
  show ?thesis
  proof (cases fd)
    case False
    from arrived(3,5) obtain s3 s4 where s4: "GuardS_dtor pb ?gq s2 = Inr s3" "GuardS_dtor pb ?gr s3 = Inr s4" "at f n Map.empty {} s4"
      by (rule dtorS_both)
    have "remove pb raw steps bt key s = Inr (Done False, s4)"
      using arrived(1,2) gq lb False s4(1,2) by (simp add: remove_def)
    moreover have "contents h f root key = None"
    proof -
      have "contents h f root key = map_of (bn_entries ?n) key"
        unfolding contents_def by (rule contents_leaf [where K = K, OF _ _ wq]) (use t in \<open>simp_all add: tree_at_def\<close>)
      then show ?thesis using not_found_payload [OF inv] lb False by simp
    qed
    ultimately show ?thesis using s4(3) t evolves_refl [OF t] by blast
  next
    case True
    have found: "snd (lowerBound key ?n)" using lb True by simp
    note rl = remove_leaf [OF t w found]
    let ?x = "snd (removeSlot sl ?n)"
    have lbs: "fst (lowerBound key ?n) = sl" using lb by simp
    note rl = rl [unfolded lbs]
    have par: "h = Suc h' \<Longrightarrow> g_node pb ?gr s2 = Inr (node f r)" for h'
    proof -
      assume h: "h = Suc h'"
      from t [unfolded h] w [unfolded h] obtain fr: "f r = NodePage (node f r)" by (rule reaches_parent)
      have "[r \<mapsto> b0, q \<mapsto> b] r = Some b0" using arrived(5) by simp
      then show ?thesis by (rule g_node_rule [OF arrived(3) _ fr])
    qed
    have r0: "r = 0 \<or> (\<exists>h'. h = Suc h')" using w by (cases h) (auto simp: reaches_def)
    have under: "underfull pb ?gr i sl ?n s2 = Inr None \<or>
        underfull pb ?gr i sl ?n s2 = Inr (Some (node f r)) \<and> i + 1 < bn_count (node f r) \<and> (\<exists>h'. h = Suc h')"
      using r0 par by (auto simp: underfull_def metadataPageId_def Let_def)
    have go: "remove pb raw steps bt key s = rbind (underfull pb ?gr i sl ?n s2) (\<lambda>u.
        case u of Some pn \<Rightarrow> removeMerging pb raw ?gr ?gq i sl ?n pn s2 | None \<Rightarrow> removeOnly pb ?gr ?gq sl ?n s2)"
      using arrived(1,2) gq lb True by (simp add: remove_def)
    from under show ?thesis
    proof (elim disjE conjE exE)
      assume u: "underfull pb ?gr i sl ?n s2 = Inr None"
      obtain s3 where s3: "GuardS_release pb ?gr s2 = Inr (\<lparr>g_pid = moved, g_ptr = Some b0\<rparr>, s3)" "at f n [q \<mapsto> b] {} s3"
        using releaseS_two [OF arrived(3,5)] by blast
      obtain s4 where s4: "GuardX_dtor pb ?gq (g_put pb ?gq (NodePage ?x) s3) = Inr s4" "at (f(q := NodePage ?x)) n Map.empty {} s4"
        using write_release [OF s3(2)] by blast
      have "removeOnly pb ?gr ?gq sl ?n s2 = Inr (Done True, s4)"
        using X(2) s3(1) s4(1) by (simp add: removeOnly_def Let_def)
      then have "remove pb raw steps bt key s = Inr (Done True, s4)" using go u by simp
      then show ?thesis using s4(2) rl(1-3,5) by blast
    next
      fix h'
      assume u: "underfull pb ?gr i sl ?n s2 = Inr (Some (node f r))" and i: "i + 1 < bn_count (node f r)" and h: "h = Suc h'"
      have "remove pb raw steps bt key s = removeMerging pb raw ?gr ?gq i sl ?n (node f r) s2" using go u by simp
      moreover obtain out s' f' where "removeMerging pb raw ?gr ?gq i sl ?n (node f r) s2 = Inr (out, s')" "at f' n Map.empty {} s'"
        "tree_at K (Suc h') bt f' n root" "evolves bt (Suc h') f n root (Suc h') f' root"
        "out = Restart \<and> f' = f \<and> missing R (Suc h') f root \<or> out = Done True \<and> contents (Suc h') f' root = (contents (Suc h') f root)(key := None)"
        using removeMerging_rule [OF arrived(3) t [unfolded h] w [unfolded h] i raw K found arrived(5)] unfolding lbs by blast
      ultimately show ?thesis using rl(5) unfolding h by metis
    qed
  qed
qed

end

end
