(* ===== verification/Btree_New.thy ===== *)
theory Btree_New
  imports Btree_Insert
begin

section \<open>A new tree\<close>

text \<open>
  The constructor \<open>BTree_new\<close>. It does not ask whether its pages have to be loaded first: when no frame is free
  it records a root page it did not allocate.
\<close>

context page_buffer
begin

lemma GuardX_first:
  assumes "at f n Map.empty M s"
  obtains (retry) s' where "GuardX pb pid s = Inr (\<lparr>g_pid = pid, g_ptr = None\<rparr>, s')" "at f n Map.empty M s'" "pid \<notin> R"
  | (fixed) b s' where "GuardX pb pid s = Inr (\<lparr>g_pid = pid, g_ptr = Some b\<rparr>, s')" "at f n [pid \<mapsto> b] M s'"
  using fixX_law [OF assms, of pid] by (auto simp: GuardX_def)

lemma BTree_new_retry:
  assumes s: "at f n Map.empty {} s" and fix0: "pb_fixX pb 0 s = Inr (Some b0, s1)" and none: "pb_allocPage pb s1 = Inr (None, s2)"
    and roots: "f 0 = MetaPage roots \<or> f 0 = ZeroPage \<and> roots = replicate 512 0"
  shows "\<exists>s'. BTree_new pb slot s = Inr ((\<lparr>bt_slotId = slot, bt_splitOrdered = False\<rparr>, slot + 1), s') \<and>
    at (f(0 := MetaPage (roots[slot := n - 1]))) n Map.empty {} s'"
proof -
  let ?g0 = "\<lparr>g_pid = 0, g_ptr = Some b0\<rparr>" and ?m = "MetaPage (roots[slot := n - 1])"
  have s1: "at f n [0 \<mapsto> b0] {} s1" using fixX_law [OF s, of 0] fix0 by auto
  have s2: "at f n [0 \<mapsto> b0] {} s2" using alloc_law [OF s1] none by auto
  have m: "g_meta pb ?g0 s2 = Inr roots" using g_page_rule [OF s2, of 0 b0] roots by (auto simp: g_meta_def)
  have "at (f(0 := ?m)) n [0 \<mapsto> b0] {0} (g_put pb ?g0 ?m s2)" by (rule g_put_rule [OF s2]) simp
  from dtorX_one [OF this] obtain s3 where s3: "GuardX_dtor pb ?g0 (g_put pb ?g0 ?m s2) = Inr s3" "at (f(0 := ?m)) n Map.empty {} s3" by auto
  have "BTree_new pb slot s = Inr ((\<lparr>bt_slotId = slot, bt_splitOrdered = False\<rparr>, slot + 1), s3)"
    using fix0 none m s3(1) count_law [OF s2] by (simp add: BTree_new_def GuardX_def AllocGuard_def metadataPageId_def Let_def)
  with s3(2) show ?thesis by blast
qed

lemma BTree_new_rule:
  assumes s: "at f n Map.empty {} s" and res: "0 \<in> R" and roots: "f 0 = MetaPage roots \<or> f 0 = ZeroPage \<and> roots = replicate 512 0"
    and slot: "slot < length roots"
  defines "bt \<equiv> \<lparr>bt_slotId = slot, bt_splitOrdered = False\<rparr>"
  shows "(\<exists>e b s0. BTree_new pb slot s = Inl e \<and> bad e \<and> pb_fixX pb 0 s = Inr (Some b, s0) \<and> pb_allocPage pb s0 = Inl e) \<or>
    (\<exists>s' f'. BTree_new pb slot s = Inr ((bt, slot + 1), s') \<and> at f' (n + 1) Map.empty {} s' \<and>
      f' 0 = MetaPage (roots[slot := n]) \<and> (\<forall>p. p \<noteq> 0 \<longrightarrow> p < n \<longrightarrow> f' p = f p) \<and>
      tree_at K 0 bt f' (n + 1) n \<and> contents 0 f' n = Map.empty) \<or>
    (\<exists>s' b s0 s1. BTree_new pb slot s = Inr ((bt, slot + 1), s') \<and> at (f(0 := MetaPage (roots[slot := n - 1]))) n Map.empty {} s' \<and>
      pb_fixX pb 0 s = Inr (Some b, s0) \<and> pb_allocPage pb s0 = Inr (None, s1))"
proof -
  from s show ?thesis
  proof (cases rule: GuardX_first [where pid = 0])
    case (retry s1)
    then show ?thesis using res by simp
  next
    case (fixed b0 s1)
    note fix0 = fixed(1)
    let ?g0 = "\<lparr>g_pid = 0, g_ptr = Some b0\<rparr>"
    have n0: "n \<noteq> 0" using held_less [OF fixed(2), of 0 b0] by auto
    have g0: "g_meta pb ?g0 s2 = Inr roots" if "at f' m H M s2" "H 0 = Some b0" "f' 0 = f 0" for f' m H M s2
      using g_page_rule [OF that(1,2)] that(3) roots by (auto simp: g_meta_def)
    from fixed(2) show ?thesis
    proof (cases rule: AllocGuard_rule [where leaf = True])
      case (failed e)
      then have "BTree_new pb slot s = Inl e" using fixed(1) by (simp add: BTree_new_def metadataPageId_def)
      moreover have "pb_allocPage pb s1 = Inl e"
        using failed(1) by (cases "pb_allocPage pb s1") (auto simp: AllocGuard_def Let_def)
      moreover have "pb_fixX pb 0 s = Inr (Some b0, s1)" using fix0 by (auto simp: GuardX_def)
      ultimately show ?thesis using failed(2) by blast
    next
      case (retry s2)
      then have none: "\<exists>s2. pb_allocPage pb s1 = Inr (None, s2)" by (auto simp: AllocGuard_def Let_def)
      moreover have "pb_fixX pb 0 s = Inr (Some b0, s1)" using fix0 by (auto simp: GuardX_def)
      ultimately show ?thesis using BTree_new_retry [OF s _ _ roots, of b0 s1 _ slot] fixed(2) unfolding bt_def by blast
    next
      case (fixed b s2)
      from fixed(3) have nmax: "n \<noteq> NOT 0" by (simp add: moved_def)
      let ?x = "bn_construct True zero_page" and ?gn = "\<lparr>g_pid = n, g_ptr = Some b\<rparr>" and ?m = "MetaPage (roots[slot := n])"
      define f' where "f' = f(n := NodePage ?x, 0 := ?m)"
      have m: "g_meta pb ?g0 s2 = Inr roots" by (rule g0 [OF fixed(4)]) (use n0 in simp_all)
      have at3: "at f' (n + 1) [0 \<mapsto> b0, n \<mapsto> b] {0, n} (g_put pb ?g0 ?m s2)"
        unfolding f'_def by (rule g_put_rule [OF fixed(4)]) (use n0 in simp)
      obtain s4 s5 where s5: "GuardX_dtor pb ?gn (g_put pb ?g0 ?m s2) = Inr s4" "GuardX_dtor pb ?g0 s4 = Inr s5" "at f' (n + 1) Map.empty {} s5"
        by (rule dtorX_both [OF at3]) (use n0 in auto)
      have run: "BTree_new pb slot s = Inr ((bt, slot + 1), s5)"
        using fix0 fixed(1) m s5(1,2) by (simp add: BTree_new_def metadataPageId_def bt_def Let_def)
      have x: "is_page True [] [] noNeighbour [] ?x" using fresh_page [of True noNeighbour] by (simp add: bn_construct_def zero_page_def)
      have fn: "f' n = NodePage ?x" "f' 0 = ?m" using n0 by (simp_all add: f'_def)
      note p = is_pageD [OF x]
      have "leaf_node K ?x [] []" using p by (simp add: leaf_node_def)
      then have "tree_at K 0 bt f' (n + 1) n"
        using fn slot n0 word_less_next(2) [OF nmax] by (simp add: tree_at_def bt_def)
      moreover have "contents 0 f' n = Map.empty" using fn p(6) by (simp add: contents_def)
      moreover have "\<forall>p. p \<noteq> 0 \<longrightarrow> p < n \<longrightarrow> f' p = f p" by (auto simp: f'_def)
      ultimately show ?thesis using run s5(3) fn(2) by blast
    qed
  qed
qed

end

end
