(* ===== verification/Buffer_Laws.thy ===== *)
theory Buffer_Laws
  imports Buffer_Proofs Btree_Run Btree_Delete Btree_New
begin

section \<open>The buffer manager keeps the contract of the guards\<close>

text \<open>
  The operations of the buffer manager as a \<open>PageBuffer\<close>, and the interpretation of the locale
  \<open>page_buffer\<close>: fixing, unfixing and allocating keep the invariant and the logical contents, and
  no check of theirs fails, apart from those of a full page table.
\<close>

definition page_store :: "nat \<Rightarrow> Page \<Rightarrow> BufferManager \<Rightarrow> BufferManager" where
  "page_store b p bm = bm\<lparr>bm_pages := (bm_pages bm)[b := p]\<rparr>"

definition bm_ops :: "BufferManager PageBuffer" where
  "bm_ops = \<lparr>pb_fixS = fixS, pb_fixX = fixX, pb_unfixS = unfixS, pb_unfixX = unfixX, pb_allocPage = allocPage,
     pb_allocCount = bm_allocCount, pb_page = (\<lambda>b bm. bm_pages bm ! b), pb_store = page_store\<rparr>"

definition frame_of :: "BufferManager \<Rightarrow> PID \<Rightarrow> nat option" where
  "frame_of bm pid = map_option (\<lambda>b. unat (buf_id b)) (pt bm pid)"

text \<open>A page in memory that is not being read.\<close>

definition ready :: "BufferManager \<Rightarrow> PID \<Rightarrow> bool" where
  "ready bm pid \<longleftrightarrow> (case pt bm pid of None \<Rightarrow> False | Some b \<Rightarrow> \<not> io_lock b)"

definition bm_at :: "BID set \<Rightarrow> BID set \<Rightarrow> PID \<Rightarrow> (PID \<Rightarrow> nat option) \<Rightarrow> PID set \<Rightarrow> (PID \<Rightarrow> Page) \<Rightarrow> PID \<Rightarrow> (PID \<Rightarrow> nat option) \<Rightarrow> PID set \<Rightarrow>
    BufferManager \<Rightarrow> bool" where
  "bm_at W E n0 F R f n H M bm \<longleftrightarrow> bm_inv M W E bm \<and> bm_view bm = f \<and> bm_allocCount bm = n \<and> bm_held bm = H \<and>
     n0 \<le> n \<and> (\<forall>pid < n0. frame_of bm pid = F pid) \<and> (\<forall>pid \<in> R. ready bm pid)"

lemma bm_opsD [simp]:
  "pb_fixS bm_ops = fixS" "pb_fixX bm_ops = fixX" "pb_unfixS bm_ops = unfixS" "pb_unfixX bm_ops = unfixX"
  "pb_allocPage bm_ops = allocPage" "pb_allocCount bm_ops = bm_allocCount" "pb_page bm_ops b bm = bm_pages bm ! b"
  "pb_store bm_ops = page_store"
  by (simp_all add: bm_ops_def)

lemma buf_set_fields [simp]:
  "bm_page_count (buf_set i c bm) = bm_page_count bm" "bm_frames (buf_set i c bm) = bm_frames bm"
  "bm_pages (buf_set i c bm) = bm_pages bm" "bm_freeList (buf_set i c bm) = bm_freeList bm"
  "bm_ssd (buf_set i c bm) = bm_ssd bm" "bm_allocCount (buf_set i c bm) = bm_allocCount bm"
  "bm_physUsedCount (buf_set i c bm) = bm_physUsedCount bm" "bm_evict_batch (buf_set i c bm) = bm_evict_batch bm"
  "bm_page_table (buf_set i c bm) = rh_set_val i c (bm_page_table bm)"
  by (simp_all add: buf_set_def)

lemma bm_at_more:
  assumes "bm_page_count bm' = bm_page_count bm" "bm_page_table bm' = bm_page_table bm" "bm_frames bm' = bm_frames bm"
    "bm_pages bm' = bm_pages bm" "bm_freeList bm' = bm_freeList bm" "bm_ssd bm' = bm_ssd bm"
    "bm_allocCount bm' = bm_allocCount bm" "bm_physUsedCount bm' = bm_physUsedCount bm"
  shows "bm_at W E n0 F R f n H M bm' = bm_at W E n0 F R f n H M bm"
  using bm_inv_more [OF assms] assms(2,7) by (simp add: bm_at_def frame_of_def ready_def)

lemma bm_at_book [simp]:
  "bm_at W E n0 F R f n H M (restart_with e bm) = bm_at W E n0 F R f n H M bm" "bm_at W E n0 F R f n H M (ensureFreePages bm) = bm_at W E n0 F R f n H M bm"
  "bm_at W E n0 F R f n H M (bm\<lparr>bm_fixes := x\<rparr>) = bm_at W E n0 F R f n H M bm"
  by (rule bm_at_more; simp add: restart_with_def ensureFreePages_def)+

lemma heldD:
  assumes "bm_at W E n0 F R f n H M bm" and "H pid = Some x"
  obtains b where "pt bm pid = Some b" "in_use b" "\<not> io_lock b" "x = unat (buf_id b)" "frame_ok M W E bm pid b" "f pid = bm_pages bm ! x"
proof -
  from assms obtain b where b: "pt bm pid = Some b" "in_use b" "x = unat (buf_id b)"
    by (auto simp: bm_at_def bm_held_def split: option.splits if_splits)
  from assms(1) have ok: "frame_ok M W E bm pid b" using bm_invD(5) b(1) by (simp add: bm_at_def)
  then have "\<not> io_lock b" using b(2) by (auto simp: frame_ok_def)
  with that b ok assms(1) show ?thesis by (auto simp: bm_at_def bm_view_def)
qed

text \<open>Writing back an entry whose frame and lock are the same.\<close>

lemma buf_set_at:
  assumes at: "bm_at W E n0 F R f n H M bm" and old: "pt bm pid = Some b" and id: "buf_id c = buf_id b" "io_lock c = io_lock b"
    and tab: "rh_inv (rh_set_val i c (bm_page_table bm))"
      "rh_abs (rh_set_val i c (bm_page_table bm)) = (pt bm)(pid \<mapsto> c)"
    and M: "M' - {pid} = M - {pid}" and ok: "frame_ok M' W E bm pid c"
  shows "bm_at W E n0 F R f n (H(pid := if in_use c then Some (unat (buf_id c)) else None)) M' (buf_set i c bm)"
proof -
  have p: "pt (buf_set i c bm) = (pt bm)(pid \<mapsto> c)" using tab by (simp add: buf_set_def)
  have "bm_inv M' W E (buf_set i c bm)"
    by (rule buf_set_inv [OF _ old id(1) tab M ok]) (use at in \<open>simp add: bm_at_def\<close>)
  moreover have "bm_view (buf_set i c bm) q = bm_view bm q" for q
    unfolding bm_view_def p using old id by (simp split: option.split)
  moreover have "bm_held (buf_set i c bm) q = ((bm_held bm)(pid := if in_use c then Some (unat (buf_id c)) else None)) q" for q
    unfolding bm_held_def p by simp
  moreover have "frame_of (buf_set i c bm) q = frame_of bm q" for q
    unfolding frame_of_def p using old id by simp
  moreover have "ready (buf_set i c bm) q = ready bm q" for q
    unfolding ready_def p using old id by simp
  ultimately show ?thesis using at by (simp add: bm_at_def fun_eq_iff)
qed

lemma fix_entry_at:
  assumes at: "bm_at W E n0 F R f n H M bm" and b: "pt bm pid = Some b" and op: "\<not> io_lock b"
    and tab: "rh_inv (rh_set_val i c (bm_page_table bm))" "rh_abs (rh_set_val i c (bm_page_table bm)) = (pt bm)(pid \<mapsto> c)"
    and c: "buf_id c = buf_id b" "in_use c" "io_lock c = io_lock b" "evicting c = evicting b" "dirty b \<Longrightarrow> dirty c"
  shows "bm_at W E n0 F R f n (H(pid \<mapsto> unat (buf_id b))) M (buf_set i c bm)"
proof -
  have "frame_ok M W E bm pid b" using at b bm_invD(5) by (simp add: bm_at_def)
  then have ok: "frame_ok M W E bm pid c" using op c by (auto simp: frame_ok_def)
  from buf_set_at [OF at b c(1,3) tab refl ok] c show ?thesis by simp
qed

lemma fixS_at:
  assumes at: "bm_at W E n0 F R f n H M bm" and free: "H pid = None"
  shows "(\<exists>bm'. fixS pid bm = Inr (None, bm') \<and> bm_at W E n0 F R f n H M bm' \<and> pid \<notin> R) \<or>
    (\<exists>b bm'. fixS pid bm = Inr (Some b, bm') \<and> bm_at W E n0 F R f n (H(pid \<mapsto> b)) M bm')"
proof -
  let ?bm = "bm\<lparr>bm_fixes := bm_fixes bm + 1\<rparr>"
  have at1: "bm_at W E n0 F R f n H M ?bm" using at by simp
  then have inv: "bm_inv M W E ?bm" by (simp add: bm_at_def)
  from bm_invD(1) [OF inv] show ?thesis
  proof (cases rule: rh_find_cases [where k = pid])
    case absent
    then have "pid \<notin> R" using at by (auto simp: bm_at_def ready_def)
    with absent at show ?thesis by (simp add: fixS_def Let_def)
  next
    case (present i)
    let ?b = "buf_at i ?bm"
    have b: "pt ?bm pid = Some ?b" using present(2) by (simp add: buf_at_def)
    have use: "\<not> in_use ?b" using free at1 b by (auto simp: bm_at_def bm_held_def split: if_splits)
    show ?thesis
    proof (cases "io_lock ?b")
      case True
      then have "pid \<notin> R" using at1 b by (auto simp: bm_at_def ready_def)
      with True at present(1) show ?thesis by (simp add: fixS_def Let_def)
    next
      case False
      let ?c = "set_marked True (set_in_use True ?b)"
      have "bm_at W E n0 F R f n (H(pid \<mapsto> unat (buf_id ?b))) M (buf_set i ?c ?bm)"
        by (rule fix_entry_at [OF at1 b False present(3,4)]) (simp_all add: buf_simps)
      moreover have "isValidPtr 0 (buf_set i ?c ?bm)" using bm_invD(2) [OF inv] by (simp add: isValidPtr_def)
      ultimately show ?thesis using present(1) False use by (simp add: fixS_def Let_def check_def)
    qed
  qed
qed

lemma fixX_at:
  assumes at: "bm_at W E n0 F R f n H M bm" and free: "H pid = None"
  shows "(\<exists>bm'. fixX pid bm = Inr (None, bm') \<and> bm_at W E n0 F R f n H M bm' \<and> pid \<notin> R) \<or>
    (\<exists>b bm'. fixX pid bm = Inr (Some b, bm') \<and> bm_at W E n0 F R f n (H(pid \<mapsto> b)) M bm')"
proof -
  let ?bm = "bm\<lparr>bm_fixes := bm_fixes bm + 1\<rparr>"
  have at1: "bm_at W E n0 F R f n H M ?bm" using at by simp
  then have inv: "bm_inv M W E ?bm" by (simp add: bm_at_def)
  from bm_invD(1) [OF inv] show ?thesis
  proof (cases rule: rh_find_cases [where k = pid])
    case absent
    then have "pid \<notin> R" using at by (auto simp: bm_at_def ready_def)
    with absent at show ?thesis by (simp add: fixX_def Let_def)
  next
    case (present i)
    let ?b = "buf_at i ?bm"
    have b: "pt ?bm pid = Some ?b" using present(2) by (simp add: buf_at_def)
    have use: "\<not> in_use ?b" using free at1 b by (auto simp: bm_at_def bm_held_def split: if_splits)
    show ?thesis
    proof (cases "io_lock ?b")
      case True
      then have "pid \<notin> R" using at1 b by (auto simp: bm_at_def ready_def)
      with True at present(1) show ?thesis by (simp add: fixX_def Let_def)
    next
      case False
      let ?c = "set_dirty True (set_marked True (set_in_use True ?b))"
      have "bm_at W E n0 F R f n (H(pid \<mapsto> unat (buf_id ?b))) M (buf_set i ?c ?bm)"
        by (rule fix_entry_at [OF at1 b False present(3,4)]) (simp_all add: buf_simps)
      moreover have "isValidPtr 0 (buf_set i ?c ?bm)" using bm_invD(2) [OF inv] by (simp add: isValidPtr_def)
      ultimately show ?thesis using present(1) False use by (simp add: fixX_def Let_def check_def)
    qed
  qed
qed

text \<open>The entry of a fixed page as \<open>find\<close> gives it.\<close>

lemma held_entry:
  assumes at: "bm_at W E n0 F R f n H M bm" and held: "H pid = Some x"
  obtains i where "rh_find pid (bm_page_table bm) = Some i" "pt bm pid = Some (buf_at i bm)" "in_use (buf_at i bm)"
    "\<not> io_lock (buf_at i bm)" "x = unat (buf_id (buf_at i bm))" "frame_ok M W E bm pid (buf_at i bm)"
    "\<And>w. rh_inv (rh_set_val i w (bm_page_table bm))" "\<And>w. rh_abs (rh_set_val i w (bm_page_table bm)) = (pt bm)(pid \<mapsto> w)"
proof -
  from at held obtain b where b: "pt bm pid = Some b" "in_use b" "\<not> io_lock b" "x = unat (buf_id b)" "frame_ok M W E bm pid b"
    by (rule heldD)
  from at have "rh_inv (bm_page_table bm)" using bm_invD(1) unfolding bm_at_def by blast
  then show ?thesis
  proof (cases rule: rh_find_cases [where k = pid])
    case absent
    with b(1) show ?thesis by simp
  next
    case (present i)
    have "b = buf_at i bm" using present(2) b(1) by (simp add: buf_at_def)
    with b present(1,3,4) that show ?thesis by blast
  qed
qed

lemma unfixS_at:
  assumes at: "bm_at W E n0 F R f n H M bm" and held: "H pid = Some x" and M: "pid \<notin> M"
  shows "\<exists>bm'. unfixS pid bm = Inr bm' \<and> bm_at W E n0 F R f n (H(pid := None)) M bm'"
  using at held
proof (cases rule: held_entry)
  case (1 i)
  let ?c = "set_marked True (set_in_use False (buf_at i bm))"
  have ok: "frame_ok M W E bm pid ?c" using 1(4,6) by (simp add: frame_ok_def buf_simps)
  have "bm_at W E n0 F R f n (H(pid := if in_use ?c then Some (unat (buf_id ?c)) else None)) M (buf_set i ?c bm)"
    by (rule buf_set_at [OF at 1(2) _ _ 1(7,8) refl ok]) (simp_all add: buf_simps)
  moreover have "unfixS pid bm = Inr (buf_set i ?c bm)" using 1(1,3) by (simp add: unfixS_def Let_def check_def)
  ultimately show ?thesis by (simp add: buf_simps)
qed

lemma unfixX_at:
  assumes at: "bm_at W E n0 F R f n H M bm" and held: "H pid = Some x"
  shows "\<exists>bm'. unfixX pid bm = Inr bm' \<and> bm_at W E n0 F R f n (H(pid := None)) (M - {pid}) bm'"
  using at held
proof (cases rule: held_entry)
  case (1 i)
  let ?c = "set_marked True (set_dirty True (set_in_use False (buf_at i bm)))"
  have ok: "frame_ok (M - {pid}) W E bm pid ?c" using 1(4,6) by (simp add: frame_ok_def buf_simps)
  have "bm_at W E n0 F R f n (H(pid := if in_use ?c then Some (unat (buf_id ?c)) else None)) (M - {pid}) (buf_set i ?c bm)"
    by (rule buf_set_at [OF at 1(2) _ _ 1(7,8) _ ok]) (auto simp add: buf_simps)
  moreover have "unfixX pid bm = Inr (buf_set i ?c bm)"
    using 1(1,3,4) by (simp add: unfixX_def Let_def check_def buf_simps)
  ultimately show ?thesis by (simp add: buf_simps)
qed

lemma store_at:
  assumes at: "bm_at W E n0 F R f n H M bm" and held: "H pid = Some x"
  shows "bm_at W E n0 F R (f(pid := p)) n H (insert pid M) (page_store x p bm)"
proof -
  from at held obtain b where b: "pt bm pid = Some b" "in_use b" "\<not> io_lock b" "x = unat (buf_id b)" "frame_ok M W E bm pid b"
    by (rule heldD)
  from at have inv: "bm_inv M W E bm" by (simp add: bm_at_def)
  have x: "x < length (bm_pages bm)" using b(4,5) bm_invD(4) [OF inv] by (simp add: frame_ok_def)
  have other: "unat (buf_id c) \<noteq> x" if "pt bm q = Some c" "q \<noteq> pid" for q c
    using frame_inj [OF inv that(1) b(1)] that(2) b(4) by (auto simp: word_unat_eq_iff)
  have fr: "frame_ok (insert pid M) W E (page_store x p bm) q c" if "pt bm q = Some c" for q c
    using bm_invD(5) [OF inv that] other [OF that] by (cases "q = pid") (auto simp: frame_ok_def page_store_def)
  have fields: "bm_page_table (page_store x p bm) = bm_page_table bm" "bm_page_count (page_store x p bm) = bm_page_count bm"
    "bm_frames (page_store x p bm) = bm_frames bm" "length (bm_pages (page_store x p bm)) = length (bm_pages bm)"
    "bm_freeList (page_store x p bm) = bm_freeList bm" "bm_physUsedCount (page_store x p bm) = bm_physUsedCount bm"
    "bm_allocCount (page_store x p bm) = bm_allocCount bm"
    by (simp_all add: page_store_def)
  have "bm_inv (insert pid M) W E (page_store x p bm)"
    using inv fr unfolding bm_inv_def fields by blast
  moreover have "bm_view (page_store x p bm) q = ((bm_view bm)(pid := p)) q" for q
  proof (cases "q = pid")
    case True
    then show ?thesis using b x by (simp add: bm_view_def page_store_def)
  next
    case False
    have "(bm_pages bm)[x := p] ! unat (buf_id c) = bm_pages bm ! unat (buf_id c)" if "pt bm q = Some c" for c
      using other [OF that False] by simp
    with False show ?thesis by (simp add: bm_view_def page_store_def split: option.split)
  qed
  moreover have "bm_held (page_store x p bm) = bm_held bm" unfolding bm_held_def fields by (rule refl)
  moreover have "frame_of (page_store x p bm) = frame_of bm" unfolding frame_of_def fields by (rule refl)
  moreover have "ready (page_store x p bm) = ready bm" unfolding ready_def fields by (rule refl)
  ultimately show ?thesis using at by (simp add: bm_at_def fun_eq_iff fields)
qed

lemma page_at:
  assumes at: "bm_at W E n0 F R f n H M bm" and held: "H pid = Some x"
  shows "bm_pages bm ! x = f pid \<and> pid < n"
proof -
  from at held obtain b where "frame_ok M W E bm pid b" "f pid = bm_pages bm ! x" by (rule heldD)
  with at show ?thesis by (simp add: bm_at_def frame_ok_def)
qed

subsection \<open>Taking a frame for a page\<close>

text \<open>
  The first free frame becomes the frame of page \<open>pid\<close>, with entry \<open>c\<close>, waiting list \<open>ws\<close> and contents
  \<open>x\<close>. \<open>allocPage\<close> and \<open>handleFault\<close> both do this.
\<close>

definition take_frame :: "PID \<Rightarrow> u64 \<Rightarrow> nat list \<Rightarrow> Page \<Rightarrow> u64 \<Rightarrow> u64 RHMap \<Rightarrow> BufferManager \<Rightarrow> BufferManager" where
  "take_frame pid bid ws x n' t bm = bm\<lparr>bm_freeList := tl (bm_freeList bm), bm_physUsedCount := bm_physUsedCount bm + 1,
     bm_allocCount := n', bm_page_table := t, bm_pages := (bm_pages bm)[unat bid := x],
     bm_frames := (bm_frames bm)[unat bid := \<lparr>bf_pid = pid, bf_waiting = ws\<rparr>]\<rparr>"

lemma take_frame_fields:
  "bm_page_table (take_frame pid bid ws x n' t bm) = t" "bm_page_count (take_frame pid bid ws x n' t bm) = bm_page_count bm"
  "bm_freeList (take_frame pid bid ws x n' t bm) = tl (bm_freeList bm)"
  "bm_frames (take_frame pid bid ws x n' t bm) = (bm_frames bm)[unat bid := \<lparr>bf_pid = pid, bf_waiting = ws\<rparr>]"
  "bm_pages (take_frame pid bid ws x n' t bm) = (bm_pages bm)[unat bid := x]"
  "bm_ssd (take_frame pid bid ws x n' t bm) = bm_ssd bm" "bm_allocCount (take_frame pid bid ws x n' t bm) = n'"
  "bm_physUsedCount (take_frame pid bid ws x n' t bm) = bm_physUsedCount bm + 1"
  by (simp_all add: take_frame_def)

lemma take_frame_inv:
  assumes inv: "bm_inv M W E bm" and free: "bm_freeList bm = bid # rest" and new: "pt bm pid = None"
    and t: "rh_inv t" "rh_abs t = (pt bm)(pid \<mapsto> c)" and c: "buf_id c = bid" "\<not> evicting c"
    and n: "pid < n'" "bm_allocCount bm \<le> n'"
    and lock: "if io_lock c then \<not> in_use c \<and> \<not> dirty c \<and> ws \<noteq> [] else dirty c"
  shows "bm_inv M W E (take_frame pid bid ws x n' t bm)"
proof -
  let ?bm = "take_frame pid bid ws x n' t bm"
  have frames: "length (bm_frames bm) = bm_page_count bm" "length (bm_pages bm) = bm_page_count bm"
    by (rule bm_invD [OF inv])+
  from inv free have bid: "unat bid < bm_page_count bm" "bid \<notin> set rest" "distinct rest"
    "\<forall>bid \<in> set rest. unat bid < bm_page_count bm" by (auto simp: bm_inv_def)
  have other: "buf_id d \<noteq> bid" if "pt bm q = Some d" for q d
    using bm_invD(5) [OF inv that] free by (auto simp: frame_ok_def)
  have nE: "bid \<notin> E" using inv other unfolding bm_inv_def by blast
  have "frame_ok M W E ?bm q d" if "q \<noteq> pid" "pt bm q = Some d" for q d
  proof -
    have ne: "unat (buf_id d) \<noteq> unat bid" using other [OF that(2)] by (simp add: word_unat_eq_iff)
    from bm_invD(5) [OF inv that(2)] ne n(2) free show ?thesis
      unfolding frame_ok_def take_frame_fields by (auto simp: less_le_trans)
  qed
  moreover have "frame_ok M W E ?bm pid c"
    using bid c n lock nE frames free by (auto simp: frame_ok_def take_frame_fields split: if_splits)
  ultimately have all: "\<forall>q d. pt ?bm q = Some d \<longrightarrow> frame_ok M W E ?bm q d"
    unfolding take_frame_fields t(2) by simp
  have E: "\<forall>bid \<in> E. \<exists>q d. pt ?bm q = Some d \<and> buf_id d = bid"
  proof
    fix e
    assume "e \<in> E"
    then obtain q d where q: "pt bm q = Some d" "buf_id d = e" using inv unfolding bm_inv_def by blast
    with new have "pt ?bm q = Some d" unfolding take_frame_fields t(2) by auto
    with q(2) show "\<exists>q d. pt ?bm q = Some d \<and> buf_id d = e" by blast
  qed
  have cover: "of_nat i \<in> set rest \<or> (\<exists>q d. pt ?bm q = Some d \<and> unat (buf_id d) = i)" if i: "i < bm_page_count bm" for i
  proof -
    from inv i free consider "of_nat i = bid" | "of_nat i \<in> set rest" | q d where "pt bm q = Some d" "unat (buf_id d) = i"
      by (auto simp: bm_inv_def)
    then show ?thesis
    proof cases
      case 1
      have "i < 2 ^ 64" using i inv by (simp add: bm_inv_def)
      then have "unat bid = i" using 1 [symmetric] by (auto simp: unat_of_nat take_bit_nat_eq_self)
      moreover have "pt ?bm pid = Some c" unfolding take_frame_fields t(2) by simp
      ultimately show ?thesis using c(1) by blast
    next
      case (3 q d)
      with new have "pt ?bm q = Some d" unfolding take_frame_fields t(2) by auto
      with 3(2) show ?thesis by blast
    qed simp
  qed
  have count: "of_nat (bm_page_count bm) = bm_physUsedCount bm + 1 + of_nat (length rest)"
    using inv free by (simp add: bm_inv_def)
  show ?thesis
    unfolding bm_inv_def take_frame_fields(1-5,8) length_list_update
    using inv t(1) frames bid(3,4) all E cover count free
    unfolding bm_inv_def take_frame_fields(1) by (simp add: bm_inv_def)
qed

lemma take_frame_view:
  assumes inv: "bm_inv M W E bm" and free: "bm_freeList bm = bid # rest" and new: "pt bm pid = None"
    and t: "rh_abs t = (pt bm)(pid \<mapsto> c)" and c: "buf_id c = bid"
  shows "bm_view (take_frame pid bid ws x n' t bm) = (bm_view bm)(pid := if io_lock c then bm_ssd bm pid else x)"
    and "bm_held (take_frame pid bid ws x n' t bm) = (bm_held bm)(pid := if in_use c then Some (unat bid) else None)"
    and "\<And>q. q \<noteq> pid \<Longrightarrow> frame_of (take_frame pid bid ws x n' t bm) q = frame_of bm q"
    and "\<And>q. ready bm q \<Longrightarrow> ready (take_frame pid bid ws x n' t bm) q"
proof -
  have other: "unat (buf_id d) \<noteq> unat bid" if "pt bm q = Some d" for q d
    using bm_invD(5) [OF inv that] free by (auto simp: frame_ok_def word_unat_eq_iff [symmetric])
  have bid: "unat bid < length (bm_pages bm)" using inv free by (simp add: bm_inv_def)
  show "bm_view (take_frame pid bid ws x n' t bm) = (bm_view bm)(pid := if io_lock c then bm_ssd bm pid else x)"
  proof
    fix q
    show "bm_view (take_frame pid bid ws x n' t bm) q = ((bm_view bm)(pid := if io_lock c then bm_ssd bm pid else x)) q"
    proof (cases "q = pid")
      case True
      then show ?thesis using c bid by (simp add: bm_view_def take_frame_fields t)
    next
      case False
      have "(bm_pages bm)[unat bid := x] ! unat (buf_id d) = bm_pages bm ! unat (buf_id d)" if "pt bm q = Some d" for d
        using other [OF that] by simp
      with False show ?thesis by (simp add: bm_view_def take_frame_fields t split: option.split)
    qed
  qed
  show "bm_held (take_frame pid bid ws x n' t bm) = (bm_held bm)(pid := if in_use c then Some (unat bid) else None)"
    by (rule ext) (simp add: bm_held_def take_frame_fields t c)
  show "q \<noteq> pid \<Longrightarrow> frame_of (take_frame pid bid ws x n' t bm) q = frame_of bm q" for q
    by (simp add: frame_of_def take_frame_fields t)
  show "ready bm q \<Longrightarrow> ready (take_frame pid bid ws x n' t bm) q" for q
    using new by (auto simp: ready_def take_frame_fields t)
qed

lemma rh_insert_key: "rh_insert k v m = Inr r \<Longrightarrow> k \<noteq> NOT 0"
  by (auto simp: rh_insert_def EMPTY_KEY_def check_def split: if_splits)

lemma allocPage_at:
  assumes at: "bm_at W E n0 F R f n H M bm"
  shows "(\<exists>e. allocPage bm = Inl e \<and> table_fail e) \<or>
    (\<exists>bm'. allocPage bm = Inr (None, bm') \<and> bm_at W E n0 F R f n H M bm') \<or>
    (\<exists>b bm'. allocPage bm = Inr (Some b, bm') \<and> H n = None \<and> n \<noteq> moved \<and>
      bm_at W E n0 F R (f(n := ZeroPage)) (n + 1) (H(n \<mapsto> b)) M bm')"
proof -
  let ?bm = "ensureFreePages bm"
  have at1: "bm_at W E n0 F R f n H M ?bm" using at by simp
  then have inv: "bm_inv M W E ?bm" and n: "bm_allocCount ?bm = n" and fH: "bm_view ?bm = f" "bm_held ?bm = H"
    and F: "n0 \<le> n" "\<forall>pid < n0. frame_of ?bm pid = F pid" and R: "\<forall>pid \<in> R. ready ?bm pid"
    by (simp_all add: bm_at_def)
  show ?thesis
  proof (cases "bm_freeList ?bm")
    case Nil
    with at show ?thesis by (simp add: allocPage_def Let_def)
  next
    case (Cons bid rest)
    let ?c = "set_marked True (set_in_use True (set_dirty True (buf_new bid)))"
    have new: "pt ?bm n = None"
    proof (rule ccontr)
      assume "pt ?bm n \<noteq> None"
      then obtain b where "pt ?bm n = Some b" by blast
      from bm_invD(5) [OF inv this] n show False by (simp add: frame_ok_def)
    qed
    have small: "unat bid < 2 ^ 59" and bid: "unat bid < bm_page_count ?bm" using inv Cons by (auto simp: bm_inv_def)
    have id: "buf_id ?c = bid" using buf_id_new [OF small] by (simp add: buf_simps)
    from bm_invD(1) [OF inv] new show ?thesis
    proof (cases rule: rh_insert_cases [where v = ?c])
      case (full e)
      then show ?thesis using Cons n by (simp add: allocPage_def Let_def)
    next
      case (inserted t)
      let ?r = "take_frame n bid [] ZeroPage (n + 1) t ?bm"
      note nmax = rh_insert_key [OF inserted(1)]
      have inv': "bm_inv M W E ?r"
        by (rule take_frame_inv [OF inv Cons new inserted(2,3) id])
          (use word_less_next(2) [OF nmax] n in \<open>auto simp: buf_simps less_imp_le\<close>)
      note v = take_frame_view [OF inv Cons new inserted(3) id, where ws = "[]" and x = ZeroPage and n' = "n + 1"]
      have "allocPage bm = Inr (Some (unat bid), ?r)"
        using Cons inserted(1) n bid by (simp add: allocPage_def Let_def check_def isValidPtr_def take_frame_def)
      moreover have "bm_at W E n0 F R (f(n := ZeroPage)) (n + 1) (H(n \<mapsto> unat bid)) M ?r"
        using inv' v fH F R order_trans [OF F(1) less_imp_le [OF word_less_next(2) [OF nmax]]]
        by (auto simp: bm_at_def take_frame_fields buf_simps)
      moreover have "H n = None" using new fH(2) by (auto simp: bm_held_def)
      ultimately show ?thesis using nmax by (auto simp: moved_def)
    qed
  qed
qed

lemma frame_at:
  assumes at: "bm_at W E n0 F R f n H M bm" and "H pid = Some x" and "pid < n0"
  shows "F pid = Some x"
proof -
  from assms(1,2) obtain b where "pt bm pid = Some b" "x = unat (buf_id b)" by (rule heldD)
  with assms(1,3) show ?thesis by (auto simp: bm_at_def frame_of_def)
qed

lemma frame_at_inj:
  assumes at: "bm_at W E n0 F R f n H M bm" and F: "F p = Some b" "F q = Some b" and l: "p < n0" "q < n0"
  shows "p = q"
proof -
  have "frame_of bm p = Some b" "frame_of bm q = Some b" using at F l by (auto simp: bm_at_def)
  then obtain c d where "pt bm p = Some c" "pt bm q = Some d" "unat (buf_id c) = unat (buf_id d)"
    by (auto simp: frame_of_def)
  then show ?thesis using at frame_inj [of M W E bm p c q d] by (simp add: bm_at_def word_unat_eq_iff)
qed

interpretation bm_buffer: page_frames bm_ops "bm_at W E n0 F R" table_fail R n0 F for W E n0 F R
proof (unfold_locales, unfold bm_opsD, goal_cases)
  case 1
  then show ?case by (rule fixS_at)
next
  case 2
  then show ?case by (rule fixX_at)
next
  case 3
  then show ?case by (rule unfixS_at)
next
  case 4
  then show ?case by (rule unfixX_at)
next
  case 5
  then show ?case by (rule allocPage_at)
next
  case 6
  then show ?case by (simp add: bm_at_def)
next
  case 7
  then show ?case by (rule page_at)
next
  case 8
  then show ?case by (rule store_at)
next
  case 9
  then show ?case by (rule frame_at)
next
  case 10
  then show ?case by (rule frame_at_inj)
qed

interpretation bm_frames: frame_buffer bm_ops "bm_at W E" table_fail for W E
  by unfold_locales (auto simp: bm_at_def)

text \<open>No more pages are in memory than there are frames.\<close>

lemma resident_le_frames:
  assumes "bm_inv M W E bm"
  shows "rh_sz (bm_page_table bm) \<le> bm_page_count bm"
proof -
  let ?g = "\<lambda>p. unat (buf_id (the (pt bm p)))"
  have "inj_on ?g (dom (pt bm))"
  proof (rule inj_onI)
    fix p q
    assume "p \<in> dom (pt bm)" "q \<in> dom (pt bm)" and eq: "?g p = ?g q"
    then obtain b c where bc: "pt bm p = Some b" "pt bm q = Some c" by blast
    then have "buf_id b = buf_id c" using eq by (simp add: word_unat_eq_iff)
    then show "p = q" by (rule frame_inj [OF assms bc])
  qed
  moreover have "?g ` dom (pt bm) \<subseteq> {..<bm_page_count bm}" 
  proof
    fix x
    assume "x \<in> ?g ` dom (pt bm)"
    then obtain p b where "pt bm p = Some b" "x = unat (buf_id b)" by force
    with bm_invD(5) [OF assms this(1)] show "x \<in> {..<bm_page_count bm}" by (simp add: frame_ok_def)
  qed
  ultimately have "card (dom (pt bm)) \<le> card {..<bm_page_count bm}" by (metis card_inj_on_le finite_lessThan)
  then show ?thesis using rh_sz_dom [OF bm_invD(1) [OF assms]] by simp
qed

end
