(* ===== verification/Tree_Idle.thy ===== *)
theory Tree_Idle
  imports Buffer_Laws
begin

section \<open>The buffer manager between operations\<close>

text \<open>
  The states in which no page is fixed: the initial state of the buffer manager, and an example with
  a small tree.
\<close>

text \<open>
  \<open>idle W E R f bm\<close>: no page is fixed, the pages hold \<open>f\<close>, the pages \<open>R\<close> are in memory, and the evictor
  has chosen the frames \<open>E\<close>, those of \<open>W\<close> with a pending write.
\<close>

definition idle :: "BID set \<Rightarrow> BID set \<Rightarrow> PID set \<Rightarrow> (PID \<Rightarrow> Page) \<Rightarrow> BufferManager \<Rightarrow> bool" where
  "idle W E R f bm \<longleftrightarrow> bm_at W E 0 Map.empty R f (bm_allocCount bm) Map.empty {} bm"

lemma idleI: "bm_at W E n0 F R f n Map.empty {} bm \<Longrightarrow> idle W E R f bm \<and> bm_allocCount bm = n"
  by (auto simp: idle_def bm_at_def)

lemma idle_record: "idle W E R f bm \<Longrightarrow> bm_allocCount bm = n \<Longrightarrow> \<exists>F. bm_at W E n F R f n Map.empty {} bm"
  unfolding idle_def using bm_frames.record_law by blast

subsection \<open>The initial state\<close>

lemma bm_init_idle:
  assumes init: "bm_init page_count slots evict_batch free_target ssd = Inr bm" and pc: "0 < page_count" "page_count < 2 ^ 59"
  shows "idle {} {} {0} (ssd(0 := ZeroPage)) bm" and "bm_allocCount bm = 1" and "bm_freeList bm = map of_nat [1..<page_count]"
    and "\<exists>sz. next_pow2 slots = Inr sz \<and> rh_n (bm_page_table bm) = unat sz"
proof -
  let ?buf = "set_marked True (set_dirty True (buf_new 0))"
  from init obtain sz t0 t where n: "next_pow2 slots = Inr sz" and t0: "rh_new 0 (unat sz) = Inr t0" and t: "rh_insert 0 ?buf t0 = Inr (True, t)"
    and bm: "bm = \<lparr>bm_page_count = page_count, bm_evict_batch = evict_batch, bm_free_target = free_target,
      bm_allocCount = 1, bm_physUsedCount = 1, bm_page_table = t,
      bm_frames = replicate page_count \<lparr>bf_pid = 0, bf_waiting = []\<rparr>,
      bm_pages = replicate page_count ZeroPage, bm_freeList = map of_nat [1..<page_count],
      bm_readCount = 0, bm_writeCount = 0, bm_fixes = 0, bm_restarts = 0, bm_restart_ctx = PageFaultException 0,
      bm_eviction_fiber = \<lparr>sf_stop = False, sf_running = False, sf_ctx = None\<rparr>, bm_ssd = ssd\<rparr>"
    by (auto simp: bm_init_def Let_def check_def split: if_splits)
  from rh_new_correct [OF t0] rh_insert_result [OF _ t] have tab: "rh_inv t" "rh_abs t = [0 \<mapsto> ?buf]"
    by (auto simp: fun_eq_iff)
  have id: "buf_id ?buf = 0" using buf_id_new [of 0] by (simp add: buf_simps)
  have small: "unat (of_nat i :: u64) = i" if "i < page_count" for i
    using that pc(2) by (simp add: unat_of_nat take_bit_nat_eq_self)
  have p: "pt bm = [0 \<mapsto> ?buf]" using tab(2) by (simp add: bm)
  have free: "set (bm_freeList bm) = of_nat ` {1..<page_count}" by (simp add: bm)
  have zero: "(0 :: u64) \<notin> set (bm_freeList bm)"
  proof
    assume "(0 :: u64) \<in> set (bm_freeList bm)"
    then obtain i where "1 \<le> i" "i < page_count" "(of_nat i :: u64) = 0" unfolding free by auto
    with small [of i] show False by simp
  qed
  have dist: "distinct (bm_freeList bm)" using small by (auto simp: bm distinct_map intro!: inj_onI) metis
  have frame: "frame_ok {} {} {} bm 0 ?buf" using zero pc id by (simp add: frame_ok_def buf_simps bm)
  have cover: "of_nat i \<in> set (bm_freeList bm) \<or> (\<exists>pid b. pt bm pid = Some b \<and> unat (buf_id b) = i)" if "i < page_count" for i
    using that id p unfolding free by (cases i) (auto simp del: of_nat_Suc)
  have count: "of_nat page_count = (1 :: u64) + of_nat (length (bm_freeList bm))"
    using pc(1) by (simp add: bm of_nat_diff Suc_le_eq)
  have inv: "bm_inv {} {} {} bm"
    using tab(1) pc dist frame cover count small p free unfolding bm_inv_def by (auto simp: bm)
  moreover have "bm_view bm = ssd(0 := ZeroPage)"
  proof
    fix q
    have "unat (buf_id ?buf) = 0" "\<not> io_lock ?buf" using id by (simp_all add: buf_simps)
    then show "bm_view bm q = (ssd(0 := ZeroPage)) q" unfolding bm_view_def p using pc(1) by (simp add: bm)
  qed
  moreover have "bm_held bm = Map.empty" unfolding bm_held_def [abs_def] p by (auto simp: buf_simps)
  moreover have "ready bm 0" unfolding ready_def p by (simp add: buf_simps)
  ultimately show "idle {} {} {0} (ssd(0 := ZeroPage)) bm" by (simp add: idle_def bm_at_def)
  show "bm_allocCount bm = 1" "bm_freeList bm = map of_nat [1..<page_count]" by (simp_all add: bm)
  show "\<exists>sz. next_pow2 slots = Inr sz \<and> rh_n (bm_page_table bm) = unat sz"
    using n rh_new_correct [OF t0] rh_insert_result [OF _ t] by (auto simp: bm)
qed

subsection \<open>An example\<close>

text \<open>
  Three frames; page 0 is the metadata page and page 1 a leaf with the keys \<open>a\<close> and \<open>b\<close>, both in memory and
  dirty.
\<close>

definition demo_leaf :: BTreeNode where
  "demo_leaf = page_with True [] [] noNeighbour [([97], [1]), ([98], [2])]"

definition demo_entry :: "BID \<Rightarrow> u64" where
  "demo_entry bid = set_marked True (set_dirty True (buf_new bid))"

definition demo_table :: "u64 RHMap" where
  "demo_table = snd (projr (rh_insert 1 (demo_entry 1) (snd (projr (rh_insert 0 (demo_entry 0) (projr (rh_new 0 4)))))))"

definition demo_bm :: BufferManager where
  "demo_bm = \<lparr>bm_page_count = 3, bm_evict_batch = 1, bm_free_target = 0, bm_allocCount = 2, bm_physUsedCount = 2,
     bm_page_table = demo_table,
     bm_frames = [\<lparr>bf_pid = 0, bf_waiting = []\<rparr>, \<lparr>bf_pid = 1, bf_waiting = []\<rparr>, \<lparr>bf_pid = 0, bf_waiting = []\<rparr>],
     bm_pages = [MetaPage [1], NodePage demo_leaf, ZeroPage], bm_freeList = [2],
     bm_readCount = 0, bm_writeCount = 0, bm_fixes = 0, bm_restarts = 0, bm_restart_ctx = AllocException,
     bm_eviction_fiber = \<lparr>sf_stop = False, sf_running = False, sf_ctx = None\<rparr>, bm_ssd = (\<lambda>_. ZeroPage)\<rparr>"

definition demo_tree :: BTree where "demo_tree = \<lparr>bt_slotId = 0, bt_splitOrdered = False\<rparr>"

definition demo_pages :: "PID \<Rightarrow> Page" where
  "demo_pages = (\<lambda>_. ZeroPage)(0 := MetaPage [1], 1 := NodePage demo_leaf)"

lemma demo_leaf: "is_page True [] [] noNeighbour [([97], [1]), ([98], [2])] demo_leaf"
  unfolding demo_leaf_def by (rule page_with) (simp_all add: slotEnd_def layout_defs entry_len_def within_def)

lemma demo_table: "rh_inv demo_table" "rh_abs demo_table = [0 \<mapsto> demo_entry 0, 1 \<mapsto> demo_entry 1]" "rh_n demo_table = 4"
proof -
  have "\<exists>t0. rh_new (0 :: u64) 4 = Inr t0" by (simp add: rh_new_def)
  then obtain t0 where t0: "rh_new (0 :: u64) 4 = Inr t0" by blast
  note n = rh_new_correct [OF t0]
  have insert: "\<exists>t'. rh_insert k v t = Inr (True, t') \<and> rh_inv t' \<and> rh_abs t' = (rh_abs t)(k \<mapsto> v) \<and> rh_n t' = 4"
    if a: "rh_inv t" "rh_n t = 4" "card (dom (rh_abs t)) < 4" "k \<noteq> EMPTY_KEY" "rh_abs t k = None" for t k and v :: u64
  proof -
    obtain b t' where t': "rh_insert k v t = Inr (b, t')" using rh_insert_room [of t k v] rh_sz_dom [OF a(1)] a by auto
    with rh_insert_result [OF a(1) t'] a show ?thesis by simp
  qed
  obtain t1 where t1: "rh_insert 0 (demo_entry 0) t0 = Inr (True, t1)" "rh_inv t1" "rh_abs t1 = [0 \<mapsto> demo_entry 0]" "rh_n t1 = 4"
    using insert [of t0 0 "demo_entry 0"] n by (auto simp: EMPTY_KEY_def)
  obtain t2 where t2: "rh_insert 1 (demo_entry 1) t1 = Inr (True, t2)" "rh_inv t2" "rh_abs t2 = (rh_abs t1)(1 \<mapsto> demo_entry 1)" "rh_n t2 = 4"
    using insert [of t1 1 "demo_entry 1"] t1(2-4) by (auto simp: EMPTY_KEY_def)
  have "demo_table = t2" using t0 t1(1) t2(1) by (simp add: demo_table_def)
  with t1(3) t2 show "rh_inv demo_table" "rh_abs demo_table = [0 \<mapsto> demo_entry 0, 1 \<mapsto> demo_entry 1]" "rh_n demo_table = 4" by simp_all
qed

lemma demo_idle: "idle {} {} {0, 1} demo_pages demo_bm" "bm_allocCount demo_bm = 2"
proof -
  have id: "buf_id (demo_entry 0) = 0" "buf_id (demo_entry 1) = 1"
    using buf_id_new [of 0] buf_id_new [of 1] by (simp_all add: demo_entry_def buf_simps)
  have fl: "\<not> in_use (demo_entry b)" "dirty (demo_entry b)" "\<not> evicting (demo_entry b)" "\<not> io_lock (demo_entry b)" for b
    by (simp_all add: demo_entry_def buf_simps)
  have p: "pt demo_bm = [0 \<mapsto> demo_entry 0, 1 \<mapsto> demo_entry 1]" using demo_table(2) by (simp add: demo_bm_def)
  have fr: "frame_ok {} {} {} demo_bm 0 (demo_entry 0)" "frame_ok {} {} {} demo_bm 1 (demo_entry 1)"
    using id fl by (simp_all add: frame_ok_def demo_bm_def)
  have all: "\<forall>pid b. pt demo_bm pid = Some b \<longrightarrow> frame_ok {} {} {} demo_bm pid b" unfolding p using fr by (auto split: if_splits)
  have cover: "of_nat i \<in> set (bm_freeList demo_bm) \<or> (\<exists>pid b. pt demo_bm pid = Some b \<and> unat (buf_id b) = i)" if "i < 3" for i :: nat
  proof -
    from that consider "i = 0" | "i = 1" | "i = 2" by linarith
    moreover have "\<exists>pid b. pt demo_bm pid = Some b \<and> unat (buf_id b) = (0 :: nat)" unfolding p by (rule exI [of _ 0]) (simp add: id)
    moreover have "\<exists>pid b. pt demo_bm pid = Some b \<and> unat (buf_id b) = (1 :: nat)" unfolding p by (rule exI [of _ 1]) (simp add: id)
    ultimately show ?thesis by cases (simp_all add: demo_bm_def)
  qed
  have "bm_inv {} {} {} demo_bm"
    unfolding bm_inv_def using demo_table(1) all cover by (simp add: demo_bm_def)
  moreover have "bm_view demo_bm = demo_pages"
    unfolding bm_view_def [abs_def] p demo_pages_def using id fl by (auto simp: fun_eq_iff demo_bm_def)
  moreover have "bm_held demo_bm = Map.empty" unfolding bm_held_def [abs_def] p using fl by auto
  moreover have "ready demo_bm 0" "ready demo_bm 1" unfolding ready_def p using fl by auto
  ultimately show "idle {} {} {0, 1} demo_pages demo_bm" by (simp add: idle_def bm_at_def)
  show "bm_allocCount demo_bm = 2" by (simp add: demo_bm_def)
qed

lemma demo_tree:
  "tree_at 1 0 demo_tree demo_pages 2 1" "contents 0 demo_pages 1 = [[97] \<mapsto> [1], [98] \<mapsto> [2]]" "\<not> missing {0, 1} 0 demo_pages 1"
  "tree_pot 0 demo_pages 1 = 2" "fits_at 0 demo_pages 1 [99] [7]"
proof -
  note p = is_pageD [OF demo_leaf]
  have leaf: "leaf_node 1 demo_leaf [] []" using p by (simp add: leaf_node_def)
  have f: "demo_pages 1 = NodePage demo_leaf" "demo_pages 0 = MetaPage [1]" by (simp_all add: demo_pages_def)
  show "tree_at 1 0 demo_tree demo_pages 2 1" using leaf f by (simp add: tree_at_def demo_tree_def)
  show "contents 0 demo_pages 1 = [[97] \<mapsto> [1], [98] \<mapsto> [2]]" using f p(6) by (auto simp: contents_def fun_eq_iff)
  show "\<not> missing {0, 1} 0 demo_pages 1" by (simp add: missing_def)
  show "tree_pot 0 demo_pages 1 = 2" using f p(8) by simp
  have "hasSpaceFor (length [99 :: u8]) (length [7 :: u8]) demo_leaf \<or> length [99 :: u8] < bn_prefixLen demo_leaf"
    by (rule is_page_space [OF demo_leaf]) (simp_all add: slotEnd_def layout_defs entry_len_def)
  moreover have "bn_prefixLen demo_leaf = 0" using p(1,3,4) by (simp add: bn_inv_def bn_order_def)
  ultimately show "fits_at 0 demo_pages 1 [99] [7]" using f by (simp add: fits_at_def)
qed

end
