(* ===== verification/Tree_On_Buffer.thy ===== *)
theory Tree_On_Buffer
  imports Tree_Idle
begin

section \<open>Trees on the buffer manager\<close>

text \<open>
  The operations of the B-tree on the buffer manager itself: the attempts of lookup, update,
  insertion and removal, a new tree, and their composition. A tree (\<open>tree_at K h\<close>) here has keys of one length \<open>K\<close>, as the
  fixed-size keys of the workloads have, and entries of key and value together at most 789 bytes. \<^verbatim>\<open>BTree::insert\<close> accepts
  entries of up to 995 bytes; for those a leaf between two long fences can be full with two entries (\<open>full_leaf_no_room\<close>), and
  splitting it fails an assertion (see \<open>Btree_Page\<close>). With at most 789 bytes a full leaf has three entries.
\<close>

subsection \<open>The operations\<close>

lemma idle_at: "idle W E R f bm \<Longrightarrow> bm_at W E 0 Map.empty R f (bm_allocCount bm) Map.empty {} bm"
  by (simp add: idle_def)

lemma demo_at: "tree_at 1 0 demo_tree demo_pages (bm_allocCount demo_bm) 1"
  using demo_tree(1) demo_idle(2) by simp

text \<open>
  C2. An attempt of \<^verbatim>\<open>BTree::lookup\<close> (with an output buffer of \<open>sz\<close> bytes) on the buffer manager never
  fails on a tree (keys of one length, entries of at most 789 bytes), ends with every page unfixed and the pages as they were, and returns what the tree holds
  for the key: nothing, or the first bytes of the value and its length. It asks for a restart only
  when the metadata page or a page of the tree is not in memory.
\<close>

theorem lookup_correct:
  assumes "idle W E R f bm" and "tree_at K h bt f (bm_allocCount bm) rt" and "h < steps"
  shows "\<exists>out bm'. lookup bm_ops steps bt key sz bm = Inr (out, bm') \<and> idle W E R f bm' \<and> bm_allocCount bm' = bm_allocCount bm \<and>
    (out = Restart \<and> missing R h f rt \<or>
     out = Done (map_option (\<lambda>v. (take sz v, length v)) (contents h f rt key)))"
  using bm_buffer.lookup_rule [OF idle_at [OF assms(1)] assms(2,3), of key sz] idleI by blast

theorem lookup_correct_witness:
  "\<exists>bm'. lookup bm_ops 1 demo_tree [98] 64 demo_bm = Inr (Done (Some ([2], 1)), bm')"
proof -
  have c: "contents 0 demo_pages 1 [98] = Some [2]" unfolding demo_tree(2) by simp
  from lookup_correct [OF demo_idle(1) demo_at zero_less_one, of "[98]" 64] demo_tree(3)
  obtain bm' where "lookup bm_ops 1 demo_tree [98] 64 demo_bm = Inr (Done (map_option (\<lambda>v. (take 64 v, length v)) (contents 0 demo_pages 1 [98])), bm')"
    by blast
  then show ?thesis unfolding c by simp
qed

text \<open>
  C5. An attempt of \<^verbatim>\<open>BTree::updateInPlace\<close> on a tree (keys of one length, entries of at most 789 bytes) never fails when the callback keeps the length of the value.
  Without a restart, it changes the value of the key to what the callback made of it and nothing
  else in the tree, nor any page outside it; an absent key leaves every page as it was.
\<close>

theorem updateInPlace_correct:
  assumes "idle W E R f bm" and "tree_at K h bt f (bm_allocCount bm) rt" and "h < steps"
    and "\<And>v. contents h f rt key = Some v \<Longrightarrow> length (fn v) = length v"
  shows "\<exists>out bm' f'. updateInPlace bm_ops steps bt key fn bm = Inr (out, bm') \<and> idle W E R f' bm' \<and>
    bm_allocCount bm' = bm_allocCount bm \<and> tree_at K h bt f' (bm_allocCount bm) rt \<and> evolves bt h f (bm_allocCount bm) rt h f' rt \<and>
    (out = Restart \<and> f' = f \<and> missing R h f rt \<or> out = Done False \<and> f' = f \<and> contents h f rt key = None \<or>
     (\<exists>v. out = Done True \<and> contents h f rt key = Some v \<and> contents h f' rt = (contents h f rt)(key \<mapsto> fn v)))"
proof -
  from bm_buffer.updateInPlace_rule [OF idle_at [OF assms(1)] assms(2,3), of key fn] assms(4) obtain out bm' f' where
    run: "updateInPlace bm_ops steps bt key fn bm = Inr (out, bm')" "bm_at W E 0 Map.empty R f' (bm_allocCount bm) Map.empty {} bm'"
    and rest: "tree_at K h bt f' (bm_allocCount bm) rt" "evolves bt h f (bm_allocCount bm) rt h f' rt"
      "out = Restart \<and> f' = f \<and> missing R h f rt \<or> out = Done False \<and> f' = f \<and> contents h f rt key = None \<or>
       (\<exists>v. out = Done True \<and> contents h f rt key = Some v \<and> contents h f' rt = (contents h f rt)(key \<mapsto> fn v))"
    by auto
  with idleI [OF run(2)] show ?thesis by blast
qed

theorem updateInPlace_correct_witness:
  "\<exists>bm' f'. updateInPlace bm_ops 1 demo_tree [97] (map (\<lambda>b. b + 1)) demo_bm = Inr (Done True, bm') \<and>
    idle {} {} {0, 1} f' bm' \<and> contents 0 f' 1 = [[97] \<mapsto> [2], [98] \<mapsto> [2]]"
proof -
  let ?fn = "map (\<lambda>b. b + 1) :: bytes \<Rightarrow> bytes"
  have c: "contents 0 demo_pages 1 [97] = Some [1]" unfolding demo_tree(2) by simp
  have u: "([[97 :: u8] \<mapsto> [1], [98] \<mapsto> [2]])([97] \<mapsto> ?fn [1]) = [[97] \<mapsto> [2], [98] \<mapsto> [2]]" by (simp add: fun_eq_iff)
  have len: "length (?fn v) = length v" for v by simp
  from updateInPlace_correct [OF demo_idle(1) demo_at zero_less_one, of "[97]" ?fn, OF len] demo_tree(3) c
  obtain bm' f' v where r: "updateInPlace bm_ops 1 demo_tree [97] ?fn demo_bm = Inr (Done True, bm')" "idle {} {} {0, 1} f' bm'"
    and v: "contents 0 demo_pages 1 [97] = Some v" and e: "contents 0 f' 1 = (contents 0 demo_pages 1)([97] \<mapsto> ?fn v)"
    by auto
  have "v = [1]" using v c by simp
  with e u have "contents 0 f' 1 = [[97] \<mapsto> [2], [98] \<mapsto> [2]]" unfolding demo_tree(2) by (simp only:)
  with r show ?thesis by blast
qed

text \<open>
  The bodies a run of an insertion needs at most: between two splits of a page it can call
  \<^verbatim>\<open>ensureSpace\<close> once per level, and every split lowers \<open>tree_pot\<close>.
\<close>

definition insert_fuel :: "nat \<Rightarrow> (PID \<Rightarrow> Page) \<Rightarrow> PID \<Rightarrow> nat" where
  "insert_fuel h f rt = tree_pot h f rt * (h + tree_pot h f rt + 2) + h + 3"

lemma insert_run_idle:
  assumes i: "idle W E R f bm" and t: "tree_at K h bt f (bm_allocCount bm) rt" and "h + tree_pot h f rt < steps" and fuel: "insert_fuel h f rt \<le> fuel"
    and new: "contents h f rt key = None" and pc: "pc_ok K pc" and K: "K \<le> 789" and key: "length key = K" "length key + length v \<le> 789"
    and raw: "raw_ok raw"
  shows "(\<exists>e. insert_run fuel bm_ops raw steps bt key v pc bm = Inl e \<and> table_fail e) \<or>
    (\<exists>out bm' f' h' rt'. insert_run fuel bm_ops raw steps bt key v pc bm = Inr (out, bm') \<and> idle W E R f' bm' \<and>
      run_ends K bt key v h f (bm_allocCount bm) rt out h' f' (bm_allocCount bm') rt')"
proof -
  obtain F where F: "bm_at W E (bm_allocCount bm) F R f (bm_allocCount bm) Map.empty {} bm" using idle_record [OF i] by blast
  obtain L where L: "L \<le> h + 2" "pc_level K F h f rt pc L" using pc_level_stale [OF pc] by blast
  have "tree_pot h f rt * (h + tree_pot h f rt + 2) + L < fuel" using fuel L(1) by (simp add: insert_fuel_def)
  from bm_frames.insert_run_rule [OF F t assms(3) new L(2) this K key raw] idleI show ?thesis by blast
qed

text \<open>
  C1. \<^verbatim>\<open>BTree::insert\<close> of a new key into a tree whose keys all have the length \<open>K\<close> of this key and whose entries, like the new
  one, have at most 789 bytes of key and value (the code accepts 995, for which a split can fail an assertion): the fiber runs the loops of \<^verbatim>\<open>insert\<close> and \<^verbatim>\<open>ensureSpace\<close>, from any of the
  places where it can have been suspended, and stops after at most \<open>insert_fuel\<close> bodies. Either it has
  inserted the key: the tree is a tree again, with the new entry and all old ones. Or it is
  suspended, at one of those places, and the tree holds what it held. Pages that belong to other trees
  are as they were, and every page is unfixed. Otherwise the run fails because the page table has no room for a new page; there is
  no other failure.
\<close>

theorem insert_correct:
  assumes "idle W E R f bm" and "tree_at K h bt f (bm_allocCount bm) rt" and "h + tree_pot h f rt < steps"
    and "insert_fuel h f rt \<le> fuel" and "contents h f rt key = None" and "pc_ok K pc" and "K \<le> 789" and "length key = K"
    and "length key + length v \<le> 789" and "raw_ok raw"
  shows "(\<exists>e. insert_run fuel bm_ops raw steps bt key v pc bm = Inl e \<and> table_fail e) \<or>
    (\<exists>out bm' f' h' rt'. insert_run fuel bm_ops raw steps bt key v pc bm = Inr (out, bm') \<and> idle W E R f' bm' \<and>
      tree_at K h' bt f' (bm_allocCount bm') rt' \<and> evolves bt h f (bm_allocCount bm) rt h' f' rt' \<and>
      (out = Inserted \<and> contents h' f' rt' = (contents h f rt)(key \<mapsto> v) \<or>
       (\<exists>pc'. out = Suspended pc' \<and> pc_ok K pc' \<and> contents h' f' rt' = contents h f rt)))"
proof -
  consider e where "insert_run fuel bm_ops raw steps bt key v pc bm = Inl e" "table_fail e"
    | out bm' f' h' rt' where "insert_run fuel bm_ops raw steps bt key v pc bm = Inr (out, bm')" "idle W E R f' bm'"
        "run_ends K bt key v h f (bm_allocCount bm) rt out h' f' (bm_allocCount bm') rt'"
    using insert_run_idle [OF assms] by blast
  then show ?thesis
  proof cases
    case (2 out bm' f' h' rt')
    then show ?thesis unfolding run_ends_def by (cases out) auto
  qed blast
qed

theorem insert_correct_witness:
  "\<exists>out bm' f' h' rt'. insert_run 20 bm_ops zero_page 10 demo_tree [99] [7] AtInsert demo_bm = Inr (out, bm') \<and> idle {} {} {0, 1} f' bm' \<and>
     tree_at 1 h' demo_tree f' (bm_allocCount bm') rt' \<and>
     (out = Inserted \<and> contents h' f' rt' = [[97] \<mapsto> [1], [98] \<mapsto> [2], [99] \<mapsto> [7]])"
proof -
  have new: "contents 0 demo_pages 1 [99] = None" unfolding demo_tree(2) by simp
  obtain F where F: "bm_at {} {} 2 F {0, 1} demo_pages 2 Map.empty {} demo_bm" using idle_record demo_idle by blast
  have run: "\<exists>bm'. insert_run 20 bm_ops zero_page 10 demo_tree [99] [7] AtInsert demo_bm = Inr (Inserted, bm')"
    using bm_frames.insert_run_fits [OF F demo_tree(1) _ new demo_tree(3,5) _ _ _ zero_page_raw, of 10 19] by auto
  have "insert_fuel 0 demo_pages 1 \<le> 20" "0 + tree_pot 0 demo_pages 1 < 10" by (simp_all add: insert_fuel_def demo_tree(4) del: tree_pot.simps)
  then have "(\<exists>e. insert_run 20 bm_ops zero_page 10 demo_tree [99] [7] AtInsert demo_bm = Inl e \<and> table_fail e) \<or>
    (\<exists>out bm' f' h' rt'. insert_run 20 bm_ops zero_page 10 demo_tree [99] [7] AtInsert demo_bm = Inr (out, bm') \<and> idle {} {} {0, 1} f' bm' \<and>
      tree_at 1 h' demo_tree f' (bm_allocCount bm') rt' \<and> evolves demo_tree 0 demo_pages (bm_allocCount demo_bm) 1 h' f' rt' \<and>
      (out = Inserted \<and> contents h' f' rt' = (contents 0 demo_pages 1)([99] \<mapsto> [7]) \<or>
       (\<exists>pc'. out = Suspended pc' \<and> pc_ok 1 pc' \<and> contents h' f' rt' = contents 0 demo_pages 1)))"
    by (intro insert_correct [OF demo_idle(1) demo_at] new zero_page_raw) (simp_all add: pc_ok_def)
  with run show ?thesis unfolding demo_tree(2) by fastforce
qed



text \<open>
  C3. An attempt of \<^verbatim>\<open>BTree::remove\<close> on a tree (keys of one length, entries of at most 789 bytes) never fails. Without a restart it removes the key and its value, and
  no other entry, whether or not it merges the leaf with its right neighbour; the result is a tree
  again, and the pages of other trees are as they were.
\<close>

theorem remove_correct:
  assumes "idle W E R f bm" and "tree_at K h bt f (bm_allocCount bm) rt" and "h < steps" and "raw_ok raw" and "K \<le> 789"
  shows "\<exists>out bm' f'. remove bm_ops raw steps bt key bm = Inr (out, bm') \<and> idle W E R f' bm' \<and>
    bm_allocCount bm' = bm_allocCount bm \<and> tree_at K h bt f' (bm_allocCount bm) rt \<and> evolves bt h f (bm_allocCount bm) rt h f' rt \<and>
    (out = Restart \<and> f' = f \<and> missing R h f rt \<or> out = Done False \<and> f' = f \<and> contents h f rt key = None \<or>
     out = Done True \<and> contents h f rt key \<noteq> None \<and> contents h f' rt = (contents h f rt)(key := None))"
  using bm_buffer.remove_rule [OF idle_at [OF assms(1)] assms(2-5)] idleI by blast

theorem remove_correct_witness:
  "\<exists>bm' f'. remove bm_ops zero_page 1 demo_tree [97] demo_bm = Inr (Done True, bm') \<and>
    idle {} {} {0, 1} f' bm' \<and> contents 0 f' 1 = [[98] \<mapsto> [2]]"
proof -
  have c: "contents 0 demo_pages 1 [97] = Some [1]" unfolding demo_tree(2) by simp
  have u: "([[97 :: u8] \<mapsto> [1], [98] \<mapsto> [2]])([97] := None) = [[98] \<mapsto> [2 :: u8]]" by (simp add: fun_eq_iff)
  have K: "(1 :: nat) \<le> 789" by simp
  from remove_correct [OF demo_idle(1) demo_at zero_less_one zero_page_raw K, of "[97]"] demo_tree(3) c
  obtain bm' f' where r: "remove bm_ops zero_page 1 demo_tree [97] demo_bm = Inr (Done True, bm')" "idle {} {} {0, 1} f' bm'"
    and e: "contents 0 f' 1 = (contents 0 demo_pages 1)([97] := None)"
    by auto
  from e u have "contents 0 f' 1 = [[98] \<mapsto> [2]]" unfolding demo_tree(2) by (simp only:)
  with r show ?thesis by blast
qed

subsection \<open>New trees\<close>

lemma fixX_freeList: "fixX pid bm = Inr (r, bm') \<Longrightarrow> bm_freeList bm' = bm_freeList bm"
  by (auto simp: fixX_def Let_def check_def restart_with_def split: option.splits if_splits)

lemma allocPage_none: "(\<exists>bm'. allocPage bm = Inr (None, bm')) \<longleftrightarrow> bm_freeList bm = []"
proof (cases "bm_freeList bm")
  case Nil
  then show ?thesis by (simp add: allocPage_def Let_def ensureFreePages_def)
next
  case (Cons bid rest)
  then have "bm_freeList (ensureFreePages bm) = bid # rest" by (simp add: ensureFreePages_def)
  then show ?thesis using Cons by (auto simp: allocPage_def Let_def)
qed

lemma small_init: "\<exists>bm. bm_init page_count 4 evict_batch free_target ssd = Inr bm"
proof -
  let ?buf = "set_marked True (set_dirty True (buf_new 0))"
  have p: "next_pow2 4 = Inr 4" by code_simp
  have "\<exists>t. rh_new (0 :: u64) 4 = Inr t" by (simp add: rh_new_def)
  then obtain t where t: "rh_new (0 :: u64) 4 = Inr t" by blast
  note n = rh_new_correct [OF t]
  have "rh_sz t < rh_n t" using n rh_sz_dom [of t] by simp
  then obtain b t' where t': "rh_insert 0 ?buf t = Inr (b, t')" using rh_insert_room [of t 0 ?buf] n by (auto simp: EMPTY_KEY_def)
  have b using rh_insert_result [OF _ t'] n by simp
  with p t t' show ?thesis by (auto simp: bm_init_def Let_def)
qed

lemma next_pow2_even:
  assumes "next_pow2 x = Inr sz"
  shows "sz \<noteq> 1"
proof -
  have x: "x - 1 \<noteq> 0" and sz: "sz = scast (push_bit (bits_of (x - 1)) (1 :: 32 word))" using assms by (auto simp: next_pow2_def split: if_splits)
  have "bits_of (x - 1) \<noteq> 0"
  proof
    assume "bits_of (x - 1) = 0"
    then have "\<not> bit (x - 1) i" if "i < 64" for i using that by (simp add: bits_of_def)
    then have "x - 1 = 0" by (intro bit_word_eqI) simp
    then show False using x by simp
  qed
  then have "\<not> bit sz 0" unfolding sz by (simp add: bit_simps)
  then show ?thesis by auto
qed

lemma fixX_table:
  assumes "fixX pid bm = Inr (r, bm')"
  shows "rh_sz (bm_page_table bm') = rh_sz (bm_page_table bm) \<and> rh_n (bm_page_table bm') = rh_n (bm_page_table bm)"
  using assms by (auto simp: fixX_def Let_def check_def restart_with_def buf_set_def rh_set_val_def split: option.splits if_splits)

lemma init_table:
  assumes "bm_init page_count slots evict_batch free_target ssd = Inr bm"
  shows "rh_inv (bm_page_table bm)" "rh_sz (bm_page_table bm) = 1" "rh_n (bm_page_table bm) \<noteq> 1"
proof -
  let ?buf = "set_marked True (set_dirty True (buf_new 0))"
  from assms obtain sz t0 t where n: "next_pow2 slots = Inr sz" and t0: "rh_new 0 (unat sz) = Inr t0" and t: "rh_insert 0 ?buf t0 = Inr (True, t)"
    and bm: "bm_page_table bm = t" by (auto simp: bm_init_def Let_def check_def split: if_splits)
  note new = rh_new_correct [OF t0] and res = rh_insert_result [OF _ t]
  have inv: "rh_inv t" and abs: "rh_abs t = [0 \<mapsto> ?buf]" and nn: "rh_n t = unat sz" using new res by (auto simp: fun_eq_iff)
  show "rh_inv (bm_page_table bm)" "rh_sz (bm_page_table bm) = 1" using rh_sz_dom [OF inv] inv abs by (simp_all add: bm)
  show "rh_n (bm_page_table bm) \<noteq> 1" using next_pow2_even [OF n] nn by (simp add: bm word_unat_eq_iff)
qed

text \<open>With fewer than 254 pages in the page table and a slot to spare, an allocation does not fail for want of a slot.\<close>

lemma allocPage_room:
  assumes inv: "rh_inv (bm_page_table bm)" and room: "rh_sz (bm_page_table bm) < 254" "rh_sz (bm_page_table bm) < rh_n (bm_page_table bm)"
    and pid: "bm_allocCount bm \<noteq> EMPTY_KEY" and e: "allocPage bm = Inl e"
  shows "\<not> table_fail e"
proof -
  have t: "bm_page_table (ensureFreePages bm) = bm_page_table bm" "bm_allocCount (ensureFreePages bm) = bm_allocCount bm"
    by (simp_all add: ensureFreePages_def)
  show ?thesis
  proof (cases "bm_freeList (ensureFreePages bm)")
    case Nil
    then show ?thesis using e by (simp add: allocPage_def Let_def)
  next
    case (Cons bid rest)
    let ?buf = "set_marked True (set_in_use True (set_dirty True (buf_new bid)))"
    obtain b t' where "rh_insert (bm_allocCount bm) ?buf (bm_page_table bm) = Inr (b, t')" using rh_insert_room [OF inv pid room] by blast
    then show ?thesis using e Cons t by (auto simp: allocPage_def Let_def check_def table_fail_def split: if_splits)
  qed
qed

text \<open>
  C24. The first tree on a new buffer manager with at least two frames: the constructors establish the
  invariant with no page fixed, and the tree they make is a tree with no entry, whose root is
  page 1. Whenever the buffer manager could be constructed, the construction of the tree does not fail.
\<close>

theorem new_tree_correct:
  assumes "bm_init page_count slots evict_batch free_target ssd = Inr bm" and "1 < page_count" and "page_count < 2 ^ 59" and "slot < 512"
  defines "bt \<equiv> \<lparr>bt_slotId = slot, bt_splitOrdered = False\<rparr>"
  shows "\<exists>bm' f'. BTree_new bm_ops slot bm = Inr ((bt, slot + 1), bm') \<and> idle {} {} {0} f' bm' \<and> bm_allocCount bm' = 2 \<and>
      tree_at K 0 bt f' 2 1 \<and> contents 0 f' 1 = Map.empty"
proof -
  have pc: "0 < page_count" using assms(2) by simp
  note init = bm_init_idle [OF assms(1) pc assms(3)]
  have at: "bm_at {} {} 0 Map.empty {0} (ssd(0 := ZeroPage)) 1 Map.empty {} bm" using idle_at [OF init(1)] init(2) by simp
  have free: "bm_freeList bm \<noteq> []" using init(3) assms(2) by simp
  have no: False if "fixX 0 bm = Inr (Some b, s0)" "allocPage s0 = Inr (None, s1)" for b s0 s1
    using fixX_freeList [OF that(1)] allocPage_none [of s0] that(2) free by auto
  have ok: False if "fixX 0 bm = Inr (Some b, s0)" "allocPage s0 = Inl e" "table_fail e" for b s0 e
  proof -
    have a0: "bm_at {} {} 0 Map.empty {0} (ssd(0 := ZeroPage)) 1 [0 \<mapsto> b] {} s0" using fixX_at [OF at, of 0] that(1) by auto
    note tab = init_table [OF assms(1)]
    have "rh_wf (bm_page_table bm)" using tab(1) by (simp add: rh_inv_def)
    from rh_wf_pos [OF this] have "0 < rh_n (bm_page_table bm)" .
    then have "rh_sz (bm_page_table s0) = 1" "1 < rh_n (bm_page_table s0)" using fixX_table [OF that(1)] tab(2,3) by simp_all
    then show False using allocPage_room [of s0 e] that(2,3) a0 by (simp add: bm_at_def bm_inv_def EMPTY_KEY_def)
  qed
  have two: "(1 :: u64) + 1 = 2" by simp
  from bm_buffer.BTree_new_rule [OF at, of "replicate 512 0" slot K] assms(4) no ok idleI show ?thesis
    unfolding bt_def two by fastforce
qed

theorem new_tree_correct_witness:
  "\<exists>bm bm' f'. bm_init 2 4 1 0 (\<lambda>_. ZeroPage) = Inr bm \<and> BTree_new bm_ops 0 bm = Inr ((demo_tree, 1), bm') \<and>
    idle {} {} {0} f' bm' \<and> bm_allocCount bm' = 2 \<and> tree_at 16 0 demo_tree f' 2 1 \<and> contents 0 f' 1 = Map.empty"
proof -
  obtain bm where bm: "bm_init 2 4 1 0 (\<lambda>_. ZeroPage) = Inr bm" using small_init by blast
  with new_tree_correct [OF bm, of 0 16] show ?thesis by (auto simp: demo_tree_def)
qed

text \<open>
  C37. A tree constructed when no frame is free: the constructor does not ask whether the allocation
  has to be repeated, and records the page allocated last, which belongs to another tree (or is
  the metadata page itself), as the root of the new tree. It reports nothing.
\<close>

theorem new_tree_without_frame:
  assumes "idle W E R f bm" and "0 \<in> R" and "bm_freeList bm = []"
    and "f 0 = MetaPage roots \<or> f 0 = ZeroPage \<and> roots = replicate 512 0"
  shows "\<exists>bm'. BTree_new bm_ops slot bm = Inr ((\<lparr>bt_slotId = slot, bt_splitOrdered = False\<rparr>, slot + 1), bm') \<and>
    bm_allocCount bm' = bm_allocCount bm \<and> bm_view bm' 0 = MetaPage (roots[slot := bm_allocCount bm - 1])"
proof -
  note at = idle_at [OF assms(1)]
  obtain b s0 where fix0: "fixX 0 bm = Inr (Some b, s0)" using fixX_at [OF at, of 0] assms(2) by auto
  obtain s1 where none: "allocPage s0 = Inr (None, s1)" using allocPage_none [of s0] fixX_freeList [OF fix0] assms(3) by auto
  from bm_buffer.BTree_new_retry [OF at, of b s0 s1 roots slot] fix0 none assms(4) show ?thesis by (fastforce simp: bm_at_def)
qed

theorem new_tree_without_frame_witness:
  "\<exists>bm bm'. bm_init 1 4 1 0 (\<lambda>_. ZeroPage) = Inr bm \<and> BTree_new bm_ops 0 bm = Inr ((demo_tree, 1), bm') \<and>
    bm_view bm' 0 = MetaPage (replicate 512 0)"
proof -
  obtain bm where bm: "bm_init 1 4 1 0 (\<lambda>_. ZeroPage) = Inr bm" using small_init by blast
  note i = bm_init_idle [OF bm]
  have "\<exists>bm'. BTree_new bm_ops 0 bm = Inr ((\<lparr>bt_slotId = 0, bt_splitOrdered = False\<rparr>, 0 + 1), bm') \<and>
    bm_allocCount bm' = bm_allocCount bm \<and> bm_view bm' 0 = MetaPage ((replicate 512 0)[0 := bm_allocCount bm - 1])"
    by (rule new_tree_without_frame [OF i(1)]) (simp_all add: i(3))
  moreover have "(replicate 512 0)[0 := bm_allocCount bm - 1] = replicate 512 (0 :: u64)" using i(2) by (simp add: list_update_same_conv)
  ultimately show ?thesis using bm by (auto simp: demo_tree_def)
qed

end
