(* ===== verification/Fold_Types.thy ===== *)
theory Fold_Types
  imports Bytes
begin

section \<open>Folded values: keys that compare as byte strings\<close>

text \<open>
  \<^verbatim>\<open>src/src/buffer_mgr/tpcc/types.hpp\<close> and \<^verbatim>\<open>types.cpp\<close>. The fold functions write a value into the
  buffer of a key such that byte-wise comparison of keys is comparison of values; the unfold
  functions read it back. \<open>fold\<close> returns the number of bytes it wrote: the definitions give the
  bytes, and their number is the length. An \<^verbatim>\<open>Integer\<close> and a \<^verbatim>\<open>Timestamp\<close> are words read by \<open>sint\<close>.
\<close>

type_synonym Integer = u32
type_synonym Timestamp = u64

subsection \<open>Stores and byte swaps\<close>

definition store32 :: "u32 \<Rightarrow> bytes" where
  "store32 x = map (\<lambda>i. ucast (drop_bit (8 * i) x)) [0..<4]"

abbreviation store64 :: "u64 \<Rightarrow> bytes" where "store64 \<equiv> pid_bytes"

abbreviation load64 :: "bytes \<Rightarrow> u64" where "load64 \<equiv> load_pid"

definition bswap64 :: "u64 \<Rightarrow> u64" where
  "bswap64 x = load64 (rev (store64 x))"

subsection \<open>Numbers\<close>

definition foldInteger :: "Integer \<Rightarrow> bytes" where
  "foldInteger x = store32 (bswap32 (ucast ((scast x :: u64) XOR push_bit 31 1)))"

definition foldTimestamp :: "Timestamp \<Rightarrow> bytes" where
  "foldTimestamp x = store64 (bswap64 (x XOR push_bit 63 1))"

definition foldU64 :: "u64 \<Rightarrow> bytes" where
  "foldU64 x = store64 (bswap64 x)"

definition unfoldInteger :: "bytes \<Rightarrow> Integer \<times> nat" where
  "unfoldInteger input = (ucast ((ucast (bswap32 (load32 input)) :: u64) XOR push_bit 31 1), 4)"

definition unfoldTimestamp :: "bytes \<Rightarrow> Timestamp \<times> nat" where
  "unfoldTimestamp input = (bswap64 (load64 input) XOR push_bit 63 1, 8)"

definition unfoldU64 :: "bytes \<Rightarrow> u64 \<times> nat" where
  "unfoldU64 input = (bswap64 (load64 input), 8)"

subsection \<open>Strings\<close>

text \<open>\<^verbatim>\<open>Varchar<maxLength>\<close>; \<open>maxLength\<close> is the length of \<open>vc_data\<close>.\<close>

record Varchar =
  vc_length :: nat
  vc_data :: bytes

definition varchar_empty :: "nat \<Rightarrow> Varchar" where
  "varchar_empty maxLength = \<lparr>vc_length = 0, vc_data = replicate maxLength 0\<rparr>"

definition varchar_of :: "nat \<Rightarrow> bytes \<Rightarrow> Varchar result" where
  "varchar_of maxLength str =
     rbind (check (length str \<le> maxLength) (Assert ''l <= maxLength'')) (\<lambda>_.
     Inr \<lparr>vc_length = length str, vc_data = mem_write (replicate maxLength 0) 0 str\<rparr>)"

definition varchar_copy :: "nat \<Rightarrow> Varchar \<Rightarrow> Varchar result" where
  "varchar_copy maxLength other =
     rbind (check (vc_length other \<le> maxLength) (Assert ''other.length <= maxLength'')) (\<lambda>_.
     Inr \<lparr>vc_length = vc_length other, vc_data = mem_write (replicate maxLength 0) 0 (mem_read (vc_data other) 0 (vc_length other))\<rparr>)"

definition varchar_append :: "u8 \<Rightarrow> Varchar \<Rightarrow> Varchar result" where
  "varchar_append x v =
     rbind (check (vc_length v < length (vc_data v)) (Assert ''length < maxLength'')) (\<lambda>_.
     Inr (v\<lparr>vc_data := (vc_data v)[vc_length v := x], vc_length := vc_length v + 1\<rparr>))"

definition varchar_chars :: "Varchar \<Rightarrow> bytes" where
  "varchar_chars v = mem_read (vc_data v) 0 (vc_length v)"

definition varchar_concat :: "Varchar \<Rightarrow> Varchar \<Rightarrow> Varchar result" where
  "varchar_concat v other =
     rbind (check (vc_length v + vc_length other \<le> length (vc_data v))
       (Assert ''(static_cast<int32_t>(length) + other.length) <= maxLength'')) (\<lambda>_.
     Inr \<lparr>vc_length = vc_length v + vc_length other,
          vc_data = mem_write (mem_write (replicate (length (vc_data v)) 0) 0 (varchar_chars v))
            (vc_length v) (varchar_chars other)\<rparr>)"

definition varchar_eq :: "Varchar \<Rightarrow> Varchar \<Rightarrow> bool" where
  "varchar_eq v other \<longleftrightarrow> vc_length v = vc_length other \<and> memcmp (vc_data v) (vc_data other) (vc_length v) = 0"

definition varchar_less :: "Varchar \<Rightarrow> Varchar \<Rightarrow> bool" where
  "varchar_less v other =
     (let cmp = memcmp (vc_data v) (vc_data other) (if vc_length v < vc_length other then vc_length v else vc_length other)
      in if cmp \<noteq> 0 then cmp < 0 else vc_length v < vc_length other)"

definition foldVarchar :: "Varchar \<Rightarrow> bytes" where
  "foldVarchar x = mem_read (vc_data x) 0 (vc_length x) @ [0]"

definition strlen :: "bytes \<Rightarrow> nat" where
  "strlen input = length (takeWhile (\<lambda>c. c \<noteq> 0) input)"

definition unfoldVarchar :: "nat \<Rightarrow> bytes \<Rightarrow> Varchar \<Rightarrow> (Varchar \<times> nat) result" where
  "unfoldVarchar len input x =
     (let l = strlen input
      in rbind (check (l \<le> len) (Assert ''l <= len'')) (\<lambda>_.
         Inr (x\<lparr>vc_data := mem_write (vc_data x) 0 (mem_read input 0 l), vc_length := l\<rparr>, l + 1)))"

subsection \<open>Big-endian digits\<close>

fun be_bytes :: "nat \<Rightarrow> 'a::len word \<Rightarrow> bytes" where
  "be_bytes 0 x = []"
| "be_bytes (Suc n) x = ucast (drop_bit (8 * n) x) # be_bytes n x"

lemma length_be_bytes [simp]: "length (be_bytes n x) = n"
  by (induction n) auto

lemma unat_be_digit:
  fixes x :: "'a::len word"
  shows "unat x mod 2 ^ (8 * Suc n) = unat (ucast (drop_bit (8 * n) x) :: u8) * 2 ^ (8 * n) + unat x mod 2 ^ (8 * n)"
proof -
  have "drop_bit (8 * n) (unat x) mod 256 = unat x div 2 ^ (8 * n) mod 256" by (simp add: drop_bit_eq_div)
  moreover have "unat (ucast (drop_bit (8 * n) x) :: u8) = drop_bit (8 * n) (unat x) mod 256"
    by (simp add: unsigned_ucast_eq unsigned_drop_bit_eq take_bit_eq_mod take_bit_word_eq_self)
  moreover have "unat x mod 2 ^ (8 * Suc n) = unat x mod (2 ^ (8 * n) * 256)" by (simp add: power_add mult.commute)
  ultimately show ?thesis using mod_mult2_eq [of "unat x" "2 ^ (8 * n)" 256] by (simp only: mult.commute)
qed

lemma be_bytes_less:
  fixes x y :: "'a::len word"
  shows "be_bytes n x @ r < be_bytes n y @ s \<longleftrightarrow>
    unat x mod 2 ^ (8 * n) < unat y mod 2 ^ (8 * n) \<or> unat x mod 2 ^ (8 * n) = unat y mod 2 ^ (8 * n) \<and> r < s"
proof (induction n)
  case (Suc n)
  let ?m = "2 ^ (8 * n) :: nat" and ?a = "ucast (drop_bit (8 * n) x) :: u8" and ?b = "ucast (drop_bit (8 * n) y) :: u8"
  let ?p = "unat x mod ?m" and ?q = "unat y mod ?m"
  have pq: "?p < ?m" "?q < ?m" by simp_all
  have less: "unat ?a * ?m + ?p < unat ?b * ?m + ?q \<longleftrightarrow> unat ?a < unat ?b \<or> unat ?a = unat ?b \<and> ?p < ?q"
  proof
    assume "unat ?a < unat ?b \<or> unat ?a = unat ?b \<and> ?p < ?q"
    then show "unat ?a * ?m + ?p < unat ?b * ?m + ?q"
    proof
      assume "unat ?a < unat ?b"
      then have "Suc (unat ?a) * ?m \<le> unat ?b * ?m" by (intro mult_le_mono1) simp
      with pq(1) show ?thesis unfolding mult_Suc by linarith
    qed simp
  qed (rule lex_step [OF _ pq(2)])
  have eq: "unat ?a * ?m + ?p = unat ?b * ?m + ?q \<longleftrightarrow> unat ?a = unat ?b \<and> ?p = ?q"
    using lex_eq [OF _ pq] by auto
  show ?case unfolding unat_be_digit less eq using Suc by (simp add: word_less_nat_alt word_unat_eq_iff) blast
qed simp

lemma mask_byte: "bit (0xFF :: int) n \<longleftrightarrow> n < 8"
proof -
  have m: "(0xFF :: int) = mask 8" by (simp add: mask_eq_exp_minus_1)
  show ?thesis unfolding m by (simp add: bit_mask_iff)
qed

lemma store32_bswap32: "store32 (bswap32 x) = be_bytes 4 x"
proof -
  have b: "ucast (bswap32 x) = (ucast (drop_bit 24 x) :: u8)" "ucast (drop_bit 8 (bswap32 x)) = (ucast (drop_bit 16 x) :: u8)"
    "ucast (drop_bit 16 (bswap32 x)) = (ucast (drop_bit 8 x) :: u8)" "ucast (drop_bit 24 (bswap32 x)) = (ucast x :: u8)"
    by (rule bit_word_eqI; auto simp: bswap32_def bit_simps mask_bits mask_byte dest: bit_imp_le_length)+
  have "[0..<4] = [0, 1, 2, 3 :: nat]" by (simp add: upt_rec numeral_eq_Suc)
  then show ?thesis using b by (simp add: store32_def numeral_eq_Suc)
qed

lemma be_bytes_store64: "be_bytes 8 (x :: u64) = rev (store64 x)"
proof -
  have "[0..<8] = [0, 1, 2, 3, 4, 5, 6, 7 :: nat]" by (simp add: upt_rec numeral_eq_Suc)
  then show ?thesis by (simp add: pid_bytes_def numeral_eq_Suc)
qed

lemma store_load64: "length bs = 8 \<Longrightarrow> store64 (load64 bs) = bs"
proof (rule nth_equalityI)
  fix i
  assume len: "length bs = 8" and i: "i < length (store64 (load64 bs))"
  show "store64 (load64 bs) ! i = bs ! i"
  proof (rule bit_word_eqI)
    fix n :: nat
    assume n: "n < LENGTH(8)"
    have "(n + 8 * i) div 8 = i" "(n + 8 * i) mod 8 = n" using n by simp_all
    then show "bit (store64 (load64 bs) ! i) n = bit (bs ! i) n"
      using i n len bit_load [of bs "n + 8 * i"] by (simp add: load_pid_def pid_bytes_def bit_simps add.commute)
  qed
qed simp

lemma store64_bswap64: "store64 (bswap64 x) = be_bytes 8 x"
  by (simp add: bswap64_def store_load64 be_bytes_store64)

text \<open>Flipping the top bit turns comparison of signed numbers into comparison of unsigned ones.\<close>

lemma flip_top:
  fixes x :: "'a::len word"
  assumes "LENGTH('a) = Suc n"
  shows "(x XOR push_bit n 1) = x + 2 ^ n"
proof -
  have z: "(2 :: 'a word) ^ n + 2 ^ n = 0"
  proof -
    have "(2 :: 'a word) ^ LENGTH('a) = 0" by simp
    then show ?thesis by (simp add: assms)
  qed
  have "(x XOR push_bit n 1) = flip_bit n x" by (simp add: flip_bit_eq_xor)
  also have "\<dots> = x + 2 ^ n"
  proof (cases "bit x n")
    case True
    then have "flip_bit n x = x - 2 ^ n" by (simp add: flip_bit_eq_if unset_bit_eq)
    then show ?thesis using z by (metis add_diff_cancel_right' diff_add_eq_diff_diff_swap diff_0 add.inverse_inverse diff_minus_eq_add minus_unique)
  next
    case False
    then show ?thesis by (simp add: flip_bit_eq_if set_bit_eq)
  qed
  finally show ?thesis .
qed

lemma uint_flip_top:
  fixes x :: "'a::len word"
  assumes n: "LENGTH('a) = Suc n"
  shows "uint (x XOR push_bit n 1) = sint x + 2 ^ n"
proof -
  have "uint ((2 :: 'a word) ^ n) = 2 ^ n mod 2 ^ Suc n"
    using uint_word_of_int [of "2 ^ n", where ?'a = 'a] n by (simp add: word_of_int_2p)
  then have "uint (x + 2 ^ n) = take_bit (Suc n) (uint x + 2 ^ n)"
    by (simp add: uint_word_ariths take_bit_eq_mod n mod_simps)
  moreover have "sint x = signed_take_bit n (uint x)" using n by (simp add: sint_uint)
  ultimately show ?thesis unfolding flip_top [OF n] by (simp add: signed_take_bit_eq_take_bit_shift)
qed

lemma flip_top_less:
  fixes x y :: "'a::len word"
  assumes n: "LENGTH('a) = Suc n"
  shows "unat (x XOR push_bit n 1) < unat (y XOR push_bit n 1) \<longleftrightarrow> sint x < sint y"
    and "unat (x XOR push_bit n 1) = unat (y XOR push_bit n 1) \<longleftrightarrow> x = y"
proof -
  have "unat a < unat b \<longleftrightarrow> uint a < uint b" for a b :: "'a word" by (simp add: word_less_nat_alt [symmetric] word_less_def)
  then show "unat (x XOR push_bit n 1) < unat (y XOR push_bit n 1) \<longleftrightarrow> sint x < sint y" by (simp only: uint_flip_top [OF n] add_less_cancel_right)
  show "unat (x XOR push_bit n 1) = unat (y XOR push_bit n 1) \<longleftrightarrow> x = y"
    unfolding word_unat_eq_iff [symmetric] flip_top [OF n] by simp
qed

subsection \<open>Comparison and round trip\<close>

text \<open>Rules that compare two folded keys field by field and read a folded key field by field.\<close>

named_theorems fold_order \<open>comparison of folded keys\<close>
named_theorems fold_read \<open>reading a folded key\<close>

lemma foldInteger_be: "foldInteger x = be_bytes 4 (x XOR push_bit 31 1)"
proof -
  have "(ucast ((scast x :: u64) XOR push_bit 31 1) :: u32) = (x XOR push_bit 31 1)"
    by (rule bit_word_eqI) (auto simp: bit_simps)
  then show ?thesis by (simp add: foldInteger_def store32_bswap32)
qed

lemma length_fold [simp]: "length (foldInteger x) = 4" "length (foldTimestamp t) = 8" "length (foldU64 u) = 8"
  by (simp_all add: foldInteger_be foldTimestamp_def foldU64_def)

lemma unat_mod_self: "unat (x :: u32) mod 2 ^ (8 * 4) = unat x" "unat (y :: u64) mod 2 ^ (8 * 8) = unat y"
proof -
  have "unat x < 2 ^ LENGTH(32)" "unat y < 2 ^ LENGTH(64)" by (rule unsigned_less)+
  then show "unat (x :: u32) mod 2 ^ (8 * 4) = unat x" "unat (y :: u64) mod 2 ^ (8 * 8) = unat y" by simp_all
qed

lemma foldInteger_less [fold_order]: "foldInteger x @ r < foldInteger y @ s \<longleftrightarrow> sint x < sint y \<or> x = y \<and> r < s"
  using flip_top_less [of 31 x y] by (simp only: foldInteger_be be_bytes_less unat_mod_self) simp

lemma foldTimestamp_less [fold_order]: "foldTimestamp x @ r < foldTimestamp y @ s \<longleftrightarrow> sint x < sint y \<or> x = y \<and> r < s"
  using flip_top_less [of 63 x y] by (simp only: foldTimestamp_def store64_bswap64 be_bytes_less unat_mod_self) simp

lemma foldU64_less [fold_order]: "foldU64 x @ r < foldU64 y @ s \<longleftrightarrow> x < y \<or> x = y \<and> r < s"
  by (simp only: foldU64_def store64_bswap64 be_bytes_less unat_mod_self) (simp add: word_less_nat_alt word_unat_eq_iff)

lemma be_bytes_4: "be_bytes 4 x = [ucast (drop_bit 24 x), ucast (drop_bit 16 x), ucast (drop_bit 8 x), ucast x]"
  by (simp add: numeral_eq_Suc)

lemma bswap32_load_be: "bswap32 (load32 (be_bytes 4 x @ r)) = (x :: u32)"
proof -
  have "bswap32 (load32 (be_bytes 4 x @ r)) = be32 (ucast (drop_bit 24 x)) (ucast (drop_bit 16 x)) (ucast (drop_bit 8 x)) (ucast x)"
    unfolding bswap32_load32 be_bytes_4 by simp
  also have "\<dots> = x" by (rule bit_word_eqI) (auto simp: bit_be32 bit_simps)
  finally show ?thesis .
qed

lemma bswap64_load_be: "bswap64 (load64 (be_bytes 8 x @ r)) = (x :: u64)"
proof -
  have "load64 (be_bytes 8 x @ r) = load64 (be_bytes 8 x)" by (simp add: load_pid_def)
  then show ?thesis by (simp add: bswap64_def be_bytes_store64 store_load64)
qed

lemma unfoldInteger_fold [fold_read]: "unfoldInteger (foldInteger x @ r) = (x, 4)"
proof -
  have "(ucast ((ucast (x XOR push_bit 31 1) :: u64) XOR push_bit 31 1) :: u32) = x"
    by (rule bit_word_eqI) (auto simp: bit_simps)
  then show ?thesis by (simp add: unfoldInteger_def foldInteger_be bswap32_load_be)
qed

lemma unfoldTimestamp_fold [fold_read]: "unfoldTimestamp (foldTimestamp x @ r) = (x, 8)"
  by (simp add: unfoldTimestamp_def foldTimestamp_def store64_bswap64 bswap64_load_be xor.assoc)

lemma unfoldU64_fold [fold_read]: "unfoldU64 (foldU64 x @ r) = (x, 8)"
  by (simp add: unfoldU64_def foldU64_def store64_bswap64 bswap64_load_be)

subsection \<open>Strings\<close>

text \<open>A well-formed string: its characters fit, and none is the terminator.\<close>

definition varchar_ok :: "nat \<Rightarrow> Varchar \<Rightarrow> bool" where
  "varchar_ok len v \<longleftrightarrow> length (vc_data v) = len \<and> vc_length v \<le> len \<and> 0 \<notin> set (varchar_chars v)"

lemma length_varchar_chars [simp]: "vc_length v \<le> length (vc_data v) \<Longrightarrow> length (varchar_chars v) = vc_length v"
  by (simp add: varchar_chars_def)

lemma memcmp_take_left: "n \<le> k \<Longrightarrow> memcmp (take k as) bs n = memcmp as bs n"
  by (induction as bs n arbitrary: k rule: memcmp.induct) (auto simp: take_Cons split: nat.splits)

lemma varchar_compare:
  assumes "vc_length v \<le> length (vc_data v)" and "vc_length w \<le> length (vc_data w)"
  shows "varchar_eq v w \<longleftrightarrow> varchar_chars v = varchar_chars w" and "varchar_less v w \<longleftrightarrow> varchar_chars v < varchar_chars w"
proof -
  have m: "memcmp (varchar_chars v) (varchar_chars w) n = memcmp (vc_data v) (vc_data w) n"
    if "n \<le> vc_length v" "n \<le> vc_length w" for n
    using that by (simp add: varchar_chars_def mem_read_def memcmp_take memcmp_take_left)
  show "varchar_eq v w \<longleftrightarrow> varchar_chars v = varchar_chars w"
    unfolding memcmp_equal [of "varchar_chars v"] using assms m [of "min (vc_length v) (vc_length w)"]
    by (auto simp: varchar_eq_def)
  show "varchar_less v w \<longleftrightarrow> varchar_chars v < varchar_chars w"
    unfolding memcmp_less [of "varchar_chars v"] using assms m [of "min (vc_length v) (vc_length w)"]
    by (auto simp: varchar_less_def Let_def min_def)
qed

lemma terminated_less:
  fixes a b :: bytes
  assumes "0 \<notin> set a" and "0 \<notin> set b"
  shows "a @ 0 # r < b @ 0 # s \<longleftrightarrow> a < b \<or> a = b \<and> r < s"
  using assms
proof (induction a arbitrary: b)
  case Nil
  then show ?case by (cases b) (auto simp: word_neq_0_conv)
next
  case (Cons x a)
  then show ?case by (cases b) auto
qed

lemma foldVarchar_chars: "foldVarchar v = varchar_chars v @ [0]"
  by (simp add: foldVarchar_def varchar_chars_def)

lemma foldVarchar_less [fold_order]:
  "varchar_ok len v \<Longrightarrow> varchar_ok len w \<Longrightarrow>
     foldVarchar v @ r < foldVarchar w @ s \<longleftrightarrow> varchar_chars v < varchar_chars w \<or> varchar_chars v = varchar_chars w \<and> r < s"
  using terminated_less [of "varchar_chars v" "varchar_chars w" r s] by (simp add: foldVarchar_chars varchar_ok_def)

lemma strlen_terminated: "0 \<notin> set a \<Longrightarrow> strlen (a @ 0 # r) = length a"
  unfolding strlen_def by (induction a) auto

lemma unfoldVarchar_fold [fold_read]:
  assumes "varchar_ok len v" and "length (vc_data x) = len"
  shows "\<exists>w. unfoldVarchar len (foldVarchar v @ r) x = Inr (w, vc_length v + 1) \<and> varchar_chars w = varchar_chars v \<and> varchar_ok len w"
proof -
  let ?c = "varchar_chars v" and ?w = "x\<lparr>vc_data := mem_write (vc_data x) 0 (varchar_chars v), vc_length := vc_length v\<rparr>"
  have l: "length ?c = vc_length v" "vc_length v \<le> len" using assms(1) by (simp_all add: varchar_ok_def)
  have s: "strlen (foldVarchar v @ r) = vc_length v" "mem_read (foldVarchar v @ r) 0 (vc_length v) = ?c"
    using assms(1) l strlen_terminated [of ?c r] by (simp_all add: foldVarchar_chars varchar_ok_def mem_read_def)
  have "varchar_chars ?w = ?c" using l assms(2) mem_read_written [of 0 ?c "vc_data x"] by (simp add: varchar_chars_def)
  moreover have "varchar_ok len ?w" using calculation l assms by (simp add: varchar_ok_def)
  ultimately show ?thesis using s l by (intro exI [of _ ?w]) (simp add: unfoldVarchar_def Let_def)
qed

lemma varchar_ops:
  assumes "vc_length v \<le> length (vc_data v)" and "vc_length w \<le> length (vc_data w)"
  shows "varchar_eq v w \<longleftrightarrow> varchar_chars v = varchar_chars w"
    and "varchar_less v w \<longleftrightarrow> varchar_chars v < varchar_chars w"
    and "case varchar_concat v w of
        Inl e \<Rightarrow> length (vc_data v) < vc_length v + vc_length w
      | Inr u \<Rightarrow> varchar_chars u = varchar_chars v @ varchar_chars w \<and> length (vc_data u) = length (vc_data v)"
    and "case varchar_append x v of
        Inl e \<Rightarrow> vc_length v = length (vc_data v)
      | Inr u \<Rightarrow> varchar_chars u = varchar_chars v @ [x] \<and> length (vc_data u) = length (vc_data v)"
proof -
  show "varchar_eq v w \<longleftrightarrow> varchar_chars v = varchar_chars w" "varchar_less v w \<longleftrightarrow> varchar_chars v < varchar_chars w"
    by (rule varchar_compare [OF assms])+
  let ?a = "varchar_chars v" and ?b = "varchar_chars w" and ?n = "length (vc_data v)"
  have l: "length ?a = vc_length v" "length ?b = vc_length w" using assms by simp_all
  show "case varchar_concat v w of
        Inl e \<Rightarrow> ?n < vc_length v + vc_length w
      | Inr u \<Rightarrow> varchar_chars u = ?a @ ?b \<and> length (vc_data u) = ?n"
  proof (cases "vc_length v + vc_length w \<le> ?n")
    case True
    let ?m = "mem_write (mem_write (replicate ?n 0) 0 ?a) (vc_length v) ?b"
    have "?m = ?a @ ?b @ drop (vc_length v + vc_length w) (mem_write (replicate ?n 0) 0 ?a)"
      using True l by (simp add: mem_write_def)
    then have "mem_read ?m 0 (vc_length v + vc_length w) = ?a @ ?b" using l by (simp add: mem_read_def)
    with True l show ?thesis by (simp add: varchar_concat_def varchar_chars_def [of "\<lparr>vc_length = _, vc_data = _\<rparr>"])
  qed (simp add: varchar_concat_def)
  show "case varchar_append x v of
        Inl e \<Rightarrow> vc_length v = ?n
      | Inr u \<Rightarrow> varchar_chars u = ?a @ [x] \<and> length (vc_data u) = ?n"
    using assms(1) by (cases "vc_length v < ?n")
      (simp_all add: varchar_append_def varchar_chars_def mem_read_def take_Suc_conv_app_nth)
qed

text \<open>
  The operators of \<^verbatim>\<open>Varchar\<close> are those of the strings of characters in use: equality and order
  (lexicographic) ignore what follows them in the array, \<^verbatim>\<open>||\<close> and \<^verbatim>\<open>append\<close> concatenate when
  the result fits, and fail their assertion when it does not.
\<close>

theorem varchar_operators:
  assumes "vc_length v \<le> length (vc_data v)" and "vc_length w \<le> length (vc_data w)"
  shows "(varchar_eq v w \<longleftrightarrow> varchar_chars v = varchar_chars w) \<and> (varchar_less v w \<longleftrightarrow> varchar_chars v < varchar_chars w) \<and>
    (case varchar_concat v w of
        Inl e \<Rightarrow> length (vc_data v) < vc_length v + vc_length w
      | Inr u \<Rightarrow> varchar_chars u = varchar_chars v @ varchar_chars w \<and> length (vc_data u) = length (vc_data v)) \<and>
    (case varchar_append x v of
        Inl e \<Rightarrow> vc_length v = length (vc_data v)
      | Inr u \<Rightarrow> varchar_chars u = varchar_chars v @ [x] \<and> length (vc_data u) = length (vc_data v))"
  by (intro conjI varchar_ops [OF assms])

theorem varchar_operators_witness:
  "varchar_less \<lparr>vc_length = 1, vc_data = [65, 90, 0]\<rparr> \<lparr>vc_length = 2, vc_data = [65, 66, 7]\<rparr>"
proof -
  have "varchar_chars \<lparr>vc_length = 1, vc_data = [65, 90, 0]\<rparr> < varchar_chars \<lparr>vc_length = 2, vc_data = [65, 66, 7]\<rparr>" by code_simp
  with varchar_operators [of "\<lparr>vc_length = 1, vc_data = [65, 90, 0]\<rparr>" "\<lparr>vc_length = 2, vc_data = [65, 66, 7]\<rparr>"] show ?thesis by simp
qed

end
