(* ===== verification/Tpcc_Keys.thy ===== *)
theory Tpcc_Keys
  imports Fold_Types "HOL-Library.Product_Lexorder"
begin

section \<open>The keys of the TPC-C tables\<close>

text \<open>
  \<^verbatim>\<open>src/src/buffer_mgr/tpcc/schema.hpp\<close>: for each table the record of its key, the functions that
  write a key into a buffer and read it back, and the length of the longest key. The tables are
  B-trees, which compare keys as byte strings. The function \<open>_tuple\<close> of a table gives the key as the
  tuple of values its fields stand for.
\<close>

subsection \<open>The tables\<close>

subsubsection \<open>\<^verbatim>\<open>warehouse_t\<close>\<close>

record warehouse_Key =
  w_id :: Integer

definition warehouse_foldKey :: "warehouse_Key \<Rightarrow> bytes" where
  "warehouse_foldKey record = foldInteger (warehouse_Key.w_id record)"

definition warehouse_unfoldKey :: "bytes \<Rightarrow> warehouse_Key \<Rightarrow> warehouse_Key \<times> nat" where
  "warehouse_unfoldKey input record =
     (let (x0, n0) = unfoldInteger input
      in (record\<lparr>warehouse_Key.w_id := x0\<rparr>, n0))"

definition warehouse_maxFoldLength :: nat where
  "warehouse_maxFoldLength = 4"

definition warehouse_tuple where "warehouse_tuple k = (sint (warehouse_Key.w_id k))"

subsubsection \<open>\<^verbatim>\<open>district_t\<close>\<close>

record district_Key =
  d_w_id :: Integer
  d_id :: Integer

definition district_foldKey :: "district_Key \<Rightarrow> bytes" where
  "district_foldKey record = foldInteger (district_Key.d_w_id record) @ foldInteger (district_Key.d_id record)"

definition district_unfoldKey :: "bytes \<Rightarrow> district_Key \<Rightarrow> district_Key \<times> nat" where
  "district_unfoldKey input record =
     (let (x0, n0) = unfoldInteger input;
          (x1, n1) = unfoldInteger (drop (n0) input)
      in (record\<lparr>district_Key.d_w_id := x0, district_Key.d_id := x1\<rparr>, n0 + n1))"

definition district_maxFoldLength :: nat where
  "district_maxFoldLength = 4 + 4"

definition district_tuple where "district_tuple k = (sint (district_Key.d_w_id k), sint (district_Key.d_id k))"

subsubsection \<open>\<^verbatim>\<open>customer_t\<close>\<close>

record customer_Key =
  c_w_id :: Integer
  c_d_id :: Integer
  c_id :: Integer

definition customer_foldKey :: "customer_Key \<Rightarrow> bytes" where
  "customer_foldKey record = foldInteger (customer_Key.c_w_id record) @ foldInteger (customer_Key.c_d_id record) @ foldInteger (customer_Key.c_id record)"

definition customer_unfoldKey :: "bytes \<Rightarrow> customer_Key \<Rightarrow> customer_Key \<times> nat" where
  "customer_unfoldKey input record =
     (let (x0, n0) = unfoldInteger input;
          (x1, n1) = unfoldInteger (drop (n0) input);
          (x2, n2) = unfoldInteger (drop (n0 + n1) input)
      in (record\<lparr>customer_Key.c_w_id := x0, customer_Key.c_d_id := x1, customer_Key.c_id := x2\<rparr>, n0 + n1 + n2))"

definition customer_maxFoldLength :: nat where
  "customer_maxFoldLength = 4 + 4 + 4"

definition customer_tuple where "customer_tuple k = (sint (customer_Key.c_w_id k), sint (customer_Key.c_d_id k), sint (customer_Key.c_id k))"

subsubsection \<open>\<^verbatim>\<open>customer_wdl_t\<close>\<close>

record customer_wdl_Key =
  c_w_id :: Integer
  c_d_id :: Integer
  c_last :: Varchar
  c_first :: Varchar

definition customer_wdl_foldKey :: "customer_wdl_Key \<Rightarrow> bytes" where
  "customer_wdl_foldKey record = foldInteger (customer_wdl_Key.c_w_id record) @ foldInteger (customer_wdl_Key.c_d_id record) @ foldVarchar (customer_wdl_Key.c_last record) @ foldVarchar (customer_wdl_Key.c_first record)"

definition customer_wdl_unfoldKey :: "bytes \<Rightarrow> customer_wdl_Key \<Rightarrow> (customer_wdl_Key \<times> nat) result" where
  "customer_wdl_unfoldKey input record =
     (let (x0, n0) = unfoldInteger input;
          (x1, n1) = unfoldInteger (drop (n0) input)
      in rbind (unfoldVarchar 16 (drop (n0 + n1) input) (customer_wdl_Key.c_last record)) (\<lambda>(y0, m0).
         rbind (unfoldVarchar 16 (drop (n0 + n1 + m0) input) (customer_wdl_Key.c_first record)) (\<lambda>(y1, m1).
         Inr (record\<lparr>customer_wdl_Key.c_w_id := x0, customer_wdl_Key.c_d_id := x1, customer_wdl_Key.c_last := y0, customer_wdl_Key.c_first := y1\<rparr>, n0 + n1 + m0 + m1))))"

definition customer_wdl_maxFoldLength :: nat where
  "customer_wdl_maxFoldLength = 4 + 4 + 18 + 18"

definition customer_wdl_tuple where "customer_wdl_tuple k = (sint (customer_wdl_Key.c_w_id k), sint (customer_wdl_Key.c_d_id k), varchar_chars (customer_wdl_Key.c_last k), varchar_chars (customer_wdl_Key.c_first k))"

subsubsection \<open>\<^verbatim>\<open>history_t\<close>\<close>

record history_Key =
  thread_id :: Integer
  h_pk :: Integer

definition history_foldKey :: "history_Key \<Rightarrow> bytes" where
  "history_foldKey record = foldInteger (history_Key.thread_id record) @ foldInteger (history_Key.h_pk record)"

definition history_unfoldKey :: "bytes \<Rightarrow> history_Key \<Rightarrow> history_Key \<times> nat" where
  "history_unfoldKey input record =
     (let (x0, n0) = unfoldInteger input;
          (x1, n1) = unfoldInteger (drop (n0) input)
      in (record\<lparr>history_Key.thread_id := x0, history_Key.h_pk := x1\<rparr>, n0 + n1))"

definition history_maxFoldLength :: nat where
  "history_maxFoldLength = 4 + 4"

definition history_tuple where "history_tuple k = (sint (history_Key.thread_id k), sint (history_Key.h_pk k))"

subsubsection \<open>\<^verbatim>\<open>neworder_t\<close>\<close>

record neworder_Key =
  no_w_id :: Integer
  no_d_id :: Integer
  no_o_id :: Integer

definition neworder_foldKey :: "neworder_Key \<Rightarrow> bytes" where
  "neworder_foldKey record = foldInteger (neworder_Key.no_w_id record) @ foldInteger (neworder_Key.no_d_id record) @ foldInteger (neworder_Key.no_o_id record)"

definition neworder_unfoldKey :: "bytes \<Rightarrow> neworder_Key \<Rightarrow> neworder_Key \<times> nat" where
  "neworder_unfoldKey input record =
     (let (x0, n0) = unfoldInteger input;
          (x1, n1) = unfoldInteger (drop (n0) input);
          (x2, n2) = unfoldInteger (drop (n0 + n1) input)
      in (record\<lparr>neworder_Key.no_w_id := x0, neworder_Key.no_d_id := x1, neworder_Key.no_o_id := x2\<rparr>, n0 + n1 + n2))"

definition neworder_maxFoldLength :: nat where
  "neworder_maxFoldLength = 4 + 4 + 4"

definition neworder_tuple where "neworder_tuple k = (sint (neworder_Key.no_w_id k), sint (neworder_Key.no_d_id k), sint (neworder_Key.no_o_id k))"

subsubsection \<open>\<^verbatim>\<open>order_t\<close>\<close>

record order_Key =
  o_w_id :: Integer
  o_d_id :: Integer
  o_id :: Integer

definition order_foldKey :: "order_Key \<Rightarrow> bytes" where
  "order_foldKey record = foldInteger (order_Key.o_w_id record) @ foldInteger (order_Key.o_d_id record) @ foldInteger (order_Key.o_id record)"

definition order_unfoldKey :: "bytes \<Rightarrow> order_Key \<Rightarrow> order_Key \<times> nat" where
  "order_unfoldKey input record =
     (let (x0, n0) = unfoldInteger input;
          (x1, n1) = unfoldInteger (drop (n0) input);
          (x2, n2) = unfoldInteger (drop (n0 + n1) input)
      in (record\<lparr>order_Key.o_w_id := x0, order_Key.o_d_id := x1, order_Key.o_id := x2\<rparr>, n0 + n1 + n2))"

definition order_maxFoldLength :: nat where
  "order_maxFoldLength = 4 + 4 + 4"

definition order_tuple where "order_tuple k = (sint (order_Key.o_w_id k), sint (order_Key.o_d_id k), sint (order_Key.o_id k))"

subsubsection \<open>\<^verbatim>\<open>order_wdc_t\<close>\<close>

record order_wdc_Key =
  o_w_id :: Integer
  o_d_id :: Integer
  o_c_id :: Integer
  o_id :: Integer

definition order_wdc_foldKey :: "order_wdc_Key \<Rightarrow> bytes" where
  "order_wdc_foldKey record = foldInteger (order_wdc_Key.o_w_id record) @ foldInteger (order_wdc_Key.o_d_id record) @ foldInteger (order_wdc_Key.o_c_id record) @ foldInteger (order_wdc_Key.o_id record)"

definition order_wdc_unfoldKey :: "bytes \<Rightarrow> order_wdc_Key \<Rightarrow> order_wdc_Key \<times> nat" where
  "order_wdc_unfoldKey input record =
     (let (x0, n0) = unfoldInteger input;
          (x1, n1) = unfoldInteger (drop (n0) input);
          (x2, n2) = unfoldInteger (drop (n0 + n1) input);
          (x3, n3) = unfoldInteger (drop (n0 + n1 + n2) input)
      in (record\<lparr>order_wdc_Key.o_w_id := x0, order_wdc_Key.o_d_id := x1, order_wdc_Key.o_c_id := x2, order_wdc_Key.o_id := x3\<rparr>, n0 + n1 + n2 + n3))"

definition order_wdc_maxFoldLength :: nat where
  "order_wdc_maxFoldLength = 4 + 4 + 4 + 4"

definition order_wdc_tuple where "order_wdc_tuple k = (sint (order_wdc_Key.o_w_id k), sint (order_wdc_Key.o_d_id k), sint (order_wdc_Key.o_c_id k), sint (order_wdc_Key.o_id k))"

subsubsection \<open>\<^verbatim>\<open>orderline_t\<close>\<close>

record orderline_Key =
  ol_w_id :: Integer
  ol_d_id :: Integer
  ol_o_id :: Integer
  ol_number :: Integer

definition orderline_foldKey :: "orderline_Key \<Rightarrow> bytes" where
  "orderline_foldKey record = foldInteger (orderline_Key.ol_w_id record) @ foldInteger (orderline_Key.ol_d_id record) @ foldInteger (orderline_Key.ol_o_id record) @ foldInteger (orderline_Key.ol_number record)"

definition orderline_unfoldKey :: "bytes \<Rightarrow> orderline_Key \<Rightarrow> orderline_Key \<times> nat" where
  "orderline_unfoldKey input record =
     (let (x0, n0) = unfoldInteger input;
          (x1, n1) = unfoldInteger (drop (n0) input);
          (x2, n2) = unfoldInteger (drop (n0 + n1) input);
          (x3, n3) = unfoldInteger (drop (n0 + n1 + n2) input)
      in (record\<lparr>orderline_Key.ol_w_id := x0, orderline_Key.ol_d_id := x1, orderline_Key.ol_o_id := x2, orderline_Key.ol_number := x3\<rparr>, n0 + n1 + n2 + n3))"

definition orderline_maxFoldLength :: nat where
  "orderline_maxFoldLength = 4 + 4 + 4 + 4"

definition orderline_tuple where "orderline_tuple k = (sint (orderline_Key.ol_w_id k), sint (orderline_Key.ol_d_id k), sint (orderline_Key.ol_o_id k), sint (orderline_Key.ol_number k))"

subsubsection \<open>\<^verbatim>\<open>item_t\<close>\<close>

record item_Key =
  i_id :: Integer

definition item_foldKey :: "item_Key \<Rightarrow> bytes" where
  "item_foldKey record = foldInteger (item_Key.i_id record)"

definition item_unfoldKey :: "bytes \<Rightarrow> item_Key \<Rightarrow> item_Key \<times> nat" where
  "item_unfoldKey input record =
     (let (x0, n0) = unfoldInteger input
      in (record\<lparr>item_Key.i_id := x0\<rparr>, n0))"

definition item_maxFoldLength :: nat where
  "item_maxFoldLength = 4"

definition item_tuple where "item_tuple k = (sint (item_Key.i_id k))"

subsubsection \<open>\<^verbatim>\<open>stock_t\<close>\<close>

record stock_Key =
  s_w_id :: Integer
  s_i_id :: Integer

definition stock_foldKey :: "stock_Key \<Rightarrow> bytes" where
  "stock_foldKey record = foldInteger (stock_Key.s_w_id record) @ foldInteger (stock_Key.s_i_id record)"

definition stock_unfoldKey :: "bytes \<Rightarrow> stock_Key \<Rightarrow> stock_Key \<times> nat" where
  "stock_unfoldKey input record =
     (let (x0, n0) = unfoldInteger input;
          (x1, n1) = unfoldInteger (drop (n0) input)
      in (record\<lparr>stock_Key.s_w_id := x0, stock_Key.s_i_id := x1\<rparr>, n0 + n1))"

definition stock_maxFoldLength :: nat where
  "stock_maxFoldLength = 4 + 4"

definition stock_tuple where "stock_tuple k = (sint (stock_Key.s_w_id k), sint (stock_Key.s_i_id k))"

subsection \<open>Order and round trip\<close>

text \<open>A codec of keys: what a table promises of its fold functions.\<close>

locale key_codec =
  fixes ok :: "'k \<Rightarrow> bool" and foldKey :: "'k \<Rightarrow> bytes" and tuple :: "'k \<Rightarrow> 'v::linorder" and maxLength :: nat
  assumes order_law: "ok a \<Longrightarrow> ok b \<Longrightarrow> foldKey a @ r < foldKey b @ s \<longleftrightarrow> tuple a < tuple b \<or> tuple a = tuple b \<and> r < s"
    and length_law: "ok a \<Longrightarrow> length (foldKey a) \<le> maxLength"
begin

lemma fold_less: "ok a \<Longrightarrow> ok b \<Longrightarrow> foldKey a < foldKey b \<longleftrightarrow> tuple a < tuple b"
  using order_law [of a b "[]" "[]"] by simp

lemma fold_eq: "ok a \<Longrightarrow> ok b \<Longrightarrow> foldKey a = foldKey b \<longleftrightarrow> tuple a = tuple b"
  using fold_less [of a b] fold_less [of b a] by (metis less_irrefl linorder_neqE)

text \<open>No key is a proper prefix of another one, whatever follows it in the buffer.\<close>

lemma prefix_free: "ok a \<Longrightarrow> ok b \<Longrightarrow> foldKey a = foldKey b @ r \<Longrightarrow> r = []"
  using order_law [of a b "[]" "[]"] order_law [of b a "[]" "[]"] order_law [of a b "[]" r] order_law [of b a r "[]"]
  by (metis append_Nil2 less_irrefl linorder_neqE)

text \<open>Sorting the folded keys sorts the keys.\<close>

lemma sorted_fold: "(\<forall>k \<in> set ks. ok k) \<Longrightarrow> sorted_wrt (<) (map foldKey ks) \<longleftrightarrow> sorted_wrt (<) (map tuple ks)"
  by (induction ks) (auto simp: fold_less)

end

definition customer_wdl_ok :: "customer_wdl_Key \<Rightarrow> bool" where
  "customer_wdl_ok k \<longleftrightarrow> varchar_ok 16 (c_last k) \<and> varchar_ok 16 (c_first k)"

lemma sint_inj: "sint (x :: u32) = sint y \<longleftrightarrow> x = y"
  using signed_word_eqI [of x y] by auto

interpretation warehouse: key_codec "\<lambda>_. True" warehouse_foldKey warehouse_tuple warehouse_maxFoldLength
  by unfold_locales (auto simp: warehouse_foldKey_def warehouse_tuple_def warehouse_maxFoldLength_def fold_order sint_inj)

interpretation district: key_codec "\<lambda>_. True" district_foldKey district_tuple district_maxFoldLength
  by unfold_locales (auto simp: district_foldKey_def district_tuple_def district_maxFoldLength_def fold_order sint_inj)

interpretation customer: key_codec "\<lambda>_. True" customer_foldKey customer_tuple customer_maxFoldLength
  by unfold_locales (auto simp: customer_foldKey_def customer_tuple_def customer_maxFoldLength_def fold_order sint_inj)

interpretation history: key_codec "\<lambda>_. True" history_foldKey history_tuple history_maxFoldLength
  by unfold_locales (auto simp: history_foldKey_def history_tuple_def history_maxFoldLength_def fold_order sint_inj)

interpretation neworder: key_codec "\<lambda>_. True" neworder_foldKey neworder_tuple neworder_maxFoldLength
  by unfold_locales (auto simp: neworder_foldKey_def neworder_tuple_def neworder_maxFoldLength_def fold_order sint_inj)

interpretation order: key_codec "\<lambda>_. True" order_foldKey order_tuple order_maxFoldLength
  by unfold_locales (auto simp: order_foldKey_def order_tuple_def order_maxFoldLength_def fold_order sint_inj)

interpretation order_wdc: key_codec "\<lambda>_. True" order_wdc_foldKey order_wdc_tuple order_wdc_maxFoldLength
  by unfold_locales (auto simp: order_wdc_foldKey_def order_wdc_tuple_def order_wdc_maxFoldLength_def fold_order sint_inj)

interpretation orderline: key_codec "\<lambda>_. True" orderline_foldKey orderline_tuple orderline_maxFoldLength
  by unfold_locales (auto simp: orderline_foldKey_def orderline_tuple_def orderline_maxFoldLength_def fold_order sint_inj)

interpretation item: key_codec "\<lambda>_. True" item_foldKey item_tuple item_maxFoldLength
  by unfold_locales (auto simp: item_foldKey_def item_tuple_def item_maxFoldLength_def fold_order sint_inj)

interpretation stock: key_codec "\<lambda>_. True" stock_foldKey stock_tuple stock_maxFoldLength
  by unfold_locales (auto simp: stock_foldKey_def stock_tuple_def stock_maxFoldLength_def fold_order sint_inj)

interpretation customer_wdl: key_codec customer_wdl_ok customer_wdl_foldKey customer_wdl_tuple customer_wdl_maxFoldLength
proof unfold_locales
  fix a b r s
  assume "customer_wdl_ok a" "customer_wdl_ok b"
  then have v: "varchar_ok 16 (c_last a)" "varchar_ok 16 (c_first a)" "varchar_ok 16 (c_last b)" "varchar_ok 16 (c_first b)"
    by (simp_all add: customer_wdl_ok_def)
  show "customer_wdl_foldKey a @ r < customer_wdl_foldKey b @ s \<longleftrightarrow>
      customer_wdl_tuple a < customer_wdl_tuple b \<or> customer_wdl_tuple a = customer_wdl_tuple b \<and> r < s"
    using foldVarchar_less [OF v(1,3)] foldVarchar_less [OF v(2,4)]
    by (auto simp: customer_wdl_foldKey_def customer_wdl_tuple_def foldInteger_less sint_inj)
qed (auto simp: customer_wdl_foldKey_def customer_wdl_maxFoldLength_def customer_wdl_ok_def varchar_ok_def foldVarchar_chars)

text \<open>
  C27. Byte-wise comparison of folded keys is comparison of the keys field by field, for every table:
  signed for numbers, lexicographic for names that hold no NUL character. So a scan of a
  table's B-tree visits its records in the order of the key fields, negative numbers included.
\<close>

theorem tpcc_key_order:
  assumes "customer_wdl_ok cw" and "customer_wdl_ok cw'"
  shows "(warehouse_foldKey w < warehouse_foldKey w' \<longleftrightarrow> warehouse_tuple w < warehouse_tuple w') \<and>
    (district_foldKey d < district_foldKey d' \<longleftrightarrow> district_tuple d < district_tuple d') \<and>
    (customer_foldKey c < customer_foldKey c' \<longleftrightarrow> customer_tuple c < customer_tuple c') \<and>
    (customer_wdl_foldKey cw < customer_wdl_foldKey cw' \<longleftrightarrow> customer_wdl_tuple cw < customer_wdl_tuple cw') \<and>
    (history_foldKey h < history_foldKey h' \<longleftrightarrow> history_tuple h < history_tuple h') \<and>
    (neworder_foldKey nw < neworder_foldKey nw' \<longleftrightarrow> neworder_tuple nw < neworder_tuple nw') \<and>
    (order_foldKey r < order_foldKey r' \<longleftrightarrow> order_tuple r < order_tuple r') \<and>
    (order_wdc_foldKey oc < order_wdc_foldKey oc' \<longleftrightarrow> order_wdc_tuple oc < order_wdc_tuple oc') \<and>
    (orderline_foldKey ol < orderline_foldKey ol' \<longleftrightarrow> orderline_tuple ol < orderline_tuple ol') \<and>
    (item_foldKey i < item_foldKey i' \<longleftrightarrow> item_tuple i < item_tuple i') \<and>
    (stock_foldKey s < stock_foldKey s' \<longleftrightarrow> stock_tuple s < stock_tuple s')"
  using assms
  by (simp only: warehouse.fold_less district.fold_less customer.fold_less customer_wdl.fold_less history.fold_less neworder.fold_less order.fold_less order_wdc.fold_less orderline.fold_less item.fold_less stock.fold_less)

text \<open>Witness: two customers whose names differ in the last letter.\<close>

definition demo_name :: "u8 \<Rightarrow> Varchar" where
  "demo_name c = \<lparr>vc_length = 2, vc_data = [65, c] @ replicate 14 0\<rparr>"

definition demo_customer :: "u8 \<Rightarrow> customer_wdl_Key" where
  "demo_customer c = \<lparr>c_w_id = 1, c_d_id = - 2, c_last = demo_name c, c_first = demo_name 66\<rparr>"

lemma demo_customer_ok: "c \<noteq> 0 \<Longrightarrow> customer_wdl_ok (demo_customer c)"
  by (auto simp: customer_wdl_ok_def demo_customer_def demo_name_def varchar_ok_def varchar_chars_def mem_read_def)

theorem tpcc_key_order_witness: "customer_wdl_foldKey (demo_customer 66) < customer_wdl_foldKey (demo_customer 67)"
proof -
  have "customer_wdl_tuple (demo_customer 66) < customer_wdl_tuple (demo_customer 67)" by code_simp
  with tpcc_key_order [OF demo_customer_ok demo_customer_ok, of 66 67] show ?thesis by simp
qed

lemma drop_fold [fold_read]:
  "drop 4 (foldInteger x @ r) = r" "drop 8 (foldInteger x @ foldInteger y @ r) = r"
  "drop 12 (foldInteger x @ foldInteger y @ foldInteger z @ r) = r"
  by simp_all

lemma warehouse_read: "warehouse_unfoldKey (warehouse_foldKey k @ rest) k0 = (k, warehouse_maxFoldLength)"
  by (cases k; cases k0) (simp add: warehouse_unfoldKey_def warehouse_foldKey_def warehouse_maxFoldLength_def fold_read)

lemma district_read: "district_unfoldKey (district_foldKey k @ rest) k0 = (k, district_maxFoldLength)"
  by (cases k; cases k0) (simp add: district_unfoldKey_def district_foldKey_def district_maxFoldLength_def fold_read)

lemma customer_read: "customer_unfoldKey (customer_foldKey k @ rest) k0 = (k, customer_maxFoldLength)"
  by (cases k; cases k0) (simp add: customer_unfoldKey_def customer_foldKey_def customer_maxFoldLength_def fold_read)

lemma history_read: "history_unfoldKey (history_foldKey k @ rest) k0 = (k, history_maxFoldLength)"
  by (cases k; cases k0) (simp add: history_unfoldKey_def history_foldKey_def history_maxFoldLength_def fold_read)

lemma neworder_read: "neworder_unfoldKey (neworder_foldKey k @ rest) k0 = (k, neworder_maxFoldLength)"
  by (cases k; cases k0) (simp add: neworder_unfoldKey_def neworder_foldKey_def neworder_maxFoldLength_def fold_read)

lemma order_read: "order_unfoldKey (order_foldKey k @ rest) k0 = (k, order_maxFoldLength)"
  by (cases k; cases k0) (simp add: order_unfoldKey_def order_foldKey_def order_maxFoldLength_def fold_read)

lemma order_wdc_read: "order_wdc_unfoldKey (order_wdc_foldKey k @ rest) k0 = (k, order_wdc_maxFoldLength)"
  by (cases k; cases k0) (simp add: order_wdc_unfoldKey_def order_wdc_foldKey_def order_wdc_maxFoldLength_def fold_read)

lemma orderline_read: "orderline_unfoldKey (orderline_foldKey k @ rest) k0 = (k, orderline_maxFoldLength)"
  by (cases k; cases k0) (simp add: orderline_unfoldKey_def orderline_foldKey_def orderline_maxFoldLength_def fold_read)

lemma item_read: "item_unfoldKey (item_foldKey k @ rest) k0 = (k, item_maxFoldLength)"
  by (cases k; cases k0) (simp add: item_unfoldKey_def item_foldKey_def item_maxFoldLength_def fold_read)

lemma stock_read: "stock_unfoldKey (stock_foldKey k @ rest) k0 = (k, stock_maxFoldLength)"
  by (cases k; cases k0) (simp add: stock_unfoldKey_def stock_foldKey_def stock_maxFoldLength_def fold_read)

lemma customer_wdl_read:
  assumes "customer_wdl_ok k" and "length (vc_data (c_last k0)) = 16" and "length (vc_data (c_first k0)) = 16"
  shows "\<exists>k'. customer_wdl_unfoldKey (customer_wdl_foldKey k @ rest) k0 = Inr (k', length (customer_wdl_foldKey k)) \<and>
    customer_wdl_Key.c_w_id k' = customer_wdl_Key.c_w_id k \<and> customer_wdl_Key.c_d_id k' = customer_wdl_Key.c_d_id k \<and>
    varchar_eq (c_last k') (c_last k) \<and> varchar_eq (c_first k') (c_first k)"
proof -
  let ?l = "c_last k" and ?f = "c_first k"
  have ok: "varchar_ok 16 ?l" "varchar_ok 16 ?f" using assms(1) by (simp_all add: customer_wdl_ok_def)
  have len: "length (foldVarchar ?l) = vc_length ?l + 1" "length (foldVarchar ?f) = vc_length ?f + 1"
    using ok by (simp_all add: foldVarchar_chars varchar_ok_def)
  obtain y0 where y0: "unfoldVarchar 16 (foldVarchar ?l @ foldVarchar ?f @ rest) (c_last k0) = Inr (y0, vc_length ?l + 1)"
    "varchar_chars y0 = varchar_chars ?l" "varchar_ok 16 y0"
    using unfoldVarchar_fold [OF ok(1) assms(2)] by blast
  obtain y1 where y1: "unfoldVarchar 16 (foldVarchar ?f @ rest) (c_first k0) = Inr (y1, vc_length ?f + 1)"
    "varchar_chars y1 = varchar_chars ?f" "varchar_ok 16 y1"
    using unfoldVarchar_fold [OF ok(2) assms(3)] by blast
  have d: "drop (8 + (vc_length ?l + 1)) (foldInteger a @ foldInteger b @ foldVarchar ?l @ r) = r" for a b r using len(1) by simp
  have "varchar_eq y0 ?l" "varchar_eq y1 ?f"
    using y0(2,3) y1(2,3) ok varchar_compare(1) by (simp_all add: varchar_ok_def)
  moreover have "customer_wdl_unfoldKey (customer_wdl_foldKey k @ rest) k0 =
      Inr (k0\<lparr>customer_wdl_Key.c_w_id := customer_wdl_Key.c_w_id k, customer_wdl_Key.c_d_id := customer_wdl_Key.c_d_id k,
        c_last := y0, c_first := y1\<rparr>, length (customer_wdl_foldKey k))"
    using y0(1) y1(1) len d [simplified] by (simp add: customer_wdl_unfoldKey_def customer_wdl_foldKey_def fold_read)
  ultimately show ?thesis by simp
qed

text \<open>
  C28. Reading a folded key gives the key back, for every table, and the number of bytes it occupied,
  whatever the target record held before and whatever follows in the buffer. For the names, equality is
  that of \<^verbatim>\<open>Varchar\<close>, which compares the characters in use.
\<close>

theorem tpcc_key_roundtrip:
  assumes "customer_wdl_ok cw" and "length (vc_data (c_last cw0)) = 16" and "length (vc_data (c_first cw0)) = 16"
  shows "warehouse_unfoldKey (warehouse_foldKey w @ rest) w0 = (w, warehouse_maxFoldLength) \<and>
    district_unfoldKey (district_foldKey d @ rest) d0 = (d, district_maxFoldLength) \<and>
    customer_unfoldKey (customer_foldKey c @ rest) c0 = (c, customer_maxFoldLength) \<and>
    history_unfoldKey (history_foldKey h @ rest) h0 = (h, history_maxFoldLength) \<and>
    neworder_unfoldKey (neworder_foldKey nw @ rest) nw0 = (nw, neworder_maxFoldLength) \<and>
    order_unfoldKey (order_foldKey r @ rest) r0 = (r, order_maxFoldLength) \<and>
    order_wdc_unfoldKey (order_wdc_foldKey oc @ rest) oc0 = (oc, order_wdc_maxFoldLength) \<and>
    orderline_unfoldKey (orderline_foldKey ol @ rest) ol0 = (ol, orderline_maxFoldLength) \<and>
    item_unfoldKey (item_foldKey i @ rest) i0 = (i, item_maxFoldLength) \<and>
    stock_unfoldKey (stock_foldKey s @ rest) s0 = (s, stock_maxFoldLength) \<and>
    (\<exists>cw'. customer_wdl_unfoldKey (customer_wdl_foldKey cw @ rest) cw0 = Inr (cw', length (customer_wdl_foldKey cw)) \<and>
      customer_wdl_Key.c_w_id cw' = customer_wdl_Key.c_w_id cw \<and> customer_wdl_Key.c_d_id cw' = customer_wdl_Key.c_d_id cw \<and>
      varchar_eq (c_last cw') (c_last cw) \<and> varchar_eq (c_first cw') (c_first cw))"
  by (simp only: warehouse_read district_read customer_read history_read neworder_read order_read order_wdc_read orderline_read item_read stock_read simp_thms) (rule customer_wdl_read [OF assms])

theorem tpcc_key_roundtrip_witness:
  "\<exists>cw. customer_wdl_unfoldKey (customer_wdl_foldKey (demo_customer 66)) (demo_customer 70) = Inr (cw, 14) \<and> varchar_eq (c_last cw) (demo_name 66)"
proof -
  have ok: "customer_wdl_ok (demo_customer 66)" by (rule demo_customer_ok) simp
  have len: "length (vc_data (c_last (demo_customer 70))) = 16" "length (vc_data (c_first (demo_customer 70))) = 16"
    by (simp_all add: demo_customer_def demo_name_def)
  have "length (customer_wdl_foldKey (demo_customer 66)) = 14" by code_simp
  moreover have "c_last (demo_customer 66) = demo_name 66" by (simp add: demo_customer_def)
  moreover have "\<exists>cw. customer_wdl_unfoldKey (customer_wdl_foldKey (demo_customer 66) @ []) (demo_customer 70) =
      Inr (cw, length (customer_wdl_foldKey (demo_customer 66))) \<and> varchar_eq (c_last cw) (c_last (demo_customer 66))"
    using tpcc_key_roundtrip [OF ok len, where rest = "[]", THEN conjunct2, THEN conjunct2, THEN conjunct2, THEN conjunct2, THEN conjunct2, THEN conjunct2, THEN conjunct2, THEN conjunct2, THEN conjunct2, THEN conjunct2] by blast
  ultimately show ?thesis by simp
qed

end
