(* ===== verification/Remote_Scan.thy ===== *)
theory Remote_Scan
  imports Prelude
begin

section \<open>Remote scans: configuration, work distribution and striping\<close>

text \<open>
  \<^verbatim>\<open>src/src/remotescan/config.cpp\<close> and \<^verbatim>\<open>raid.cpp\<close>, and the option names of
  \<^verbatim>\<open>src/src/utils/types.cpp\<close>: the checks of a configuration, the share of a scan each worker
  requests, and the striping of logical offsets over the drives of a server. What the command line
  and the block devices deliver (option values, file descriptors, drive sizes) are arguments.
\<close>

subsection \<open>Options\<close>

datatype Mode = SERVER | CLIENT

datatype Backend = IO_URING | EPOLL_LIBAIO

datatype SetupMode = DEFAULT | SQPOLL | COOP_TASKRUN | DEFER_TASKRUN | HYBRID_IOPOLL

datatype IssueMode = CHUNK | BUDGET | TIMED

fun show_Mode :: "Mode \<Rightarrow> string" where
  "show_Mode SERVER = ''server''"
| "show_Mode CLIENT = ''client''"

text \<open>Reading sets the failure bit of the stream, here \<open>None\<close>, and keeps the value.\<close>

definition read_Mode :: "string \<Rightarrow> Mode option" where
  "read_Mode value = (if value = ''server'' then Some SERVER else if value = ''client'' then Some CLIENT else None)"

fun show_Backend :: "Backend \<Rightarrow> string" where
  "show_Backend IO_URING = ''io_uring''"
| "show_Backend EPOLL_LIBAIO = ''epoll_libaio''"

definition read_Backend :: "string \<Rightarrow> Backend option" where
  "read_Backend value =
     (if value = ''io_uring'' then Some IO_URING else if value = ''epoll_libaio'' then Some EPOLL_LIBAIO else None)"

fun show_SetupMode :: "SetupMode \<Rightarrow> string" where
  "show_SetupMode DEFAULT = ''default''"
| "show_SetupMode SQPOLL = ''sqpoll''"
| "show_SetupMode DEFER_TASKRUN = ''defer''"
| "show_SetupMode COOP_TASKRUN = ''coop''"
| "show_SetupMode HYBRID_IOPOLL = ''hybrid''"

definition read_SetupMode :: "string \<Rightarrow> SetupMode result" where
  "read_SetupMode token =
     (if token = ''default'' then Inr DEFAULT
      else if token = ''sqpoll'' then Inr SQPOLL
      else if token = ''defer'' then Inr DEFER_TASKRUN
      else if token = ''coop'' then Inr COOP_TASKRUN
      else if token = ''hybrid'' then Inr HYBRID_IOPOLL
      else Inl (Throw (''Invalid input for SetupMode: '' @ token)))"

fun show_IssueMode :: "IssueMode \<Rightarrow> string" where
  "show_IssueMode CHUNK = ''chunk''"
| "show_IssueMode BUDGET = ''budget''"
| "show_IssueMode TIMED = ''timed''"

definition read_IssueMode :: "string \<Rightarrow> IssueMode result" where
  "read_IssueMode token =
     (if token = ''chunk'' then Inr CHUNK
      else if token = ''budget'' then Inr BUDGET
      else if token = ''timed'' then Inr TIMED
      else Inl (Throw (''Invalid input for IssueMode: '' @ token)))"

subsection \<open>Configuration\<close>

definition kBlockSize :: u32 where "kBlockSize = 4096"
definition kDefaultIoUringRingEntries :: u32 where "kDefaultIoUringRingEntries = 4096"
definition kDefaultEpollLibaioRingEntries :: u32 where "kDefaultEpollLibaioRingEntries = 64"

record Config =
  mode :: Mode
  backend :: Backend
  ip :: string
  port :: u16
  setup_mode :: SetupMode
  num_workers :: u32
  reg_ring :: bool
  reg_fds :: bool
  reg_bufs :: bool
  napi :: bool
  send_zc :: bool
  pin_queues :: bool
  ring_entries :: u32
  num_sockets :: u32
  scan_bytes :: u64
  duration :: u64
  request_size :: u32
  stripe_size :: u32
  connect_retries :: u32
  socket_sndbuf :: u32
  socket_rcvbuf :: u32
  ssd_paths :: "string list"

text \<open>\<^verbatim>\<open>Config::parse\<close> after the options have been read.\<close>

definition config_defaults :: "Config \<Rightarrow> Config" where
  "config_defaults cfg =
     (if ring_entries cfg = 0
      then cfg\<lparr>ring_entries := (if backend cfg = IO_URING then kDefaultIoUringRingEntries else kDefaultEpollLibaioRingEntries)\<rparr>
      else cfg)"

definition config_check :: "Config \<Rightarrow> unit result" where
  "config_check cfg =
        (rbind (check (0 < num_sockets cfg) (Ensure ''num_sockets > 0'')) (\<lambda>_.
         rbind (check (0 < num_workers cfg) (Ensure ''num_workers > 0'')) (\<lambda>_.
         rbind (check (0 < request_size cfg) (Ensure ''request_size > 0'')) (\<lambda>_.
         rbind (check (request_size cfg \<le> stripe_size cfg) (Ensure ''stripe_size >= request_size'')) (\<lambda>_.
         rbind (check (request_size cfg mod kBlockSize = 0) (Ensure ''request_size % kBlockSize == 0'')) (\<lambda>_.
         rbind (check (stripe_size cfg mod kBlockSize = 0) (Ensure ''stripe_size % kBlockSize == 0'')) (\<lambda>_.
         rbind (check (scan_bytes cfg mod ucast (request_size cfg) = 0) (Ensure ''scan_bytes % request_size == 0'')) (\<lambda>_.
         rbind (check (0 < scan_bytes cfg \<or> 0 < duration cfg) (Ensure ''scan_bytes > 0 || duration > 0'')) (\<lambda>_.
         rbind (check (mode cfg = CLIENT \<longrightarrow> (0 < scan_bytes cfg) \<noteq> (0 < duration cfg)) (Ensure ''(scan_bytes > 0) != (duration > 0)'')) (\<lambda>_.
         rbind (if backend cfg = IO_URING
                then check (2 * num_sockets cfg + 64 \<le> ring_entries cfg) (Ensure ''ring_entries >= 2 * num_sockets + 64'')
                else check (num_sockets cfg \<le> ring_entries cfg) (Ensure ''ring_entries >= num_sockets'')) (\<lambda>_.
         rbind (check (mode cfg = SERVER \<longrightarrow> ssd_paths cfg \<noteq> []) (Ensure ''!ssds.empty()'')) (\<lambda>_.
         rbind (check (send_zc cfg \<longrightarrow> mode cfg = SERVER) (Ensure ''mode == Mode::SERVER'')) (\<lambda>_.
         Inr ())))))))))))))"

definition config_parse :: "Config \<Rightarrow> Config result" where
  "config_parse cfg = rbind (config_check (config_defaults cfg)) (\<lambda>_. Inr (config_defaults cfg))"

definition has_scan_target :: "Config \<Rightarrow> bool" where
  "has_scan_target cfg \<longleftrightarrow> 0 < scan_bytes cfg"

definition has_duration_target :: "Config \<Rightarrow> bool" where
  "has_duration_target cfg \<longleftrightarrow> 0 < duration cfg"

definition total_requests :: "Config \<Rightarrow> u64 result" where
  "total_requests cfg =
     rbind (check (0 < scan_bytes cfg) (Ensure ''cfg.scan_bytes > 0'')) (\<lambda>_.
     Inr (scan_bytes cfg div ucast (request_size cfg)))"

definition worker_num_sockets :: "Config \<Rightarrow> nat \<Rightarrow> u32" where
  "worker_num_sockets cfg worker_idx = num_sockets cfg"

definition worker_num_requests :: "Config \<Rightarrow> nat \<Rightarrow> u64 result" where
  "worker_num_requests cfg worker_idx =
     (if \<not> has_scan_target cfg then Inr 0
      else rbind (total_requests cfg) (\<lambda>total.
        let base = total div ucast (num_workers cfg);
            rm = total mod ucast (num_workers cfg)
        in Inr (base + (if worker_idx < unat rm then 1 else 0))))"

fun worker_start_loop :: "Config \<Rightarrow> nat \<Rightarrow> u64 result" where
  "worker_start_loop cfg 0 = Inr 0"
| "worker_start_loop cfg (Suc i) =
     rbind (worker_start_loop cfg i) (\<lambda>start. rbind (worker_num_requests cfg i) (\<lambda>k. Inr (start + k)))"

definition worker_start_request :: "Config \<Rightarrow> nat \<Rightarrow> u64 result" where
  "worker_start_request cfg worker_idx =
     (if \<not> has_scan_target cfg then Inr 0 else worker_start_loop cfg worker_idx)"

definition worker_start_offset :: "Config \<Rightarrow> nat \<Rightarrow> u64 result" where
  "worker_start_offset cfg worker_idx =
     (if \<not> has_scan_target cfg then Inr (of_nat worker_idx * (1024 * 1024 * 1024 * 10))
      else rbind (worker_start_request cfg worker_idx) (\<lambda>r. Inr (r * ucast (request_size cfg))))"

definition worker_scan_bytes :: "Config \<Rightarrow> nat \<Rightarrow> u64 result" where
  "worker_scan_bytes cfg worker_idx =
     rbind (worker_num_requests cfg worker_idx) (\<lambda>k. Inr (k * ucast (request_size cfg)))"

subsection \<open>Striping\<close>

record SsdFile =
  raw_fd :: int
  ring_fd :: int
  logical_bytes :: u64
  usable_bytes :: u64

definition moved_ssd :: SsdFile where
  "moved_ssd = \<lparr>raw_fd = - 1, ring_fd = - 1, logical_bytes = 0, usable_bytes = 0\<rparr>"

text \<open>
  Moves and the destructor; the descriptors that are closed are returned. \<open>same\<close> says that the assigned
  object is the object itself.
\<close>

definition SsdFile_move :: "SsdFile \<Rightarrow> SsdFile \<times> SsdFile" where
  "SsdFile_move other = (other, moved_ssd)"

definition SsdFile_dtor :: "SsdFile \<Rightarrow> int list" where
  "SsdFile_dtor ssd = (if 0 \<le> raw_fd ssd then [raw_fd ssd] else [])"

definition SsdFile_assign :: "bool \<Rightarrow> SsdFile \<Rightarrow> SsdFile \<Rightarrow> (SsdFile \<times> SsdFile) \<times> int list" where
  "SsdFile_assign same this other =
     (if same then ((this, other), []) else ((other, moved_ssd), if 0 \<le> raw_fd this then [raw_fd this] else []))"

text \<open>\<open>devs\<close>: descriptor and size of each drive.\<close>

fun raid_open :: "u32 \<Rightarrow> (int \<times> u64) list \<Rightarrow> SsdFile list result" where
  "raid_open stripe [] = Inr []"
| "raid_open stripe ((fd, bytes) # devs) =
     rbind (check (0 \<le> fd) (Throw ''check_ret'')) (\<lambda>_.
     let usable = bytes - bytes mod ucast stripe
     in rbind (check (ucast stripe \<le> usable) (Ensure ''ssd.usable_bytes >= cfg.stripe_size'')) (\<lambda>_.
        rbind (raid_open stripe devs) (\<lambda>ssds.
        Inr (\<lparr>raw_fd = fd, ring_fd = - 1, logical_bytes = bytes, usable_bytes = usable\<rparr> # ssds))))"

definition register_files :: "nat \<Rightarrow> SsdFile list \<Rightarrow> SsdFile list" where
  "register_files fixed_fd_base ssds = map (\<lambda>(i, ssd). ssd\<lparr>ring_fd := int (fixed_fd_base + i)\<rparr>) (enumerate 0 ssds)"

record StripeAddress =
  ssd_idx :: nat
  drive_offset :: u64

definition raid_map :: "Config \<Rightarrow> SsdFile list \<Rightarrow> u64 \<Rightarrow> u32 \<Rightarrow> StripeAddress result" where
  "raid_map cfg ssds logical_offset len =
     rbind (check (ssds \<noteq> []) (Ensure ''!ssds.empty()'')) (\<lambda>_.
     rbind (check (logical_offset mod ucast kBlockSize = 0) (Ensure ''logical_offset % kBlockSize == 0'')) (\<lambda>_.
     rbind (check (len mod kBlockSize = 0) (Ensure ''len % kBlockSize == 0'')) (\<lambda>_.
     let stripe_nr = logical_offset div ucast (stripe_size cfg);
         stripe_off = logical_offset mod ucast (stripe_size cfg)
     in rbind (check (stripe_off + ucast len \<le> ucast (stripe_size cfg)) (Ensure ''stripe_off + len <= cfg.stripe_size'')) (\<lambda>_.
        let idx = unat (stripe_nr mod of_nat (length ssds));
            stripe_round = stripe_nr div of_nat (length ssds);
            wrapped_base = (stripe_round * ucast (stripe_size cfg)) mod usable_bytes (ssds ! idx)
        in Inr \<lparr>ssd_idx = idx, drive_offset = wrapped_base + stripe_off\<rparr>))))"

definition fd_for_request :: "Config \<Rightarrow> SsdFile list \<Rightarrow> u64 \<Rightarrow> u32 \<Rightarrow> int result" where
  "fd_for_request cfg ssds logical_offset len =
     rbind (raid_map cfg ssds logical_offset len) (\<lambda>addr.
     Inr (if reg_fds cfg then ring_fd (ssds ! ssd_idx addr) else raw_fd (ssds ! ssd_idx addr)))"

definition offset_for_request :: "Config \<Rightarrow> SsdFile list \<Rightarrow> u64 \<Rightarrow> u32 \<Rightarrow> u64 result" where
  "offset_for_request cfg ssds logical_offset len =
     rbind (raid_map cfg ssds logical_offset len) (\<lambda>addr. Inr (drive_offset addr))"

subsection \<open>Option names\<close>

text \<open>Every option value is read back from the name it is printed as.\<close>

lemma option_names_roundtrip:
  "read_Mode (show_Mode m) = Some m \<and> read_Backend (show_Backend b) = Some b \<and>
   read_SetupMode (show_SetupMode s) = Inr s \<and> read_IssueMode (show_IssueMode i) = Inr i"
  by (cases m; cases b; cases s; cases i) (simp_all add: read_Mode_def read_Backend_def read_SetupMode_def read_IssueMode_def)

subsection \<open>Shares of the workers\<close>

lemma config_checkD:
  assumes "config_check cfg = Inr ()"
  shows "0 < num_workers cfg" "0 < request_size cfg" "request_size cfg \<le> stripe_size cfg" "0 < stripe_size cfg"
    "scan_bytes cfg mod ucast (request_size cfg) = 0" "stripe_size cfg mod kBlockSize = 0" "request_size cfg mod kBlockSize = 0"
  using assms by (auto simp: config_check_def intro: less_le_trans)

lemma config_parseD: "config_parse cfg0 = Inr cfg \<Longrightarrow> config_check cfg = Inr ()"
  by (auto simp: config_parse_def)

definition share :: "nat \<Rightarrow> nat \<Rightarrow> nat \<Rightarrow> nat" where
  "share t n i = t div n + (if i < t mod n then 1 else 0)"

definition share_start :: "nat \<Rightarrow> nat \<Rightarrow> nat \<Rightarrow> nat" where
  "share_start t n i = i * (t div n) + min i (t mod n)"

lemma share_start_Suc: "share_start t n (Suc i) = share_start t n i + share t n i"
  by (auto simp: share_start_def share_def)

lemma share_start_le: "i \<le> n \<Longrightarrow> share_start t n i \<le> t"
proof -
  assume "i \<le> n"
  then have "share_start t n i \<le> n * (t div n) + t mod n"
    unfolding share_start_def by (intro add_mono mult_le_mono1) simp_all
  then show ?thesis by simp
qed

lemma share_start_end: "0 < n \<Longrightarrow> share_start t n n = t"
proof -
  assume "0 < n"
  then have "min n (t mod n) = t mod n" by (simp add: less_imp_le)
  then show ?thesis by (simp add: share_start_def)
qed

definition requests :: "Config \<Rightarrow> nat" where
  "requests cfg = unat (scan_bytes cfg) div unat (request_size cfg)"

lemma unat_ucast_u32: "unat (ucast (x :: u32) :: u64) = unat x"
proof -
  have "unat x < 2 ^ LENGTH(32)" by (rule unsigned_less)
  then show ?thesis by (simp add: unsigned_ucast_eq take_bit_eq_mod)
qed

lemma unat_u64_less: "unat (x :: u64) < 2 ^ 64"
proof -
  have "unat x < 2 ^ LENGTH(64)" by (rule unsigned_less)
  then show ?thesis by simp
qed

lemma worker_num_requests_share:
  assumes "has_scan_target cfg" and "0 < num_workers cfg"
  shows "worker_num_requests cfg i = Inr (of_nat (share (requests cfg) (unat (num_workers cfg)) i))"
proof -
  let ?t = "scan_bytes cfg div ucast (request_size cfg) :: u64" and ?n = "unat (num_workers cfg)"
  have "?t div ucast (num_workers cfg) = of_nat (unat (?t div ucast (num_workers cfg)))" by simp
  also have "unat (?t div ucast (num_workers cfg)) = requests cfg div ?n" by (simp only: unat_div_distrib unat_ucast_u32 requests_def)
  finally have "?t div ucast (num_workers cfg) = of_nat (requests cfg div ?n)" .
  moreover have "unat (?t mod ucast (num_workers cfg)) = requests cfg mod ?n" by (simp only: unat_mod_distrib unat_div_distrib unat_ucast_u32 requests_def)
  ultimately show ?thesis
    using assms by (simp add: worker_num_requests_def total_requests_def has_scan_target_def share_def Let_def)
qed

lemma unat_of_nat_le: "k \<le> unat (x :: u64) \<Longrightarrow> unat (of_nat k :: u64) = k"
  using unat_u64_less [of x] by (simp add: unat_of_nat take_bit_eq_mod)

lemma worker_start_share:
  assumes "has_scan_target cfg" and "0 < num_workers cfg"
  shows "worker_start_loop cfg i = Inr (of_nat (share_start (requests cfg) (unat (num_workers cfg)) i))"
proof (induction i)
  case 0
  then show ?case by (simp add: share_start_def)
next
  case (Suc i)
  then show ?case using worker_num_requests_share [OF assms] by (simp add: share_start_Suc)
qed

lemma requests_bytes:
  assumes "config_check cfg = Inr ()"
  shows "requests cfg * unat (request_size cfg) = unat (scan_bytes cfg)"
proof -
  have "unat (scan_bytes cfg mod ucast (request_size cfg)) = 0" using config_checkD(5) [OF assms] by simp
  then have "unat (scan_bytes cfg) mod unat (request_size cfg) = 0" by (simp add: unat_mod_distrib unat_ucast_u32)
  then show ?thesis unfolding requests_def using div_mult_mod_eq [of "unat (scan_bytes cfg)" "unat (request_size cfg)"] by linarith
qed

lemma unat_requests_times:
  assumes "config_check cfg = Inr ()" and "k \<le> requests cfg"
  shows "unat (of_nat k * ucast (request_size cfg) :: u64) = k * unat (request_size cfg)"
proof -
  have "k * unat (request_size cfg) \<le> unat (scan_bytes cfg)"
    using assms(2) requests_bytes [OF assms(1)] mult_le_mono1 [of k "requests cfg" "unat (request_size cfg)"] by simp
  moreover have "of_nat k * ucast (request_size cfg) = (of_nat (k * unat (request_size cfg)) :: u64)"
    by simp
  ultimately show ?thesis using unat_of_nat_le by (simp only:)
qed

text \<open>
  C31. The workers of a scan share it without gap or overlap: the first worker starts at offset 0, each
  worker's share ends where the next one's starts, the last one ends at \<^verbatim>\<open>scan_bytes\<close>, and no
  two shares differ by more than one request. No step wraps around.
\<close>

theorem worker_shares_tile_the_scan:
  assumes "config_parse cfg0 = Inr cfg" and "has_scan_target cfg"
  shows "\<exists>start bytes. (\<forall>i \<le> unat (num_workers cfg). worker_start_offset cfg i = Inr (start i)) \<and>
    (\<forall>i < unat (num_workers cfg). worker_scan_bytes cfg i = Inr (bytes i)) \<and>
    start 0 = 0 \<and> start (unat (num_workers cfg)) = scan_bytes cfg \<and>
    (\<forall>i < unat (num_workers cfg). unat (start (Suc i)) = unat (start i) + unat (bytes i)) \<and>
    (\<forall>i < unat (num_workers cfg). \<forall>j < unat (num_workers cfg). unat (bytes i) \<le> unat (bytes j) + unat (request_size cfg))"
proof -
  note ok = config_parseD [OF assms(1)]
  let ?n = "unat (num_workers cfg)" and ?r = "unat (request_size cfg)"
  have w: "0 < num_workers cfg" by (rule config_checkD(1) [OF ok])
  then have n: "0 < ?n" by (simp add: unat_gt_0 word_gt_0)
  let ?st = "share_start (requests cfg) ?n" and ?sh = "share (requests cfg) ?n"
  define start where "start i = (of_nat (?st i) * ucast (request_size cfg) :: u64)" for i
  define bytes where "bytes i = (of_nat (?sh i) * ucast (request_size cfg) :: u64)" for i
  have le: "?st i \<le> requests cfg" if "i \<le> ?n" for i using share_start_le [OF that] .
  have sh: "?sh i \<le> requests cfg" if "i < ?n" for i
    using le [of "Suc i"] share_start_Suc [of "requests cfg" ?n i] that by simp
  have us: "unat (start i) = ?st i * ?r" if "i \<le> ?n" for i unfolding start_def by (rule unat_requests_times [OF ok le [OF that]])
  have ub: "unat (bytes i) = ?sh i * ?r" if "i < ?n" for i unfolding bytes_def by (rule unat_requests_times [OF ok sh [OF that]])
  have "worker_start_offset cfg i = Inr (start i)" for i
    using assms(2) worker_start_share [OF assms(2) w] by (simp add: worker_start_offset_def worker_start_request_def start_def)
  moreover have "worker_scan_bytes cfg i = Inr (bytes i)" for i
    using worker_num_requests_share [OF assms(2) w] by (simp add: worker_scan_bytes_def bytes_def)
  moreover have "start 0 = 0" by (simp add: start_def share_start_def)
  moreover have "start ?n = scan_bytes cfg"
    using us [of ?n] share_start_end [OF n] requests_bytes [OF ok] by (simp add: word_unat_eq_iff)
  moreover have "unat (start (Suc i)) = unat (start i) + unat (bytes i)" if "i < ?n" for i
    using that by (simp add: us ub share_start_Suc add_mult_distrib)
  moreover have "unat (bytes i) \<le> unat (bytes j) + ?r" if "i < ?n" "j < ?n" for i j
  proof -
    have "?sh i \<le> Suc (?sh j)" by (simp add: share_def)
    then have "?sh i * ?r \<le> Suc (?sh j) * ?r" by (rule mult_le_mono1)
    then show ?thesis using that by (simp add: ub)
  qed
  ultimately show ?thesis by blast
qed

subsection \<open>Striping\<close>

lemma unat_kBlockSize [simp]: "unat kBlockSize = 4096" "unat (ucast kBlockSize :: u64) = 4096"
  by (simp_all add: kBlockSize_def unat_ucast_u32)

text \<open>The drives as the constructor leaves them: whole stripes, at least one.\<close>

definition drives_ok :: "Config \<Rightarrow> SsdFile list \<Rightarrow> bool" where
  "drives_ok cfg ssds \<longleftrightarrow> ssds \<noteq> [] \<and> length ssds < 2 ^ 32 \<and>
     (\<forall>ssd \<in> set ssds. unat (stripe_size cfg) dvd unat (usable_bytes ssd) \<and> unat (stripe_size cfg) \<le> unat (usable_bytes ssd) \<and>
        unat (usable_bytes ssd) \<le> unat (logical_bytes ssd))"

lemma raid_open_ok:
  assumes "raid_open stripe devs = Inr ssds"
  shows "length ssds = length devs" and
    "\<forall>ssd \<in> set ssds. unat stripe dvd unat (usable_bytes ssd) \<and> unat stripe \<le> unat (usable_bytes ssd) \<and> unat (usable_bytes ssd) \<le> unat (logical_bytes ssd)"
proof -
  have "length ssds = length devs \<and> (\<forall>ssd \<in> set ssds. unat stripe dvd unat (usable_bytes ssd) \<and> unat stripe \<le> unat (usable_bytes ssd) \<and>
      unat (usable_bytes ssd) \<le> unat (logical_bytes ssd))"
    using assms
  proof (induction stripe devs arbitrary: ssds rule: raid_open.induct)
    case (2 stripe fd bytes devs)
    let ?u = "bytes - bytes mod ucast stripe :: u64"
    have "bytes mod ucast stripe \<le> bytes" by (simp add: word_le_nat_alt unat_mod_distrib)
    then have u: "unat ?u = unat bytes - unat bytes mod unat stripe" by (simp add: unat_sub unat_mod_distrib unat_ucast_u32)
    have "unat stripe dvd unat ?u" unfolding u by (rule dvd_minus_mod)
    moreover have "unat stripe \<le> unat ?u" using 2(2) by (auto simp: Let_def word_le_nat_alt unat_ucast_u32)
    moreover have "unat ?u \<le> unat bytes" unfolding u by simp
    ultimately show ?case using 2 by (auto simp: Let_def)
  qed simp
  then show "length ssds = length devs" "\<forall>ssd \<in> set ssds. unat stripe dvd unat (usable_bytes ssd) \<and> unat stripe \<le> unat (usable_bytes ssd) \<and>
      unat (usable_bytes ssd) \<le> unat (logical_bytes ssd)" by blast+
qed

lemma raid_map_value:
  assumes ok: "drives_ok cfg ssds" and s: "0 < stripe_size cfg" and m: "raid_map cfg ssds off len = Inr addr"
  defines "ss \<equiv> unat (stripe_size cfg)" and "n \<equiv> length ssds" and "o' \<equiv> unat off"
  shows "ssd_idx addr = o' div ss mod n" and "ssd_idx addr < n"
    and "unat (drive_offset addr) = o' div ss div n * ss mod unat (usable_bytes (ssds ! ssd_idx addr)) + o' mod ss"
    and "unat (drive_offset addr) + unat len \<le> unat (usable_bytes (ssds ! ssd_idx addr))"
    and "off mod ucast kBlockSize = 0" and "o' mod ss + unat len \<le> ss"
proof -
  let ?i = "o' div ss mod n" and ?u = "\<lambda>i. unat (usable_bytes (ssds ! i))"
  have ss0: "0 < ss" using s by (simp add: ss_def unat_gt_0 word_gt_0)
  have n0: "0 < n" "n < 2 ^ 32" using ok by (simp_all add: drives_ok_def n_def)
  have nw: "unat (of_nat n :: u64) = n" using n0(2) by (simp add: unat_of_nat take_bit_eq_mod)
  have idx: "unat (off div ucast (stripe_size cfg) mod of_nat n :: u64) = ?i"
    by (simp add: unat_mod_distrib unat_div_distrib unat_ucast_u32 nw ss_def o'_def)
  from m have mo: "off mod ucast kBlockSize = 0" and fit: "off mod ucast (stripe_size cfg) + ucast len \<le> (ucast (stripe_size cfg) :: u64)"
    and a: "addr = \<lparr>ssd_idx = ?i, drive_offset = (off div ucast (stripe_size cfg) div of_nat n * ucast (stripe_size cfg)) mod usable_bytes (ssds ! ?i)
      + off mod ucast (stripe_size cfg)\<rparr>"
    using idx by (auto simp: raid_map_def Let_def n_def)
  show "off mod ucast kBlockSize = 0" by (rule mo)
  show i: "ssd_idx addr = ?i" "ssd_idx addr < n" using a n0(1) by simp_all
  have len: "unat len < 2 ^ 32" "ss < 2 ^ 32" using unsigned_less [of len, where ?'a = nat] unsigned_less [of "stripe_size cfg", where ?'a = nat]
    by (simp_all add: ss_def)
  have om: "unat (off mod ucast (stripe_size cfg) :: u64) = o' mod ss" by (simp add: unat_mod_distrib unat_ucast_u32 ss_def o'_def)
  have oml: "o' mod ss < ss" using ss0 by simp
  have "unat (off mod ucast (stripe_size cfg) + ucast len :: u64) = o' mod ss + unat len"
    using om oml len by (simp add: unat_word_ariths unat_ucast_u32)
  then show fit': "o' mod ss + unat len \<le> ss" using fit by (simp add: word_le_nat_alt unat_ucast_u32 ss_def)
  let ?R = "o' div ss div n"
  have "?R * ss \<le> o' div ss * ss" by (intro mult_le_mono1 div_le_dividend)
  then have R: "?R * ss \<le> o'" using div_times_less_eq_dividend [of o' ss] by linarith
  have prod: "unat (off div ucast (stripe_size cfg) div of_nat n * ucast (stripe_size cfg) :: u64) = ?R * ss"
  proof -
    have "?R * ss < 2 ^ 64" using R unat_u64_less [of off] by (simp add: o'_def)
    then show ?thesis by (simp add: unat_word_ariths(2) unat_div_distrib unat_ucast_u32 nw ss_def o'_def)
  qed
  have drive: "ss dvd ?u ?i" "ss \<le> ?u ?i" using ok i nth_mem [of ?i ssds] n0(1) by (simp_all add: drives_ok_def ss_def n_def)
  let ?b = "?R * ss mod ?u ?i"
  have b: "?b + ss \<le> ?u ?i"
  proof -
    have "ss dvd ?b" using drive(1) by (simp add: dvd_mod)
    with drive(1) have "ss dvd ?u ?i - ?b" by (rule dvd_diff_nat)
    moreover have "?b < ?u ?i" using drive(2) ss0 by simp
    ultimately show ?thesis using dvd_imp_le [of ss "?u ?i - ?b"] by linarith
  qed
  have drv: "unat (drive_offset addr) = ?b + o' mod ss"
  proof -
    have "?b + o' mod ss < 2 ^ 64" using b oml unat_u64_less [of "usable_bytes (ssds ! ?i)"] by linarith
    then show ?thesis using a prod om by (simp add: unat_word_ariths(1) unat_mod_distrib)
  qed
  show "unat (drive_offset addr) = ?R * ss mod ?u (ssd_idx addr) + o' mod ss" using drv i(1) by simp
  show "unat (drive_offset addr) + unat len \<le> ?u (ssd_idx addr)" unfolding drv i(1) using fit' b by linarith
qed

lemma drives_opened:
  assumes "raid_open (stripe_size cfg) devs = Inr ssds" and "devs \<noteq> []" and "length devs < 2 ^ 32"
  shows "drives_ok cfg ssds"
  using raid_open_ok [OF assms(1)] assms(2,3) by (auto simp: drives_ok_def)

lemma block_dvd: "x mod kBlockSize = 0 \<Longrightarrow> 4096 dvd unat x"
  by (simp add: word_unat_eq_iff unat_mod_distrib dvd_eq_mod_eq_0)

text \<open>
  C30. The striping never leaves a drive: an address it returns names one of the drives, is a multiple
  of the block size, and the request ends within the drive's usable bytes.
\<close>

theorem raid_map_in_bounds:
  assumes "config_parse cfg0 = Inr cfg" and "raid_open (stripe_size cfg) devs = Inr ssds" and "devs \<noteq> []" and "length devs < 2 ^ 32"
    and "raid_map cfg ssds off len = Inr addr"
  shows "ssd_idx addr < length ssds \<and> unat (drive_offset addr) mod 4096 = 0 \<and>
    unat (drive_offset addr) + unat len \<le> unat (usable_bytes (ssds ! ssd_idx addr)) \<and>
    unat (usable_bytes (ssds ! ssd_idx addr)) \<le> unat (logical_bytes (ssds ! ssd_idx addr))"
proof -
  note ok = config_parseD [OF assms(1)] and d = drives_opened [OF assms(2-4)]
  note v = raid_map_value [OF d config_checkD(4) [OF ok] assms(5)]
  let ?ss = "unat (stripe_size cfg)"
  have ss: "4096 dvd ?ss" by (rule block_dvd [OF config_checkD(6) [OF ok]])
  have o4: "4096 dvd unat off" using v(5) by (simp add: word_unat_eq_iff unat_mod_distrib dvd_eq_mod_eq_0)
  have u: "?ss dvd unat (usable_bytes (ssds ! ssd_idx addr))" "unat (usable_bytes (ssds ! ssd_idx addr)) \<le> unat (logical_bytes (ssds ! ssd_idx addr))"
    using d nth_mem [OF v(2)] by (simp_all add: drives_ok_def)
  have "4096 dvd unat (drive_offset addr)"
    unfolding v(3) by (intro dvd_add dvd_mod dvd_mult ss o4 dvd_trans [OF ss u(1)])
  with v(2,4) u(2) show ?thesis by (simp add: dvd_eq_mod_eq_0)
qed

lemma same_quot: "x * m + r = y * m + s \<Longrightarrow> r < m \<Longrightarrow> s < m \<Longrightarrow> x = y \<and> r = (s :: nat)"
  by (metis add.commute add_left_cancel div_mult_self1 div_less add_0 less_nat_zero_code)

text \<open>
  C29. Two offsets below the capacity of the drives (the number of drives times the size of the smallest)
  never share an address: the striping is injective there.
\<close>

theorem raid_map_injective:
  assumes "config_parse cfg0 = Inr cfg" and "raid_open (stripe_size cfg) devs = Inr ssds" and "devs \<noteq> []" and "length devs < 2 ^ 32"
    and "raid_map cfg ssds a len = Inr addr" and "raid_map cfg ssds b len' = Inr addr"
    and "unat a < length ssds * U" and "unat b < length ssds * U" and "\<forall>ssd \<in> set ssds. U \<le> unat (usable_bytes ssd)"
  shows "a = b"
proof -
  note ok = config_parseD [OF assms(1)] and d = drives_opened [OF assms(2-4)]
  let ?s = "unat (stripe_size cfg)" and ?n = "length ssds" and ?u = "unat (usable_bytes (ssds ! ssd_idx addr))"
  note va = raid_map_value [OF d config_checkD(4) [OF ok] assms(5)] and vb = raid_map_value [OF d config_checkD(4) [OF ok] assms(6)]
  have s0: "0 < ?s" using config_checkD(4) [OF ok] by (simp add: unat_gt_0 word_gt_0)
  have us: "?s dvd ?u" using d nth_mem [OF va(2)] by (simp add: drives_ok_def)
  have U: "U \<le> ?u" using assms(9) nth_mem [OF va(2)] by blast
  have nowrap: "x div ?s div ?n * ?s < ?u" if "x < ?n * U" for x
  proof -
    have e: "x div ?s div ?n = x div ?n div ?s" by (metis div_mult2_eq mult.commute)
    have "x div ?n < U" using that by (simp add: less_mult_imp_div_less mult.commute)
    moreover have "x div ?n div ?s * ?s \<le> x div ?n" by (rule div_times_less_eq_dividend)
    ultimately show ?thesis unfolding e using U by linarith
  qed
  have "unat a div ?s div ?n * ?s + unat a mod ?s = unat b div ?s div ?n * ?s + unat b mod ?s"
    using va(3) vb(3) nowrap [OF assms(7)] nowrap [OF assms(8)] by simp
  then have "unat a div ?s div ?n = unat b div ?s div ?n \<and> unat a mod ?s = unat b mod ?s"
    by (rule same_quot) (simp_all add: s0)
  moreover have "unat a div ?s mod ?n = unat b div ?s mod ?n" using va(1) vb(1) by simp
  ultimately have "unat a div ?s = unat b div ?s" "unat a mod ?s = unat b mod ?s" by (metis div_mult_mod_eq)+
  then have "unat a = unat b" by (metis div_mult_mod_eq)
  then show ?thesis by (simp add: word_unat_eq_iff)
qed

text \<open>
  C32. When the request size divides the stripe size, every request of the scan is served: none
  straddles two stripes.
\<close>

theorem requests_are_served:
  assumes "config_parse cfg0 = Inr cfg" and "ssds \<noteq> []" and "unat (request_size cfg) dvd unat (stripe_size cfg)" and "k < requests cfg"
  shows "\<exists>addr. raid_map cfg ssds (of_nat k * ucast (request_size cfg)) (request_size cfg) = Inr addr"
proof -
  note ok = config_parseD [OF assms(1)]
  let ?r = "unat (request_size cfg)" and ?s = "unat (stripe_size cfg)" and ?o = "of_nat k * ucast (request_size cfg) :: u64"
  have r0: "0 < ?r" using config_checkD(2) [OF ok] by (simp add: unat_gt_0 word_gt_0)
  have o': "unat ?o = k * ?r" by (rule unat_requests_times [OF ok]) (use assms(4) in simp)
  have blk: "4096 dvd ?r" by (rule block_dvd [OF config_checkD(7) [OF ok]])
  have "unat (?o mod ucast kBlockSize) = 0" using blk by (simp add: unat_mod_distrib o' dvd_eq_mod_eq_0 [symmetric])
  then have a: "?o mod ucast kBlockSize = 0" by (simp add: word_unat_eq_iff)
  have m: "unat (?o mod ucast (stripe_size cfg)) = k * ?r mod ?s" by (simp only: unat_mod_distrib o' unat_ucast_u32)
  have fit: "k * ?r mod ?s + ?r \<le> ?s"
  proof -
    obtain q where q: "?s = ?r * q" using assms(3) by blast
    have "0 < ?s" using config_checkD(4) [OF ok] by (simp add: unat_gt_0 word_gt_0)
    then have q0: "0 < q" using q by (cases q) simp_all
    have "k * ?r mod ?s = k mod q * ?r" unfolding q by (metis mod_mult_mult1 mult.commute)
    moreover have "Suc (k mod q) * ?r \<le> q * ?r" using q0 by (intro mult_le_mono1 Suc_leI) simp
    ultimately show ?thesis using q by (simp add: mult.commute)
  qed
  have "?s < 2 ^ 32" using unsigned_less [of "stripe_size cfg", where ?'a = nat] by simp
  then have "unat (?o mod ucast (stripe_size cfg) + ucast (request_size cfg)) = k * ?r mod ?s + ?r"
    using fit m by (simp add: unat_word_ariths(1) unat_ucast_u32)
  then have "?o mod ucast (stripe_size cfg) + ucast (request_size cfg) \<le> (ucast (stripe_size cfg) :: u64)"
    using fit by (simp add: word_le_nat_alt unat_ucast_u32)
  then show ?thesis using a config_checkD(7) [OF ok] assms(2) by (simp add: raid_map_def Let_def)
qed

subsection \<open>A configuration that is accepted and fails\<close>

definition demo_config :: Config where
  "demo_config = \<lparr>mode = SERVER, backend = IO_URING, ip = ''127.0.0.1'', port = 1234, setup_mode = DEFER_TASKRUN, num_workers = 2, reg_ring = False, reg_fds = False,
     reg_bufs = False, napi = False, send_zc = False, pin_queues = False, ring_entries = 4096, num_sockets = 8, scan_bytes = 40960,
     duration = 0, request_size = 8192, stripe_size = 12288, connect_retries = 30, socket_sndbuf = 0, socket_rcvbuf = 0, ssd_paths = [''/dev/nvme0n1'']\<rparr>"

definition demo_drives :: "SsdFile list" where
  "demo_drives = projr (raid_open 12288 [(3, 1048576), (4, 2097152)])"

lemma demo_parse: "config_parse demo_config = Inr demo_config"
  by code_simp

lemma demo_open: "raid_open (stripe_size demo_config) [(3, 1048576), (4, 2097152)] = Inr demo_drives"
  by code_simp

text \<open>
  C38. The checks of a configuration do not exclude a request size that does not divide the stripe size.
  With every such configuration the scan has a request that straddles two stripes, as soon as it has more
  requests than fit into the first stripe: on it the check in \<^verbatim>\<open>RaidLayout::map\<close> fails,
  whatever the drives, which ends the server.
\<close>

theorem accepted_config_can_fail:
  assumes "config_parse cfg0 = Inr cfg" and "ssds \<noteq> []" and "\<not> unat (request_size cfg) dvd unat (stripe_size cfg)"
    and "k = unat (stripe_size cfg) div unat (request_size cfg)" and "k < requests cfg"
  shows "raid_map cfg ssds (of_nat k * ucast (request_size cfg)) (request_size cfg) = Inl (Ensure ''stripe_off + len <= cfg.stripe_size'')"
proof -
  note ok = config_parseD [OF assms(1)]
  let ?r = "unat (request_size cfg)" and ?s = "unat (stripe_size cfg)" and ?o = "of_nat k * ucast (request_size cfg) :: u64"
  have r0: "0 < ?r" using config_checkD(2) [OF ok] by (simp add: unat_gt_0 word_gt_0)
  have o': "unat ?o = k * ?r" by (rule unat_requests_times [OF ok]) (use assms(5) in simp)
  have blk: "4096 dvd ?r" by (rule block_dvd [OF config_checkD(7) [OF ok]])
  have "unat (?o mod ucast kBlockSize) = 0" using blk by (simp add: unat_mod_distrib o' dvd_eq_mod_eq_0 [symmetric])
  then have a: "?o mod ucast kBlockSize = 0" by (simp add: word_unat_eq_iff)
  have "0 < ?s mod ?r" using assms(3) by (simp add: dvd_eq_mod_eq_0)
  moreover have "k * ?r + ?s mod ?r = ?s" by (simp add: assms(4))
  ultimately have lt: "k * ?r < ?s" by linarith
  have gt: "?s < k * ?r + ?r" using dividend_less_div_times [OF r0, of ?s] by (simp add: assms(4))
  have m: "unat (?o mod ucast (stripe_size cfg)) = k * ?r" using lt by (simp add: unat_mod_distrib o' unat_ucast_u32)
  have "?s < 2 ^ 32" "?r < 2 ^ 32" using unsigned_less [of "stripe_size cfg", where ?'a = nat] unsigned_less [of "request_size cfg", where ?'a = nat] by simp_all
  then have "k * ?r + ?r < 2 ^ 64" using lt by simp
  then have "unat (?o mod ucast (stripe_size cfg) + ucast (request_size cfg)) = k * ?r + ?r"
    by (simp only: unat_word_ariths(1) m unat_ucast_u32) simp
  then have "\<not> ?o mod ucast (stripe_size cfg) + ucast (request_size cfg) \<le> (ucast (stripe_size cfg) :: u64)"
    using gt by (simp only: word_le_nat_alt unat_ucast_u32 not_le)
  then show ?thesis using a config_checkD(7) [OF ok] assms(2) by (simp only: raid_map_def Let_def check_simps rbind_simps not_False_eq_True refl)
qed

theorem accepted_config_can_fail_witness:
  "config_parse demo_config = Inr demo_config \<and> worker_scan_bytes demo_config 0 = Inr 24576 \<and>
   raid_map demo_config demo_drives 8192 8192 = Inl (Ensure ''stripe_off + len <= cfg.stripe_size'')"
proof -
  have r: "request_size demo_config = 8192" "stripe_size demo_config = 12288" by (simp_all add: demo_config_def)
  have d: "demo_drives \<noteq> []" by code_simp
  have n: "1 < requests demo_config" by (simp add: requests_def demo_config_def)
  have w: "worker_scan_bytes demo_config 0 = Inr 24576" by code_simp
  have "raid_map demo_config demo_drives (of_nat 1 * ucast (request_size demo_config)) (request_size demo_config) =
      Inl (Ensure ''stripe_off + len <= cfg.stripe_size'')"
    by (rule accepted_config_can_fail [OF demo_parse d _ _ n]) (simp_all add: r)
  moreover have "of_nat 1 * ucast (8192 :: u32) = (8192 :: u64)" by simp
  ultimately show ?thesis using demo_parse w by (simp only: r)
qed

theorem worker_shares_tile_the_scan_witness: "\<exists>start. worker_start_offset demo_config 2 = Inr start \<and> start = scan_bytes demo_config"
proof -
  have "has_scan_target demo_config" "unat (num_workers demo_config) = 2" by code_simp+
  with worker_shares_tile_the_scan [OF demo_parse] show ?thesis by fastforce
qed

theorem raid_map_in_bounds_witness:
  "\<exists>addr. raid_map demo_config demo_drives 36864 8192 = Inr addr \<and> unat (drive_offset addr) + 8192 \<le> unat (usable_bytes (demo_drives ! ssd_idx addr))"
proof -
  have m: "raid_map demo_config demo_drives 36864 8192 = Inr \<lparr>ssd_idx = 1, drive_offset = 12288\<rparr>" by code_simp
  have "unat (drive_offset \<lparr>ssd_idx = 1, drive_offset = 12288\<rparr>) + unat (8192 :: u32) \<le> unat (usable_bytes (demo_drives ! ssd_idx \<lparr>ssd_idx = 1, drive_offset = 12288\<rparr>))"
    using raid_map_in_bounds [OF demo_parse demo_open _ _ m] by simp
  then show ?thesis using m by simp
qed

theorem raid_map_injective_witness: "\<exists>addr. raid_map demo_config demo_drives 36864 4096 = Inr addr \<and> raid_map demo_config demo_drives 24576 4096 \<noteq> Inr addr"
proof -
  have m: "raid_map demo_config demo_drives 36864 4096 = Inr \<lparr>ssd_idx = 1, drive_offset = 12288\<rparr>" by code_simp
  have "\<forall>ssd \<in> set demo_drives. (1044480 :: u64) \<le> usable_bytes ssd" and n: "length demo_drives = 2" by code_simp+
  then have U: "\<forall>ssd \<in> set demo_drives. 1044480 \<le> unat (usable_bytes ssd)" by (auto simp: word_le_nat_alt)
  have "False" if m': "raid_map demo_config demo_drives 24576 4096 = Inr \<lparr>ssd_idx = 1, drive_offset = 12288\<rparr>"
  proof -
    have "(36864 :: u64) = 24576" by (rule raid_map_injective [OF demo_parse demo_open _ _ m m' _ _ U]) (simp_all add: n)
    then show False by simp
  qed
  with m show ?thesis by blast
qed

theorem requests_are_served_witness:
  "\<exists>addr. raid_map (demo_config\<lparr>stripe_size := 16384\<rparr>) demo_drives (of_nat 3 * ucast (8192 :: u32)) 8192 = Inr addr"
proof -
  let ?c = "demo_config\<lparr>stripe_size := 16384\<rparr>"
  have p: "config_parse ?c = Inr ?c" by code_simp
  have n: "demo_drives \<noteq> []" by code_simp
  have d: "unat (request_size ?c) dvd unat (stripe_size ?c)" "3 < requests ?c" by (simp_all add: demo_config_def requests_def)
  from requests_are_served [OF p n d] show ?thesis by (simp add: demo_config_def)
qed

end
