(* ===== verification/Latency.thy ===== *)
theory Latency
  imports Prelude "HOL-Library.Log_Nat"
begin

section \<open>The latency histogram\<close>

text \<open>
  \<^verbatim>\<open>src/src/utils/latency.hpp\<close>: the index of a latency in the histogram, the latency an index stands for,
  the counters, and the difference of two times. A \<^verbatim>\<open>unsigned long\<close> is a natural below
  \<open>2 ^ 64\<close>; an index is a 32-bit number and stays below \<open>PLAT_NR\<close>. The product of the floating
  point number \<^verbatim>\<open>k + 0.5\<close> with a power of two is exact, and the sum is a whole number.
\<close>

definition PLAT_BITS :: nat where "PLAT_BITS = 6"
definition PLAT_VAL :: nat where "PLAT_VAL = push_bit PLAT_BITS 1"
definition PLAT_GROUP_NR :: nat where "PLAT_GROUP_NR = 29"
definition PLAT_NR :: nat where "PLAT_NR = PLAT_GROUP_NR * PLAT_VAL"

definition plat_idx_to_val :: "nat \<Rightarrow> nat result" where
  "plat_idx_to_val idx =
     rbind (check (idx < PLAT_NR) (Assert ''idx < PLAT_NR'')) (\<lambda>_.
     if idx < push_bit 1 PLAT_VAL then Inr idx
     else
       let error_bits = drop_bit PLAT_BITS idx - 1;
           base = push_bit (error_bits + PLAT_BITS) 1;
           k = idx mod PLAT_VAL
       in Inr (base + (2 * k + 1) * push_bit error_bits 1 div 2))"

definition clzll :: "nat \<Rightarrow> nat" where
  "clzll val = 64 - floorlog 2 val"

definition msb_of :: "nat \<Rightarrow> nat" where
  "msb_of val = (if val = 0 then 0 else 64 - clzll val - 1)"

definition plat_val_to_idx :: "nat \<Rightarrow> nat" where
  "plat_val_to_idx val =
     (let msb = msb_of val
      in if msb \<le> PLAT_BITS then val
         else
           let error_bits = msb - PLAT_BITS;
               base = push_bit PLAT_BITS (error_bits + 1);
               offset = (PLAT_VAL - 1) AND drop_bit error_bits val
           in if base + offset < PLAT_NR - 1 then base + offset else PLAT_NR - 1)"

definition histogram_init :: "u64 list" where
  "histogram_init = replicate PLAT_NR 0"

definition histogram_add :: "nat \<Rightarrow> u64 list \<Rightarrow> u64 list" where
  "histogram_add v plat = (let pidx = plat_val_to_idx v in plat[pidx := plat ! pidx + 1])"

text \<open>Times as seconds and nanoseconds; the difference is taken in 64 bits.\<close>

record timespec =
  tv_sec :: int
  tv_nsec :: int

definition ns_diff :: "timespec \<Rightarrow> timespec \<Rightarrow> u64" where
  "ns_diff t1 t2 = of_int (tv_sec t2 - tv_sec t1) * 1000000000 + of_int (tv_nsec t2 - tv_nsec t1)"

lemmas plat_defs = PLAT_BITS_def PLAT_VAL_def PLAT_GROUP_NR_def PLAT_NR_def

lemma plat_numbers [simp]: "PLAT_BITS = 6" "PLAT_VAL = 64" "PLAT_NR = 1856"
  by (simp_all add: plat_defs push_bit_eq_mult)

subsection \<open>Groups\<close>

text \<open>The number of the group of a value, and its position in the group.\<close>

lemma msb_bounds:
  assumes "0 < v" and "v < 2 ^ 64"
  shows "2 ^ (64 - clzll v - 1) \<le> v" and "v < 2 * 2 ^ (64 - clzll v - 1)" and "64 - clzll v - 1 < 64"
proof -
  let ?f = "floorlog 2 v"
  have f: "0 < ?f" "2 ^ (?f - 1) \<le> v" "v < 2 ^ ?f"
    using floorlog_bounds [of v 2] assms(1) floorlog_eq_zero_iff [of 2 v] by auto
  have "?f \<le> 64"
  proof (rule ccontr)
    assume "\<not> ?f \<le> 64"
    then have "2 ^ 64 \<le> (2 :: nat) ^ (?f - 1)" by (intro power_increasing) simp_all
    with f(2) assms(2) show False by simp
  qed
  then have e: "64 - clzll v - 1 = ?f - 1" using f(1) by (simp add: clzll_def)
  show "2 ^ (64 - clzll v - 1) \<le> v" "64 - clzll v - 1 < 64" unfolding e using f \<open>?f \<le> 64\<close> by simp_all
  have "(2 :: nat) ^ ?f = 2 * 2 ^ (?f - 1)" using f(1) by (cases ?f) simp_all
  then show "v < 2 * 2 ^ (64 - clzll v - 1)" unfolding e using f(3) by simp
qed

lemma groupD:
  assumes "v < 2 ^ 64" and "6 < msb_of v"
  shows "2 ^ msb_of v \<le> v" "v < 2 * 2 ^ msb_of v" "msb_of v < 64"
proof -
  have v: "0 < v" using assms(2) by (cases v) (simp_all add: msb_of_def)
  then have "msb_of v = 64 - clzll v - 1" by (simp add: msb_of_def)
  then show "2 ^ msb_of v \<le> v" "v < 2 * 2 ^ msb_of v" "msb_of v < 64" using msb_bounds [OF v assms(1)] by simp_all
qed

lemma group_small:
  assumes "v < 2 ^ 64" shows "msb_of v \<le> 6 \<longleftrightarrow> v < 128"
proof
  assume g: "msb_of v \<le> 6"
  show "v < 128"
  proof (cases "v = 0")
    case False
    then have "v < 2 * 2 ^ msb_of v" using msb_bounds(2) [of v] assms by (simp add: msb_of_def)
    also have "\<dots> \<le> 2 * 2 ^ 6" using g by (intro mult_le_mono2 power_increasing) simp_all
    finally show ?thesis by simp
  qed simp
next
  assume v: "v < 128"
  show "msb_of v \<le> 6"
  proof (rule ccontr)
    assume "\<not> msb_of v \<le> 6"
    then have "(2 :: nat) ^ 7 \<le> 2 ^ msb_of v" by (intro power_increasing) simp_all
    with groupD(1) [OF assms] v \<open>\<not> msb_of v \<le> 6\<close> show False by simp
  qed
qed

lemma drop_group:
  assumes "v < 2 ^ 64" and "6 < msb_of v"
  shows "64 \<le> v div 2 ^ (msb_of v - 6)" and "v div 2 ^ (msb_of v - 6) < 128"
    and "v div 2 ^ (msb_of v - 6) mod 64 = v div 2 ^ (msb_of v - 6) - 64"
proof -
  let ?e = "msb_of v - 6"
  have p: "(2 :: nat) ^ msb_of v = 64 * 2 ^ ?e" using power_add [of "2 :: nat" 6 ?e] assms(2) by simp
  show a: "64 \<le> v div 2 ^ ?e" using groupD(1) [OF assms] p by (simp add: less_eq_div_iff_mult_less_eq)
  show b: "v div 2 ^ ?e < 128" using groupD(2) [OF assms] p by (simp add: less_mult_imp_div_less)
  show "v div 2 ^ ?e mod 64 = v div 2 ^ ?e - 64" using a b by (simp add: le_mod_geq)
qed

lemma plat_val_to_idx_eq:
  assumes "v < 2 ^ 64"
  shows "plat_val_to_idx v = (if v < 128 then v else min (64 * (msb_of v - 6) + v div 2 ^ (msb_of v - 6)) 1855)"
proof (cases "v < 128")
  case True
  then show ?thesis using group_small [OF assms] by (simp add: plat_val_to_idx_def)
next
  case False
  then have g: "6 < msb_of v" using group_small [OF assms] by simp
  have "((63 :: nat) AND drop_bit (msb_of v - 6) v) = v div 2 ^ (msb_of v - 6) mod 64"
    using and_pow2_pred [of 64 "drop_bit (msb_of v - 6) v"] by (simp add: is_power_of_two_def drop_bit_eq_div and.commute)
  then have "((63 :: nat) AND drop_bit (msb_of v - 6) v) = v div 2 ^ (msb_of v - 6) - 64" using drop_group(3) [OF assms g] by simp
  then show ?thesis using False g drop_group(1) [OF assms g]
    by (simp add: plat_val_to_idx_def Let_def push_bit_eq_mult)
qed

lemma plat_idx_less: "v < 2 ^ 64 \<Longrightarrow> plat_val_to_idx v < PLAT_NR"
  by (auto simp: plat_val_to_idx_eq min_def)

lemma msb_of_mono:
  assumes "v \<le> w" and "w < 2 ^ 64" and "6 < msb_of v"
  shows "msb_of v \<le> msb_of w"
proof (rule ccontr)
  assume l: "\<not> msb_of v \<le> msb_of w"
  have "w < 2 * 2 ^ msb_of w"
  proof (cases "w = 0")
    case False
    then show ?thesis using msb_bounds(2) [of w] assms(2) by (simp add: msb_of_def)
  qed simp
  also have "\<dots> \<le> 2 ^ msb_of v" using power_increasing [of "Suc (msb_of w)" "msb_of v" "2 :: nat"] l by simp
  also have "\<dots> \<le> v" using groupD(1) [of v] assms by simp
  finally show False using assms(1) by simp
qed

text \<open>
  C34. Every 64-bit latency has a counter: the index is below \<^verbatim>\<open>PLAT_NR\<close>, and longer latencies never get a
  smaller index.
\<close>

theorem plat_index_bounded_and_monotone:
  assumes "v \<le> w" and "w < 2 ^ 64"
  shows "plat_val_to_idx w < PLAT_NR \<and> plat_val_to_idx v \<le> plat_val_to_idx w"
proof -
  have v: "v < 2 ^ 64" using assms by simp
  let ?e = "\<lambda>x. msb_of x - 6" and ?q = "\<lambda>x. x div 2 ^ (msb_of x - 6)"
  have b: "64 \<le> ?q x \<and> ?q x < 128 \<and> 1 \<le> ?e x" if "x < 2 ^ 64" "\<not> x < 128" for x
    using drop_group(1,2) [of x] group_small [OF that(1)] that by auto
  have "plat_val_to_idx w < PLAT_NR" by (rule plat_idx_less [OF assms(2)])
  moreover have "64 * ?e v + ?q v \<le> 64 * ?e w + ?q w" if "\<not> v < 128"
  proof (cases "msb_of v = msb_of w")
    case True
    then show ?thesis using assms(1) by (simp add: div_le_mono)
  next
    case False
    have "6 < msb_of v" using group_small [OF v] that by simp
    then have "?e v + 1 \<le> ?e w" using msb_of_mono [OF assms] False by linarith
    moreover have "\<not> w < 128" using that assms(1) by simp
    ultimately show ?thesis using b [OF v that] b [OF assms(2)] by linarith
  qed
  moreover have "128 \<le> 64 * ?e w + ?q w" if "\<not> w < 128" using b [OF assms(2) that] by linarith
  ultimately show ?thesis using assms(1) by (auto simp: plat_val_to_idx_eq [OF assms(2)] plat_val_to_idx_eq [OF v] min_def)
qed

theorem plat_index_bounded_and_monotone_witness: "plat_val_to_idx 1000 \<le> plat_val_to_idx 1000000"
  using plat_index_bounded_and_monotone [of 1000 1000000] by simp

lemma plat_small_roundtrip:
  assumes "v < 2 ^ 34"
  shows "\<exists>u. plat_idx_to_val (plat_val_to_idx v) = Inr u \<and> 128 * (u - v) \<le> v \<and> 128 * (v - u) \<le> v"
proof (cases "v < 128")
  case True
  then show ?thesis using plat_val_to_idx_eq [of v] by (simp add: plat_idx_to_val_def push_bit_eq_mult)
next
  case False
  have v: "v < 2 ^ 64" using assms by simp
  have g: "6 < msb_of v" using group_small [OF v] False by simp
  let ?e = "msb_of v - 6" and ?q = "v div 2 ^ (msb_of v - 6)"
  have q: "64 \<le> ?q" "?q < 128" by (rule drop_group [OF v g])+
  have "msb_of v < 34"
  proof (rule ccontr)
    assume "\<not> msb_of v < 34"
    then have "(2 :: nat) ^ 34 \<le> 2 ^ msb_of v" by (intro power_increasing) simp_all
    with groupD(1) [OF v g] assms show False by simp
  qed
  then have e: "1 \<le> ?e" "?e \<le> 27" using g by simp_all
  have idx: "plat_val_to_idx v = 64 * ?e + ?q" using plat_val_to_idx_eq [OF v] False q e by simp
  have "?q div 64 = 1" using q by (intro div_nat_eqI) simp_all
  then have d: "(64 * ?e + ?q) div 64 = ?e + 1" "(64 * ?e + ?q) mod 64 = ?q - 64" using drop_group(3) [OF v g] by simp_all
  obtain h where h: "(2 :: nat) ^ ?e = 2 * h" "h = 2 ^ (?e - 1)" using e(1) by (cases ?e) auto
  let ?u = "?q * 2 ^ ?e + h"
  have "2 ^ (?e + 6) + (2 * (?q - 64) + 1) * 2 ^ ?e div 2 = ?u"
  proof -
    have "(2 * (?q - 64) + 1) * (2 * h) div 2 = (2 * (?q - 64) + 1) * h" by simp
    then have "(2 * (?q - 64) + 1) * 2 ^ ?e div 2 = (2 * (?q - 64) + 1) * h" by (simp only: h(1))
    moreover have "(2 :: nat) ^ (?e + 6) = 64 * (2 * h)" by (simp add: power_add h(1))
    moreover have "64 * (2 * h) + (2 * (?q - 64) + 1) * h = ?q * (2 * h) + h"
    proof -
      obtain r where "?q = 64 + r" using q(1) le_Suc_ex by blast
      then show ?thesis by (simp add: algebra_simps)
    qed
    moreover have "?q * 2 ^ ?e = ?q * (2 * h)" by (simp only: h(1))
    ultimately show ?thesis by linarith
  qed
  then have u: "plat_idx_to_val (plat_val_to_idx v) = Inr ?u"
    using q e d by (simp add: idx plat_idx_to_val_def Let_def push_bit_eq_mult drop_bit_eq_div)
  have lo: "?q * 2 ^ ?e \<le> v" by (rule div_times_less_eq_dividend)
  have hi: "v < ?q * 2 ^ ?e + 2 ^ ?e" using dividend_less_div_times [of "2 ^ ?e" v] by simp
  have h64: "128 * h \<le> ?q * 2 ^ ?e" using mult_le_mono1 [OF q(1), of "2 ^ ?e"] h(1) by simp
  have "?u - v \<le> h" "v - ?u \<le> h" using lo hi h(1) by linarith+
  then have "128 * (?u - v) \<le> v" "128 * (v - ?u) \<le> v" using h64 lo by linarith+
  with u show ?thesis by blast
qed

lemma plat_saturates:
  assumes "2 ^ 34 \<le> v" and "v < 2 ^ 64"
  shows "plat_val_to_idx v = PLAT_NR - 1 \<and> plat_idx_to_val (plat_val_to_idx v) = Inr (2 ^ 34 - 2 ^ 26)"
proof -
  have g: "6 < msb_of v" using group_small [OF assms(2)] assms(1) by simp
  have "34 \<le> msb_of v"
  proof (rule ccontr)
    assume "\<not> 34 \<le> msb_of v"
    then have "(2 :: nat) ^ Suc (msb_of v) \<le> 2 ^ 34" by (intro power_increasing) simp_all
    with groupD(2) [OF assms(2) g] assms(1) show False by simp
  qed
  then have "plat_val_to_idx v = 1855" using plat_val_to_idx_eq [OF assms(2)] drop_group(1) [OF assms(2) g] assms(1) by simp
  then show ?thesis by (simp add: plat_idx_to_val_def Let_def push_bit_eq_mult drop_bit_eq_div)
qed

text \<open>
  C33. A latency below \<open>2 ^ 34\<close> nanoseconds (17 seconds) is reported with an error of at most 1/128: the value
  its index stands for differs from it by no more than that. A longer latency has the last index, whatever it
  is, and is reported as about \<open>2 ^ 34\<close> nanoseconds.
\<close>

theorem plat_roundtrip_error:
  assumes "v < 2 ^ 64"
  shows "if v < 2 ^ 34 then \<exists>u. plat_idx_to_val (plat_val_to_idx v) = Inr u \<and> 128 * (u - v) \<le> v \<and> 128 * (v - u) \<le> v
    else plat_val_to_idx v = PLAT_NR - 1 \<and> plat_idx_to_val (plat_val_to_idx v) = Inr (2 ^ 34 - 2 ^ 26)"
proof (cases "v < 2 ^ 34")
  case True
  then show ?thesis using plat_small_roundtrip by simp
next
  case False
  then have "2 ^ 34 \<le> v" by simp
  then show ?thesis unfolding if_not_P [OF False] by (rule plat_saturates [OF _ assms])
qed

theorem plat_roundtrip_error_witness:
  "(\<exists>u. plat_idx_to_val (plat_val_to_idx 123456789) = Inr u \<and> 128 * (u - 123456789) \<le> 123456789) \<and>
   plat_val_to_idx 20000000000 = PLAT_NR - 1"
  using plat_roundtrip_error [of 123456789] plat_roundtrip_error [of 20000000000] by auto

text \<open>
  A counter of the histogram counts the latencies that have its index, modulo \<open>2 ^ 64\<close>, however
  they are ordered.
\<close>

theorem histogram_counts:
  assumes "\<forall>v \<in> set vs. v < 2 ^ 64" and "i < PLAT_NR"
  shows "fold histogram_add vs histogram_init ! i = of_nat (length (filter (\<lambda>v. plat_val_to_idx v = i) vs))"
proof -
  have "length (fold histogram_add vs h) = PLAT_NR \<and>
      fold histogram_add vs h ! i = h ! i + of_nat (length (filter (\<lambda>v. plat_val_to_idx v = i) vs))"
    if "length h = PLAT_NR" for h
    using assms(1) that
  proof (induction vs arbitrary: h)
    case (Cons v vs)
    have "plat_val_to_idx v < PLAT_NR" using plat_idx_less [of v] Cons.prems(1) by simp
    then have "histogram_add v h ! i = h ! i + (if plat_val_to_idx v = i then 1 else 0)"
      using Cons.prems(2) assms(2) by (simp add: histogram_add_def Let_def)
    moreover have "length (histogram_add v h) = PLAT_NR" using Cons.prems(2) by (simp add: histogram_add_def Let_def)
    ultimately show ?case using Cons.IH [of "histogram_add v h"] Cons.prems(1) by simp
  qed simp
  from this [of histogram_init] assms(2) show ?thesis by (simp add: histogram_init_def)
qed

theorem histogram_counts_witness: "fold histogram_add [3, 100, 3] histogram_init ! 3 = 2"
proof -
  have "plat_val_to_idx 100 = 100" "plat_val_to_idx 3 = 3" by (simp_all add: plat_val_to_idx_eq)
  with histogram_counts [of "[3, 100, 3]" 3] show ?thesis by simp
qed

subsection \<open>Differences of times\<close>

text \<open>
  The difference is the number of nanoseconds between the times, also when it borrows from the
  seconds, as long as it fits into 64 bits.
\<close>

lemma ns_diff_correct:
  assumes "tv_sec t2 * 1000000000 + tv_nsec t2 - (tv_sec t1 * 1000000000 + tv_nsec t1) = d" and "0 \<le> d" and "d < 2 ^ 64"
  shows "uint (ns_diff t1 t2) = d"
proof -
  have "ns_diff t1 t2 = of_int d" unfolding assms(1) [symmetric] by (simp add: ns_diff_def algebra_simps)
  then show ?thesis using assms(2,3) by (simp add: uint_word_of_int)
qed

end
