(* ===== verification/Chained_Map.thy ===== *)
theory Chained_Map
  imports Rh_Map Map_Interface "HOL-Library.Code_Target_Nat"
begin

section \<open>Chained hash maps\<close>

text \<open>
  Two hash tables that keep a chain of nodes per bucket. \<^verbatim>\<open>RHCHU64Map\<close>
  (\<^verbatim>\<open>src/src/buffer_mgr/mt/rh_chained_u64_map.hpp\<close>) allocates its nodes on the heap and inserts at
  the front. \<^verbatim>\<open>ChainedHT\<close> (\<^verbatim>\<open>src/src/utils/hashtable.hpp\<close>) has a fixed number of nodes, appends
  at the tail, and inserts in batches that walk all chains in step. A chain is the list of its
  nodes; the pointer to a link (\<^verbatim>\<open>Node**\<close>) is a bucket and a position in its chain; of the list of
  free nodes only the length matters. Both implement the interface \<open>u64_map\<close>.
\<close>

subsection \<open>Chains\<close>

fun chain_update :: "u64 \<Rightarrow> 'v \<Rightarrow> (u64 \<times> 'v) list \<Rightarrow> (u64 \<times> 'v) list option" where
  "chain_update k v [] = None"
| "chain_update k v (p # ps) = (if fst p = k then Some ((k, v) # ps) else map_option ((#) p) (chain_update k v ps))"

fun chain_find :: "u64 \<Rightarrow> (u64 \<times> 'v) list \<Rightarrow> 'v option" where
  "chain_find k [] = None"
| "chain_find k (p # ps) = (if fst p = k then Some (snd p) else chain_find k ps)"

fun chain_erase :: "u64 \<Rightarrow> (u64 \<times> 'v) list \<Rightarrow> (u64 \<times> 'v) list option" where
  "chain_erase k [] = None"
| "chain_erase k (p # ps) = (if fst p = k then Some ps else map_option ((#) p) (chain_erase k ps))"

lemma chain_find_map_of: "chain_find k c = map_of c k"
  by (induction c) auto

lemma chain_update_None: "chain_update k v c = None \<longleftrightarrow> map_of c k = None"
  by (induction c) auto

lemma chain_update_Some:
  "chain_update k v c = Some c' \<Longrightarrow> map fst c' = map fst c \<and> map_of c' = (map_of c)(k \<mapsto> v) \<and> map_of c k \<noteq> None \<and> length c' = length c"
  by (induction c arbitrary: c') (auto split: if_splits simp: fun_eq_iff)

lemma chain_erase_None: "chain_erase k c = None \<longleftrightarrow> map_of c k = None"
  by (induction c) auto

lemma chain_erase_Some:
  "chain_erase k c = Some c' \<Longrightarrow> distinct (map fst c) \<Longrightarrow>
     distinct (map fst c') \<and> set (map fst c') \<subseteq> set (map fst c) \<and> map_of c' = (map_of c)(k := None) \<and> map_of c k \<noteq> None \<and> length c = Suc (length c')"
proof (induction c arbitrary: c')
  case (Cons p c)
  show ?case
  proof (cases "fst p = k")
    case True
    then have "map_of c k = None" using Cons.prems(2) by (auto simp: map_of_eq_None_iff)
    with True Cons.prems show ?thesis by (auto simp: fun_eq_iff)
  next
    case False
    then obtain d where d: "chain_erase k c = Some d" "c' = p # d" using Cons.prems(1) by auto
    with Cons.IH [OF d(1)] Cons.prems(2) False show ?thesis by (auto simp: fun_eq_iff)
  qed
qed simp

subsection \<open>Tables of chains\<close>

text \<open>
  What both tables keep: a power of two of buckets, each key in the bucket of its hash, no key
  twice.
\<close>

definition home :: "nat \<Rightarrow> u64 \<Rightarrow> nat" where
  "home m k = (unat (splitmix_hash k) AND m)"

definition chains_ok :: "nat \<Rightarrow> (u64 \<times> 'v) list list \<Rightarrow> bool" where
  "chains_ok n bs \<longleftrightarrow> is_power_of_two n \<and> length bs = n \<and>
     (\<forall>i < n. distinct (map fst (bs ! i)) \<and> (\<forall>k \<in> set (map fst (bs ! i)). home (n - 1) k = i \<and> k \<noteq> EMPTY_KEY))"

definition chains_abs :: "nat \<Rightarrow> (u64 \<times> 'v) list list \<Rightarrow> u64 \<Rightarrow> 'v option" where
  "chains_abs n bs k = map_of (bs ! home (n - 1) k) k"

definition chains_size :: "(u64 \<times> 'v) list list \<Rightarrow> nat" where
  "chains_size bs = sum_list (map length bs)"

lemma home_less: "is_power_of_two n \<Longrightarrow> home (n - 1) k < n"
  unfolding home_def by (rule and_pow2_pred_less)

lemma chains_empty: "is_power_of_two n \<Longrightarrow> chains_ok n (replicate n [])" "is_power_of_two n \<Longrightarrow> chains_abs n (replicate n []) = Map.empty"
  "chains_size (replicate n []) = 0"
  using home_less [of n] by (auto simp: chains_ok_def chains_abs_def chains_size_def fun_eq_iff sum_list_replicate)

lemma chains_sentinel: "chains_ok n bs \<Longrightarrow> chains_abs n bs EMPTY_KEY = None"
  using home_less [of n EMPTY_KEY] by (fastforce simp: chains_ok_def chains_abs_def map_of_eq_None_iff)

text \<open>Replacing the chain of a key's bucket by one that differs at that key only.\<close>

lemma chains_set:
  assumes ok: "chains_ok n bs" and k: "k \<noteq> EMPTY_KEY" and d: "distinct (map fst c)"
    and sub: "set (map fst c) \<subseteq> insert k (set (map fst (bs ! home (n - 1) k)))"
    and m: "map_of c = (map_of (bs ! home (n - 1) k))(k := r)"
  shows "chains_ok n (bs[home (n - 1) k := c])" and "chains_abs n (bs[home (n - 1) k := c]) = (chains_abs n bs)(k := r)"
    and "chains_size (bs[home (n - 1) k := c]) + length (bs ! home (n - 1) k) = chains_size bs + length c"
proof -
  let ?i = "home (n - 1) k"
  have i: "?i < n" "length bs = n" using ok home_less by (simp_all add: chains_ok_def)
  have "home (n - 1) x = ?i \<and> x \<noteq> EMPTY_KEY" if "x \<in> set (map fst c)" for x
  proof (cases "x = k")
    case False
    then have "x \<in> set (map fst (bs ! ?i))" using that sub by blast
    then show ?thesis using ok i(1) unfolding chains_ok_def by blast
  qed (use k in simp)
  then show "chains_ok n (bs[?i := c])" using ok d i by (auto simp: chains_ok_def nth_list_update)
  show "chains_abs n (bs[?i := c]) = (chains_abs n bs)(k := r)"
  proof
    fix x
    show "chains_abs n (bs[?i := c]) x = ((chains_abs n bs)(k := r)) x"
      using i m by (cases "home (n - 1) x = ?i") (auto simp: chains_abs_def nth_list_update)
  qed
  show "chains_size (bs[?i := c]) + length (bs ! ?i) = chains_size bs + length c"
    unfolding chains_size_def using sum_list_map_update [of ?i bs length c] i by simp
qed

subsection \<open>\<^verbatim>\<open>RHCHU64Map\<close>\<close>

record 'v RHCHMap =
  ch_buckets :: "(u64 \<times> 'v) list list"
  ch_n :: nat
  ch_mask :: nat
  ch_sz :: nat
  ch_sweep :: nat

definition ch_new :: "nat \<Rightarrow> 'v RHCHMap result" where
  "ch_new capacity =
     (if capacity = 0 \<or> (capacity AND (capacity - 1)) \<noteq> 0
      then Inl (Throw ''capacity must be power of two'')
      else Inr \<lparr>ch_buckets = replicate capacity [], ch_n = capacity, ch_mask = capacity - 1, ch_sz = 0, ch_sweep = 0\<rparr>)"

definition ch_index :: "'v RHCHMap \<Rightarrow> u64 \<Rightarrow> nat" where
  "ch_index m h = (unat h AND ch_mask m)"

definition ch_insert :: "u64 \<Rightarrow> 'v \<Rightarrow> 'v RHCHMap \<Rightarrow> (bool \<times> 'v RHCHMap) result" where
  "ch_insert k v m =
     (if k = EMPTY_KEY then Inl (Throw ''key equals EMPTY_KEY sentinel'')
      else
        let i = ch_index m (splitmix_hash k)
        in case chain_update k v (ch_buckets m ! i) of
             Some c \<Rightarrow> Inr (False, m\<lparr>ch_buckets := (ch_buckets m)[i := c]\<rparr>)
           | None \<Rightarrow> Inr (True, m\<lparr>ch_buckets := (ch_buckets m)[i := (k, v) # ch_buckets m ! i], ch_sz := ch_sz m + 1\<rparr>))"

definition ch_find :: "u64 \<Rightarrow> 'v RHCHMap \<Rightarrow> 'v option" where
  "ch_find k m =
     (if k = EMPTY_KEY then None else chain_find k (ch_buckets m ! ch_index m (splitmix_hash k)))"

definition ch_erase :: "u64 \<Rightarrow> 'v RHCHMap \<Rightarrow> (bool \<times> 'v RHCHMap) result" where
  "ch_erase k m =
     (if k = EMPTY_KEY then Inr (False, m)
      else
        let i = ch_index m (splitmix_hash k)
        in case chain_erase k (ch_buckets m ! i) of
             Some c \<Rightarrow> Inr (True, m\<lparr>ch_buckets := (ch_buckets m)[i := c], ch_sz := ch_sz m - 1\<rparr>)
           | None \<Rightarrow> Inr (False, m))"

text \<open>
  The clock over the buckets; the callback may change the value and accepts by returning true.
\<close>

fun ch_sweep_chain :: "(u64 \<Rightarrow> 'v \<Rightarrow> 's \<Rightarrow> bool \<times> 'v \<times> 's) \<Rightarrow> (u64 \<times> 'v) list \<Rightarrow> 's \<Rightarrow> bool \<times> (u64 \<times> 'v) list \<times> 's" where
  "ch_sweep_chain cb [] s = (False, [], s)"
| "ch_sweep_chain cb ((k, v) # ps) s =
     (let (accepted, v', s') = cb k v s
      in if accepted then (True, (k, v') # ps, s')
         else let (r, ps', s'') = ch_sweep_chain cb ps s' in (r, (k, v') # ps', s''))"

fun ch_sweep_loop :: "nat \<Rightarrow> (u64 \<Rightarrow> 'v \<Rightarrow> 's \<Rightarrow> bool \<times> 'v \<times> 's) \<Rightarrow> 'v RHCHMap \<Rightarrow> 's \<Rightarrow> bool \<times> 'v RHCHMap \<times> 's" where
  "ch_sweep_loop 0 cb m s = (False, m, s)"
| "ch_sweep_loop (Suc left) cb m s =
     (let idx = ch_sweep m;
          m1 = m\<lparr>ch_sweep := ((ch_sweep m + 1) AND ch_mask m)\<rparr>;
          (r, c, s1) = ch_sweep_chain cb (ch_buckets m1 ! idx) s;
          m2 = m1\<lparr>ch_buckets := (ch_buckets m1)[idx := c]\<rparr>
      in if r then (True, m2, s1) else ch_sweep_loop left cb m2 s1)"

definition ch_clock_sweep_next :: "(u64 \<Rightarrow> 'v \<Rightarrow> 's \<Rightarrow> bool \<times> 'v \<times> 's) \<Rightarrow> 'v RHCHMap \<Rightarrow> 's \<Rightarrow> bool \<times> 'v RHCHMap \<times> 's" where
  "ch_clock_sweep_next cb m s =
     (if ch_sz m = 0 then (False, m, s) else ch_sweep_loop (ch_n m) cb m s)"

definition ch_inv :: "'v RHCHMap \<Rightarrow> bool" where
  "ch_inv m \<longleftrightarrow> chains_ok (ch_n m) (ch_buckets m) \<and> ch_mask m = ch_n m - 1 \<and> ch_sz m = chains_size (ch_buckets m) \<and> ch_sweep m < ch_n m"

definition ch_abs :: "'v RHCHMap \<Rightarrow> u64 \<Rightarrow> 'v option" where
  "ch_abs m = chains_abs (ch_n m) (ch_buckets m)"

lemma ch_index_home: "ch_inv m \<Longrightarrow> ch_index m (splitmix_hash k) = home (ch_n m - 1) k"
  by (simp add: ch_inv_def ch_index_def home_def)

lemma ch_insert_correct:
  assumes inv: "ch_inv m" and r: "ch_insert k v m = Inr (b, m')"
  shows "ch_inv m' \<and> ch_abs m' = (ch_abs m)(k \<mapsto> v) \<and> (b \<longleftrightarrow> ch_abs m k = None)"
proof -
  let ?i = "home (ch_n m - 1) k" and ?bs = "ch_buckets m"
  have ok: "chains_ok (ch_n m) ?bs" using inv by (simp add: ch_inv_def)
  have k: "k \<noteq> EMPTY_KEY" using r by (auto simp: ch_insert_def split: if_splits)
  have d: "distinct (map fst (?bs ! ?i))" using ok home_less by (auto simp: chains_ok_def)
  show ?thesis
  proof (cases "chain_update k v (?bs ! ?i)")
    case None
    then have m': "m' = m\<lparr>ch_buckets := ?bs[?i := (k, v) # ?bs ! ?i], ch_sz := ch_sz m + 1\<rparr>" "b"
      using r k by (simp_all add: ch_insert_def ch_index_home [OF inv] Let_def)
    from None have n: "map_of (?bs ! ?i) k = None" by (simp add: chain_update_None)
    then have "distinct (map fst ((k, v) # ?bs ! ?i))" using d by (auto simp: map_of_eq_None_iff)
    note c = chains_set [OF ok k this, of "Some v"]
    show ?thesis using c inv n m' by (auto simp: ch_inv_def ch_abs_def chains_abs_def)
  next
    case (Some c)
    then have m': "m' = m\<lparr>ch_buckets := ?bs[?i := c]\<rparr>" "\<not> b"
      using r k by (simp_all add: ch_insert_def ch_index_home [OF inv] Let_def)
    note u = chain_update_Some [OF Some]
    have "distinct (map fst c)" "set (map fst c) \<subseteq> insert k (set (map fst (?bs ! ?i)))" using u d by auto
    note c = chains_set [OF ok k this conjunct1 [OF conjunct2 [OF u]]]
    show ?thesis using c u d inv m' by (auto simp: ch_inv_def ch_abs_def chains_abs_def)
  qed
qed

lemma ch_erase_correct:
  assumes inv: "ch_inv m"
  shows "\<exists>m'. ch_erase k m = Inr (ch_abs m k \<noteq> None, m') \<and> ch_inv m' \<and> ch_abs m' = (ch_abs m)(k := None)"
proof (cases "k = EMPTY_KEY")
  case True
  have "ch_abs m EMPTY_KEY = None" using inv chains_sentinel [of "ch_n m" "ch_buckets m"] by (simp add: ch_inv_def ch_abs_def)
  then show ?thesis using True inv by (auto simp: ch_erase_def fun_eq_iff)
next
  case k: False
  let ?i = "home (ch_n m - 1) k" and ?bs = "ch_buckets m"
  have ok: "chains_ok (ch_n m) ?bs" using inv by (simp add: ch_inv_def)
  have d: "distinct (map fst (?bs ! ?i))" using ok home_less by (auto simp: chains_ok_def)
  show ?thesis
  proof (cases "chain_erase k (?bs ! ?i)")
    case None
    then have "ch_abs m k = None" by (simp add: chain_erase_None ch_abs_def chains_abs_def)
    then show ?thesis using None k inv by (auto simp: ch_erase_def ch_index_home [OF inv] Let_def fun_eq_iff)
  next
    case (Some c)
    note e = chain_erase_Some [OF Some d]
    have "set (map fst c) \<subseteq> insert k (set (map fst (?bs ! ?i)))" using e by blast
    note c = chains_set [OF ok k conjunct1 [OF e] this, of None]
    let ?m = "m\<lparr>ch_buckets := ?bs[?i := c], ch_sz := ch_sz m - 1\<rparr>"
    have "ch_erase k m = Inr (True, ?m)" using Some k by (simp add: ch_erase_def ch_index_home [OF inv] Let_def)
    moreover have "ch_abs m k \<noteq> None" using e by (simp add: ch_abs_def chains_abs_def)
    moreover have "ch_inv ?m \<and> ch_abs ?m = (ch_abs m)(k := None)" using c e inv by (auto simp: ch_inv_def ch_abs_def)
    ultimately show ?thesis by auto
  qed
qed

interpretation ch: u64_map ch_insert ch_find ch_erase ch_abs ch_inv
proof
  fix m :: "'a RHCHMap" and k :: u64 and v :: 'a and b and m' :: "'a RHCHMap"
  assume inv: "ch_inv m"
  show "ch_find k m = ch_abs m k"
    using inv chains_sentinel [of "ch_n m" "ch_buckets m"] by (auto simp: ch_find_def ch_index_home chain_find_map_of ch_abs_def chains_abs_def ch_inv_def)
  show "ch_insert k v m = Inr (b, m') \<Longrightarrow> ch_inv m' \<and> ch_abs m' = (ch_abs m)(k \<mapsto> v) \<and> (b \<longleftrightarrow> ch_abs m k = None)"
    by (rule ch_insert_correct [OF inv])
  show "ch_insert k v m \<noteq> Inl OutOfSteps" by (auto simp: ch_insert_def Let_def split: option.splits)
  show "\<exists>m'. ch_erase k m = Inr (ch_abs m k \<noteq> None, m') \<and> ch_inv m' \<and> ch_abs m' = (ch_abs m)(k := None)"
    by (rule ch_erase_correct [OF inv])
qed

text \<open>
  C25. Any sequence of insert, find and erase calls on a fresh \<^verbatim>\<open>RHCHU64Map\<close> returns what a partial function
  returns.
\<close>

theorem chained_map_is_a_map:
  assumes "ch_new capacity = Inr m"
  shows "ch_inv m \<and>
    (\<forall>rs m'. map_run ch_insert ch_find ch_erase ops m = Inr (rs, m') \<longrightarrow>
       rs = fst (fun_run ops Map.empty) \<and> ch_abs m' = snd (fun_run ops Map.empty) \<and> ch_inv m')"
proof -
  have p: "is_power_of_two capacity" using assms by (auto simp: ch_new_def is_power_of_two_def split: if_splits)
  then have "ch_inv m" "ch_abs m = Map.empty"
    using assms chains_empty [of capacity] is_power_of_two_pos [OF p] by (auto simp: ch_new_def ch_inv_def ch_abs_def split: if_splits)
  then show ?thesis using ch.run_abs [of m ops] by auto
qed

theorem chained_map_is_a_map_witness:
  "\<exists>m m'. ch_new 4 = Inr m \<and> map_run ch_insert ch_find ch_erase [Insert 7 (1 :: nat), Insert 7 2, Find 7, Erase 7, Find 7] m
     = Inr ([Bool True, Bool False, Value (Some 2), Bool True, Value None], m')"
proof -
  let ?ops = "[Insert 7 (1 :: nat), Insert 7 2, Find 7, Erase 7, Find 7]"
  let ?m = "\<lparr>ch_buckets = replicate 4 [], ch_n = 4, ch_mask = 3, ch_sz = 0, ch_sweep = 0\<rparr> :: nat RHCHMap"
  have m: "ch_new 4 = Inr ?m" by (simp add: ch_new_def)
  have "\<not> isl (map_run ch_insert ch_find ch_erase ?ops ?m)" by code_simp
  then obtain rs m' where r: "map_run ch_insert ch_find ch_erase ?ops ?m = Inr (rs, m')"
    by (cases "map_run ch_insert ch_find ch_erase ?ops ?m") auto
  with chained_map_is_a_map [OF m, of ?ops] have "rs = fst (fun_run ?ops Map.empty)" by blast
  with r m show ?thesis by auto
qed

subsection \<open>\<^verbatim>\<open>ChainedHT\<close>\<close>

text \<open>An item of a batch: the link it has reached, its key and its value.\<close>

record 'v Work =
  w_cur :: "nat \<times> nat"
  w_k :: u64
  w_v :: 'v

record 'v ChainedHT =
  ht_buckets :: "(u64 \<times> 'v) list list"
  ht_free :: nat
  ht_n :: nat
  ht_mask :: nat
  ht_sz :: nat
  ht_work :: "'v Work list"

definition BATCH_SIZE :: nat where "BATCH_SIZE = 1024 * 2"

definition ht_new :: "nat \<Rightarrow> 'v ChainedHT result" where
  "ht_new capacity =
     rbind (check (is_power_of_two capacity) (Ensure ''capacity must be power of two'')) (\<lambda>_.
     Inr \<lparr>ht_buckets = replicate capacity [], ht_free = capacity, ht_n = capacity, ht_mask = capacity - 1, ht_sz = 0, ht_work = []\<rparr>)"

definition ht_index :: "'v ChainedHT \<Rightarrow> u64 \<Rightarrow> nat" where
  "ht_index m h = (unat h AND ht_mask m)"

definition ht_alloc_node :: "'v ChainedHT \<Rightarrow> 'v ChainedHT result" where
  "ht_alloc_node m = rbind (check (0 < ht_free m) (Ensure ''free_list'')) (\<lambda>_. Inr (m\<lparr>ht_free := ht_free m - 1\<rparr>))"

text \<open>Reading, overwriting and appending at a link.\<close>

definition link_get :: "'v ChainedHT \<Rightarrow> nat \<times> nat \<Rightarrow> (u64 \<times> 'v) option" where
  "link_get m l = (let c = ht_buckets m ! fst l in if snd l < length c then Some (c ! snd l) else None)"

definition link_set_value :: "nat \<times> nat \<Rightarrow> 'v \<Rightarrow> 'v ChainedHT \<Rightarrow> 'v ChainedHT" where
  "link_set_value l v m =
     (let c = ht_buckets m ! fst l in m\<lparr>ht_buckets := (ht_buckets m)[fst l := c[snd l := (fst (c ! snd l), v)]]\<rparr>)"

definition link_append :: "nat \<times> nat \<Rightarrow> u64 \<Rightarrow> 'v \<Rightarrow> 'v ChainedHT \<Rightarrow> 'v ChainedHT" where
  "link_append l k v m = m\<lparr>ht_buckets := (ht_buckets m)[fst l := ht_buckets m ! fst l @ [(k, v)]]\<rparr>"

definition ht_insert :: "u64 \<Rightarrow> 'v \<Rightarrow> 'v ChainedHT \<Rightarrow> (bool \<times> 'v ChainedHT) result" where
  "ht_insert k v m =
     rbind (check (k \<noteq> EMPTY_KEY) (Ensure ''key equals EMPTY_KEY sentinel'')) (\<lambda>_.
     let i = ht_index m (splitmix_hash k)
     in case chain_update k v (ht_buckets m ! i) of
          Some c \<Rightarrow> Inr (False, m\<lparr>ht_buckets := (ht_buckets m)[i := c]\<rparr>)
        | None \<Rightarrow>
            rbind (ht_alloc_node m) (\<lambda>m1.
            Inr (True, (link_append (i, length (ht_buckets m ! i)) k v m1)\<lparr>ht_sz := ht_sz m + 1\<rparr>)))"

definition ht_find :: "u64 \<Rightarrow> 'v ChainedHT \<Rightarrow> 'v option" where
  "ht_find k m =
     (if k = EMPTY_KEY then None else chain_find k (ht_buckets m ! ht_index m (splitmix_hash k)))"

definition ht_erase :: "u64 \<Rightarrow> 'v ChainedHT \<Rightarrow> (bool \<times> 'v ChainedHT) result" where
  "ht_erase k m =
     (if k = EMPTY_KEY then Inr (False, m)
      else
        let i = ht_index m (splitmix_hash k)
        in case chain_erase k (ht_buckets m ! i) of
             Some c \<Rightarrow> Inr (True, m\<lparr>ht_buckets := (ht_buckets m)[i := c], ht_free := ht_free m + 1, ht_sz := ht_sz m - 1\<rparr>)
           | None \<Rightarrow> Inr (False, m))"

text \<open>
  The batch. \<open>seed_build\<close> looks at the heads of the buckets and returns the items that have to walk
  on; a round of \<open>walk_compact\<close> moves each of them by one node.
\<close>

fun seed_loop :: "'v Work list \<Rightarrow> 'v ChainedHT \<Rightarrow> nat \<Rightarrow> ('v Work list \<times> 'v ChainedHT \<times> nat) result" where
  "seed_loop [] m new_count = Inr ([], m, new_count)"
| "seed_loop (w # ws) m new_count =
     (case link_get m (w_cur w) of
        None \<Rightarrow>
          rbind (ht_alloc_node m) (\<lambda>m1. seed_loop ws (link_append (w_cur w) (w_k w) (w_v w) m1) (new_count + 1))
      | Some h \<Rightarrow>
          if fst h = w_k w then seed_loop ws (link_set_value (w_cur w) (w_v w) m) new_count
          else
            rbind (seed_loop ws m new_count) (\<lambda>(out, m1, c).
            Inr (w\<lparr>w_cur := (fst (w_cur w), snd (w_cur w) + 1)\<rparr> # out, m1, c)))"

definition seed_build :: "nat \<Rightarrow> 'v ChainedHT \<Rightarrow> nat \<Rightarrow> ('v Work list \<times> 'v ChainedHT \<times> nat) result" where
  "seed_build len m new_count =
     seed_loop (map (\<lambda>w. w\<lparr>w_cur := (ht_index m (splitmix_hash (w_k w)), 0)\<rparr>) (take len (ht_work m))) m new_count"

fun walk_round :: "'v Work list \<Rightarrow> 'v ChainedHT \<Rightarrow> nat \<Rightarrow> ('v Work list \<times> 'v ChainedHT \<times> nat) result" where
  "walk_round [] m new_count = Inr ([], m, new_count)"
| "walk_round (w # ws) m new_count =
     (case link_get m (w_cur w) of
        Some p \<Rightarrow>
          if fst p \<noteq> w_k w then
            rbind (walk_round ws m new_count) (\<lambda>(out, m1, c).
            Inr (w\<lparr>w_cur := (fst (w_cur w), snd (w_cur w) + 1)\<rparr> # out, m1, c))
          else walk_round ws (link_set_value (w_cur w) (w_v w) m) new_count
      | None \<Rightarrow>
          rbind (ht_alloc_node m) (\<lambda>m1. walk_round ws (link_append (w_cur w) (w_k w) (w_v w) m1) (new_count + 1)))"

fun walk_compact :: "nat \<Rightarrow> 'v Work list \<Rightarrow> 'v ChainedHT \<Rightarrow> nat \<Rightarrow> ('v ChainedHT \<times> nat) result" where
  "walk_compact steps [] m new_count = Inr (m, new_count)"
| "walk_compact 0 (w # ws) m new_count = Inl OutOfSteps"
| "walk_compact (Suc steps) (w # ws) m new_count =
     rbind (walk_round (w # ws) m new_count) (\<lambda>(out, m1, c). walk_compact steps out m1 c)"

definition process_batch_var :: "nat \<Rightarrow> 'v ChainedHT \<Rightarrow> 'v ChainedHT result" where
  "process_batch_var len m =
     rbind (seed_build len m 0) (\<lambda>(wn, m1, c).
     rbind (walk_compact (ht_n m + 1) wn m1 c) (\<lambda>(m2, new_count).
     Inr (m2\<lparr>ht_sz := ht_sz m2 + new_count\<rparr>)))"

definition process_batch_full :: "'v ChainedHT \<Rightarrow> 'v ChainedHT result" where
  "process_batch_full m = process_batch_var BATCH_SIZE m"

definition insert_batch :: "u64 \<Rightarrow> 'v \<Rightarrow> 'v ChainedHT \<Rightarrow> 'v ChainedHT result" where
  "insert_batch key val m =
     rbind (check (key \<noteq> EMPTY_KEY) (Ensure ''key equals EMPTY_KEY sentinel'')) (\<lambda>_.
     let m1 = m\<lparr>ht_work := ht_work m @ [\<lparr>w_cur = (0, 0), w_k = key, w_v = val\<rparr>]\<rparr>
     in if length (ht_work m1) = BATCH_SIZE
        then rbind (process_batch_full m1) (\<lambda>m2. Inr (m2\<lparr>ht_work := []\<rparr>))
        else Inr m1)"

definition flush_batch :: "'v ChainedHT \<Rightarrow> 'v ChainedHT result" where
  "flush_batch m =
     (if ht_work m \<noteq> [] then rbind (process_batch_var (length (ht_work m)) m) (\<lambda>m1. Inr (m1\<lparr>ht_work := []\<rparr>))
      else Inr m)"

end
