(* ===== verification/Chained_Batch.thy ===== *)
theory Chained_Batch
  imports Chained_Map
begin

section \<open>Batched insertion equals insertion one by one\<close>

text \<open>
  The table \<open>ChainedHT\<close> implements the interface of the maps, and a batch has the effect of inserting
  its items in order, although it interleaves their walks: all items of a bucket are at the
  same depth, so an item meets what the items before it in the batch left behind.
\<close>

subsection \<open>Invariant\<close>

text \<open>\<open>ht_core\<close> also holds within a batch, before the size is brought up to date.\<close>

definition ht_core :: "'v ChainedHT \<Rightarrow> bool" where
  "ht_core m \<longleftrightarrow> chains_ok (ht_n m) (ht_buckets m) \<and> ht_mask m = ht_n m - 1 \<and> chains_size (ht_buckets m) + ht_free m = ht_n m"

definition ht_inv :: "'v ChainedHT \<Rightarrow> bool" where
  "ht_inv m \<longleftrightarrow> ht_core m \<and> ht_sz m = chains_size (ht_buckets m) \<and> length (ht_work m) < BATCH_SIZE \<and>
     (\<forall>w \<in> set (ht_work m). w_k w \<noteq> EMPTY_KEY)"

definition ht_abs :: "'v ChainedHT \<Rightarrow> u64 \<Rightarrow> 'v option" where
  "ht_abs m = chains_abs (ht_n m) (ht_buckets m)"

abbreviation bucket :: "'v ChainedHT \<Rightarrow> u64 \<Rightarrow> (u64 \<times> 'v) list" where
  "bucket m k \<equiv> ht_buckets m ! home (ht_n m - 1) k"

lemma ht_coreD:
  assumes "ht_core m"
  shows "chains_ok (ht_n m) (ht_buckets m)" "ht_index m (splitmix_hash k) = home (ht_n m - 1) k"
    "home (ht_n m - 1) k < ht_n m" "length (ht_buckets m) = ht_n m" "distinct (map fst (bucket m k))"
  using assms home_less [of "ht_n m"] by (auto simp: ht_core_def ht_index_def home_def chains_ok_def)

lemma length_bucket_le:
  assumes "ht_core m"
  shows "length (bucket m k) \<le> ht_n m"
  using nth_le_sum_list_map [of "home (ht_n m - 1) k" "ht_buckets m" length] ht_coreD(3) [OF assms, of k] ht_coreD(4) [OF assms] assms
  by (simp add: ht_core_def chains_size_def)

text \<open>Giving a key of the table a new value, and appending a new one.\<close>

lemma map_of_update_nth:
  "distinct (map fst c) \<Longrightarrow> d < length c \<Longrightarrow> fst (c ! d) = k \<Longrightarrow> map_of (c[d := (k, v)]) = (map_of c)(k \<mapsto> v)"
proof (induction c arbitrary: d)
  case (Cons p c)
  show ?case
  proof (cases d)
    case 0
    then show ?thesis using Cons.prems(3) by (auto simp: fun_eq_iff)
  next
    case (Suc d')
    then have "fst p \<noteq> k" using Cons.prems by (metis distinct.simps(2) length_Cons list.simps(9) not_less_eq nth_Cons_Suc nth_map nth_mem length_map)
    then show ?thesis using Cons.IH [of d'] Cons.prems Suc by (auto simp: fun_eq_iff)
  qed
qed simp

lemma set_value_core:
  fixes m :: "'v ChainedHT" and v :: 'v and d :: nat
  assumes core: "ht_core m" and k: "k \<noteq> EMPTY_KEY" and d: "d < length (bucket m k)" "fst (bucket m k ! d) = k"
  defines "m' \<equiv> link_set_value (home (ht_n m - 1) k, d) v m"
  shows "ht_core m'" "ht_abs m' = (ht_abs m)(k \<mapsto> v)" "ht_n m' = ht_n m" "ht_sz m' = ht_sz m" "ht_work m' = ht_work m"
    "map (map fst) (ht_buckets m') = map (map fst) (ht_buckets m)" "chains_size (ht_buckets m') = chains_size (ht_buckets m)"
proof -
  let ?c = "bucket m k" and ?c' = "(bucket m k)[d := (k, v)]" and ?i = "home (ht_n m - 1) k"
  note c = ht_coreD [OF core]
  have keys: "map fst ?c' = map fst ?c" using d by (metis list_update_id map_update fst_conv)
  have m': "m' = m\<lparr>ht_buckets := (ht_buckets m)[?i := ?c']\<rparr>" using d by (simp add: m'_def link_set_value_def Let_def)
  have keyset: "set (map fst ?c') \<subseteq> insert k (set (map fst ?c))" unfolding keys by blast
  have dist: "distinct (map fst ?c')" unfolding keys by (rule c(5))
  note s = chains_set [OF c(1) k dist keyset map_of_update_nth [OF c(5) d]]
  show "ht_n m' = ht_n m" "ht_sz m' = ht_sz m" "ht_work m' = ht_work m" by (simp_all add: m')
  show sz: "chains_size (ht_buckets m') = chains_size (ht_buckets m)" using s(3) by (simp add: m')
  show "ht_core m'" using s(1) sz core by (simp add: ht_core_def m')
  show "ht_abs m' = (ht_abs m)(k \<mapsto> v)" using s(2) by (simp add: ht_abs_def m')
  show "map (map fst) (ht_buckets m') = map (map fst) (ht_buckets m)"
    using keys c(3,4) by (simp add: m' map_update list_update_same_conv)
qed

lemma append_core:
  fixes m :: "'v ChainedHT" and v :: 'v and d :: nat
  assumes core: "ht_core m" and k: "k \<noteq> EMPTY_KEY" "k \<notin> set (map fst (bucket m k))" and free: "0 < ht_free m"
  defines "m' \<equiv> link_append (home (ht_n m - 1) k, d) k v (m\<lparr>ht_free := ht_free m - 1\<rparr>)"
  shows "ht_core m'" "ht_abs m' = (ht_abs m)(k \<mapsto> v)" "ht_n m' = ht_n m" "ht_sz m' = ht_sz m" "ht_work m' = ht_work m"
    "ht_buckets m' = (ht_buckets m)[home (ht_n m - 1) k := bucket m k @ [(k, v)]]"
    "chains_size (ht_buckets m') = Suc (chains_size (ht_buckets m))"
proof -
  let ?c = "bucket m k" and ?i = "home (ht_n m - 1) k"
  note c = ht_coreD [OF core]
  have m': "m' = m\<lparr>ht_free := ht_free m - 1, ht_buckets := (ht_buckets m)[?i := ?c @ [(k, v)]]\<rparr>"
    by (simp add: m'_def link_append_def)
  have d: "distinct (map fst (?c @ [(k, v)]))" using c(5) k(2) by simp
  have sub: "set (map fst (?c @ [(k, v)])) \<subseteq> insert k (set (map fst ?c))" by simp
  have "map_of ?c k = None" using k(2) by (simp add: map_of_eq_None_iff)
  then have mo: "map_of (?c @ [(k, v)]) = (map_of ?c)(k \<mapsto> v)" by (auto simp: fun_eq_iff map_add_def split: option.splits)
  note s = chains_set [OF c(1) k(1) d sub mo]
  show "ht_n m' = ht_n m" "ht_sz m' = ht_sz m" "ht_work m' = ht_work m" "ht_buckets m' = (ht_buckets m)[?i := ?c @ [(k, v)]]"
    by (simp_all add: m')
  show sz: "chains_size (ht_buckets m') = Suc (chains_size (ht_buckets m))" using s(3) by (simp add: m')
  show "ht_core m'" using s(1) sz core free by (simp add: ht_core_def m')
  show "ht_abs m' = (ht_abs m)(k \<mapsto> v)" using s(2) by (simp add: ht_abs_def m')
qed

subsection \<open>One call at a time\<close>

lemma ht_insert_correct:
  assumes inv: "ht_inv m" and r: "ht_insert k v m = Inr (b, m')"
  shows "ht_inv m' \<and> ht_abs m' = (ht_abs m)(k \<mapsto> v) \<and> (b \<longleftrightarrow> ht_abs m k = None)"
proof -
  have core: "ht_core m" using inv by (simp add: ht_inv_def)
  note c = ht_coreD [OF core]
  have k: "k \<noteq> EMPTY_KEY" using r by (simp add: ht_insert_def)
  let ?i = "home (ht_n m - 1) k"
  show ?thesis
  proof (cases "chain_update k v (bucket m k)")
    case None
    then have n: "k \<notin> set (map fst (bucket m k))" by (simp add: chain_update_None map_of_eq_None_iff)
    from None r k have free: "0 < ht_free m" and b: b
      and m': "m' = (link_append (?i, length (bucket m k)) k v (m\<lparr>ht_free := ht_free m - 1\<rparr>))\<lparr>ht_sz := ht_sz m + 1\<rparr>"
      by (auto simp: ht_insert_def c(2) Let_def ht_alloc_node_def)
    note a = append_core [OF core k n free, of "length (bucket m k)" v]
    have "ht_abs m k = None" using n by (simp add: ht_abs_def chains_abs_def map_of_eq_None_iff)
    moreover have "ht_inv m'" using a inv unfolding m' by (simp add: ht_inv_def ht_core_def)
    moreover have "ht_abs m' = (ht_abs m)(k \<mapsto> v)" using a(2) unfolding m' by (simp add: ht_abs_def)
    ultimately show ?thesis using b by simp
  next
    case (Some ch)
    note u = chain_update_Some [OF Some]
    have "distinct (map fst ch)" "set (map fst ch) \<subseteq> insert k (set (map fst (bucket m k)))" using u c(5) [of k] by auto
    note s = chains_set [OF c(1) k this conjunct1 [OF conjunct2 [OF u]]]
    have m': "m' = m\<lparr>ht_buckets := (ht_buckets m)[?i := ch]\<rparr>" "\<not> b"
      using r k Some by (simp_all add: ht_insert_def c(2) Let_def)
    show ?thesis using s u inv m' by (auto simp: ht_inv_def ht_core_def ht_abs_def chains_abs_def)
  qed
qed

lemma ht_erase_correct:
  assumes inv: "ht_inv m"
  shows "\<exists>m'. ht_erase k m = Inr (ht_abs m k \<noteq> None, m') \<and> ht_inv m' \<and> ht_abs m' = (ht_abs m)(k := None)"
proof (cases "k = EMPTY_KEY")
  case True
  have "ht_abs m EMPTY_KEY = None"
    using inv chains_sentinel [of "ht_n m" "ht_buckets m"] by (simp add: ht_inv_def ht_core_def ht_abs_def)
  then show ?thesis using True inv by (auto simp: ht_erase_def fun_eq_iff)
next
  case k: False
  have core: "ht_core m" using inv by (simp add: ht_inv_def)
  note c = ht_coreD [OF core]
  let ?i = "home (ht_n m - 1) k"
  show ?thesis
  proof (cases "chain_erase k (bucket m k)")
    case None
    then have "ht_abs m k = None" by (simp add: chain_erase_None ht_abs_def chains_abs_def)
    then show ?thesis using None k inv by (auto simp: ht_erase_def c(2) Let_def fun_eq_iff)
  next
    case (Some ch)
    note e = chain_erase_Some [OF Some c(5)]
    have "set (map fst ch) \<subseteq> insert k (set (map fst (bucket m k)))" using e by blast
    note s = chains_set [OF c(1) k conjunct1 [OF e] this, of None]
    let ?m = "m\<lparr>ht_buckets := (ht_buckets m)[?i := ch], ht_free := ht_free m + 1, ht_sz := ht_sz m - 1\<rparr>"
    have "ht_erase k m = Inr (True, ?m)" using Some k by (simp add: ht_erase_def c(2) Let_def)
    moreover have "ht_abs m k \<noteq> None" using e by (simp add: ht_abs_def chains_abs_def)
    moreover have "ht_inv ?m \<and> ht_abs ?m = (ht_abs m)(k := None)" using s e inv by (auto simp: ht_inv_def ht_core_def ht_abs_def)
    ultimately show ?thesis by auto
  qed
qed

interpretation ht: u64_map ht_insert ht_find ht_erase ht_abs ht_inv
proof
  fix m :: "'a ChainedHT" and k :: u64 and v :: 'a and b and m' :: "'a ChainedHT"
  assume inv: "ht_inv m"
  then have core: "ht_core m" by (simp add: ht_inv_def)
  show "ht_find k m = ht_abs m k"
    using chains_sentinel [OF ht_coreD(1) [OF core]] ht_coreD(2) [OF core, of k]
    by (auto simp: ht_find_def chain_find_map_of ht_abs_def chains_abs_def)
  show "ht_insert k v m = Inr (b, m') \<Longrightarrow> ht_inv m' \<and> ht_abs m' = (ht_abs m)(k \<mapsto> v) \<and> (b \<longleftrightarrow> ht_abs m k = None)"
    by (rule ht_insert_correct [OF inv])
  show "ht_insert k v m \<noteq> Inl OutOfSteps"
    by (auto simp: ht_insert_def ht_alloc_node_def check_def Let_def split: option.splits)
  show "\<exists>m'. ht_erase k m = Inr (ht_abs m k \<noteq> None, m') \<and> ht_inv m' \<and> ht_abs m' = (ht_abs m)(k := None)"
    by (rule ht_erase_correct [OF inv])
qed

subsection \<open>A round\<close>

text \<open>The effect the items of a batch have, in order.\<close>

definition effect :: "'v Work list \<Rightarrow> u64 \<Rightarrow> 'v option" where
  "effect ws = map_of (rev (map (\<lambda>w. (w_k w, w_v w)) ws))"

lemma effect_simps [simp]: "effect [] = Map.empty" "effect (w # ws) = [w_k w \<mapsto> w_v w] ++ effect ws"
  by (simp_all add: effect_def map_add_def fun_eq_iff split: option.splits)

lemma effect_append: "effect (ws @ ws') = effect ws ++ effect ws'"
  by (simp add: effect_def)

text \<open>The items of a round stand at depth \<open>d\<close> of their buckets and have passed no node with their key.\<close>

definition at_depth :: "nat \<Rightarrow> 'v ChainedHT \<Rightarrow> 'v Work \<Rightarrow> bool" where
  "at_depth d m w \<longleftrightarrow> w_cur w = (home (ht_n m - 1) (w_k w), d) \<and> w_k w \<noteq> EMPTY_KEY \<and> d \<le> length (bucket m (w_k w)) \<and>
     w_k w \<notin> set (map fst (take d (bucket m (w_k w))))"

text \<open>Chains only grow.\<close>

definition grows :: "'v ChainedHT \<Rightarrow> 'v ChainedHT \<Rightarrow> bool" where
  "grows m m' \<longleftrightarrow> ht_n m' = ht_n m \<and> ht_sz m' = ht_sz m \<and> ht_work m' = ht_work m \<and>
     (\<forall>k. \<exists>ext. map fst (bucket m' k) = map fst (bucket m k) @ ext)"

lemma grows_refl: "grows m m"
  by (simp add: grows_def)

lemma grows_keys:
  assumes "grows m m'"
  obtains ext where "map fst (bucket m' k) = map fst (bucket m k) @ ext"
  using assms unfolding grows_def by blast

lemma grows_trans:
  assumes a: "grows a b" and b: "grows b c"
  shows "grows a c"
proof -
  have "\<exists>ext. map fst (bucket c k) = map fst (bucket a k) @ ext" for k
  proof -
    obtain e1 e2 where "map fst (bucket b k) = map fst (bucket a k) @ e1" "map fst (bucket c k) = map fst (bucket b k) @ e2"
      using grows_keys [OF a] grows_keys [OF b] by metis
    then show ?thesis by simp
  qed
  then show ?thesis using a b by (simp add: grows_def)
qed

lemma grows_length:
  assumes "grows m m'"
  shows "length (bucket m k) \<le> length (bucket m' k)"
proof -
  obtain ext where e: "map fst (bucket m' k) = map fst (bucket m k) @ ext" using grows_keys [OF assms] .
  show ?thesis using arg_cong [OF e, of length] by simp
qed

lemma grows_nth:
  assumes "grows m m'" and d: "d < length (bucket m k)"
  shows "fst (bucket m' k ! d) = fst (bucket m k ! d)"
proof -
  obtain ext where e: "map fst (bucket m' k) = map fst (bucket m k) @ ext" using grows_keys [OF assms(1)] .
  have "d < length (bucket m' k)" using d grows_length [OF assms(1), of k] by simp
  then show ?thesis using d arg_cong [OF e, of "\<lambda>l. l ! d"] by (simp add: nth_append)
qed

lemma grows_take:
  assumes "grows m m'" and d: "d \<le> length (bucket m k)"
  shows "map fst (take d (bucket m' k)) = map fst (take d (bucket m k))"
proof -
  obtain ext where e: "map fst (bucket m' k) = map fst (bucket m k) @ ext" using grows_keys [OF assms(1)] .
  show ?thesis using d arg_cong [OF e, of "take d"] by (simp add: take_map)
qed

lemma at_depth_grows:
  assumes g: "grows m m'" and w: "at_depth d m w"
  shows "at_depth d m' w"
proof -
  have "ht_n m' = ht_n m" using g by (simp add: grows_def)
  moreover have "map fst (take d (bucket m' (w_k w))) = map fst (take d (bucket m (w_k w)))"
    using grows_take [OF g] w by (simp add: at_depth_def)
  ultimately show ?thesis using w grows_length [OF g, of "w_k w"] unfolding at_depth_def by simp
qed

lemma grows_set_value:
  assumes "ht_core m" "k \<noteq> EMPTY_KEY" "d < length (bucket m k)" "fst (bucket m k ! d) = k"
  shows "grows m (link_set_value (home (ht_n m - 1) k, d) v m)"
proof -
  note s = set_value_core [OF assms, of v]
  have "map fst (bucket (link_set_value (home (ht_n m - 1) k, d) v m) x) = map fst (bucket m x)" for x
  proof -
    have "home (ht_n m - 1) x < length (ht_buckets m)" using ht_coreD(3) [OF assms(1)] ht_coreD(4) [OF assms(1)] by simp
    moreover have "length (ht_buckets (link_set_value (home (ht_n m - 1) k, d) v m)) = length (ht_buckets m)"
      using s(6) by (metis length_map)
    ultimately show ?thesis using s(3) arg_cong [OF s(6), of "\<lambda>l. l ! home (ht_n m - 1) x"] by simp
  qed
  then show ?thesis using s(3-5) by (simp add: grows_def)
qed

lemma grows_append:
  assumes "ht_core m" "k \<noteq> EMPTY_KEY" "k \<notin> set (map fst (bucket m k))" "0 < ht_free m"
  shows "grows m (link_append (home (ht_n m - 1) k, d) k v (m\<lparr>ht_free := ht_free m - 1\<rparr>))"
proof -
  note s = append_core [OF assms, of d v]
  have "\<exists>ext. map fst ((ht_buckets m)[home (ht_n m - 1) k := bucket m k @ [(k, v)]] ! home (ht_n m - 1) x) = map fst (bucket m x) @ ext" for x
    using ht_coreD(3) [OF assms(1), of k] ht_coreD(4) [OF assms(1)] by (simp add: nth_list_update)
  then show ?thesis using s(3-6) by (simp add: grows_def)
qed

text \<open>The three things that can happen to an item.\<close>

lemma round_cases:
  assumes core: "ht_core m" and w: "at_depth d m w"
  obtains (pass) p where "link_get m (w_cur w) = Some p" "fst p \<noteq> w_k w" "d < length (bucket m (w_k w))"
      "fst (bucket m (w_k w) ! d) \<noteq> w_k w" "at_depth (Suc d) m (w\<lparr>w_cur := (fst (w_cur w), snd (w_cur w) + 1)\<rparr>)"
  | (hit) p m1 where "link_get m (w_cur w) = Some p" "fst p = w_k w" "m1 = link_set_value (w_cur w) (w_v w) m" "ht_core m1" "grows m m1"
      "ht_abs m1 = (ht_abs m)(w_k w \<mapsto> w_v w)" "chains_size (ht_buckets m1) = chains_size (ht_buckets m)"
  | (full) "link_get m (w_cur w) = None" "ht_alloc_node m = Inl (Ensure ''free_list'')"
  | (new) m0 m1 where "link_get m (w_cur w) = None" "ht_alloc_node m = Inr m0" "m1 = link_append (w_cur w) (w_k w) (w_v w) m0" "ht_core m1" "grows m m1"
      "ht_abs m1 = (ht_abs m)(w_k w \<mapsto> w_v w)" "chains_size (ht_buckets m1) = Suc (chains_size (ht_buckets m))"
proof -
  let ?k = "w_k w" and ?c = "bucket m (w_k w)"
  from w have cur: "w_cur w = (home (ht_n m - 1) ?k, d)" and k: "?k \<noteq> EMPTY_KEY" and len: "d \<le> length ?c"
    and no: "?k \<notin> set (map fst (take d ?c))" by (auto simp: at_depth_def)
  show thesis
  proof (cases "d < length ?c")
    case True
    then have get: "link_get m (w_cur w) = Some (?c ! d)" by (simp add: link_get_def cur)
    show thesis
    proof (cases "fst (?c ! d) = ?k")
      case hit': True
      then show thesis
        using hit [OF get hit' refl] set_value_core [OF core k True hit', of "w_v w"] grows_set_value [OF core k True hit', of "w_v w"]
        by (simp add: cur)
    next
      case False
      have "take (Suc d) ?c = take d ?c @ [?c ! d]" using True by (rule take_Suc_conv_app_nth)
      then have "at_depth (Suc d) m (w\<lparr>w_cur := (fst (w_cur w), snd (w_cur w) + 1)\<rparr>)"
        using True False no k by (simp add: at_depth_def cur)
      then show thesis by (rule pass [OF get False True False])
    qed
  next
    case False
    then have get: "link_get m (w_cur w) = None" and "?k \<notin> set (map fst ?c)" using no len by (simp_all add: link_get_def cur)
    show thesis
    proof (cases "0 < ht_free m")
      case True
      then show thesis
        using new [OF get _ refl, of "m\<lparr>ht_free := ht_free m - 1\<rparr>"] append_core [OF core k \<open>?k \<notin> set (map fst ?c)\<close> True, of d "w_v w"]
          grows_append [OF core k \<open>?k \<notin> set (map fst ?c)\<close> True, of d "w_v w"]
        by (simp add: cur ht_alloc_node_def)
    next
      case False
      then show thesis using full [OF get] by (simp add: ht_alloc_node_def)
    qed
  qed
qed

text \<open>Once another key sits at depth \<open>d\<close> of a bucket, all items with the key \<open>x\<close> pass it.\<close>

lemma round_passes:
  assumes "walk_round ws m n = Inr (out, m', n')" and "ht_core m" and "\<forall>w \<in> set ws. at_depth d m w"
    and "d < length (bucket m x)" and "fst (bucket m x ! d) \<noteq> x"
  shows "effect out x = effect ws x"
  using assms
proof (induction ws arbitrary: m n out)
  case (Cons w ws)
  have w: "at_depth d m w" and ws: "\<forall>w \<in> set ws. at_depth d m w" using Cons.prems(3) by simp_all
  have step: "effect out x = effect (w # ws) x"
    if r: "walk_round ws m1 n1 = Inr (out, m', n')" and core: "ht_core m1" and g: "grows m m1" and key: "w_k w \<noteq> x" for m1 n1
  proof -
    have "\<forall>w \<in> set ws. at_depth d m1 w" using ws at_depth_grows [OF g] by blast
    moreover have "d < length (bucket m1 x)" using grows_length [OF g, of x] Cons.prems(4) by simp
    moreover have "fst (bucket m1 x ! d) \<noteq> x" using grows_nth [OF g Cons.prems(4)] Cons.prems(5) by simp
    ultimately have "effect out x = effect ws x" by (rule Cons.IH [OF r core])
    then show ?thesis using key by (simp add: map_add_def split: option.splits)
  qed
  from Cons.prems(2) w show ?case
  proof (cases rule: round_cases)
    case (pass p)
    then obtain out' where r: "walk_round ws m n = Inr (out', m', n')"
      and o': "out = w\<lparr>w_cur := (fst (w_cur w), snd (w_cur w) + 1)\<rparr> # out'"
      using Cons.prems(1) by auto
    have "effect out' x = effect ws x" by (rule Cons.IH [OF r Cons.prems(2) ws Cons.prems(4,5)])
    then show ?thesis by (simp add: o' map_add_def)
  next
    case (hit p m1)
    have "w_k w \<noteq> x"
    proof
      assume "w_k w = x"
      then show False using hit(1,2) w Cons.prems(4,5) by (auto simp: link_get_def at_depth_def)
    qed
    moreover have "walk_round ws m1 n = Inr (out, m', n')" using Cons.prems(1) hit(1-3) by simp
    ultimately show ?thesis using step [of m1 n] hit(4,5) by blast
  next
    case full
    then show ?thesis using Cons.prems(1) by simp
  next
    case (new m0 m1)
    have "w_k w \<noteq> x"
    proof
      assume "w_k w = x"
      then show False using new(1) w Cons.prems(4) by (auto simp: link_get_def at_depth_def split: if_splits)
    qed
    moreover have "walk_round ws m1 (n + 1) = Inr (out, m', n')" using Cons.prems(1) new(1-3) by simp
    ultimately show ?thesis using step [of m1 "n + 1"] new(4,5) by blast
  qed
qed simp

lemma walk_round_correct:
  assumes "walk_round ws m n = Inr (out, m', n')" and "ht_core m" and "\<forall>w \<in> set ws. at_depth d m w"
  shows "ht_core m' \<and> grows m m' \<and> ht_abs m' ++ effect out = ht_abs m ++ effect ws \<and> (\<forall>w \<in> set out. at_depth (Suc d) m' w) \<and>
    chains_size (ht_buckets m') + n = chains_size (ht_buckets m) + n'"
  using assms
proof (induction ws arbitrary: m n out)
  case (Cons w ws)
  have w: "at_depth d m w" and ws: "\<forall>w \<in> set ws. at_depth d m w" using Cons.prems(3) by simp_all
  have step: "ht_core m' \<and> grows m m' \<and> ht_abs m' ++ effect out = ht_abs m ++ effect (w # ws) \<and> (\<forall>w \<in> set out. at_depth (Suc d) m' w) \<and>
      chains_size (ht_buckets m') + n1 = chains_size (ht_buckets m1) + n'"
    if r: "walk_round ws m1 n1 = Inr (out, m', n')" and core: "ht_core m1" and g: "grows m m1"
      and a: "ht_abs m1 = (ht_abs m)(w_k w \<mapsto> w_v w)" for m1 n1
  proof -
    have "\<forall>w \<in> set ws. at_depth d m1 w" using ws at_depth_grows [OF g] by blast
    note ih = Cons.IH [OF r core this]
    have "ht_abs m1 ++ effect ws = ht_abs m ++ effect (w # ws)" by (simp add: a map_add_def fun_eq_iff split: option.splits)
    with ih show ?thesis using grows_trans [OF g] by simp
  qed
  from Cons.prems(2) w show ?case
  proof (cases rule: round_cases)
    case (pass p)
    let ?w = "w\<lparr>w_cur := (fst (w_cur w), snd (w_cur w) + 1)\<rparr>"
    obtain out' where r: "walk_round ws m n = Inr (out', m', n')" and o': "out = ?w # out'"
      using Cons.prems(1) pass by auto
    note ih = Cons.IH [OF r Cons.prems(2) ws]
    have k: "effect out' (w_k w) = effect ws (w_k w)" by (rule round_passes [OF r Cons.prems(2) ws pass(3,4)])
    have "(ht_abs m' ++ effect out) x = (ht_abs m ++ effect (w # ws)) x" for x
    proof (cases "x = w_k w")
      case True
      then show ?thesis using k by (simp add: o' map_add_def split: option.splits)
    next
      case False
      have "(ht_abs m' ++ effect out') x = (ht_abs m ++ effect ws) x" using ih by simp
      moreover have "effect out x = effect out' x" "effect (w # ws) x = effect ws x"
        using False by (simp_all add: o' map_add_def split: option.splits)
      ultimately show ?thesis by (simp add: map_add_def del: effect_simps)
    qed
    moreover have "at_depth (Suc d) m' ?w" using at_depth_grows pass(5) ih by blast
    ultimately show ?thesis using ih o' by auto
  next
    case (hit p m1)
    have "walk_round ws m1 n = Inr (out, m', n')" using Cons.prems(1) hit(1-3) by simp
    from step [OF this hit(4-6)] hit(7) show ?thesis by simp
  next
    case full
    then show ?thesis using Cons.prems(1) by simp
  next
    case (new m0 m1)
    have "walk_round ws m1 (n + 1) = Inr (out, m', n')" using Cons.prems(1) new(1-3) by simp
    from step [OF this new(4-6)] new(7) show ?thesis by simp
  qed
qed (simp add: grows_refl)

text \<open>A round fails only when the nodes do not suffice for the keys of the table and of the batch.\<close>

lemma chains_size_card:
  assumes ok: "chains_ok n bs"
  shows "chains_size bs = card (dom (chains_abs n bs))" and "finite (dom (chains_abs n bs))"
proof -
  have h: "home (n - 1) k < n" for k using ok home_less by (simp add: chains_ok_def)
  have i: "distinct (map fst (bs ! i))" "x \<in> set (map fst (bs ! i)) \<Longrightarrow> home (n - 1) x = i" if "i < n" for i x
    using ok that unfolding chains_ok_def by blast+
  have "dom (chains_abs n bs) = (\<Union>i < n. set (map fst (bs ! i)))"
  proof
    show "dom (chains_abs n bs) \<subseteq> (\<Union>i < n. set (map fst (bs ! i)))"
      using h by (force simp: chains_abs_def dest: map_of_SomeD)
    show "(\<Union>i < n. set (map fst (bs ! i))) \<subseteq> dom (chains_abs n bs)"
    proof
      fix x
      assume "x \<in> (\<Union>i < n. set (map fst (bs ! i)))"
      then obtain j where j: "j < n" "x \<in> set (map fst (bs ! j))" by blast
      then have "map_of (bs ! j) x \<noteq> None" by (simp add: map_of_eq_None_iff)
      then show "x \<in> dom (chains_abs n bs)" using i(2) [OF j] by (simp add: chains_abs_def domIff)
    qed
  qed
  moreover have "card (\<Union>i < n. set (map fst (bs ! i))) = (\<Sum>i < n. card (set (map fst (bs ! i))))"
    using i(2) by (intro card_UN_disjoint) (simp, simp, blast)
  moreover have "(\<Sum>i < n. card (set (map fst (bs ! i)))) = (\<Sum>i < n. length (bs ! i))"
    using i(1) by (intro sum.cong refl) (metis distinct_card length_map lessThan_iff)
  moreover have "chains_size bs = (\<Sum>i < n. length (bs ! i))"
    using ok by (simp add: chains_size_def sum_list_sum_nth chains_ok_def atLeast0LessThan)
  ultimately show "chains_size bs = card (dom (chains_abs n bs))" "finite (dom (chains_abs n bs))" by simp_all
qed

lemma core_card:
  assumes "ht_core m"
  shows "chains_size (ht_buckets m) = card (dom (ht_abs m))" "finite (dom (ht_abs m))"
  using chains_size_card [OF ht_coreD(1) [OF assms]] by (simp_all add: ht_abs_def)

lemma finite_effect [simp]: "finite (dom (effect ws))"
  by (simp add: effect_def finite_dom_map_of)

lemma full_table:
  assumes core: "ht_core m" and w: "at_depth d m w" and g: "link_get m (w_cur w) = None" and f: "ht_alloc_node m = Inl e"
  shows "ht_n m < card (insert (w_k w) (dom (ht_abs m)))"
proof -
  have "w_k w \<notin> set (map fst (bucket m (w_k w)))" using w g by (auto simp: at_depth_def link_get_def Let_def split: if_splits)
  then have "map_of (bucket m (w_k w)) (w_k w) = None" unfolding map_of_eq_None_iff by simp
  then have "w_k w \<notin> dom (ht_abs m)" by (simp add: ht_abs_def chains_abs_def domIff)
  moreover have "ht_free m = 0" using f by (auto simp: ht_alloc_node_def check_def split: if_splits)
  ultimately show ?thesis using core core_card [OF core] by (simp add: ht_core_def)
qed

lemma walk_round_fails:
  assumes "walk_round ws m n = Inl e" and "ht_core m" and "\<forall>w \<in> set ws. at_depth d m w"
  shows "e = Ensure ''free_list'' \<and> ht_n m < card (dom (ht_abs m ++ effect ws))"
  using assms
proof (induction ws arbitrary: m n)
  case (Cons w ws)
  have w: "at_depth d m w" and ws: "\<forall>w \<in> set ws. at_depth d m w" using Cons.prems(3) by simp_all
  have dom: "dom (ht_abs m ++ effect (w # ws)) = insert (w_k w) (dom (ht_abs m ++ effect ws))" by auto
  have step: "e = Ensure ''free_list'' \<and> ht_n m < card (dom (ht_abs m ++ effect (w # ws)))"
    if r: "walk_round ws m1 n1 = Inl e" and core: "ht_core m1" and g: "grows m m1"
      and a: "ht_abs m1 = (ht_abs m)(w_k w \<mapsto> w_v w)" for m1 n1
  proof -
    have "\<forall>w \<in> set ws. at_depth d m1 w" using ws at_depth_grows [OF g] by blast
    note ih = Cons.IH [OF r core this]
    moreover have "dom (ht_abs m1 ++ effect ws) = dom (ht_abs m ++ effect (w # ws))" using dom by (auto simp: a)
    moreover have "ht_n m1 = ht_n m" using g by (simp add: grows_def)
    ultimately show ?thesis by simp
  qed
  have fin: "finite (dom (ht_abs m ++ effect (w # ws)))" using core_card(2) [OF Cons.prems(2)] by simp
  from Cons.prems(2) w show ?case
  proof (cases rule: round_cases)
    case (pass p)
    have "walk_round ws m n = Inl e"
    proof (cases "walk_round ws m n")
      case (Inr q)
      then show ?thesis using Cons.prems(1) pass(1,2) by (cases q) auto
    qed (use Cons.prems(1) pass(1,2) in simp)
    note ih = Cons.IH [OF this Cons.prems(2) ws]
    have "card (dom (ht_abs m ++ effect ws)) \<le> card (dom (ht_abs m ++ effect (w # ws)))"
      by (rule card_mono [OF fin]) (unfold dom, rule subset_insertI)
    with ih show ?thesis by simp
  next
    case (hit p m1)
    have "walk_round ws m1 n = Inl e" using Cons.prems(1) hit(1-3) by simp
    from step [OF this hit(4-6)] show ?thesis .
  next
    case full
    have "card (insert (w_k w) (dom (ht_abs m))) \<le> card (dom (ht_abs m ++ effect (w # ws)))"
      by (rule card_mono [OF fin]) (unfold dom, auto)
    then show ?thesis using full_table [OF Cons.prems(2) w full] Cons.prems(1) full by simp
  next
    case (new m0 m1)
    have "walk_round ws m1 (n + 1) = Inl e" using Cons.prems(1) new(1-3) by simp
    from step [OF this new(4-6)] show ?thesis .
  qed
qed simp

lemma seed_is_round: "seed_loop ws m n = walk_round ws m n"
  by (induction ws arbitrary: m n) (auto split: option.splits)

subsection \<open>A batch\<close>

text \<open>An item stays within its chain, so the rounds end after as many steps as there are nodes.\<close>

lemma walk_compact_correct:
  assumes "ht_core m" and "\<forall>w \<in> set ws. at_depth d m w" and "ht_n m < steps + d"
  shows "case walk_compact steps ws m n of
      Inr (m', n') \<Rightarrow> ht_core m' \<and> grows m m' \<and> ht_abs m' = ht_abs m ++ effect ws \<and>
        chains_size (ht_buckets m') + n = chains_size (ht_buckets m) + n'
    | Inl e \<Rightarrow> e = Ensure ''free_list'' \<and> ht_n m < card (dom (ht_abs m ++ effect ws))"
  using assms
proof (induction steps ws m n arbitrary: d rule: walk_compact.induct)
  case (2 w ws m n)
  then show ?case using length_bucket_le [of m "w_k w"] by (auto simp: at_depth_def)
next
  case (3 steps w ws m n)
  show ?case
  proof (cases "walk_round (w # ws) m n")
    case (Inl e)
    then show ?thesis using walk_round_fails [OF Inl "3.prems"(1,2)] by simp
  next
    case (Inr q)
    obtain out m1 c where q: "q = (out, m1, c)" by (cases q) auto
    note r = walk_round_correct [OF Inr [unfolded q] "3.prems"(1,2)]
    have n1: "ht_n m1 = ht_n m" using r by (simp add: grows_def)
    have s: "ht_n m1 < steps + Suc d" using "3.prems"(3) n1 by simp
    have g: "grows m m1" using r by blast
    have "case walk_compact steps out m1 c of
      Inr (m', n') \<Rightarrow> ht_core m' \<and> grows m1 m' \<and> ht_abs m' = ht_abs m1 ++ effect out \<and>
        chains_size (ht_buckets m') + c = chains_size (ht_buckets m1) + n'
    | Inl e \<Rightarrow> e = Ensure ''free_list'' \<and> ht_n m1 < card (dom (ht_abs m1 ++ effect out))"
      using r by (intro "3.IH" [OF _ _ s]) blast+
    then show ?thesis
      using r n1 grows_trans [OF g] by (auto simp: Inr q simp del: effect_simps walk_round.simps split: sum.splits)
  qed
qed (simp add: grows_refl)

text \<open>What a table holds once its pending items are in.\<close>

definition pending_abs :: "'v ChainedHT \<Rightarrow> u64 \<Rightarrow> 'v option" where
  "pending_abs m = ht_abs m ++ effect (ht_work m)"

lemma effect_cursor: "effect (map (\<lambda>w. w\<lparr>w_cur := f w\<rparr>) ws) = effect ws"
  by (induction ws) simp_all

lemma process_batch_correct:
  assumes core: "ht_core m" and sz: "ht_sz m = chains_size (ht_buckets m)" and keys: "\<forall>w \<in> set (ht_work m). w_k w \<noteq> EMPTY_KEY"
  shows "case process_batch_var (length (ht_work m)) m of
      Inr m' \<Rightarrow> ht_core m' \<and> ht_n m' = ht_n m \<and> ht_sz m' = chains_size (ht_buckets m') \<and> ht_abs m' = pending_abs m
    | Inl e \<Rightarrow> e = Ensure ''free_list'' \<and> ht_n m < card (dom (pending_abs m))"
proof -
  let ?ws = "map (\<lambda>w. w\<lparr>w_cur := (ht_index m (splitmix_hash (w_k w)), 0)\<rparr>) (ht_work m)"
  have e: "ht_abs m ++ effect ?ws = pending_abs m" by (simp add: pending_abs_def effect_cursor)
  have d: "\<forall>w \<in> set ?ws. at_depth 0 m w" using keys ht_coreD(2) [OF core] by (auto simp: at_depth_def)
  have seed: "seed_build (length (ht_work m)) m 0 = walk_round ?ws m 0" by (simp add: seed_build_def seed_is_round)
  show ?thesis
  proof (cases "walk_round ?ws m 0")
    case (Inl x)
    then show ?thesis using walk_round_fails [OF Inl core d] by (simp add: process_batch_var_def seed e)
  next
    case (Inr q)
    obtain out m1 c where q: "q = (out, m1, c)" by (cases q) auto
    note r = walk_round_correct [OF Inr [unfolded q] core d, unfolded e]
    have n1: "ht_n m1 = ht_n m" "ht_sz m1 = ht_sz m" using r by (simp_all add: grows_def)
    have "ht_n m1 < (ht_n m + 1) + Suc 0" using n1 by simp
    from walk_compact_correct [OF _ _ this, of out c] r n1 sz show ?thesis
      by (auto simp: process_batch_var_def seed Inr q ht_core_def ht_abs_def grows_def split: sum.splits)
  qed
qed

lemma insert_batch_correct:
  assumes inv: "ht_inv m" and k: "k \<noteq> EMPTY_KEY"
  shows "case insert_batch k v m of
      Inr m' \<Rightarrow> ht_inv m' \<and> ht_n m' = ht_n m \<and> pending_abs m' = (pending_abs m)(k \<mapsto> v)
    | Inl e \<Rightarrow> e = Ensure ''free_list'' \<and> ht_n m < card (dom ((pending_abs m)(k \<mapsto> v)))"
proof -
  let ?m = "m\<lparr>ht_work := ht_work m @ [\<lparr>w_cur = (0, 0), w_k = k, w_v = v\<rparr>]\<rparr>"
  have p: "pending_abs ?m = (pending_abs m)(k \<mapsto> v)" by (simp add: pending_abs_def effect_append ht_abs_def)
  have core: "ht_core ?m" "ht_sz ?m = chains_size (ht_buckets ?m)" "\<forall>w \<in> set (ht_work ?m). w_k w \<noteq> EMPTY_KEY"
    using inv k by (auto simp: ht_inv_def ht_core_def)
  show ?thesis
  proof (cases "length (ht_work ?m) = BATCH_SIZE")
    case True
    note r = process_batch_correct [OF core, unfolded p True]
    have i: "insert_batch k v m = rbind (process_batch_var BATCH_SIZE ?m) (\<lambda>m2. Inr (m2\<lparr>ht_work := []\<rparr>))"
      using True k by (simp add: insert_batch_def process_batch_full_def check_def)
    show ?thesis
    proof (cases "process_batch_var BATCH_SIZE ?m")
      case (Inr m2)
      then show ?thesis using r by (auto simp: i ht_inv_def ht_core_def ht_abs_def pending_abs_def BATCH_SIZE_def)
    next
      case (Inl e)
      then show ?thesis using r by (simp add: i)
    qed
  next
    case False
    then have "insert_batch k v m = Inr ?m" using k by (simp add: insert_batch_def check_def)
    moreover have "ht_inv ?m" using False inv core by (auto simp: ht_inv_def)
    ultimately show ?thesis using p by simp
  qed
qed

lemma flush_batch_correct:
  assumes inv: "ht_inv m"
  shows "case flush_batch m of
      Inr m' \<Rightarrow> ht_inv m' \<and> ht_n m' = ht_n m \<and> ht_work m' = [] \<and> ht_abs m' = pending_abs m
    | Inl e \<Rightarrow> e = Ensure ''free_list'' \<and> ht_n m < card (dom (pending_abs m))"
proof (cases "ht_work m = []")
  case True
  then show ?thesis using inv by (simp add: flush_batch_def pending_abs_def)
next
  case False
  have core: "ht_core m" "ht_sz m = chains_size (ht_buckets m)" "\<forall>w \<in> set (ht_work m). w_k w \<noteq> EMPTY_KEY"
    using inv by (auto simp: ht_inv_def)
  note r = process_batch_correct [OF core]
  show ?thesis
  proof (cases "process_batch_var (length (ht_work m)) m")
    case (Inr m2)
    then show ?thesis using r False by (auto simp: flush_batch_def ht_inv_def ht_core_def ht_abs_def BATCH_SIZE_def)
  next
    case (Inl e)
    then show ?thesis using r False by (simp add: flush_batch_def)
  qed
qed

subsection \<open>Batched and single insertion\<close>

text \<open>A build phase: all pairs of a relation go into the table, through the batch or one by one.\<close>

fun batch_build :: "(u64 \<times> 'v) list \<Rightarrow> 'v ChainedHT \<Rightarrow> 'v ChainedHT result" where
  "batch_build [] m = flush_batch m"
| "batch_build (p # ps) m = rbind (insert_batch (fst p) (snd p) m) (batch_build ps)"

fun single_build :: "(u64 \<times> 'v) list \<Rightarrow> 'v ChainedHT \<Rightarrow> 'v ChainedHT result" where
  "single_build [] m = Inr m"
| "single_build (p # ps) m = rbind (ht_insert (fst p) (snd p) m) (\<lambda>(_, m1). single_build ps m1)"

lemma map_add_cons: "f(k \<mapsto> v) ++ map_of (rev ps) = f ++ map_of (rev ((k, v) # ps))"
  by (simp add: map_add_def fun_eq_iff split: option.splits)

lemma batch_build_correct:
  assumes "ht_inv m" and "EMPTY_KEY \<notin> fst ` set ps" and "card (dom (pending_abs m ++ map_of (rev ps))) \<le> ht_n m" and "finite (dom (pending_abs m))"
  shows "\<exists>m'. batch_build ps m = Inr m' \<and> ht_inv m' \<and> ht_work m' = [] \<and> ht_abs m' = pending_abs m ++ map_of (rev ps)"
  using assms
proof (induction ps arbitrary: m)
  case Nil
  then show ?case using flush_batch_correct [of m] by (auto split: sum.splits)
next
  case (Cons p ps)
  obtain k v where p: "p = (k, v)" by (cases p)
  have k: "k \<noteq> EMPTY_KEY" using Cons.prems(2) by (auto simp: p)
  have "card (dom ((pending_abs m)(k \<mapsto> v))) \<le> card (dom (pending_abs m ++ map_of (rev (p # ps))))"
    using Cons.prems(4) by (intro card_mono) (auto simp: p finite_dom_map_of)
  then have le: "card (dom ((pending_abs m)(k \<mapsto> v))) \<le> ht_n m" using Cons.prems(3) by linarith
  obtain m1 where m1: "insert_batch k v m = Inr m1" "ht_inv m1" "ht_n m1 = ht_n m" "pending_abs m1 = (pending_abs m)(k \<mapsto> v)"
    using insert_batch_correct [OF Cons.prems(1) k, of v] le by (auto split: sum.splits)
  have e: "pending_abs m1 ++ map_of (rev ps) = pending_abs m ++ map_of (rev (p # ps))" unfolding m1(4) p by (rule map_add_cons)
  have "\<exists>m'. batch_build ps m1 = Inr m' \<and> ht_inv m' \<and> ht_work m' = [] \<and> ht_abs m' = pending_abs m1 ++ map_of (rev ps)"
  proof (rule Cons.IH [OF m1(2)])
    show "EMPTY_KEY \<notin> fst ` set ps" using Cons.prems(2) by simp
    show "card (dom (pending_abs m1 ++ map_of (rev ps))) \<le> ht_n m1" unfolding e m1(3) by (rule Cons.prems(3))
    show "finite (dom (pending_abs m1))" using Cons.prems(4) by (simp add: m1(4))
  qed
  then show ?case unfolding e using m1(1) by (simp add: p)
qed

lemma ht_insert_total:
  assumes inv: "ht_inv m" and k: "k \<noteq> EMPTY_KEY" and le: "card (dom ((ht_abs m)(k \<mapsto> v))) \<le> ht_n m"
  shows "\<exists>b m'. ht_insert k v m = Inr (b, m') \<and> ht_n m' = ht_n m"
proof -
  have core: "ht_core m" using inv by (simp add: ht_inv_def)
  show ?thesis
  proof (cases "chain_update k v (bucket m k)")
    case None
    then have "k \<notin> dom (ht_abs m)" by (simp add: chain_update_None ht_abs_def chains_abs_def domIff)
    then have "0 < ht_free m" using le core core_card [OF core] by (simp add: ht_core_def)
    then show ?thesis using None k by (auto simp: ht_insert_def ht_coreD(2) [OF core] Let_def check_def ht_alloc_node_def link_append_def)
  next
    case (Some c)
    then show ?thesis using k by (auto simp: ht_insert_def ht_coreD(2) [OF core] Let_def check_def)
  qed
qed

lemma single_build_correct:
  assumes "ht_inv m" and "EMPTY_KEY \<notin> fst ` set ps" and "card (dom (ht_abs m ++ map_of (rev ps))) \<le> ht_n m"
  shows "\<exists>m'. single_build ps m = Inr m' \<and> ht_inv m' \<and> ht_abs m' = ht_abs m ++ map_of (rev ps)"
  using assms
proof (induction ps arbitrary: m)
  case (Cons p ps)
  obtain k v where p: "p = (k, v)" by (cases p)
  have k: "k \<noteq> EMPTY_KEY" using Cons.prems(2) by (auto simp: p)
  have core: "ht_core m" using Cons.prems(1) by (simp add: ht_inv_def)
  have "card (dom ((ht_abs m)(k \<mapsto> v))) \<le> card (dom (ht_abs m ++ map_of (rev (p # ps))))"
    using core_card(2) [OF core] by (intro card_mono) (auto simp: p finite_dom_map_of)
  then have le: "card (dom ((ht_abs m)(k \<mapsto> v))) \<le> ht_n m" using Cons.prems(3) by linarith
  obtain b m1 where m1: "ht_insert k v m = Inr (b, m1)" "ht_n m1 = ht_n m" using ht_insert_total [OF Cons.prems(1) k le] by blast
  have a: "ht_inv m1" "ht_abs m1 = (ht_abs m)(k \<mapsto> v)" using ht_insert_correct [OF Cons.prems(1) m1(1)] by simp_all
  have e: "ht_abs m1 ++ map_of (rev ps) = ht_abs m ++ map_of (rev (p # ps))" unfolding a(2) p by (rule map_add_cons)
  have "\<exists>m'. single_build ps m1 = Inr m' \<and> ht_inv m' \<and> ht_abs m' = ht_abs m1 ++ map_of (rev ps)"
  proof (rule Cons.IH [OF a(1)])
    show "EMPTY_KEY \<notin> fst ` set ps" using Cons.prems(2) by simp
    show "card (dom (ht_abs m1 ++ map_of (rev ps))) \<le> ht_n m1" unfolding e m1(2) by (rule Cons.prems(3))
  qed
  then show ?case unfolding e using m1(1) by (simp add: p)
qed simp

lemma ht_new_inv:
  assumes "ht_new capacity = Inr m"
  shows "ht_inv m" "ht_abs m = Map.empty" "ht_work m = []" "ht_n m = capacity"
proof -
  have p: "is_power_of_two capacity" using assms by (auto simp: ht_new_def check_def split: if_splits)
  with assms chains_empty [of capacity] is_power_of_two_pos [OF p]
  show "ht_inv m" "ht_abs m = Map.empty" "ht_work m = []" "ht_n m = capacity"
    by (auto simp: ht_new_def ht_inv_def ht_core_def ht_abs_def check_def BATCH_SIZE_def split: if_splits)
qed

text \<open>
  C26. Building a fresh \<^verbatim>\<open>ChainedHT\<close> through \<^verbatim>\<open>insert_batch\<close> and \<^verbatim>\<open>flush_batch\<close> gives the table that inserting
  the pairs one by one gives: when the distinct keys fit the capacity, both succeed, every lookup
  agrees and returns the last value of its key, and both sizes are the number of distinct keys.
\<close>

theorem batch_build_is_single_build:
  assumes "ht_new capacity = Inr m" and "EMPTY_KEY \<notin> fst ` set ps" and "card (fst ` set ps) \<le> capacity"
  shows "\<exists>m1 m2. batch_build ps m = Inr m1 \<and> single_build ps m = Inr m2 \<and>
    (\<forall>k. ht_find k m1 = map_of (rev ps) k \<and> ht_find k m2 = map_of (rev ps) k) \<and>
    ht_sz m1 = card (fst ` set ps) \<and> ht_sz m2 = card (fst ` set ps)"
proof -
  note n = ht_new_inv [OF assms(1)]
  have dom: "dom (map_of (rev ps)) = fst ` set ps" by (simp add: dom_map_of_conv_image_fst)
  have pa: "pending_abs m = Map.empty" by (simp add: pending_abs_def n)
  obtain m1 where m1: "batch_build ps m = Inr m1" "ht_inv m1" "ht_abs m1 = map_of (rev ps)"
    using batch_build_correct [OF n(1) assms(2)] assms(3) by (auto simp: pa dom n(4))
  obtain m2 where m2: "single_build ps m = Inr m2" "ht_inv m2" "ht_abs m2 = map_of (rev ps)"
    using single_build_correct [OF n(1) assms(2)] assms(3) by (auto simp: n dom)
  have "ht_sz x = card (fst ` set ps)" if "ht_inv x" "ht_abs x = map_of (rev ps)" for x :: "'a ChainedHT"
    using that core_card(1) [of x] dom by (simp add: ht_inv_def)
  then show ?thesis using m1 m2 ht.find_abs [OF m1(2)] ht.find_abs [OF m2(2)] by auto
qed

theorem batch_build_is_single_build_witness:
  "\<exists>m m1. ht_new 4 = Inr m \<and> batch_build [(7, 1 :: nat), (9, 2), (7, 3)] m = Inr m1 \<and> ht_find 7 m1 = Some 3 \<and> ht_sz m1 = 2"
proof -
  let ?ps = "[(7, 1), (9, 2), (7, 3)] :: (u64 \<times> nat) list"
  have p: "is_power_of_two 4" by (simp add: is_power_of_two_def)
  then obtain m :: "nat ChainedHT" where m: "ht_new 4 = Inr m" by (auto simp: ht_new_def check_def)
  have s: "EMPTY_KEY \<notin> fst ` set ?ps" by (simp add: EMPTY_KEY_def)
  have c: "fst ` set ?ps = {7, 9}" by auto
  obtain m1 where "batch_build ?ps m = Inr m1" "ht_find 7 m1 = map_of (rev ?ps) 7" "ht_sz m1 = card (fst ` set ?ps)"
    using batch_build_is_single_build [OF m s] c by auto
  then show ?thesis using m c by auto
qed

end
