(* ===== verification/Page_State.thy ===== *)
theory Page_State
  imports Prelude
begin

section \<open>The lock word of a page\<close>

text \<open>
  \<^verbatim>\<open>src/src/buffer_mgr/mt/concurrency.hpp\<close>: the relaxed counter \<^verbatim>\<open>AtomicCounter\<close> and the word
  \<^verbatim>\<open>PageState\<close> that holds the lock, the version and the flags of a page of the multi-threaded buffer manager.
  Every atomic access of the code is one step here: an operation that is one compare-and-exchange, exchange or
  store is a function of the word it finds, and an operation that first loads and then stores is split into
  the two, so that the accesses of other threads can come in between. Loads and stores take effect in
  one order (the code uses acquire and release on this single word).
\<close>

unbundle bit_operations_syntax

subsection \<open>\<^verbatim>\<open>AtomicCounter\<close>\<close>

definition counter_init :: "'n::len word \<Rightarrow> 'n word" where "counter_init init = init"
definition counter_load :: "'n::len word \<Rightarrow> 'n word" where "counter_load c = c"
definition counter_store :: "'n::len word \<Rightarrow> 'n word \<Rightarrow> 'n word" where "counter_store v c = v"

text \<open>The functions that return a value return it first, then the new content of the counter.\<close>

definition counter_fetch_add :: "'n::len word \<Rightarrow> 'n word \<Rightarrow> 'n word \<times> 'n word" where
  "counter_fetch_add delta c = (c, c + delta)"

definition counter_fetch_sub :: "'n::len word \<Rightarrow> 'n word \<Rightarrow> 'n word \<times> 'n word" where
  "counter_fetch_sub delta c = (c, c - delta)"

definition counter_pre_inc :: "'n::len word \<Rightarrow> 'n word \<times> 'n word" where
  "counter_pre_inc c = (let (old, c1) = (c, c + 1) in (old + 1, c1))"

definition counter_post_inc :: "'n::len word \<Rightarrow> 'n word \<times> 'n word" where
  "counter_post_inc c = counter_fetch_add 1 c"

definition counter_pre_dec :: "'n::len word \<Rightarrow> 'n word \<times> 'n word" where
  "counter_pre_dec c = (let (old, c1) = (c, c - 1) in (old - 1, c1))"

definition counter_post_dec :: "'n::len word \<Rightarrow> 'n word \<times> 'n word" where
  "counter_post_dec c = counter_fetch_sub 1 c"

definition counter_add_assign :: "'n::len word \<Rightarrow> 'n word \<Rightarrow> 'n word" where
  "counter_add_assign delta c = snd (counter_fetch_add delta c)"

definition counter_sub_assign :: "'n::len word \<Rightarrow> 'n word \<Rightarrow> 'n word" where
  "counter_sub_assign delta c = snd (counter_fetch_sub delta c)"

lemmas counter_defs = counter_init_def counter_load_def counter_store_def counter_fetch_add_def counter_fetch_sub_def
  counter_pre_inc_def counter_post_inc_def counter_pre_dec_def counter_post_dec_def counter_add_assign_def counter_sub_assign_def

text \<open>The values that \<open>n\<close> calls of \<^verbatim>\<open>operator++(int)\<close> return, by whatever threads.\<close>

fun counter_tickets :: "nat \<Rightarrow> 'n::len word \<Rightarrow> 'n word list" where
  "counter_tickets 0 c = []"
| "counter_tickets (Suc n) c = (let (t, c1) = counter_post_inc c in t # counter_tickets n c1)"

lemma counter_tickets_eq: "counter_tickets n c = map (\<lambda>i. c + of_nat i) [0..<n]"
proof (induction n arbitrary: c)
  case (Suc n)
  have "map (\<lambda>i. c + of_nat i) [0..<Suc n] = c # map (\<lambda>i. c + 1 + of_nat i) [0..<n]"
    by (simp add: upt_conv_Cons map_Suc_upt [symmetric] add.assoc del: upt_Suc)
  then show ?case using Suc by (simp add: counter_defs)
qed simp

text \<open>Numbers drawn from a counter are distinct, so long as it does not run around.\<close>

lemma counter_tickets_distinct:
  fixes c :: "'n::len word"
  assumes "n \<le> 2 ^ LENGTH('n)"
  shows "distinct (counter_tickets n c)"
proof -
  have "inj_on (\<lambda>i. c + of_nat i) {0..<n}"
  proof (rule inj_onI)
    fix i j
    assume "i \<in> {0..<n}" "j \<in> {0..<n}" "c + of_nat i = c + (of_nat j :: 'n word)"
    then show "i = j" using assms by (simp add: of_nat_inverse [of _ "of_nat _"] word_of_nat_eq_iff take_bit_nat_eq_self)
  qed
  then show ?thesis by (simp add: counter_tickets_eq distinct_map)
qed

subsection \<open>The fields of \<^verbatim>\<open>PageState\<close>\<close>

definition Unlocked :: u64 where "Unlocked = 0"
definition MaxShared :: u64 where "MaxShared = 252"
definition Locked :: u64 where "Locked = 253"
definition Marked :: u64 where "Marked = 254"
definition Evicted :: u64 where "Evicted = 255"
definition IoInProgressBit :: u64 where "IoInProgressBit = push_bit 0 1"
definition EvictingBit :: u64 where "EvictingBit = push_bit 1 1"
definition DirtyBit :: u64 where "DirtyBit = push_bit 2 1"
definition FlagsMask :: u64 where "FlagsMask = 0xFF"
definition VersionMask :: u64 where "VersionMask = push_bit 8 (push_bit 48 1 - 1)"

definition same_version :: "u64 \<Rightarrow> u64 \<Rightarrow> u64" where
  "same_version old_state_and_version new_state = ((old_state_and_version AND (VersionMask OR FlagsMask)) OR push_bit 56 new_state)"

definition next_version :: "u64 \<Rightarrow> u64 \<Rightarrow> u64" where
  "next_version old_state_and_version new_state =
     (let version = old_state_and_version AND VersionMask;
          nxt = (version + push_bit 8 1) AND VersionMask
      in (old_state_and_version AND FlagsMask) OR nxt OR push_bit 56 new_state)"

definition get_state :: "u64 \<Rightarrow> u64" where "get_state v = drop_bit 56 v"
definition get_version :: "u64 \<Rightarrow> u64" where "get_version v = drop_bit 8 (v AND VersionMask)"

definition unlocked_state :: u64 where "unlocked_state = same_version 0 Unlocked"
definition marked_state :: u64 where "marked_state = same_version 0 Marked"
definition locked_state :: u64 where "locked_state = same_version 0 Locked"

definition next_version_no_flags :: "u64 \<Rightarrow> u64 \<Rightarrow> u64" where
  "next_version_no_flags old_state_and_version new_state =
     (let version = old_state_and_version AND VersionMask;
          nxt = (version + push_bit 8 1) AND VersionMask
      in nxt OR push_bit 56 new_state)"

text \<open>The three stores that set up a word, whatever it held.\<close>

definition ps_init :: "u64 \<Rightarrow> u64" where "ps_init w = same_version 0 Evicted"
definition init_unlocked :: "bool \<Rightarrow> u64 \<Rightarrow> u64" where "init_unlocked marked w = (if marked then marked_state else unlocked_state)"
definition init_locked :: "u64 \<Rightarrow> u64" where "init_locked w = locked_state"

definition flag :: "u64 \<Rightarrow> u64 \<Rightarrow> bool" where "flag b w \<longleftrightarrow> (w AND b) \<noteq> 0"
definition ps_io_in_progress :: "u64 \<Rightarrow> bool" where "ps_io_in_progress w = flag IoInProgressBit w"
definition ps_evicting :: "u64 \<Rightarrow> bool" where "ps_evicting w = flag EvictingBit w"
definition ps_dirty :: "u64 \<Rightarrow> bool" where "ps_dirty w = flag DirtyBit w"

definition update_flag :: "u64 \<Rightarrow> bool \<Rightarrow> u64 \<Rightarrow> u64" where
  "update_flag b value w = (if value then w OR b else w AND NOT b)"

definition ps_set_io_in_progress :: "bool \<Rightarrow> u64 \<Rightarrow> u64" where "ps_set_io_in_progress value w = update_flag IoInProgressBit value w"
definition ps_set_evicting :: "bool \<Rightarrow> u64 \<Rightarrow> u64" where "ps_set_evicting value w = update_flag EvictingBit value w"
definition ps_set_dirty :: "bool \<Rightarrow> u64 \<Rightarrow> u64" where "ps_set_dirty value w = update_flag DirtyBit value w"

subsection \<open>The operations\<close>

text \<open>\<^verbatim>\<open>compare_exchange_strong\<close> on the word \<open>w\<close>: whether it succeeded, and the word after it.\<close>

definition cas :: "u64 \<Rightarrow> u64 \<Rightarrow> u64 \<Rightarrow> bool \<times> u64" where
  "cas expected desired w = (if w = expected then (True, desired) else (False, w))"

definition try_lock_x :: "u64 \<Rightarrow> u64 \<Rightarrow> bool \<times> u64" where
  "try_lock_x expected w =
     (let state = get_state expected
      in if state \<noteq> Unlocked \<and> state \<noteq> Marked then (False, w) else cas expected (same_version expected Locked) w)"

definition try_lock_x_dirty :: "u64 \<Rightarrow> u64 \<Rightarrow> bool \<times> u64" where
  "try_lock_x_dirty expected w =
     (let state = get_state expected
      in if state \<noteq> Unlocked \<and> state \<noteq> Marked then (False, w) else cas expected (same_version expected Locked OR DirtyBit) w)"

definition try_lock_s :: "u64 \<Rightarrow> u64 \<Rightarrow> bool \<times> u64" where
  "try_lock_s expected w =
     (let state = get_state expected
      in if state < MaxShared then cas expected (same_version expected (state + 1)) w
         else if state = Marked then cas expected (same_version expected 1) w
         else (False, w))"

definition try_mark :: "u64 \<Rightarrow> u64 \<Rightarrow> bool \<times> u64" where
  "try_mark expected w = (if get_state expected \<noteq> Unlocked then (False, w) else cas expected (same_version expected Marked) w)"

definition try_clear_mark :: "u64 \<Rightarrow> u64 \<Rightarrow> bool \<times> u64" where
  "try_clear_mark expected w = (if get_state expected \<noteq> Marked then (False, w) else cas expected (same_version expected Unlocked) w)"

definition try_upgrade_s_to_x :: "u64 \<Rightarrow> u64 \<Rightarrow> bool \<times> u64" where
  "try_upgrade_s_to_x expected w = (if get_state expected \<noteq> 1 then (False, w) else cas expected (same_version expected Locked) w)"

text \<open>The operations that load and then store: the value they store, computed from the word they loaded.\<close>

definition unlock_x :: "u64 \<Rightarrow> u64" where "unlock_x loaded = next_version loaded Unlocked"
definition unlock_x_marked :: "u64 \<Rightarrow> u64" where "unlock_x_marked loaded = next_version loaded Marked"
definition unlock_x_marked_dirty :: "u64 \<Rightarrow> u64" where "unlock_x_marked_dirty loaded = next_version (loaded OR DirtyBit) Marked"
definition unlock_x_evicted :: "u64 \<Rightarrow> u64" where "unlock_x_evicted loaded = next_version loaded Evicted"
definition downgrade_lock :: "u64 \<Rightarrow> u64" where "downgrade_lock loaded = next_version loaded 1"
definition rebind_locked :: "u64 \<Rightarrow> u64" where "rebind_locked loaded = next_version_no_flags loaded Locked"
definition rebind_unlocked :: "bool \<Rightarrow> u64 \<Rightarrow> u64" where
  "rebind_unlocked marked loaded = next_version_no_flags loaded (if marked then Marked else Unlocked)"

text \<open>The body of the two loops that give up a shared lock: after the load, one attempt to exchange.\<close>

definition unlock_s :: "u64 \<Rightarrow> u64 \<Rightarrow> bool \<times> u64" where
  "unlock_s expected w = (let state = get_state expected in cas expected (same_version expected (state - 1)) w)"

definition unlock_s_marked :: "u64 \<Rightarrow> u64 \<Rightarrow> bool \<times> u64" where
  "unlock_s_marked expected w =
     (let state = get_state expected;
          nxt = (if state = 1 then same_version expected Marked else same_version expected (state - 1))
      in cas expected nxt w)"

subsection \<open>What the operations do to the fields\<close>

lemma VersionMask_eq: "VersionMask = push_bit 8 (mask 48)"
  by (simp add: VersionMask_def mask_eq_decr_exp push_bit_of_1)

lemma FlagsMask_eq: "FlagsMask = mask 8"
  by (simp add: FlagsMask_def mask_eq_decr_exp)

lemma get_version_eq: "get_version v = take_bit 48 (drop_bit 8 v)"
  by (rule bit_word_eqI) (auto simp: get_version_def VersionMask_eq bit_simps)

lemma byte_take: "take_bit 8 s = s \<longleftrightarrow> s < 256" for s :: u64
  by (auto simp: word_unat_eq_iff take_bit_eq_mod word_less_nat_alt unat_mod_distrib mod_eq_self_iff_div_eq_0)

lemma byte_bits: "s < 256 \<Longrightarrow> bit s n \<Longrightarrow> n < 8" for s :: u64
proof -
  assume "s < 256" and b: "bit s n"
  then have "take_bit 8 s = s" by (simp add: byte_take)
  with b show "n < 8" by (metis bit_take_bit_iff)
qed

lemma state_byte: "get_state v < 256"
proof -
  have "take_bit 8 (get_state v) = get_state v" by (rule bit_word_eqI) (auto simp: get_state_def bit_simps dest: bit_imp_le_length)
  then show ?thesis by (simp add: byte_take)
qed

lemma ps_flag_bits [simp]: "bit IoInProgressBit n \<longleftrightarrow> n = 0" "bit EvictingBit n \<longleftrightarrow> n = 1" "bit DirtyBit n \<longleftrightarrow> n = 2"
  unfolding IoInProgressBit_def EvictingBit_def DirtyBit_def bit_push_bit_iff bit_1_iff by auto

lemma field_bits:
  "bit VersionMask n \<longleftrightarrow> 8 \<le> n \<and> n < 56" "bit FlagsMask n \<longleftrightarrow> n < 8"
  by (auto simp: VersionMask_eq FlagsMask_eq bit_simps)

text \<open>The three fields: \<open>get_state\<close>, \<open>get_version\<close> and the low byte.\<close>

abbreviation get_flags :: "u64 \<Rightarrow> u64" where "get_flags v \<equiv> v AND FlagsMask"

lemma same_version_fields [simp]:
  "s < 256 \<Longrightarrow> get_state (same_version w s) = s" "get_version (same_version w s) = get_version w"
  "get_flags (same_version w s) = get_flags w"
proof -
  show "s < 256 \<Longrightarrow> get_state (same_version w s) = s"
    by (rule bit_word_eqI) (auto simp: get_state_def same_version_def bit_simps field_bits dest: byte_bits)
  show "get_version (same_version w s) = get_version w"
    by (rule bit_word_eqI) (auto simp: get_version_eq same_version_def bit_simps field_bits)
  show "get_flags (same_version w s) = get_flags w"
    by (rule bit_word_eqI) (auto simp: same_version_def bit_simps field_bits)
qed

lemma version_step: "((w AND VersionMask) + push_bit 8 1) AND VersionMask = push_bit 8 (take_bit 48 (get_version w + 1))"
proof -
  have "w AND VersionMask = push_bit 8 (get_version w)"
    by (rule bit_word_eqI) (auto simp: get_version_eq bit_simps field_bits)
  then have "(w AND VersionMask) + push_bit 8 1 = push_bit 8 (get_version w + 1)"
    by (simp add: push_bit_eq_mult algebra_simps)
  then show ?thesis by (intro bit_word_eqI) (auto simp: bit_simps field_bits)
qed

lemma next_version_eq:
  "next_version w s = ((w AND FlagsMask) OR push_bit 8 (take_bit 48 (get_version w + 1)) OR push_bit 56 s)"
  "next_version_no_flags w s = (push_bit 8 (take_bit 48 (get_version w + 1)) OR push_bit 56 s)"
  unfolding next_version_def next_version_no_flags_def Let_def version_step by (rule refl)+

lemma next_version_fields [simp]:
  "s < 256 \<Longrightarrow> get_state (next_version w s) = s" "get_version (next_version w s) = take_bit 48 (get_version w + 1)"
  "get_flags (next_version w s) = get_flags w"
proof -
  show "s < 256 \<Longrightarrow> get_state (next_version w s) = s"
    by (rule bit_word_eqI) (auto simp: get_state_def next_version_eq bit_simps field_bits dest: byte_bits)
  show "get_version (next_version w s) = take_bit 48 (get_version w + 1)"
    by (rule bit_word_eqI) (auto simp: get_version_eq next_version_eq bit_simps field_bits)
  show "get_flags (next_version w s) = get_flags w"
    by (rule bit_word_eqI) (auto simp: next_version_eq bit_simps field_bits)
qed

lemma next_version_no_flags_fields [simp]:
  "s < 256 \<Longrightarrow> get_state (next_version_no_flags w s) = s"
  "get_version (next_version_no_flags w s) = take_bit 48 (get_version w + 1)" "get_flags (next_version_no_flags w s) = 0"
proof -
  show "s < 256 \<Longrightarrow> get_state (next_version_no_flags w s) = s"
    by (rule bit_word_eqI) (auto simp: get_state_def next_version_eq bit_simps field_bits dest: byte_bits)
  show "get_version (next_version_no_flags w s) = take_bit 48 (get_version w + 1)"
    by (rule bit_word_eqI) (auto simp: get_version_eq next_version_eq bit_simps field_bits)
  show "get_flags (next_version_no_flags w s) = 0"
    by (rule bit_word_eqI) (auto simp: next_version_eq bit_simps field_bits)
qed

lemma update_flag_fields [simp]:
  assumes "b = IoInProgressBit \<or> b = EvictingBit \<or> b = DirtyBit"
  shows "get_state (update_flag b v w) = get_state w" "get_version (update_flag b v w) = get_version w" "flag b (update_flag b v w) = v"
proof -
  have b: "\<not> bit b n" if "8 \<le> n" for n using assms that by auto
  show "get_state (update_flag b v w) = get_state w"
    by (rule bit_word_eqI) (auto simp: get_state_def update_flag_def b bit_simps dest: bit_imp_le_length)
  show "get_version (update_flag b v w) = get_version w"
    by (rule bit_word_eqI) (auto simp: get_version_eq update_flag_def b bit_simps dest: bit_imp_le_length)
  have "b \<noteq> 0" using assms by (auto simp: IoInProgressBit_def EvictingBit_def DirtyBit_def)
  moreover have "(w OR b) AND b = b" "(w AND NOT b) AND b = 0" by (rule bit_word_eqI, auto simp: bit_simps)+
  ultimately show "flag b (update_flag b v w) = v" by (simp add: flag_def update_flag_def)
qed

lemma set_flag_fields [simp]:
  "get_state (w OR DirtyBit) = get_state w" "get_version (w OR DirtyBit) = get_version w" "ps_dirty (w OR DirtyBit)"
  using update_flag_fields [of DirtyBit True w] by (simp_all add: update_flag_def ps_dirty_def)

subsection \<open>Threads\<close>

text \<open>
  Where a thread stands: it holds nothing, a shared or the exclusive lock, or it is inside one of the operations
  that load first: it has loaded \<open>e\<close> and will try the exchange of \<^verbatim>\<open>unlock_s\<close> or
  \<^verbatim>\<open>unlock_s_marked\<close>, or it has computed the value \<open>v\<close> it will store.
\<close>

datatype pc = Idle | HoldS | HoldX | ReleaseS bool u64 | ReleaseX u64 | Downgrade u64 | Rebind u64

text \<open>
  \<open>lock_step rebinds counted s s'\<close>: one atomic access of one thread. The caller of a \<^verbatim>\<open>try_\<close> operation may expect any
  word. \<open>counted\<close> tells the stores that count the version up: those that end an exclusive lock and those that rebind the frame.
  \<^verbatim>\<open>allocPage\<close> and \<^verbatim>\<open>handleFault\<close> rebind a frame from the free list with \<^verbatim>\<open>rebind_locked\<close>,
  which is a load and a store. The rule \<open>rebind\<close> is such a call on a frame that no thread has locked, with no access of another
  thread between the two; with \<open>rebinds\<close> the load and the store are also steps of their own.
\<close>

inductive lock_step :: "bool \<Rightarrow> bool \<Rightarrow> u64 \<times> (nat \<Rightarrow> pc) \<Rightarrow> u64 \<times> (nat \<Rightarrow> pc) \<Rightarrow> bool" for rebinds where
  shared: "p t = Idle \<Longrightarrow> try_lock_s e w = (True, w') \<Longrightarrow> lock_step rebinds False (w, p) (w', p(t := HoldS))"
| exclusive: "p t = Idle \<Longrightarrow> try_lock_x e w = (True, w') \<or> try_lock_x_dirty e w = (True, w') \<Longrightarrow>
    lock_step rebinds False (w, p) (w', p(t := HoldX))"
| upgrade: "p t = HoldS \<Longrightarrow> try_upgrade_s_to_x e w = (True, w') \<Longrightarrow> lock_step rebinds False (w, p) (w', p(t := HoldX))"
| marking: "try_mark e w = (True, w') \<or> try_clear_mark e w = (True, w') \<Longrightarrow> lock_step rebinds False (w, p) (w', p)"
| flagging: "b = IoInProgressBit \<or> b = EvictingBit \<or> b = DirtyBit \<Longrightarrow> lock_step rebinds False (w, p) (update_flag b v w, p)"
| unlock_s_load: "p t = HoldS \<Longrightarrow> lock_step rebinds False (w, p) (w, p(t := ReleaseS m w))"
| unlock_s_done: "p t = ReleaseS m e \<Longrightarrow> (if m then unlock_s_marked e w else unlock_s e w) = (True, w') \<Longrightarrow>
    lock_step rebinds False (w, p) (w', p(t := Idle))"
| unlock_s_again: "p t = ReleaseS m e \<Longrightarrow> (if m then unlock_s_marked e w else unlock_s e w) = (False, w') \<Longrightarrow>
    lock_step rebinds False (w, p) (w', p(t := HoldS))"
| unlock_x_load: "p t = HoldX \<Longrightarrow> v \<in> {unlock_x w, unlock_x_marked w, unlock_x_marked_dirty w, unlock_x_evicted w, rebind_unlocked m w} \<Longrightarrow>
    lock_step rebinds False (w, p) (w, p(t := ReleaseX v))"
| unlock_x_store: "p t = ReleaseX v \<Longrightarrow> lock_step rebinds True (w, p) (v, p(t := Idle))"
| downgrade_load: "p t = HoldX \<Longrightarrow> lock_step rebinds False (w, p) (w, p(t := Downgrade (downgrade_lock w)))"
| downgrade_store: "p t = Downgrade v \<Longrightarrow> lock_step rebinds True (w, p) (v, p(t := HoldS))"
| rebind: "p t = Idle \<Longrightarrow> get_state w \<in> {Unlocked, Marked, Evicted} \<Longrightarrow> lock_step rebinds True (w, p) (rebind_locked w, p(t := HoldX))"
| rebind_load: "rebinds \<Longrightarrow> p t = Idle \<Longrightarrow> lock_step rebinds False (w, p) (w, p(t := Rebind (rebind_locked w)))"
| rebind_store: "rebinds \<Longrightarrow> p t = Rebind v \<Longrightarrow> lock_step rebinds False (w, p) (v, p(t := HoldX))"

text \<open>A run visits the states of its list, the last one first, and counts the version up \<open>n\<close> times.\<close>

inductive lock_run :: "bool \<Rightarrow> (u64 \<times> (nat \<Rightarrow> pc)) list \<Rightarrow> nat \<Rightarrow> bool" for rebinds where
  start: "lock_run rebinds [s] 0"
| run_step: "lock_run rebinds (s # ss) n \<Longrightarrow> lock_step rebinds r s s' \<Longrightarrow> lock_run rebinds (s' # s # ss) (if r then Suc n else n)"

definition in_S :: "pc \<Rightarrow> bool" where "in_S c \<longleftrightarrow> c = HoldS \<or> (\<exists>m e. c = ReleaseS m e)"
definition in_X :: "pc \<Rightarrow> bool" where "in_X c \<longleftrightarrow> c = HoldX \<or> (\<exists>v. c = ReleaseX v \<or> c = Downgrade v)"

lemma in_simps [simp]:
  "\<not> in_S Idle" "in_S HoldS" "\<not> in_S HoldX" "in_S (ReleaseS m e)" "\<not> in_S (ReleaseX v)" "\<not> in_S (Downgrade v)" "\<not> in_S (Rebind v)"
  "\<not> in_X Idle" "\<not> in_X HoldS" "in_X HoldX" "\<not> in_X (ReleaseS m e)" "in_X (ReleaseX v)" "in_X (Downgrade v)" "\<not> in_X (Rebind v)"
  by (simp_all add: in_S_def in_X_def)

definition sharers :: "(nat \<Rightarrow> pc) \<Rightarrow> nat set" where "sharers p = {t. in_S (p t)}"
definition owners :: "(nat \<Rightarrow> pc) \<Rightarrow> nat set" where "owners p = {t. in_X (p t)}"

lemma mem_holders [simp]: "t \<in> sharers p \<longleftrightarrow> in_S (p t)" "t \<in> owners p \<longleftrightarrow> in_X (p t)"
  by (simp_all add: sharers_def owners_def)

text \<open>What the state byte says about the threads, and what a thread that is about to store has in hand.\<close>

definition pending_ok :: "u64 \<Rightarrow> pc \<Rightarrow> bool" where
  "pending_ok w c = (case c of
       ReleaseX v \<Rightarrow> get_state v \<in> {Unlocked, Marked, Evicted} \<and> get_version v = take_bit 48 (get_version w + 1)
     | Downgrade v \<Rightarrow> get_state v = 1 \<and> get_version v = take_bit 48 (get_version w + 1)
     | Rebind v \<Rightarrow> False
     | _ \<Rightarrow> True)"

definition lock_inv :: "u64 \<times> (nat \<Rightarrow> pc) \<Rightarrow> bool" where
  "lock_inv s = (case s of (w, p) \<Rightarrow> finite (sharers p) \<and> (\<forall>t. pending_ok w (p t)) \<and>
     ((\<exists>t. owners p = {t} \<and> sharers p = {} \<and> get_state w = Locked) \<or>
      (owners p = {} \<and> sharers p \<noteq> {} \<and> card (sharers p) \<le> 252 \<and> get_state w = of_nat (card (sharers p))) \<or>
      (owners p = {} \<and> sharers p = {} \<and> get_state w \<in> {Unlocked, Marked, Evicted})))"

lemma lock_invI:
  assumes "\<And>t. pending_ok w (p t)"
    and "(\<exists>t. owners p = {t} \<and> sharers p = {} \<and> get_state w = Locked) \<or>
      (owners p = {} \<and> finite (sharers p) \<and> sharers p \<noteq> {} \<and> card (sharers p) \<le> 252 \<and> get_state w = of_nat (card (sharers p))) \<or>
      (owners p = {} \<and> sharers p = {} \<and> get_state w \<in> {Unlocked, Marked, Evicted})"
  shows "lock_inv (w, p)"
  using assms by (auto simp: lock_inv_def)

lemma cas_True: "cas e d w = (True, w') \<longleftrightarrow> e = w \<and> w' = d" and cas_False: "cas e d w = (False, w') \<Longrightarrow> w' = w"
  by (auto simp: cas_def split: if_splits)

lemmas mode_defs = Unlocked_def MaxShared_def Locked_def Marked_def Evicted_def

lemma sharers_upd [simp]: "sharers (p(t := c)) = (if in_S c then insert t (sharers p) else sharers p - {t})"
  and owners_upd [simp]: "owners (p(t := c)) = (if in_X c then insert t (owners p) else owners p - {t})"
  by (auto simp: sharers_def owners_def)

lemma small_of_nat: "of_nat n = (of_nat m :: u64) \<longleftrightarrow> n = m" if "n \<le> 255" "m \<le> 255"
  using that by (simp add: word_of_nat_eq_iff take_bit_nat_eq_self)

lemma card_mode: "n \<le> 252 \<Longrightarrow> of_nat n \<noteq> Locked \<and> of_nat n \<noteq> Marked \<and> of_nat n \<noteq> Evicted \<and> (of_nat n = Unlocked \<longleftrightarrow> n = 0) \<and>
    (of_nat n \<le> MaxShared) \<and> (of_nat n < MaxShared \<longleftrightarrow> n < 252) \<and> (of_nat n = (1 :: u64) \<longleftrightarrow> n = 1) \<and> of_nat n < (256 :: u64)"
  using small_of_nat [of n 253] small_of_nat [of n 254] small_of_nat [of n 255] small_of_nat [of n 0] small_of_nat [of n 1]
  by (auto simp: mode_defs word_less_nat_alt word_le_nat_alt unat_of_nat)

lemma inv_owner:
  assumes "lock_inv (w, p)" and "in_X (p t)"
  shows "owners p = {t}" "sharers p = {}" "get_state w = Locked"
proof -
  have "t \<in> owners p" using assms(2) by simp
  then obtain t' where "owners p = {t'}" "sharers p = {}" "get_state w = Locked" using assms(1) by (auto simp: lock_inv_def)
  then show "owners p = {t}" "sharers p = {}" "get_state w = Locked" using \<open>t \<in> owners p\<close> by auto
qed

lemma inv_shared:
  assumes "lock_inv (w, p)" and "get_state w \<le> MaxShared \<or> in_S (p t)"
  shows "owners p = {}" "finite (sharers p)" "card (sharers p) \<le> 252" "get_state w = of_nat (card (sharers p))"
  using assms by (auto simp: lock_inv_def mode_defs)

lemma inv_free:
  assumes "lock_inv (w, p)" and "get_state w \<in> {Unlocked, Marked, Evicted}"
  shows "owners p = {}" "sharers p = {}"
proof -
  have "card (sharers p) \<noteq> 0" if "sharers p \<noteq> {}" "finite (sharers p)" using that by simp
  then show "owners p = {}" "sharers p = {}" using assms card_mode [of "card (sharers p)"] by (auto simp: lock_inv_def mode_defs)
qed

lemma inv_pending: "lock_inv (w, p) \<Longrightarrow> pending_ok w (p t)"
  by (simp add: lock_inv_def)

lemma pending_version: "get_version w' = get_version w \<Longrightarrow> pending_ok w' c = pending_ok w c"
  by (simp add: pending_ok_def split: pc.splits)

lemma pending_holds [simp]: "pending_ok w Idle" "pending_ok w HoldS" "pending_ok w HoldX" "pending_ok w (ReleaseS m e)"
  by (simp_all add: pending_ok_def)

lemma pending_upd: "(\<And>t. pending_ok w (p t)) \<Longrightarrow> pending_ok w c \<Longrightarrow> pending_ok w ((p(t := c)) t')"
  by simp

lemma inv_exclusiveI:
  "(\<And>t. pending_ok w (p t)) \<Longrightarrow> owners p = {t} \<Longrightarrow> sharers p = {} \<Longrightarrow> get_state w = Locked \<Longrightarrow> lock_inv (w, p)"
  by (simp add: lock_inv_def)

lemma inv_freeI:
  "(\<And>t. pending_ok w (p t)) \<Longrightarrow> owners p = {} \<Longrightarrow> sharers p = {} \<Longrightarrow> get_state w \<in> {Unlocked, Marked, Evicted} \<Longrightarrow> lock_inv (w, p)"
  by (simp add: lock_inv_def)

lemma inv_sharedI:
  assumes "\<And>t. pending_ok w (p t)" "owners p = {}" "finite (sharers p)" "sharers p \<noteq> {}" "card (sharers p) \<le> 252" "get_state w = of_nat (card (sharers p))"
  shows "lock_inv (w, p)"
  using assms by (simp add: lock_inv_def)

lemma release_shared:
  assumes inv: "lock_inv (w, p)" and t: "in_S (p t)" and w': "get_version w' = get_version w"
    and s: "get_state w' = get_state w - 1 \<or> (get_state w = 1 \<and> get_state w' = Marked)"
  shows "lock_inv (w', p(t := Idle))"
proof -
  note i = inv_shared [OF inv disjI2 [OF t]]
  have t': "t \<in> sharers p" using t by simp
  then have c: "0 < card (sharers p)" using i(2) card_gt_0_iff by blast
  have pend: "pending_ok w' ((p(t := Idle)) t')" for t'
    using inv_pending [OF inv] by (simp add: pending_version [OF w'])
  have own: "owners (p(t := Idle)) = {}" using i(1) by simp
  have sh: "sharers (p(t := Idle)) = sharers p - {t}" by simp
  have cs: "card (sharers (p(t := Idle))) = card (sharers p) - 1" unfolding sh using i(2) t' by simp
  have minus: "get_state w - 1 = of_nat (card (sharers p) - 1)" using c by (simp add: i(4) of_nat_diff)
  show ?thesis
  proof (cases "card (sharers p) = 1")
    case True
    then have "sharers p = {t}" using t' by (metis card_1_singletonE singletonD)
    moreover have "get_state w' \<in> {Unlocked, Marked, Evicted}" using s minus True by (auto simp: mode_defs)
    ultimately show ?thesis unfolding lock_inv_def using sh pend own by (simp del: fun_upd_apply)
  next
    case False
    then have "get_state w' = of_nat (card (sharers p) - 1)" using s minus card_mode [OF i(3)] i(4) by auto
    moreover have "0 < card (sharers (p(t := Idle)))" unfolding cs using c False by simp
    then have "sharers (p(t := Idle)) \<noteq> {}" unfolding card_gt_0_iff by (rule conjunct1)
    ultimately show ?thesis unfolding lock_inv_def using cs i(2,3) sh pend own by (simp del: fun_upd_apply)
  qed
qed

lemma acquire_rebind:
  assumes inv: "lock_inv (w, p)" and free: "get_state w \<in> {Unlocked, Marked, Evicted}"
  shows "lock_inv (rebind_locked w, p(t := HoldX))"
proof -
  note i = inv_free [OF inv free]
  have "pending_ok (rebind_locked w) (p t')" for t'
  proof -
    have "\<not> in_X (p t')" using i(1) by (metis empty_iff mem_holders(2))
    then show ?thesis using inv_pending [OF inv, of t'] by (cases "p t'") (auto simp: pending_ok_def)
  qed
  moreover have "get_state (rebind_locked w) = Locked" by (simp add: rebind_locked_def mode_defs)
  ultimately show ?thesis using i by (intro inv_exclusiveI [of _ _ t]) simp_all
qed

lemma acquire_shared:
  assumes inv: "lock_inv (w, p)" and t: "p t = Idle" and r: "try_lock_s e w = (True, w')"
  shows "lock_inv (w', p(t := HoldS))"
proof -
  have e: "e = w" and st: "get_state w < MaxShared \<and> w' = same_version w (get_state w + 1) \<or> get_state w = Marked \<and> w' = same_version w 1"
    using r by (auto simp: try_lock_s_def Let_def cas_True split: if_splits)
  have v: "get_version w' = get_version w" using st by auto
  have pend: "pending_ok w' ((p(t := HoldS)) t')" for t' using inv_pending [OF inv] by (simp add: pending_version [OF v])
  have sh: "sharers (p(t := HoldS)) = insert t (sharers p)" and own: "owners (p(t := HoldS)) = owners p - {t}"
    by simp_all
  have nt: "t \<notin> sharers p" using t by simp
  from st show ?thesis
  proof
    assume a: "get_state w < MaxShared \<and> w' = same_version w (get_state w + 1)"
    then have i: "owners p = {}" "finite (sharers p)" "card (sharers p) \<le> 252" "get_state w = of_nat (card (sharers p))"
      using inv_shared [OF inv disjI1] by auto
    then have c: "card (sharers p) < 252" using a card_mode [OF i(3)] by simp
    have "get_state w' = of_nat (Suc (card (sharers p)))" using a c card_mode [of "Suc (card (sharers p))"] by (simp add: i(4) add.commute)
    then show ?thesis unfolding lock_inv_def using sh own i c nt pend by (simp del: fun_upd_apply)
  next
    assume a: "get_state w = Marked \<and> w' = same_version w 1"
    then have "owners p = {}" "sharers p = {}" using inv_free [OF inv] by auto
    then show ?thesis unfolding lock_inv_def using sh own a pend by (simp del: fun_upd_apply)
  qed
qed

lemma acquire_exclusive:
  assumes inv: "lock_inv (w, p)" and v: "get_version w' = get_version w" and l: "get_state w' = Locked"
    and free: "(get_state w = Unlocked \<or> get_state w = Marked) \<or> (get_state w = 1 \<and> p t = HoldS)"
  shows "lock_inv (w', p(t := HoldX))"
proof -
  have pend: "pending_ok w' ((p(t := HoldX)) t')" for t' using inv_pending [OF inv] by (simp add: pending_version [OF v])
  have "owners p = {}" "sharers p \<subseteq> {t}"
  proof -
    have "owners p = {} \<and> sharers p \<subseteq> {t}"
    proof (cases "get_state w = 1 \<and> p t = HoldS")
      case True
      then have "in_S (p t)" by simp
      note i = inv_shared [OF inv disjI2 [OF this]]
      have "card (sharers p) = 1" using True i(4) card_mode [OF i(3)] by simp
      moreover have "t \<in> sharers p" using True by simp
      ultimately show ?thesis using i(1) by (metis card_1_singletonE singletonD subset_refl)
    next
      case False
      then show ?thesis using free inv_free [OF inv] by auto
    qed
    then show "owners p = {}" "sharers p \<subseteq> {t}" by auto
  qed
  then have "owners (p(t := HoldX)) = {t}" "sharers (p(t := HoldX)) = {}" by (auto simp: sharers_upd owners_upd)
  then show ?thesis using l by (intro inv_exclusiveI pend)
qed

lemma release_exclusive:
  assumes inv: "lock_inv (w, p)" and t: "in_X (p t)"
    and c: "c = Idle \<and> get_state v \<in> {Unlocked, Marked, Evicted} \<or> c = HoldS \<and> get_state v = 1"
  shows "lock_inv (v, p(t := c))"
proof -
  note i = inv_owner [OF inv t]
  have "pending_ok v (p t')" if "t' \<noteq> t" for t'
    using i that inv_pending [OF inv, of t'] by (cases "p t'") (auto simp: pending_ok_def)
  then have pend: "pending_ok v ((p(t := c)) t')" for t' using c by auto
  have own: "owners (p(t := c)) = {}" using c i(1) by (auto simp: owners_upd)
  have sh: "sharers (p(t := c)) = (if c = HoldS then {t} else {})" using c i(2) by (auto simp: sharers_upd)
  show ?thesis unfolding lock_inv_def using c pend own sh by (auto simp del: fun_upd_apply)
qed

lemma same_threads:
  assumes inv: "lock_inv (w, p)" and v: "get_version w' = get_version w" and c: "pending_ok w c" "in_S c = in_S (p t)" "in_X c = in_X (p t)"
    and s: "get_state w' = get_state w \<or> get_state w \<in> {Unlocked, Marked, Evicted} \<and> get_state w' \<in> {Unlocked, Marked, Evicted}"
  shows "lock_inv (w', p(t := c))"
proof -
  have u: "sharers (p(t := c)) = sharers p" "owners (p(t := c)) = owners p" using c(2,3) by auto
  have pend: "\<forall>t'. pending_ok w' ((p(t := c)) t')" using inv_pending [OF inv] c(1) by (simp add: pending_version [OF v])
  show ?thesis
  proof (cases "get_state w' = get_state w")
    case True
    then show ?thesis unfolding lock_inv_def prod.case u True using inv pend by (simp add: lock_inv_def)
  next
    case False
    then have "owners p = {}" "sharers p = {}" "get_state w' \<in> {Unlocked, Marked, Evicted}" using s inv_free [OF inv] by blast+
    then show ?thesis unfolding lock_inv_def prod.case u using pend by simp
  qed
qed

lemma lock_step_inv:
  assumes "lock_step False r s s'" and "lock_inv s"
  shows "lock_inv s'"
  using assms
proof (cases rule: lock_step.cases)
  case (shared p t e w w')
  then show ?thesis using acquire_shared assms(2) by blast
next
  case (exclusive p t e w w')
  then have "get_state w = Unlocked \<or> get_state w = Marked" "get_state w' = Locked" "get_version w' = get_version w"
    by (auto simp: try_lock_x_def try_lock_x_dirty_def Let_def cas_True mode_defs split: if_splits)
  then show ?thesis using acquire_exclusive assms(2) exclusive(2,3) by blast
next
  case (upgrade p t e w w')
  then have "get_state w = 1" "get_state w' = Locked" "get_version w' = get_version w"
    by (auto simp: try_upgrade_s_to_x_def cas_True mode_defs split: if_splits)
  then show ?thesis using acquire_exclusive assms(2) upgrade by blast
next
  case (marking e w w' p)
  then have "get_state w \<in> {Unlocked, Marked, Evicted} \<and> get_state w' \<in> {Unlocked, Marked, Evicted}" "get_version w' = get_version w"
    by (auto simp: try_mark_def try_clear_mark_def cas_True mode_defs split: if_splits)
  then show ?thesis using same_threads [of w p w' "p 0" 0] assms(2) marking inv_pending [of w p] by simp
next
  case (flagging b w p v)
  then show ?thesis using same_threads [of w p "update_flag b v w" "p 0" 0] assms(2) inv_pending [of w p] by simp
next
  case (unlock_s_load p t w m)
  then show ?thesis using same_threads [of w p w "ReleaseS m w" t] assms(2) by simp
next
  case (unlock_s_done p t m e w w')
  have inv: "lock_inv (w, p)" and t: "in_S (p t)" using assms(2) unlock_s_done by simp_all
  note i = inv_shared [OF inv disjI2 [OF t]]
  have "get_state w - 1 < 256"
  proof -
    have "t \<in> sharers p" using t by simp
    then have "0 < card (sharers p)" using i(2) card_gt_0_iff by blast
    then have "get_state w - 1 = of_nat (card (sharers p) - 1)" by (simp add: i(4) of_nat_diff)
    then show ?thesis using card_mode [of "card (sharers p) - 1"] i(3) by simp
  qed
  moreover have "Marked < 256" by (simp add: mode_defs)
  ultimately have "get_version w' = get_version w" "get_state w' = get_state w - 1 \<or> (get_state w = 1 \<and> get_state w' = Marked)"
    using unlock_s_done(5) by (auto simp: unlock_s_def unlock_s_marked_def Let_def cas_True split: if_splits)
  then show ?thesis using release_shared [OF inv t] unlock_s_done by simp
next
  case (unlock_s_again p t m e w w')
  then have "w' = w" by (auto simp: unlock_s_def unlock_s_marked_def Let_def dest: cas_False split: if_splits)
  then show ?thesis using same_threads [of w p w HoldS t] assms(2) unlock_s_again by simp
next
  case (unlock_x_load p t v w m)
  then have "pending_ok w (ReleaseX v)"
    by (cases m) (auto simp: pending_ok_def rebind_unlocked_def unlock_x_def unlock_x_marked_def unlock_x_marked_dirty_def unlock_x_evicted_def mode_defs)
  then show ?thesis using same_threads [of w p w "ReleaseX v" t] assms(2) unlock_x_load by simp
next
  case (unlock_x_store p t v w)
  then have "get_state v \<in> {Unlocked, Marked, Evicted}" using inv_pending [of w p t] assms(2) by (simp add: pending_ok_def)
  then show ?thesis using release_exclusive [of w p t Idle v] assms(2) unlock_x_store by simp
next
  case (downgrade_load p t w)
  then show ?thesis using same_threads [of w p w "Downgrade (downgrade_lock w)" t] assms(2) by (simp add: pending_ok_def downgrade_lock_def)
next
  case (downgrade_store p t v w)
  then have "get_state v = 1" using inv_pending [of w p t] assms(2) by (simp add: pending_ok_def)
  then show ?thesis using release_exclusive [of w p t HoldS v] assms(2) downgrade_store by simp
next
  case (rebind p t w)
  then show ?thesis using acquire_rebind [of w p t] assms(2) by simp
qed simp_all

subsection \<open>Runs\<close>

lemma lock_run_nonempty: "lock_run rb ss n \<Longrightarrow> ss \<noteq> []"
  by (erule lock_run.cases) simp_all

lemma lock_run_inv: "lock_run False ss n \<Longrightarrow> lock_inv (last ss) \<Longrightarrow> \<forall>s \<in> set ss. lock_inv s"
proof (induction rule: lock_run.induct)
  case (run_step s ss n r s')
  have l: "last (s' # s # ss) = last (s # ss)" by simp
  have "\<forall>s \<in> set (s # ss). lock_inv s" using run_step.prems unfolding l by (rule run_step.IH)
  moreover from this have "lock_inv s'" by (intro lock_step_inv [OF run_step.hyps(2)]) simp
  ultimately show ?case by simp
qed simp

lemma init_inv: "get_state w \<in> {Unlocked, Marked, Evicted} \<Longrightarrow> lock_inv (w, \<lambda>_. Idle)"
  by (auto simp: lock_inv_def sharers_def owners_def)

text \<open>
  C10. The lock word excludes: in every run of the lock operations, flag updates, marking and rebinding by any number
  of threads, with every access interleaved, a thread that has the exclusive lock is the only one that has any
  lock, at most 252 threads share it, and the state byte counts them or says who is there. A
  252-nd reader never turns the count into a lock. Rebinding is restricted to frames that no thread has locked, with no access
  between its load and its store (\<open>lock_run False\<close>).
\<close>

theorem page_lock_exclusion:
  assumes "lock_run False ss n" and "last ss = (w0, \<lambda>_. Idle)" and "get_state w0 \<in> {Unlocked, Marked, Evicted}" and "(w, p) \<in> set ss"
  shows "(\<forall>t t'. in_X (p t) \<and> (in_X (p t') \<or> in_S (p t')) \<longrightarrow> t = t') \<and> finite (sharers p) \<and> card (sharers p) \<le> 252 \<and>
    (get_state w = Locked \<longleftrightarrow> owners p \<noteq> {}) \<and> (sharers p \<noteq> {} \<longrightarrow> get_state w = of_nat (card (sharers p)))"
proof -
  have "lock_inv (last ss)" using assms(2) init_inv [OF assms(3)] by simp
  then have inv: "lock_inv (w, p)" using lock_run_inv [OF assms(1)] assms(4) by blast
  show ?thesis
  proof (cases "owners p = {}")
    case True
    then have no: "\<not> in_X (p t)" for t by (metis empty_iff mem_holders(2))
    have "get_state w \<noteq> Locked"
      using inv True card_mode [of "card (sharers p)"] by (auto simp: lock_inv_def mode_defs)
    then show ?thesis using inv True no by (auto simp: lock_inv_def)
  next
    case False
    then obtain t where t: "in_X (p t)" by (metis ex_in_conv mem_holders(2))
    note i = inv_owner [OF inv t]
    have "in_X (p t') \<longleftrightarrow> t' = t" "\<not> in_S (p t')" for t' using i(1,2) by (metis mem_holders singleton_iff empty_iff)+
    then show ?thesis using i by simp
  qed
qed

text \<open>Every end of an exclusive lock and every rebinding counts the version up; nothing else changes it.\<close>

lemma lock_step_version:
  assumes "lock_step False r s s'" and "lock_inv s"
  shows "get_version (fst s') = (if r then take_bit 48 (get_version (fst s) + 1) else get_version (fst s))"
    and "\<not> r \<Longrightarrow> owners (snd s) \<subseteq> owners (snd s')"
proof -
  show "get_version (fst s') = (if r then take_bit 48 (get_version (fst s) + 1) else get_version (fst s))"
    using assms
  proof (cases rule: lock_step.cases)
    case (unlock_x_store p t v w)
    then show ?thesis using inv_pending [of w p t] assms(2) by (simp add: pending_ok_def)
  next
    case (downgrade_store p t v w)
    then show ?thesis using inv_pending [of w p t] assms(2) by (simp add: pending_ok_def)
  next
    case (rebind p t w)
    then show ?thesis by (simp add: rebind_locked_def mode_defs)
  qed (auto simp: try_lock_s_def try_lock_x_def try_lock_x_dirty_def try_upgrade_s_to_x_def try_mark_def try_clear_mark_def
      unlock_s_def unlock_s_marked_def Let_def cas_True dest: cas_False split: if_splits)
  show "\<not> r \<Longrightarrow> owners (snd s) \<subseteq> owners (snd s')"
    using assms(1) by (cases rule: lock_step.cases) auto
qed

lemma version_bound: "unat (get_version w) < 2 ^ 48"
  by (simp add: get_version_eq take_bit_eq_mod unat_mod_distrib)

lemma lock_run_version:
  assumes "lock_run False ss n" and "lock_inv (last ss)"
  shows "unat (get_version (fst (hd ss))) = (unat (get_version (fst (last ss))) + n) mod 2 ^ 48 \<and>
    (n = 0 \<and> owners (snd (hd ss)) = {} \<longrightarrow> (\<forall>s \<in> set ss. owners (snd s) = {}))"
  using assms
proof (induction rule: lock_run.induct)
  case (start s)
  then show ?case using version_bound [of "fst s"] by simp
next
  case (run_step s ss n r s')
  have l: "last (s' # s # ss) = last (s # ss)" by simp
  have p: "lock_inv (last (s # ss))" using run_step.prems unfolding l .
  have inv: "lock_inv s" using lock_run_inv [OF run_step.hyps(1) p] by (rule bspec) simp
  note v = lock_step_version [OF run_step.hyps(2) inv]
  have "unat (take_bit 48 (get_version (fst s) + 1)) = (unat (get_version (fst s)) + 1) mod 2 ^ 48"
    using version_bound [of "fst s"] by (simp add: take_bit_eq_mod unat_mod_distrib unat_word_ariths(1))
  then have "unat (get_version (fst s')) = (unat (get_version (fst (last (s # ss)))) + (if r then Suc n else n)) mod 2 ^ 48"
    using v(1) conjunct1 [OF run_step.IH [OF p]] by (simp add: mod_simps del: last.simps)
  moreover have "\<forall>x \<in> set (s' # s # ss). owners (snd x) = {}" if "(if r then Suc n else n) = 0" "owners (snd s') = {}"
  proof -
    have "n = 0" "owners (snd s) = {}" using that v(2) by (auto split: if_splits)
    then have "\<forall>x \<in> set (s # ss). owners (snd x) = {}" using conjunct2 [OF run_step.IH [OF p]] unfolding list.sel by blast
    then show ?thesis using that(2) by simp
  qed
  ultimately show ?case unfolding l list.sel by blast
qed

text \<open>
  C11. Optimistic reads are consistent: when a reader finds the same version before and after it reads a page,
  and the page is not locked at the end, then no thread had the exclusive lock at any moment in between and the frame was not rebound,
  unless the version was counted up \<open>2 ^ 48\<close> times. This holds for runs in which a frame is rebound only when no thread has it
  locked, with no access between the load and the store of \<^verbatim>\<open>rebind_locked\<close> (\<open>lock_run False\<close>); without that restriction
  it is false (\<open>rebind_breaks_validation\<close>).
\<close>

theorem optimistic_read_consistent:
  assumes "lock_run False ss n" and "lock_inv (last ss)" and "get_state (fst (hd ss)) \<noteq> Locked"
    and "get_version (fst (hd ss)) = get_version (fst (last ss))" and "n < 2 ^ 48" and "s \<in> set ss"
  shows "owners (snd s) = {} \<and> n = 0"
proof -
  let ?v = "unat (get_version (fst (last ss)))"
  note r = lock_run_version [OF assms(1,2)]
  have "(?v + n) mod 2 ^ 48 = ?v" using r assms(4) by simp
  then have n: "n = 0" using version_bound [of "fst (last ss)"] assms(5) by (cases "?v + n < 2 ^ 48") (simp_all add: le_mod_geq)
  moreover have "owners (snd (hd ss)) = {}"
  proof -
    obtain w p where h: "hd ss = (w, p)" by fastforce
    have "lock_inv (w, p)" using lock_run_inv [OF assms(1,2)] lock_run_nonempty [OF assms(1)] h by (metis hd_in_set)
    then have "\<not> in_X (p t)" for t using inv_owner(3) [of w p t] assms(3) h by auto
    then show ?thesis by (simp add: h owners_def)
  qed
  ultimately show ?thesis using r assms(6) by blast
qed

subsection \<open>Runs in which something goes wrong\<close>

lemma lock_run_snoc:
  assumes "lock_run rb ((w, p) # ss) n" and "lock_step rb False (w, p) s"
  shows "lock_run rb (s # (w, p) # ss) n"
  using run_step [OF assms] by simp

text \<open>
  C39. \<^verbatim>\<open>rebind_locked\<close> loads the word and stores a locked one, without an exchange. A reader that found the frame
  before it was freed can take a shared lock between the two: then the frame has a reader and an exclusive
  owner, and when the reader notices that the page is another one and calls \<^verbatim>\<open>unlock_s\<close>, the state
  becomes 252 sharers while the owner believes to hold the lock.
\<close>

theorem rebind_breaks_exclusion:
  "\<exists>ss n w p. lock_run True ((w, p) # ss) n \<and> last ((w, p) # ss) = (unlocked_state, \<lambda>_. Idle) \<and>
     p 0 = HoldX \<and> p 1 = HoldS \<and> fst (unlock_s w w) \<and> get_state (snd (unlock_s w w)) = MaxShared"
proof -
  let ?w0 = unlocked_state and ?p0 = "\<lambda>_. Idle"
  let ?v = "rebind_locked ?w0"
  let ?p1 = "?p0(0 := Rebind ?v)" and ?w2 = "same_version ?w0 1"
  let ?p2 = "?p1(1 := HoldS)"
  have u: "get_state ?w0 = Unlocked" by (simp add: unlocked_state_def mode_defs)
  have 1: "lock_run True [(?w0, ?p0)] 0" by (rule start)
  have 2: "lock_run True [(?w0, ?p1), (?w0, ?p0)] 0" by (rule lock_run_snoc [OF 1]) (rule rebind_load, simp_all)
  have t: "try_lock_s ?w0 ?w0 = (True, ?w2)" by (simp add: try_lock_s_def cas_def u Let_def mode_defs)
  have 3: "lock_run True [(?w2, ?p2), (?w0, ?p1), (?w0, ?p0)] 0" by (rule lock_run_snoc [OF 2]) (rule shared [OF _ t], simp)
  have 4: "lock_run True [(?v, ?p2(0 := HoldX)), (?w2, ?p2), (?w0, ?p1), (?w0, ?p0)] 0"
    by (rule lock_run_snoc [OF 3]) (rule rebind_store, simp_all)
  have "fst (unlock_s ?v ?v)" "get_state (snd (unlock_s ?v ?v)) = MaxShared"
    by (simp_all add: unlock_s_def cas_def Let_def rebind_locked_def mode_defs)
  then show ?thesis using 4 by (intro exI [of _ "[(?w2, ?p2), (?w0, ?p1), (?w0, ?p0)]"] exI [of _ 0] exI [of _ ?v] exI [of _ "?p2(0 := HoldX)"]) simp
qed

text \<open>
  The same race defeats the validation of an optimistic read. Between the load and the store of \<^verbatim>\<open>rebind_locked\<close> by thread 0,
  thread 1 takes and gives up the exclusive lock, which counts the version up; then a reader starts. Thread 2 takes a shared lock,
  thread 0 stores its stale version, and the \<^verbatim>\<open>unlock_s\<close> of thread 2 removes the state \<open>Locked\<close>. The reader finds the version it
  started with and a page that is not locked, while thread 0 owns it.
\<close>

theorem rebind_breaks_validation:
  "\<exists>s ss s0 ss0 n. lock_run True (s # ss @ s0 # ss0) n \<and> last (s0 # ss0) = (unlocked_state, \<lambda>_. Idle) \<and>
     get_version (fst s) = get_version (fst s0) \<and> get_state (fst s) \<noteq> Locked \<and> get_state (fst s0) \<noteq> Locked \<and> snd s 0 = HoldX"
proof -
  let ?w0 = unlocked_state
  let ?v = "rebind_locked ?w0" and ?w2 = "same_version ?w0 Locked"
  let ?u = "unlock_x ?w2"
  let ?p1 = "(\<lambda>_ :: nat. Idle)(0 := Rebind ?v)"
  let ?p3 = "?p1(1 := HoldX, 1 := ReleaseX ?u)"
  let ?p4 = "?p3(1 := Idle)"
  let ?p5 = "?p4(2 := HoldS)"
  let ?p6 = "?p5(0 := HoldX)"
  let ?p7 = "?p6(2 := ReleaseS False ?v)"
  let ?before = "[(?u, ?p4), (?w2, ?p3), (?w2, ?p1(1 := HoldX)), (?w0, ?p1), (?w0, \<lambda>_. Idle)]"
  have g0: "get_state ?w0 = Unlocked" by (simp add: unlocked_state_def mode_defs)
  have gu: "get_state ?u = Unlocked" by (simp add: unlock_x_def mode_defs)
  have gv: "get_state ?v = Locked" by (simp add: rebind_locked_def mode_defs)
  have 1: "lock_run True [(?w0, ?p1), (?w0, \<lambda>_. Idle)] 0" by (rule lock_run_snoc [OF start]) (rule rebind_load, simp_all)
  have x: "try_lock_x ?w0 ?w0 = (True, ?w2)" by (simp add: try_lock_x_def cas_def g0 Let_def)
  have 2: "lock_run True [(?w2, ?p1(1 := HoldX)), (?w0, ?p1), (?w0, \<lambda>_. Idle)] 0"
    by (rule lock_run_snoc [OF 1]) (rule exclusive [OF _ disjI1 [OF x]], simp)
  have 3: "lock_run True [(?w2, ?p3), (?w2, ?p1(1 := HoldX)), (?w0, ?p1), (?w0, \<lambda>_. Idle)] 0"
    by (rule lock_run_snoc [OF 2]) (rule unlock_x_load, simp_all)
  have "lock_step True True (?w2, ?p3) (?u, ?p4)" by (rule unlock_x_store) simp
  from run_step [OF 3 this] have 4: "lock_run True ?before 1" by simp
  have y: "try_lock_s ?u ?u = (True, same_version ?u 1)" unfolding try_lock_s_def Let_def gu by (simp add: cas_def mode_defs)
  have 5: "lock_run True ((same_version ?u 1, ?p5) # ?before) 1" by (rule lock_run_snoc [OF 4]) (rule shared [OF _ y], simp)
  have 6: "lock_run True ((?v, ?p6) # (same_version ?u 1, ?p5) # ?before) 1"
    by (rule lock_run_snoc [OF 5]) (rule rebind_store, simp_all)
  have 7: "lock_run True ((?v, ?p7) # (?v, ?p6) # (same_version ?u 1, ?p5) # ?before) 1"
    by (rule lock_run_snoc [OF 6]) (rule unlock_s_load, simp)
  have z: "unlock_s ?v ?v = (True, same_version ?v (Locked - 1))" by (simp add: unlock_s_def cas_def gv Let_def)
  have 8: "lock_run True ((same_version ?v (Locked - 1), ?p7(2 := Idle)) # (?v, ?p7) # (?v, ?p6) # (same_version ?u 1, ?p5) # ?before) 1"
    by (rule lock_run_snoc [OF 7]) (rule unlock_s_done [where m = False and e = ?v], use z in simp_all)
  have "get_version (same_version ?v (Locked - 1)) = get_version ?u" by (simp add: rebind_locked_def unlock_x_def)
  moreover have "get_state (same_version ?v (Locked - 1)) \<noteq> Locked" "get_state ?u \<noteq> Locked" unfolding gu by (simp_all add: mode_defs)
  ultimately show ?thesis using 8
    by (intro exI [of _ "(same_version ?v (Locked - 1), ?p7(2 := Idle))"] exI [of _ "[(?v, ?p7), (?v, ?p6), (same_version ?u 1, ?p5)]"]
        exI [of _ "(?u, ?p4)"] exI [of _ "tl ?before"] exI [of _ 1]) (simp del: fun_upd_apply fun_upd_upd add: fun_upd_apply)
qed

text \<open>
  The owner of the exclusive lock is not the only writer of the word: the evictor sets and clears flags without a lock,
  and an update between the load and the store of \<^verbatim>\<open>unlock_x_marked\<close> is lost.
\<close>

theorem flag_update_can_be_lost:
  "\<exists>s0 s1 s2 s3. lock_run False [s3, s2, s1, s0] 1 \<and> lock_inv s0 \<and> snd s0 0 = HoldX \<and>
     \<not> ps_evicting (fst s1) \<and> fst s2 = ps_set_evicting True (fst s1) \<and> ps_evicting (fst s2) \<and> \<not> ps_evicting (fst s3)"
proof -
  let ?w = locked_state and ?p = "(\<lambda>_. Idle)(0 := HoldX)"
  let ?v = "unlock_x_marked ?w" and ?e = "ps_set_evicting True ?w"
  have inv: "lock_inv (?w, ?p)" by (simp add: lock_inv_def sharers_def owners_def locked_state_def mode_defs)
  have 1: "lock_run False [(?w, ?p)] 0" by (rule start)
  have 2: "lock_run False [(?w, ?p(0 := ReleaseX ?v)), (?w, ?p)] 0" by (rule lock_run_snoc [OF 1]) (rule unlock_x_load, simp_all)
  have 3: "lock_run False [(?e, ?p(0 := ReleaseX ?v)), (?w, ?p(0 := ReleaseX ?v)), (?w, ?p)] 0"
    unfolding ps_set_evicting_def by (rule lock_run_snoc [OF 2]) (rule flagging, simp)
  have "lock_step False True (?e, ?p(0 := ReleaseX ?v)) (?v, ?p(0 := ReleaseX ?v, 0 := Idle))" by (rule unlock_x_store) simp
  from run_step [OF 3 this] have 4: "lock_run False [(?v, ?p(0 := ReleaseX ?v, 0 := Idle)), (?e, ?p(0 := ReleaseX ?v)), (?w, ?p(0 := ReleaseX ?v)), (?w, ?p)] 1"
    by simp
  have "\<not> ps_evicting ?w" "ps_evicting ?e" "\<not> ps_evicting ?v" by code_simp+
  then show ?thesis using 4 inv
    by (intro exI [of _ "(?w, ?p)"] exI [of _ "(?w, ?p(0 := ReleaseX ?v))"] exI [of _ "(?e, ?p(0 := ReleaseX ?v))"]
        exI [of _ "(?v, ?p(0 := ReleaseX ?v, 0 := Idle))"]) simp
qed

text \<open>The run of the witnesses: a thread rebinds a free frame and unlocks it, and another one takes a shared lock.\<close>

lemma demo_run:
  defines "v \<equiv> unlock_x_marked (rebind_locked unlocked_state)" and "p \<equiv> (\<lambda>_ :: nat. Idle)(0 := HoldX)"
  shows "lock_run False
    [(same_version v 1, p(0 := ReleaseX v, 0 := Idle, 1 := HoldS)), (v, p(0 := ReleaseX v, 0 := Idle)),
     (rebind_locked unlocked_state, p(0 := ReleaseX v)), (rebind_locked unlocked_state, p), (unlocked_state, \<lambda>_. Idle)] 2"
proof -
  have u: "get_state unlocked_state = Unlocked" by (simp add: unlocked_state_def mode_defs)
  have m: "get_state v = Marked" by (simp add: v_def unlock_x_marked_def mode_defs)
  have "lock_step False True (unlocked_state, \<lambda>_. Idle) (rebind_locked unlocked_state, p)"
    unfolding p_def by (rule rebind) (simp_all add: u)
  from run_step [OF start this] have 1: "lock_run False [(rebind_locked unlocked_state, p), (unlocked_state, \<lambda>_. Idle)] 1" by simp
  have 2: "lock_run False [(rebind_locked unlocked_state, p(0 := ReleaseX v)), (rebind_locked unlocked_state, p), (unlocked_state, \<lambda>_. Idle)] 1"
    by (rule lock_run_snoc [OF 1]) (rule unlock_x_load, simp_all add: p_def v_def)
  have "lock_step False True (rebind_locked unlocked_state, p(0 := ReleaseX v)) (v, p(0 := ReleaseX v, 0 := Idle))"
    by (rule unlock_x_store) simp
  from run_step [OF 2 this] have 3: "lock_run False [(v, p(0 := ReleaseX v, 0 := Idle)), (rebind_locked unlocked_state, p(0 := ReleaseX v)),
    (rebind_locked unlocked_state, p), (unlocked_state, \<lambda>_. Idle)] 2" by (simp add: numeral_2_eq_2)
  have t: "try_lock_s v v = (True, same_version v 1)" by (simp add: try_lock_s_def cas_def m Let_def mode_defs)
  show ?thesis by (rule lock_run_snoc [OF 3]) (rule shared [OF _ t], simp add: p_def)
qed

theorem page_lock_exclusion_witness:
  "\<exists>ss w p w' p'. lock_run False ss 2 \<and> last ss = (unlocked_state, \<lambda>_. Idle) \<and> (w, p) \<in> set ss \<and> (w', p') \<in> set ss \<and>
     in_X (p 0) \<and> owners p = {0} \<and> sharers p = {} \<and> get_state w = Locked \<and>
     sharers p' = {1} \<and> owners p' = {} \<and> get_state w' = 1"
proof -
  let ?v = "unlock_x_marked (rebind_locked unlocked_state)" and ?p = "(\<lambda>_ :: nat. Idle)(0 := HoldX)"
  let ?s = "(rebind_locked unlocked_state, ?p)" and ?q = "?p(0 := ReleaseX ?v, 0 := Idle, 1 := HoldS)"
  let ?ss = "[(same_version ?v 1, ?q), (?v, ?p(0 := ReleaseX ?v, 0 := Idle)), (rebind_locked unlocked_state, ?p(0 := ReleaseX ?v)), ?s,
    (unlocked_state, \<lambda>_. Idle)]"
  have u: "get_state unlocked_state \<in> {Unlocked, Marked, Evicted}" by (simp add: unlocked_state_def mode_defs)
  have l: "last ?ss = (unlocked_state, \<lambda>_. Idle)" by simp
  have X: "owners ?p = {0}" "sharers ?p = {}" and S: "sharers ?q = {1}" "owners ?q = {}" by (auto simp: owners_def sharers_def)
  have "get_state (rebind_locked unlocked_state) = Locked"
    using page_lock_exclusion [OF demo_run l u, of "rebind_locked unlocked_state" ?p] X(1) by simp
  moreover have "get_state (same_version ?v 1) = 1"
    using page_lock_exclusion [OF demo_run l u, of "same_version ?v 1" ?q] S(1) by simp
  ultimately show ?thesis using demo_run l X S
    by (intro exI [of _ ?ss] exI [of _ "rebind_locked unlocked_state"] exI [of _ ?p] exI [of _ "same_version ?v 1"] exI [of _ ?q]) simp
qed

theorem optimistic_read_consistent_witness:
  "\<exists>w. lock_run False [(w, \<lambda>_. Idle), (unlocked_state, \<lambda>_. Idle)] 0 \<and> ps_dirty w \<and> owners (snd (w, \<lambda>_ :: nat. Idle)) = {}"
proof -
  let ?w = "update_flag DirtyBit True unlocked_state"
  have u: "get_state unlocked_state = Unlocked" by (simp add: unlocked_state_def mode_defs)
  have "lock_step False False (unlocked_state, \<lambda>_. Idle) (?w, \<lambda>_. Idle)" by (rule flagging) simp
  from lock_run_snoc [OF start this]
  have r: "lock_run False [(?w, \<lambda>_. Idle), (unlocked_state, \<lambda>_. Idle)] 0" .
  have "owners (snd (?w, \<lambda>_ :: nat. Idle)) = {} \<and> (0 :: nat) = 0"
    by (rule optimistic_read_consistent [OF r]) (use init_inv [of unlocked_state] u in \<open>simp_all add: mode_defs\<close>)
  then show ?thesis using r update_flag_fields(3) [of DirtyBit True unlocked_state] by (auto simp: ps_dirty_def)
qed

end
