(* ===== verification/Free_Frames.thy ===== *)
theory Free_Frames
  imports Prelude "HOL-Library.Multiset"
begin

section \<open>Free frames of the multi-threaded buffer manager\<close>

text \<open>
  \<^verbatim>\<open>src/src/buffer_mgr/mt/bm.cpp\<close>: every worker has a list of free frames of its own and refills it from shared pools;
  a released frame goes to the worker's list or, when that is full, to the pool of the frame, and fibers that wait for a frame are
  woken within a budget. The vectors of the code are lists whose last element is the \<^verbatim>\<open>back\<close>. The
  eviction threshold compares with a floating-point fraction of the page count: it is the argument \<open>low\<close>. The fibers handed to
  \<^verbatim>\<open>wake_fiber\<close> are recorded in \<open>woken\<close>, the calls that wake the eviction fiber are counted. A call is one
  step: the pools and the waiter lists are each under a lock.
\<close>

unbundle bit_operations_syntax

record FreeState =
  free_pools :: "BID list list"
  free_pool_mask :: nat
  shared_free_count :: nat
  local_free_list :: "BID list list"
  free_frame_waiters :: "nat list list"
  free_bid_wake_budget :: nat
  woken :: "nat list"
  evictor_wakeups :: nat
  evict_batch :: nat

subsection \<open>Thresholds\<close>

definition local_free_refill_target :: "FreeState \<Rightarrow> nat \<Rightarrow> nat" where
  "local_free_refill_target s min_count = (let base = max (evict_batch s) 8 in max min_count base)"

definition local_free_cap :: "FreeState \<Rightarrow> bool \<Rightarrow> nat" where
  "local_free_cap s prefer_local_waiters =
     (let base = max (local_free_refill_target s 1 * 4) 256
      in if prefer_local_waiters then base * 2 else base)"

definition local_free_low_watermark :: "FreeState \<Rightarrow> nat" where
  "local_free_low_watermark s = max (local_free_refill_target s 1 div 4) 8"

definition free_pool_index_for_worker :: "FreeState \<Rightarrow> nat \<Rightarrow> nat" where
  "free_pool_index_for_worker s worker_id = (worker_id AND free_pool_mask s)"

definition free_pool_index_for_bid :: "FreeState \<Rightarrow> BID \<Rightarrow> nat" where
  "free_pool_index_for_bid s bid = (unat bid AND free_pool_mask s)"

subsection \<open>Taking frames\<close>

definition refill_from_pool :: "nat \<Rightarrow> nat \<Rightarrow> nat \<Rightarrow> FreeState \<Rightarrow> FreeState" where
  "refill_from_pool refill_target w pool_idx s =
     (let local = local_free_list s ! w;
          bids = free_pools s ! pool_idx;
          n = min (refill_target - length local) (length bids)
      in if n = 0 then s
         else s\<lparr>local_free_list := (local_free_list s)[w := local @ drop (length bids - n) bids],
                free_pools := (free_pools s)[pool_idx := take (length bids - n) bids],
                shared_free_count := shared_free_count s - n\<rparr>)"

text \<open>The first argument counts the iterations left: \<^verbatim>\<open>free_pool_count - step\<close>.\<close>

fun refill_loop :: "nat \<Rightarrow> nat \<Rightarrow> nat \<Rightarrow> nat \<Rightarrow> nat \<Rightarrow> FreeState \<Rightarrow> FreeState" where
  "refill_loop 0 step refill_target w own_idx s = s"
| "refill_loop (Suc n) step refill_target w own_idx s =
     (if length (local_free_list s ! w) < refill_target
      then refill_loop n (step + 1) refill_target w own_idx (refill_from_pool refill_target w ((own_idx + step) AND free_pool_mask s) s)
      else s)"

text \<open>First the worker's own pool, then the others.\<close>

definition refill_pools :: "nat \<Rightarrow> nat \<Rightarrow> FreeState \<Rightarrow> FreeState" where
  "refill_pools w min_count s =
     (let refill_target = local_free_refill_target s min_count;
          own_idx = free_pool_index_for_worker s w;
          s1 = refill_from_pool refill_target w own_idx s
      in if length (local_free_list s1 ! w) < refill_target
         then refill_loop (length (free_pools s1) - 1) 1 refill_target w own_idx s1 else s1)"

definition wake_evictor_if :: "bool \<Rightarrow> FreeState \<Rightarrow> FreeState" where
  "wake_evictor_if b s = (if b then s\<lparr>evictor_wakeups := evictor_wakeups s + 1\<rparr> else s)"

definition refill_local_free_list :: "(nat \<Rightarrow> bool) \<Rightarrow> nat \<Rightarrow> nat \<Rightarrow> FreeState \<Rightarrow> bool \<times> FreeState" where
  "refill_local_free_list low w min_count s =
     (if min_count \<le> length (local_free_list s ! w) then (True, s)
      else
        let s2 = refill_pools w min_count s;
            s3 = wake_evictor_if (low (shared_free_count s2 + length (local_free_list s2 ! w))) s2
        in (min_count \<le> length (local_free_list s3 ! w), s3))"

definition acquire_free_bid :: "(nat \<Rightarrow> bool) \<Rightarrow> nat \<Rightarrow> FreeState \<Rightarrow> (BID \<times> FreeState) result" where
  "acquire_free_bid low w s =
     (let (ok, s1) = (if local_free_list s ! w = [] then refill_local_free_list low w 1 s else (True, s))
      in if \<not> ok then Inr (0, s1)
         else
           let s2 = (if length (local_free_list s1 ! w) = local_free_low_watermark s1
                     then snd (refill_local_free_list low w (local_free_refill_target s1 1) s1) else s1);
               local = local_free_list s2 ! w
           in rbind (check (local \<noteq> []) (Ensure ''!local.empty()'')) (\<lambda>_.
              Inr (last local, s2\<lparr>local_free_list := (local_free_list s2)[w := butlast local]\<rparr>)))"

subsection \<open>Waiting\<close>

definition wait_for_free_bid :: "nat \<Rightarrow> nat \<Rightarrow> FreeState \<Rightarrow> bool \<times> FreeState" where
  "wait_for_free_bid w self s =
     (if shared_free_count s > 0 then (False, s)
      else (True, s\<lparr>free_frame_waiters := (free_frame_waiters s)[w := free_frame_waiters s ! w @ [self]]\<rparr>))"

definition wake_all_local_free_waiters :: "nat \<Rightarrow> FreeState \<Rightarrow> FreeState" where
  "wake_all_local_free_waiters w s =
     s\<lparr>free_frame_waiters := (free_frame_waiters s)[w := []], woken := woken s @ free_frame_waiters s ! w\<rparr>"

text \<open>Take the last \<open>n\<close> waiters of a queue, from the back.\<close>

definition pop_waiters :: "nat \<Rightarrow> nat \<Rightarrow> FreeState \<Rightarrow> nat list \<times> FreeState" where
  "pop_waiters n w s =
     (let queue = free_frame_waiters s ! w
      in (rev (drop (length queue - n) queue), s\<lparr>free_frame_waiters := (free_frame_waiters s)[w := take (length queue - n) queue]\<rparr>))"

definition drain_queue :: "nat \<Rightarrow> nat \<times> nat list \<times> FreeState \<Rightarrow> nat \<times> nat list \<times> FreeState" where
  "drain_queue worker_idx = (\<lambda>(remaining, out, s).
     let wake_count = min remaining (length (free_frame_waiters s ! worker_idx));
         (fs, s1) = pop_waiters wake_count worker_idx s
     in (remaining - wake_count, out @ fs, s1))"

fun drain_loop :: "nat \<Rightarrow> nat \<Rightarrow> nat \<Rightarrow> nat \<times> nat list \<times> FreeState \<Rightarrow> nat \<times> nat list \<times> FreeState" where
  "drain_loop 0 step preferred r = r"
| "drain_loop (Suc n) step preferred r =
     (if fst r > 0 then drain_loop n (step + 1) preferred (drain_queue ((preferred + step) mod length (free_frame_waiters (snd (snd r)))) r) else r)"

definition wake_free_bid_waiters_locked :: "nat \<Rightarrow> FreeState \<Rightarrow> nat list \<times> FreeState" where
  "wake_free_bid_waiters_locked preferred s =
     (let worker_count = length (free_frame_waiters s)
      in if worker_count = 0 then ([], s)
         else
           let budget = free_bid_wake_budget s
           in if budget = 0 then ([], s)
              else
                let r1 = drain_queue (preferred mod worker_count) (budget, [], s\<lparr>free_bid_wake_budget := 0\<rparr>);
                    (remaining, out, s2) = drain_loop (worker_count - 1) 1 preferred r1
                in (out, s2\<lparr>free_bid_wake_budget := free_bid_wake_budget s2 + remaining\<rparr>))"

subsection \<open>Giving frames back\<close>

definition release_local :: "bool \<Rightarrow> nat \<Rightarrow> BID \<Rightarrow> FreeState \<Rightarrow> FreeState" where
  "release_local prefer_local_waiters w bid s =
     (let s1 = s\<lparr>local_free_list := (local_free_list s)[w := local_free_list s ! w @ [bid]]\<rparr>;
          (to_wake, s2) = (if prefer_local_waiters
             then pop_waiters (min (length (local_free_list s1 ! w)) (length (free_frame_waiters s1 ! w))) w s1 else ([], s1))
      in s2\<lparr>woken := woken s2 @ to_wake\<rparr>)"

definition release_free_bid :: "(nat \<Rightarrow> bool) \<Rightarrow> nat \<Rightarrow> BID \<Rightarrow> FreeState \<Rightarrow> FreeState" where
  "release_free_bid low w bid s =
     (let prefer_local_waiters = (free_frame_waiters s ! w \<noteq> [])
      in if length (local_free_list s ! w) < local_free_cap s prefer_local_waiters
         then release_local prefer_local_waiters w bid s
         else
           let i = free_pool_index_for_bid s bid;
               s1 = s\<lparr>free_pools := (free_pools s)[i := free_pools s ! i @ [bid]], shared_free_count := shared_free_count s + 1,
                      free_bid_wake_budget := free_bid_wake_budget s + 1\<rparr>;
               (to_wake, s2) = wake_free_bid_waiters_locked w s1;
               s3 = s2\<lparr>woken := woken s2 @ to_wake\<rparr>
           in wake_evictor_if (low (shared_free_count s3)) s3)"

subsection \<open>The number of frames in use\<close>

text \<open>A worker collects changes of \<^verbatim>\<open>physUsedCount\<close> and adds them at a threshold: its delta and the shared counter.\<close>

definition kPhysUsedFlushThreshold :: int where "kPhysUsedFlushThreshold = 64"

definition accum_phys_used :: "int \<Rightarrow> int \<times> u64 \<Rightarrow> int \<times> u64" where
  "accum_phys_used d = (\<lambda>(delta0, physUsedCount).
     let delta = delta0 + d
     in if delta \<ge> kPhysUsedFlushThreshold \<or> delta \<le> - kPhysUsedFlushThreshold
        then (0, physUsedCount + of_int delta) else (delta, physUsedCount))"

definition flush_phys_used_delta :: "int \<times> u64 \<Rightarrow> int \<times> u64" where
  "flush_phys_used_delta = (\<lambda>(delta, physUsedCount). if delta \<noteq> 0 then (0, physUsedCount + of_int delta) else (delta, physUsedCount))"

text \<open>Nothing is lost in the buffering, and a worker never holds back more than 63.\<close>

lemma accum_phys_used_sum:
  assumes "accum_phys_used d (delta, c) = (delta', c')"
  shows "c' + of_int delta' = c + of_int delta + of_int d" "\<bar>delta'\<bar> < 64"
  using assms by (auto simp: accum_phys_used_def kPhysUsedFlushThreshold_def Let_def algebra_simps split: if_splits)

lemma flush_phys_used_sum: "flush_phys_used_delta (delta, c) = (0, c + of_int delta)"
  by (simp add: flush_phys_used_delta_def)

subsection \<open>Frames are conserved\<close>

definition pool_bids :: "FreeState \<Rightarrow> BID multiset" where
  "pool_bids s = mset (concat (free_pools s))"

definition free_bids :: "FreeState \<Rightarrow> BID multiset" where
  "free_bids s = pool_bids s + mset (concat (local_free_list s))"

definition free_inv :: "FreeState \<Rightarrow> bool" where
  "free_inv s \<longleftrightarrow> shared_free_count s = size (pool_bids s) \<and> is_power_of_two (length (free_pools s)) \<and>
     free_pool_mask s = length (free_pools s) - 1 \<and> length (free_frame_waiters s) = length (local_free_list s)"

lemma mset_concat_update:
  assumes "i < length xss"
  shows "mset (concat (xss[i := xs])) + mset (xss ! i) = mset (concat xss) + mset xs"
proof -
  have s: "xss = take i xss @ xss ! i # drop (Suc i) xss" using assms by (rule id_take_nth_drop)
  have "mset (concat xss) = mset (concat (take i xss)) + mset (xss ! i) + mset (concat (drop (Suc i) xss))"
    by (subst s) simp
  then show ?thesis using assms by (simp add: upd_conv_take_nth_drop)
qed

lemma pool_index_less: "free_inv s \<Longrightarrow> (i AND free_pool_mask s) < length (free_pools s)"
  unfolding free_inv_def by (metis and_pow2_pred_less)

text \<open>What every operation keeps: the shape of the state.\<close>

definition same_shape :: "FreeState \<Rightarrow> FreeState \<Rightarrow> bool" where
  "same_shape s s' \<longleftrightarrow> length (free_pools s') = length (free_pools s) \<and> length (local_free_list s') = length (local_free_list s) \<and>
     length (free_frame_waiters s') = length (free_frame_waiters s) \<and> free_pool_mask s' = free_pool_mask s \<and> evict_batch s' = evict_batch s"

lemma same_shape_trans: "same_shape a b \<Longrightarrow> same_shape b c \<Longrightarrow> same_shape a c"
  by (simp add: same_shape_def)

text \<open>What a refill of the worker \<open>w\<close> does: frames move, none appears or disappears.\<close>

definition refills :: "nat \<Rightarrow> FreeState \<Rightarrow> FreeState \<Rightarrow> bool" where
  "refills w s s' \<longleftrightarrow> free_inv s' \<and> free_bids s' = free_bids s \<and> same_shape s s' \<and>
     length (local_free_list s ! w) \<le> length (local_free_list s' ! w)"

lemma refills_refl: "free_inv s \<Longrightarrow> refills w s s"
  by (simp add: refills_def same_shape_def)

lemma refills_trans: "refills w a b \<Longrightarrow> refills w b c \<Longrightarrow> refills w a c"
  by (auto simp: refills_def same_shape_def)

lemma refill_from_pool_keeps:
  assumes inv: "free_inv s" and w: "w < length (local_free_list s)" and p: "p < length (free_pools s)"
  shows "refills w s (refill_from_pool target w p s)"
proof -
  let ?l = "local_free_list s ! w" and ?b = "free_pools s ! p"
  let ?n = "min (target - length ?l) (length ?b)"
  show ?thesis
  proof (cases "?n = 0")
    case True
    then show ?thesis using refills_refl [OF inv] by (simp add: refill_from_pool_def Let_def)
  next
    case False
    let ?s = "s\<lparr>local_free_list := (local_free_list s)[w := ?l @ drop (length ?b - ?n) ?b],
       free_pools := (free_pools s)[p := take (length ?b - ?n) ?b], shared_free_count := shared_free_count s - ?n\<rparr>"
    have e: "refill_from_pool target w p s = ?s" using False by (simp add: refill_from_pool_def Let_def)
    have b: "mset ?b = mset (take (length ?b - ?n) ?b) + mset (drop (length ?b - ?n) ?b)" by (metis append_take_drop_id mset_append)
    have 1: "pool_bids ?s + mset (drop (length ?b - ?n) ?b) = pool_bids s"
      using mset_concat_update [OF p, of "take (length ?b - ?n) ?b"] b by (simp add: pool_bids_def)
    have 2: "mset (concat (local_free_list ?s)) = mset (concat (local_free_list s)) + mset (drop (length ?b - ?n) ?b)"
      using mset_concat_update [OF w, of "?l @ drop (length ?b - ?n) ?b"] by simp
    have "size (pool_bids ?s) + ?n = size (pool_bids s)" using arg_cong [OF 1, of size] by simp
    then have "size (pool_bids ?s) = size (pool_bids s) - ?n" by (metis add_diff_cancel_right')
    then have "shared_free_count ?s = size (pool_bids ?s)" using inv by (simp add: free_inv_def pool_bids_def)
    moreover have "free_bids ?s = free_bids s" unfolding free_bids_def 2 using 1 by (simp add: ac_simps)
    moreover have "same_shape s ?s" by (simp add: same_shape_def)
    moreover have "length ?l \<le> length (local_free_list ?s ! w)" using w by simp
    moreover have "is_power_of_two (length (free_pools ?s))" "free_pool_mask ?s = length (free_pools ?s) - 1"
      "length (free_frame_waiters ?s) = length (local_free_list ?s)" using inv by (simp_all add: free_inv_def)
    ultimately show ?thesis unfolding e refills_def free_inv_def by blast
  qed
qed

lemma refill_loop_keeps:
  assumes "free_inv s" and "w < length (local_free_list s)"
  shows "refills w s (refill_loop n step target w own s)"
  using assms
proof (induction n arbitrary: step s)
  case (Suc n)
  let ?s = "refill_from_pool target w ((own + step) AND free_pool_mask s) s"
  have k: "refills w s ?s" by (rule refill_from_pool_keeps [OF Suc.prems pool_index_less [OF Suc.prems(1)]])
  then have "refills w ?s (refill_loop n (step + 1) target w own ?s)"
    using Suc.prems(2) by (intro Suc.IH) (simp_all add: refills_def same_shape_def)
  then show ?case using refills_trans [OF k] refills_refl [OF Suc.prems(1)] by simp
qed (simp add: refills_refl)

lemma refill_pools_keeps:
  assumes inv: "free_inv s" and w: "w < length (local_free_list s)"
  shows "refills w s (refill_pools w m s)"
proof -
  let ?t = "local_free_refill_target s m" and ?o = "free_pool_index_for_worker s w"
  let ?s1 = "refill_from_pool ?t w ?o s"
  have "?o < length (free_pools s)" unfolding free_pool_index_for_worker_def by (rule pool_index_less [OF inv])
  then have k: "refills w s ?s1" by (rule refill_from_pool_keeps [OF inv w])
  then have "refills w ?s1 (refill_loop (length (free_pools ?s1) - 1) 1 ?t w ?o ?s1)"
    using w by (intro refill_loop_keeps) (simp_all add: refills_def same_shape_def)
  then show ?thesis using k refills_trans [OF k] by (simp add: refill_pools_def Let_def)
qed

lemma wake_evictor_keeps [simp]:
  "free_inv (wake_evictor_if b s) = free_inv s" "free_bids (wake_evictor_if b s) = free_bids s"
  "same_shape t (wake_evictor_if b s) = same_shape t s" "local_free_list (wake_evictor_if b s) = local_free_list s"
  by (simp_all add: wake_evictor_if_def free_inv_def free_bids_def pool_bids_def same_shape_def)

lemma refill_keeps:
  assumes inv: "free_inv s" and w: "w < length (local_free_list s)" and r: "refill_local_free_list low w m s = (ok, s')"
  shows "refills w s s' \<and> (ok \<longleftrightarrow> m \<le> length (local_free_list s' ! w))"
proof (cases "m \<le> length (local_free_list s ! w)")
  case True
  then show ?thesis using r refills_refl [OF inv] by (auto simp: refill_local_free_list_def)
next
  case False
  then show ?thesis using r refill_pools_keeps [OF inv w, of m] by (auto simp: refill_local_free_list_def Let_def refills_def)
qed

lemma take_last:
  assumes inv: "free_inv s" and w: "w < length (local_free_list s)" and l: "local_free_list s ! w \<noteq> []"
    and s': "s' = s\<lparr>local_free_list := (local_free_list s)[w := butlast (local_free_list s ! w)]\<rparr>"
  shows "free_inv s' \<and> same_shape s s' \<and> free_bids s = {#last (local_free_list s ! w)#} + free_bids s'"
proof -
  let ?l = "local_free_list s ! w"
  have m: "mset ?l = {#last ?l#} + mset (butlast ?l)"
    by (subst append_butlast_last_id [OF l, symmetric], subst mset_append) simp
  have "mset (concat (local_free_list s')) + mset ?l = mset (concat (local_free_list s)) + mset (butlast ?l)"
    unfolding s' using mset_concat_update [OF w, of "butlast ?l"] by simp
  then have "mset (concat (local_free_list s)) = {#last ?l#} + mset (concat (local_free_list s'))" unfolding m by simp
  then have "free_bids s = {#last ?l#} + free_bids s'" by (simp add: free_bids_def pool_bids_def s')
  moreover have "free_inv s'" "same_shape s s'" using inv by (simp_all add: free_inv_def pool_bids_def same_shape_def s')
  ultimately show ?thesis by blast
qed

lemma acquire_keeps:
  assumes inv: "free_inv s" and w: "w < length (local_free_list s)" and zero: "0 \<notin># free_bids s"
  shows "\<exists>bid s'. acquire_free_bid low w s = Inr (bid, s') \<and> free_inv s' \<and> same_shape s s' \<and>
    free_bids s = (if bid = 0 then {#} else {#bid#}) + free_bids s'"
proof -
  obtain ok s1 where s1: "(if local_free_list s ! w = [] then refill_local_free_list low w 1 s else (True, s)) = (ok, s1)" by fastforce
  have k1: "refills w s s1 \<and> (ok \<longleftrightarrow> local_free_list s1 ! w \<noteq> [])"
  proof (cases "local_free_list s ! w = []")
    case True
    then have "refill_local_free_list low w 1 s = (ok, s1)" using s1 by simp
    from refill_keeps [OF inv w this] show ?thesis by (auto simp: Suc_le_eq)
  qed (use s1 refills_refl [OF inv] in auto)
  show ?thesis
  proof (cases ok)
    case False
    then have "acquire_free_bid low w s = Inr (0, s1)" using s1 by (simp add: acquire_free_bid_def)
    then show ?thesis using k1 by (auto simp: refills_def)
  next
    case True
    obtain s2 where s2: "s2 = (if length (local_free_list s1 ! w) = local_free_low_watermark s1
       then snd (refill_local_free_list low w (local_free_refill_target s1 1) s1) else s1)" by blast
    obtain s3 where s3: "s3 = s2\<lparr>local_free_list := (local_free_list s2)[w := butlast (local_free_list s2 ! w)]\<rparr>" by blast
    have w1: "w < length (local_free_list s1)" and l1: "local_free_list s1 ! w \<noteq> []" and i1: "free_inv s1"
      using k1 w True by (simp_all add: refills_def same_shape_def)
    have "refills w s1 (snd (refill_local_free_list low w (local_free_refill_target s1 1) s1))"
      by (rule conjunct1 [OF refill_keeps [OF i1 w1 prod.collapse [symmetric]]])
    then have k': "refills w s1 s2" using refills_refl [OF i1] by (simp add: s2)
    then have l: "local_free_list s2 ! w \<noteq> []" using l1 by (auto simp: refills_def)
    have k2: "refills w s s2" using k1 k' refills_trans by blast
    then have w2: "w < length (local_free_list s2)" and i2: "free_inv s2" using w by (simp_all add: refills_def same_shape_def)
    note t = take_last [OF i2 w2 l s3]
    have a: "acquire_free_bid low w s = Inr (last (local_free_list s2 ! w), s3)"
      unfolding acquire_free_bid_def s1 Let_def prod.case s2 [symmetric] using True l by (simp add: check_def s3)
    have f: "free_bids s = {#last (local_free_list s2 ! w)#} + free_bids s3" using t k2 by (simp add: refills_def)
    then have "last (local_free_list s2 ! w) \<noteq> 0" using zero by auto
    moreover have "same_shape s s3" using t k2 same_shape_trans [of s s2 s3] by (simp add: refills_def)
    ultimately show ?thesis using a f t by (intro exI [of _ "last (local_free_list s2 ! w)"] exI [of _ s3]) simp
  qed
qed

subsection \<open>Fibers are conserved\<close>

text \<open>A fiber that waits for a frame is in a queue until it is handed to \<^verbatim>\<open>wake_fiber\<close>.\<close>

definition fibers :: "FreeState \<Rightarrow> nat multiset" where
  "fibers s = mset (concat (free_frame_waiters s)) + mset (woken s)"

text \<open>What waking leaves alone: the frames.\<close>

definition same_frames :: "FreeState \<Rightarrow> FreeState \<Rightarrow> bool" where
  "same_frames s s' \<longleftrightarrow> free_pools s' = free_pools s \<and> local_free_list s' = local_free_list s \<and> shared_free_count s' = shared_free_count s \<and>
     length (free_frame_waiters s') = length (free_frame_waiters s) \<and> free_pool_mask s' = free_pool_mask s \<and>
     evict_batch s' = evict_batch s \<and> woken s' = woken s"

lemma same_frames_trans: "same_frames a b \<Longrightarrow> same_frames b c \<Longrightarrow> same_frames a c"
  by (simp add: same_frames_def)

lemma pop_waiters_keeps:
  assumes w: "w < length (free_frame_waiters s)" and p: "pop_waiters n w s = (fs, s')"
  shows "same_frames s s' \<and> mset (concat (free_frame_waiters s)) = mset fs + mset (concat (free_frame_waiters s')) \<and>
    length fs = min n (length (free_frame_waiters s ! w)) \<and> free_bid_wake_budget s' = free_bid_wake_budget s"
proof -
  let ?q = "free_frame_waiters s ! w"
  have fs: "fs = rev (drop (length ?q - n) ?q)"
    and s': "s' = s\<lparr>free_frame_waiters := (free_frame_waiters s)[w := take (length ?q - n) ?q]\<rparr>"
    using p by (simp_all add: pop_waiters_def Let_def)
  have q: "mset ?q = mset (take (length ?q - n) ?q) + mset fs" unfolding fs mset_rev by (metis append_take_drop_id mset_append)
  have "mset (concat (free_frame_waiters s')) + mset ?q = mset (concat (free_frame_waiters s)) + mset (take (length ?q - n) ?q)"
    unfolding s' using mset_concat_update [OF w, of "take (length ?q - n) ?q"] by simp
  then have "mset (concat (free_frame_waiters s)) = mset fs + mset (concat (free_frame_waiters s'))" unfolding q by (simp add: ac_simps)
  moreover have "same_frames s s'" "free_bid_wake_budget s' = free_bid_wake_budget s" by (simp_all add: same_frames_def s')
  moreover have "length fs = min n (length ?q)" by (simp add: fs)
  ultimately show ?thesis by blast
qed

text \<open>Draining queues: every fiber taken from a queue is in the output, and each costs one unit of the budget.\<close>

definition drains :: "nat \<times> nat list \<times> FreeState \<Rightarrow> nat \<times> nat list \<times> FreeState \<Rightarrow> bool" where
  "drains = (\<lambda>(n, out, s) (n', out', s'). same_frames s s' \<and> free_bid_wake_budget s' = free_bid_wake_budget s \<and>
     mset out + mset (concat (free_frame_waiters s)) = mset out' + mset (concat (free_frame_waiters s')) \<and>
     length out + n = length out' + n')"

lemma drains_trans: "drains a b \<Longrightarrow> drains b c \<Longrightarrow> drains a c"
  by (cases a, cases b, cases c) (simp add: drains_def same_frames_def)

lemma drain_queue_drains:
  assumes "i < length (free_frame_waiters s)"
  shows "drains (n, out, s) (drain_queue i (n, out, s))"
proof -
  let ?k = "min n (length (free_frame_waiters s ! i))"
  obtain fs s' where p: "pop_waiters ?k i s = (fs, s')" by fastforce
  have "drain_queue i (n, out, s) = (n - ?k, out @ fs, s')" using p by (simp add: drain_queue_def Let_def)
  then show ?thesis using pop_waiters_keeps [OF assms p] by (simp add: drains_def)
qed

lemma drain_loop_drains:
  assumes "free_frame_waiters (snd (snd r)) \<noteq> []"
  shows "drains r (drain_loop k step w r)"
  using assms
proof (induction k arbitrary: step r)
  case (Suc k)
  obtain n out s where r: "r = (n, out, s)" by (cases r)
  let ?r = "drain_queue ((w + step) mod length (free_frame_waiters s)) r"
  have ne: "free_frame_waiters s \<noteq> []" using Suc.prems r by simp
  have d: "drains r ?r" unfolding r by (rule drain_queue_drains) (use ne in simp)
  then have "free_frame_waiters (snd (snd ?r)) \<noteq> []" using ne r by (cases ?r) (auto simp: drains_def same_frames_def)
  from drains_trans [OF d Suc.IH [OF this]] show ?case by (cases "n > 0") (simp_all add: r drains_def same_frames_def)
qed (auto simp: drains_def same_frames_def)

lemma wake_waiters_keeps:
  assumes "wake_free_bid_waiters_locked w s = (out, s')"
  shows "same_frames s s' \<and> mset (concat (free_frame_waiters s)) = mset out + mset (concat (free_frame_waiters s')) \<and>
    length out + free_bid_wake_budget s' = free_bid_wake_budget s"
proof (cases "free_frame_waiters s = [] \<or> free_bid_wake_budget s = 0")
  case True
  then have "wake_free_bid_waiters_locked w s = ([], s)" unfolding wake_free_bid_waiters_locked_def Let_def by auto
  then show ?thesis using assms by (simp add: same_frames_def)
next
  case False
  let ?s = "s\<lparr>free_bid_wake_budget := 0\<rparr>" and ?n = "length (free_frame_waiters s)"
  obtain r1 where r1: "r1 = drain_queue (w mod ?n) (free_bid_wake_budget s, [], ?s)" by blast
  have d1: "drains (free_bid_wake_budget s, [], ?s) r1" unfolding r1 by (rule drain_queue_drains) (use False in simp)
  then have "free_frame_waiters (snd (snd r1)) \<noteq> []" using False by (cases r1) (auto simp: drains_def same_frames_def)
  from drains_trans [OF d1 drain_loop_drains [OF this]]
  have d: "drains (free_bid_wake_budget s, [], ?s) (drain_loop (?n - 1) 1 w r1)" .
  obtain n2 out2 s2 where l: "drain_loop (?n - 1) 1 w r1 = (n2, out2, s2)" by (cases "drain_loop (?n - 1) 1 w r1")
  have "wake_free_bid_waiters_locked w s = (out2, s2\<lparr>free_bid_wake_budget := free_bid_wake_budget s2 + n2\<rparr>)"
    unfolding wake_free_bid_waiters_locked_def Let_def r1 [symmetric] using False l by simp
  then show ?thesis using assms d l by (auto simp: drains_def same_frames_def)
qed

lemma release_local_keeps:
  assumes inv: "free_inv s" and w: "w < length (local_free_list s)"
  shows "free_inv (release_local b w bid s) \<and> same_shape s (release_local b w bid s) \<and>
    free_bids (release_local b w bid s) = {#bid#} + free_bids s \<and> fibers (release_local b w bid s) = fibers s"
proof -
  obtain s1 where s1: "s1 = s\<lparr>local_free_list := (local_free_list s)[w := local_free_list s ! w @ [bid]]\<rparr>" by blast
  obtain fs s2 where p: "(if b then pop_waiters (min (length (local_free_list s1 ! w)) (length (free_frame_waiters s1 ! w))) w s1
    else ([], s1)) = (fs, s2)" by fastforce
  have e: "release_local b w bid s = s2\<lparr>woken := woken s2 @ fs\<rparr>" unfolding release_local_def Let_def s1 [symmetric] p by simp
  have "mset (concat (local_free_list s1)) = {#bid#} + mset (concat (local_free_list s))"
    using mset_concat_update [OF w, of "local_free_list s ! w @ [bid]"] by (simp add: s1)
  then have f: "free_bids s1 = {#bid#} + free_bids s" by (simp add: free_bids_def pool_bids_def s1)
  have w1: "w < length (free_frame_waiters s1)" using inv w by (simp add: s1 free_inv_def)
  have k: "same_frames s1 s2 \<and> mset (concat (free_frame_waiters s1)) = mset fs + mset (concat (free_frame_waiters s2))"
    using p pop_waiters_keeps [OF w1, of _ fs s2] by (cases b) (auto simp: same_frames_def)
  have "free_bids (release_local b w bid s) = free_bids s1" using k by (simp add: e free_bids_def pool_bids_def same_frames_def)
  moreover have "free_inv (release_local b w bid s)"
    using k inv by (simp add: e s1 free_inv_def pool_bids_def same_frames_def)
  moreover have "same_shape s (release_local b w bid s)" using k by (simp add: e s1 same_shape_def same_frames_def)
  moreover have "fibers (release_local b w bid s) = fibers s" using k by (simp add: e fibers_def s1 same_frames_def ac_simps)
  ultimately show ?thesis using f by simp
qed

lemma wake_evictor_fibers [simp]: "fibers (wake_evictor_if b s) = fibers s"
  by (simp add: wake_evictor_if_def fibers_def)

lemma release_keeps:
  assumes inv: "free_inv s" and w: "w < length (local_free_list s)"
  shows "free_inv (release_free_bid low w bid s) \<and> same_shape s (release_free_bid low w bid s) \<and>
    free_bids (release_free_bid low w bid s) = {#bid#} + free_bids s \<and> fibers (release_free_bid low w bid s) = fibers s"
proof (cases "length (local_free_list s ! w) < local_free_cap s (free_frame_waiters s ! w \<noteq> [])")
  case True
  then show ?thesis using release_local_keeps [OF assms] by (simp add: release_free_bid_def Let_def)
next
  case False
  let ?i = "free_pool_index_for_bid s bid"
  have i: "?i < length (free_pools s)" unfolding free_pool_index_for_bid_def by (rule pool_index_less [OF inv])
  obtain s1 where s1: "s1 = s\<lparr>free_pools := (free_pools s)[?i := free_pools s ! ?i @ [bid]], shared_free_count := shared_free_count s + 1,
    free_bid_wake_budget := free_bid_wake_budget s + 1\<rparr>" by blast
  obtain fs s2 where p: "wake_free_bid_waiters_locked w s1 = (fs, s2)" by fastforce
  obtain s3 where s3: "s3 = s2\<lparr>woken := woken s2 @ fs\<rparr>" by blast
  have e: "release_free_bid low w bid s = wake_evictor_if (low (shared_free_count s3)) s3"
    unfolding release_free_bid_def Let_def s1 [symmetric] p using False s3 by simp
  note k = wake_waiters_keeps [OF p]
  have pool: "pool_bids s1 = {#bid#} + pool_bids s"
    using mset_concat_update [OF i, of "free_pools s ! ?i @ [bid]"] by (simp add: pool_bids_def s1)
  have pool3: "pool_bids s3 = pool_bids s1" using k by (simp add: s3 pool_bids_def same_frames_def)
  have "shared_free_count s3 = shared_free_count s + 1" using k by (simp add: s3 s1 same_frames_def)
  then have "shared_free_count s3 = size (pool_bids s3)" using inv unfolding pool3 pool by (simp add: free_inv_def)
  moreover have "is_power_of_two (length (free_pools s3)) \<and> free_pool_mask s3 = length (free_pools s3) - 1 \<and>
    length (free_frame_waiters s3) = length (local_free_list s3)" using k inv by (simp add: s3 s1 same_frames_def free_inv_def)
  ultimately have "free_inv s3" unfolding free_inv_def by blast
  moreover have "local_free_list s3 = local_free_list s" using k by (simp add: s3 s1 same_frames_def)
  then have "free_bids s3 = {#bid#} + free_bids s" unfolding free_bids_def pool3 pool by simp
  moreover have "same_shape s s3" using k by (simp add: s3 s1 same_shape_def same_frames_def)
  moreover have "fibers s3 = fibers s" using k by (simp add: s3 fibers_def s1 same_frames_def ac_simps)
  ultimately show ?thesis unfolding e by simp
qed

subsection \<open>Runs\<close>

text \<open>The calls the workers make, in the order in which they take effect, and what they return.\<close>

datatype free_op = Acquire nat | Release nat BID | WaitFor nat nat | WakeAll nat

datatype free_out = Got BID | Waits nat bool | Done

fun free_step :: "(nat \<Rightarrow> bool) \<Rightarrow> free_op \<Rightarrow> FreeState \<Rightarrow> (free_out \<times> FreeState) result" where
  "free_step low (Acquire w) s = rbind (acquire_free_bid low w s) (\<lambda>(bid, s'). Inr (Got bid, s'))"
| "free_step low (Release w bid) s = Inr (Done, release_free_bid low w bid s)"
| "free_step low (WaitFor w f) s = (case wait_for_free_bid w f s of (b, s') \<Rightarrow> Inr (Waits f b, s'))"
| "free_step low (WakeAll w) s = Inr (Done, wake_all_local_free_waiters w s)"

fun free_run :: "(nat \<Rightarrow> bool) \<Rightarrow> free_op list \<Rightarrow> FreeState \<Rightarrow> (free_out list \<times> FreeState) result" where
  "free_run low [] s = Inr ([], s)"
| "free_run low (x # xs) s = rbind (free_step low x s) (\<lambda>(y, s1). rbind (free_run low xs s1) (\<lambda>(ys, s2). Inr (y # ys, s2)))"

text \<open>A call of an existing worker; frame 0 is never released.\<close>

fun op_ok :: "nat \<Rightarrow> free_op \<Rightarrow> bool" where
  "op_ok n (Acquire w) = (w < n)"
| "op_ok n (Release w bid) = (w < n \<and> bid \<noteq> 0)"
| "op_ok n (WaitFor w f) = (w < n)"
| "op_ok n (WakeAll w) = (w < n)"

text \<open>The frames given back by a call, the frames handed out and the fibers put to sleep by an answer.\<close>

fun released :: "free_op \<Rightarrow> BID multiset" where
  "released (Release w bid) = {#bid#}"
| "released _ = {#}"

fun acquired :: "free_out \<Rightarrow> BID multiset" where
  "acquired (Got bid) = (if bid = 0 then {#} else {#bid#})"
| "acquired _ = {#}"

fun parked :: "free_out \<Rightarrow> nat multiset" where
  "parked (Waits f True) = {#f#}"
| "parked _ = {#}"

definition free_ok :: "nat \<Rightarrow> FreeState \<Rightarrow> bool" where
  "free_ok n s \<longleftrightarrow> free_inv s \<and> length (local_free_list s) = n \<and> 0 \<notin># free_bids s"

lemma refill_from_pool_fibers [simp]: "fibers (refill_from_pool t w p s) = fibers s"
  by (simp add: fibers_def refill_from_pool_def Let_def)

lemma refill_loop_fibers [simp]: "fibers (refill_loop n step t w own s) = fibers s"
  by (induction n step t w own s rule: refill_loop.induct) simp_all

lemma refill_fibers [simp]: "fibers (snd (refill_local_free_list low w m s)) = fibers s"
  by (simp add: refill_local_free_list_def refill_pools_def Let_def)

lemma acquire_fibers:
  assumes "acquire_free_bid low w s = Inr (bid, s')"
  shows "fibers s' = fibers s"
proof -
  obtain ok s1 where s1: "(if local_free_list s ! w = [] then refill_local_free_list low w 1 s else (True, s)) = (ok, s1)" by fastforce
  then have "s1 = s \<or> s1 = snd (refill_local_free_list low w 1 s)" by (auto split: if_splits)
  then have f1: "fibers s1 = fibers s" by auto
  obtain s2 where s2: "s2 = (if length (local_free_list s1 ! w) = local_free_low_watermark s1
       then snd (refill_local_free_list low w (local_free_refill_target s1 1) s1) else s1)" by blast
  then have f2: "fibers s2 = fibers s1" by simp
  from assms have "s' = s1 \<or> s' = s2\<lparr>local_free_list := (local_free_list s2)[w := butlast (local_free_list s2 ! w)]\<rparr>"
    unfolding acquire_free_bid_def s1 Let_def prod.case s2 [symmetric] by (simp add: check_def rbind_simps split: if_splits)
  then show ?thesis using f1 f2 by (auto simp: fibers_def)
qed

lemma free_ok_waiters:
  assumes "free_ok n s" and "length q = length (free_frame_waiters s)"
  shows "free_ok n (s\<lparr>free_frame_waiters := q\<rparr>)" "free_ok n (s\<lparr>free_frame_waiters := q, woken := v\<rparr>)"
    "free_bids (s\<lparr>free_frame_waiters := q\<rparr>) = free_bids s" "free_bids (s\<lparr>free_frame_waiters := q, woken := v\<rparr>) = free_bids s"
proof -
  have "pool_bids (s\<lparr>free_frame_waiters := q\<rparr>) = pool_bids s" "pool_bids (s\<lparr>free_frame_waiters := q, woken := v\<rparr>) = pool_bids s"
    by (simp_all add: pool_bids_def)
  then show "free_ok n (s\<lparr>free_frame_waiters := q\<rparr>)" "free_ok n (s\<lparr>free_frame_waiters := q, woken := v\<rparr>)"
    "free_bids (s\<lparr>free_frame_waiters := q\<rparr>) = free_bids s" "free_bids (s\<lparr>free_frame_waiters := q, woken := v\<rparr>) = free_bids s"
    using assms unfolding free_ok_def free_inv_def free_bids_def by auto
qed

lemma free_step_keeps:
  assumes ok: "free_ok n s" and op: "op_ok n x"
  shows "\<exists>y s'. free_step low x s = Inr (y, s') \<and> free_ok n s' \<and>
    free_bids s + released x = acquired y + free_bids s' \<and> fibers s + parked y = fibers s'"
proof (cases x)
  case (Acquire w)
  have w: "w < length (local_free_list s)" using ok op Acquire by (simp add: free_ok_def)
  from acquire_keeps [OF _ w, of low] ok obtain bid s' where a: "acquire_free_bid low w s = Inr (bid, s')" "free_inv s'" "same_shape s s'"
    "free_bids s = (if bid = 0 then {#} else {#bid#}) + free_bids s'" unfolding free_ok_def by blast
  then have "free_ok n s'" using ok by (auto simp: free_ok_def same_shape_def split: if_splits)
  then show ?thesis using a acquire_fibers [OF a(1)] Acquire by (simp add: rbind_simps)
next
  case (Release w bid)
  have w: "w < length (local_free_list s)" and i: "free_inv s" using ok op Release by (simp_all add: free_ok_def)
  note r = release_keeps [OF i w, of low bid]
  then have "free_ok n (release_free_bid low w bid s)" using ok op Release by (simp add: free_ok_def same_shape_def)
  then show ?thesis using r Release by simp
next
  case (WaitFor w f)
  have w: "w < length (free_frame_waiters s)" using ok op WaitFor by (simp add: free_ok_def free_inv_def)
  have "mset (concat ((free_frame_waiters s)[w := free_frame_waiters s ! w @ [f]])) = mset (concat (free_frame_waiters s)) + {#f#}"
    using mset_concat_update [OF w, of "free_frame_waiters s ! w @ [f]"] by simp
  then have f: "fibers (s\<lparr>free_frame_waiters := (free_frame_waiters s)[w := free_frame_waiters s ! w @ [f]]\<rparr>) = fibers s + {#f#}"
    by (simp add: fibers_def)
  show ?thesis unfolding WaitFor free_step.simps wait_for_free_bid_def
    by (cases "shared_free_count s > 0") (use ok free_ok_waiters [OF ok] f in simp_all)
next
  case (WakeAll w)
  have w: "w < length (free_frame_waiters s)" using ok op WakeAll by (simp add: free_ok_def free_inv_def)
  have "mset (concat ((free_frame_waiters s)[w := []])) + mset (free_frame_waiters s ! w) = mset (concat (free_frame_waiters s))"
    using mset_concat_update [OF w, of "[]"] by simp
  then have f: "fibers (wake_all_local_free_waiters w s) = fibers s"
    by (simp add: fibers_def wake_all_local_free_waiters_def ac_simps)
  show ?thesis unfolding WakeAll free_step.simps using f free_ok_waiters [OF ok] by (simp add: wake_all_local_free_waiters_def)
qed

text \<open>
  C18. Free frames and waiting fibers are conserved. In any sequence of calls of the workers, starting from frames that are consistent with
  \<^verbatim>\<open>shared_free_count\<close>, no call fails: the frames that were free at the start or were released are exactly the
  frames handed out and the frames free at the end, each as often; \<^verbatim>\<open>shared_free_count\<close> stays the number of frames in
  the pools; and every fiber that was put to sleep is still in a queue or was woken exactly once.
\<close>

theorem free_frames_conserved:
  assumes "free_ok n s" and "list_all (op_ok n) ops"
  shows "\<exists>ys s'. free_run low ops s = Inr (ys, s') \<and> shared_free_count s' = size (mset (concat (free_pools s'))) \<and>
    free_bids s + sum_list (map released ops) = sum_list (map acquired ys) + free_bids s' \<and>
    fibers s + sum_list (map parked ys) = fibers s'"
  using assms
proof (induction ops arbitrary: s)
  case Nil
  then show ?case by (simp add: free_ok_def free_inv_def pool_bids_def)
next
  case (Cons x xs)
  from free_step_keeps [OF Cons.prems(1), of x low] Cons.prems(2)
  obtain y s1 where 1: "free_step low x s = Inr (y, s1)" "free_ok n s1" "free_bids s + released x = acquired y + free_bids s1"
    "fibers s + parked y = fibers s1" by auto
  from Cons.IH [OF 1(2)] Cons.prems(2)
  obtain ys s2 where 2: "free_run low xs s1 = Inr (ys, s2)" "shared_free_count s2 = size (mset (concat (free_pools s2)))"
    "free_bids s1 + sum_list (map released xs) = sum_list (map acquired ys) + free_bids s2"
    "fibers s1 + sum_list (map parked ys) = fibers s2" by auto
  have "free_bids s + (released x + sum_list (map released xs)) = acquired y + (free_bids s1 + sum_list (map released xs))"
    unfolding add.assoc [symmetric] 1(3) ..
  also have "\<dots> = acquired y + sum_list (map acquired ys) + free_bids s2" unfolding 2(3) by (simp only: add.assoc)
  finally have "free_bids s + sum_list (map released (x # xs)) = sum_list (map acquired (y # ys)) + free_bids s2" by simp
  moreover have "fibers s + sum_list (map parked (y # ys)) = fibers s2" using 1(4) 2(4) by (simp add: add.assoc [symmetric])
  ultimately show ?case using 1(1) 2(1,2) by (simp add: rbind_simps)
qed

definition fresh_frames :: FreeState where
  "fresh_frames = \<lparr>free_pools = [[2, 4], [1, 3]], free_pool_mask = 1, shared_free_count = 4, local_free_list = [[], []],
     free_frame_waiters = [[], [7]], free_bid_wake_budget = 0, woken = [], evictor_wakeups = 0, evict_batch = 2\<rparr>"

theorem free_frames_conserved_witness:
  "\<exists>ys s'. free_run (\<lambda>n. n \<le> 1) [Acquire 0, WaitFor 1 8, Release 1 9, WakeAll 1] fresh_frames = Inr (ys, s') \<and>
    shared_free_count s' = size (mset (concat (free_pools s'))) \<and>
    free_bids fresh_frames + {#9#} = sum_list (map acquired ys) + free_bids s' \<and>
    fibers fresh_frames + sum_list (map parked ys) = fibers s'"
proof -
  have "is_power_of_two (Suc (Suc 0))" by code_simp
  then have "free_ok 2 fresh_frames"
    by (simp add: free_ok_def free_inv_def fresh_frames_def pool_bids_def free_bids_def)
  from free_frames_conserved [OF this, of "[Acquire 0, WaitFor 1 8, Release 1 9, WakeAll 1]" "\<lambda>n. n \<le> 1"]
  show ?thesis by simp
qed

end
