(* ===== verification/Wake_Paths.thy ===== *)
theory Wake_Paths
  imports Ring_Buffers Free_Frames
begin

section \<open>Waking fibers across workers\<close>

text \<open>
  The two ways a fiber of the multi-threaded buffer manager (\<^verbatim>\<open>src/src/buffer_mgr/mt/bm.hpp\<close> and
  \<^verbatim>\<open>bm.cpp\<close>) is woken by another worker. The wake matrix has a ring from every worker to every worker, with a bit per source
  and a counter per destination that say where to look; here a call of \<^verbatim>\<open>wake_fiber\<close> or
  \<^verbatim>\<open>drain_inbound_wakeups\<close> is one step. The waiters of a page that is being read are a stack of nodes in the stack frames
  of their fibers, pushed by compare-and-exchange; here every atomic access is one step of its thread.
\<close>

unbundle bit_operations_syntax

subsection \<open>The lowest set bit of a word\<close>

text \<open>\<^verbatim>\<open>__builtin_ctzll\<close>, which is undefined for 0: the number of zeros below the lowest set bit.\<close>

fun ctz_from :: "nat \<Rightarrow> u64 \<Rightarrow> nat" where
  "ctz_from 0 x = 0"
| "ctz_from (Suc n) x = (if bit x 0 then 0 else 1 + ctz_from n (drop_bit 1 x))"

definition builtin_ctzll :: "u64 \<Rightarrow> nat" where
  "builtin_ctzll x = ctz_from 64 x"

lemma ctz_from_correct:
  "\<exists>i < n. bit x i \<Longrightarrow> bit x (ctz_from n x) \<and> ctz_from n x < n \<and> (\<forall>i < ctz_from n x. \<not> bit x i)"
proof (induction n arbitrary: x)
  case (Suc n)
  show ?case
  proof (cases "bit x 0")
    case False
    obtain i where i: "i < Suc n" "bit x i" using Suc.prems by blast
    then have "bit (drop_bit 1 x) (i - 1)" "i - 1 < n" using False by (cases i; simp add: bit_drop_bit_eq)+
    from Suc.IH [of "drop_bit 1 x"] this have k: "bit (drop_bit 1 x) (ctz_from n (drop_bit 1 x))" "ctz_from n (drop_bit 1 x) < n"
      "\<forall>j < ctz_from n (drop_bit 1 x). \<not> bit (drop_bit 1 x) j" by blast+
    have "\<not> bit x j" if "j < 1 + ctz_from n (drop_bit 1 x)" for j
      using that k(3) False by (cases j) (auto simp: bit_drop_bit_eq)
    then show ?thesis using k(1,2) False by (simp add: bit_drop_bit_eq)
  qed simp
qed simp

lemma ctz_correct:
  assumes "x \<noteq> 0"
  shows "bit x (builtin_ctzll x)" "builtin_ctzll x < 64" "i < builtin_ctzll x \<Longrightarrow> \<not> bit x i"
proof -
  have "\<exists>i < 64. bit x i"
  proof (rule ccontr)
    assume "\<not> (\<exists>i < 64. bit x i)"
    then have "x = 0" by (intro bit_word_eqI) auto
    then show False using assms by simp
  qed
  from ctz_from_correct [OF this] show "bit x (builtin_ctzll x)" "builtin_ctzll x < 64" "i < builtin_ctzll x \<Longrightarrow> \<not> bit x i"
    unfolding builtin_ctzll_def by blast+
qed

text \<open>\<^verbatim>\<open>x & (x - 1)\<close> clears the lowest set bit.\<close>

lemma clear_lowest_bit:
  fixes x :: u64
  assumes b: "bit x k" and low: "\<And>i. i < k \<Longrightarrow> \<not> bit x i"
  shows "bit (x AND (x - 1)) i \<longleftrightarrow> bit x i \<and> i \<noteq> k"
proof -
  have k: "k < 64" using bit_imp_le_length [OF b] by simp
  let ?y = "x AND NOT (push_bit k 1)"
  have "x = ?y OR push_bit k 1" using b by (intro bit_word_eqI) (auto simp: bit_simps)
  also have "\<dots> = ?y + push_bit k 1" by (rule disjunctive_add_eq_or [symmetric], rule bit_word_eqI) (auto simp: bit_simps)
  finally have "x - 1 = ?y + (push_bit k 1 - 1)" by (metis add_diff_eq)
  also have "push_bit k 1 - 1 = (mask k :: u64)" by (simp add: mask_eq_exp_minus_1 push_bit_eq_mult)
  also have "?y + mask k = ?y OR mask k" by (rule disjunctive_add_eq_or, rule bit_word_eqI) (use low in \<open>auto simp: bit_simps\<close>)
  finally have e: "x - 1 = ?y OR mask k" .
  show ?thesis unfolding e using k by (auto simp: bit_simps dest: low bit_imp_le_length)
qed

subsection \<open>The wake matrix\<close>

text \<open>
  \<open>wake_queues ! dst ! src\<close> is the ring from worker \<open>src\<close> to worker \<open>dst\<close>. Fibers are numbers;
  \<open>mini_woken\<close> records the calls of \<^verbatim>\<open>mini::wake\<close> in their order.
\<close>

record WakeMatrix =
  wake_queues :: "nat SpscRing list list"
  pending_by_dst :: "u64 list"
  active_sources_by_dst :: "u64 list"
  worker_count :: nat
  source_word_count :: nat
  mini_woken :: "nat list"

definition kCapacity :: nat where "kCapacity = 4096"

definition WakeMatrix_new :: "nat \<Rightarrow> WakeMatrix" where
  "WakeMatrix_new workers =
     \<lparr>wake_queues = replicate workers (replicate workers (spsc_new (replicate kCapacity 0))),
      pending_by_dst = replicate workers 0,
      active_sources_by_dst = replicate (workers * ((workers + 63) div 64)) 0,
      worker_count = workers, source_word_count = (workers + 63) div 64, mini_woken = []\<rparr>"

definition wake_channel :: "nat \<Rightarrow> nat \<Rightarrow> WakeMatrix \<Rightarrow> nat SpscRing result" where
  "wake_channel src dst m =
     (if dst < length (wake_queues m) \<and> src < length (wake_queues m ! dst) then Inr (wake_queues m ! dst ! src)
      else Inl (Throw ''out_of_range''))"

definition active_sources_word :: "nat \<Rightarrow> nat \<Rightarrow> WakeMatrix \<Rightarrow> nat" where
  "active_sources_word dst word_idx m = dst * source_word_count m + word_idx"

definition set_channel :: "nat \<Rightarrow> nat \<Rightarrow> nat SpscRing \<Rightarrow> WakeMatrix \<Rightarrow> WakeMatrix" where
  "set_channel src dst r m = m\<lparr>wake_queues := (wake_queues m)[dst := (wake_queues m ! dst)[src := r]]\<rparr>"

text \<open>
  The worker \<open>src\<close> wakes a fiber; \<open>owner\<close> is \<^verbatim>\<open>owner_worker\<close>. While the ring is full the code tries again until
  the destination has drained it: no number of tries by the caller alone succeeds, so the result is \<open>OutOfSteps\<close>.
\<close>

definition wake_fiber :: "(nat \<Rightarrow> nat) \<Rightarrow> nat \<Rightarrow> nat option \<Rightarrow> WakeMatrix \<Rightarrow> WakeMatrix result" where
  "wake_fiber owner src fiber m =
     (case fiber of None \<Rightarrow> Inr m
      | Some f \<Rightarrow>
          let dst = owner f
          in if dst = src then Inr (m\<lparr>mini_woken := mini_woken m @ [f]\<rparr>)
             else rbind (wake_channel src dst m) (\<lambda>ring.
                  case spsc_push f ring of (pushed, ring') \<Rightarrow>
                    if \<not> pushed then Inl OutOfSteps
                    else
                      let m1 = set_channel src dst ring' m;
                          word_idx = src div 64;
                          b = push_bit (src mod 64) 1;
                          i = active_sources_word dst word_idx m1
                      in Inr (m1\<lparr>active_sources_by_dst := (active_sources_by_dst m1)[i := active_sources_by_dst m1 ! i OR b],
                                 pending_by_dst := (pending_by_dst m1)[dst := pending_by_dst m1 ! dst + 1]\<rparr>)))"

text \<open>\<^verbatim>\<open>while (ring.pop(fiber)) mini::wake(fiber)\<close>: the fibers, and the ring afterwards.\<close>

fun pop_all :: "nat \<Rightarrow> nat SpscRing \<Rightarrow> (nat list \<times> nat SpscRing) result" where
  "pop_all 0 r = Inl OutOfSteps"
| "pop_all (Suc n) r =
     (case spsc_pop r of
        (None, r') \<Rightarrow> Inr ([], r')
      | (Some f, r') \<Rightarrow> rbind (pop_all n r') (\<lambda>(fs, r''). Inr (f # fs, r'')))"

definition drain_channel :: "nat \<Rightarrow> nat \<Rightarrow> WakeMatrix \<times> u64 \<Rightarrow> (WakeMatrix \<times> u64) result" where
  "drain_channel src dst = (\<lambda>(m, drained).
     rbind (wake_channel src dst m) (\<lambda>ring.
     rbind (pop_all (kCapacity + 1) ring) (\<lambda>(fs, ring').
     Inr ((set_channel src dst ring' m)\<lparr>mini_woken := mini_woken m @ fs\<rparr>, drained + of_nat (length fs)))))"

fun drain_active :: "nat \<Rightarrow> nat \<Rightarrow> nat \<Rightarrow> u64 \<Rightarrow> WakeMatrix \<times> u64 \<Rightarrow> (WakeMatrix \<times> u64) result" where
  "drain_active 0 word_idx my_worker active st = (if active = 0 then Inr st else Inl OutOfSteps)"
| "drain_active (Suc n) word_idx my_worker active st =
     (if active = 0 then Inr st
      else
        let bit_idx = builtin_ctzll active;
            src = word_idx * 64 + bit_idx;
            active' = (active AND (active - 1))
        in if src \<ge> worker_count (fst st) then drain_active n word_idx my_worker active' st
           else rbind (drain_channel src my_worker st) (drain_active n word_idx my_worker active'))"

text \<open>The first argument counts the words left.\<close>

fun drain_words :: "nat \<Rightarrow> nat \<Rightarrow> nat \<Rightarrow> WakeMatrix \<times> u64 \<Rightarrow> (WakeMatrix \<times> u64) result" where
  "drain_words 0 word_idx my_worker st = Inr st"
| "drain_words (Suc n) word_idx my_worker (m, drained) =
     (let i = active_sources_word my_worker word_idx m;
          active = active_sources_by_dst m ! i;
          m1 = m\<lparr>active_sources_by_dst := (active_sources_by_dst m)[i := 0]\<rparr>
      in rbind (drain_active 64 word_idx my_worker active (m1, drained)) (drain_words n (word_idx + 1) my_worker))"

definition drain_inbound_wakeups :: "nat \<Rightarrow> WakeMatrix \<Rightarrow> WakeMatrix result" where
  "drain_inbound_wakeups my_worker m =
     (if pending_by_dst m ! my_worker = 0 then Inr m
      else rbind (drain_words (source_word_count m) 0 my_worker (m, 0)) (\<lambda>(m1, drained).
        Inr (if drained > 0
             then m1\<lparr>pending_by_dst := (pending_by_dst m1)[my_worker := pending_by_dst m1 ! my_worker - drained]\<rparr> else m1)))"

subsection \<open>Every wake-up arrives\<close>

definition inbound :: "nat \<Rightarrow> WakeMatrix \<Rightarrow> nat list" where
  "inbound dst m = concat (map spsc_list (wake_queues m ! dst))"

text \<open>Sizes, and the rings.\<close>

definition wm_shape :: "WakeMatrix \<Rightarrow> bool" where
  "wm_shape m \<longleftrightarrow> length (wake_queues m) = worker_count m \<and> length (pending_by_dst m) = worker_count m \<and>
     source_word_count m = (worker_count m + 63) div 64 \<and> worker_count m < 2 ^ 32 \<and>
     length (active_sources_by_dst m) = worker_count m * source_word_count m \<and>
     (\<forall>dst < worker_count m. length (wake_queues m ! dst) = worker_count m) \<and>
     (\<forall>dst < worker_count m. \<forall>src < worker_count m.
        spsc_inv (wake_queues m ! dst ! src) \<and> length (spsc_buf (wake_queues m ! dst ! src)) = kCapacity)"

text \<open>A ring that is not empty has its bit set, and the counter is the number of fibers on the way.\<close>

definition wm_inv :: "WakeMatrix \<Rightarrow> bool" where
  "wm_inv m \<longleftrightarrow> wm_shape m \<and>
     (\<forall>dst < worker_count m. \<forall>src < worker_count m. spsc_list (wake_queues m ! dst ! src) \<noteq> [] \<longrightarrow>
        bit (active_sources_by_dst m ! active_sources_word dst (src div 64) m) (src mod 64)) \<and>
     (\<forall>dst < worker_count m. pending_by_dst m ! dst = of_nat (length (inbound dst m)))"

lemma spsc_pop_list:
  assumes "spsc_inv r"
  shows "case spsc_pop r of (None, r') \<Rightarrow> r' = r \<and> spsc_list r = []
    | (Some f, r') \<Rightarrow> spsc_list r = f # spsc_list r' \<and> spsc_inv r' \<and> length (spsc_buf r') = length (spsc_buf r)"
proof -
  obtain x r' where p: "spsc_pop r = (x, r')" by fastforce
  show ?thesis
  proof (cases x)
    case None
    then show ?thesis using p by (auto simp: spsc_pop_def spsc_empty_iff split: if_splits)
  next
    case (Some f)
    then have d: "spsc_deq r = Some (f, r')" using p by (simp add: spsc_deq_def)
    from spsc.deq_abs [OF assms] have "list_deq (spsc_list r) = Some (f, spsc_list r')" by (simp add: d)
    then show ?thesis using spsc.deq_inv [OF assms d] p Some by (auto simp: list_deq_def split: list.splits)
  qed
qed

lemma spsc_push_list:
  assumes "spsc_inv r"
  shows "case spsc_push f r of (b, r') \<Rightarrow> b = (length (spsc_list r) < length (spsc_buf r)) \<and>
    (b \<longrightarrow> spsc_list r' = spsc_list r @ [f] \<and> spsc_inv r' \<and> length (spsc_buf r') = length (spsc_buf r))"
proof -
  obtain b r' where p: "spsc_push f r = (b, r')" by fastforce
  then have d: "spsc_enq f r = (if b then Some r' else None)" by (simp add: spsc_enq_def)
  show ?thesis using spsc.enq_abs [OF assms, of f] spsc.enq_inv [OF assms, of f r'] p
    by (auto simp: d list_enq_def split: if_splits)
qed

lemma pop_all_pops:
  assumes "spsc_inv r" and "length (spsc_list r) < n"
  shows "\<exists>r'. pop_all n r = Inr (spsc_list r, r') \<and> spsc_inv r' \<and> spsc_list r' = [] \<and> length (spsc_buf r') = length (spsc_buf r)"
  using assms
proof (induction n arbitrary: r)
  case (Suc n)
  note p = spsc_pop_list [OF Suc.prems(1)]
  show ?case
  proof (cases "fst (spsc_pop r)")
    case None
    then show ?thesis using p Suc.prems(1) by (auto split: prod.splits)
  next
    case (Some f)
    then obtain r1 where r1: "spsc_pop r = (Some f, r1)" by (metis prod.collapse)
    then have r: "spsc_list r = f # spsc_list r1" "spsc_inv r1" "length (spsc_buf r1) = length (spsc_buf r)" using p by auto
    then show ?thesis using Suc.IH [OF r(2)] Suc.prems(2) r1 by auto
  qed
qed simp

text \<open>What draining rings of worker \<open>w\<close> does: fibers move from the rings to \<^verbatim>\<open>mini::wake\<close> and are counted.\<close>

definition drained_to :: "nat \<Rightarrow> WakeMatrix \<times> u64 \<Rightarrow> WakeMatrix \<times> u64 \<Rightarrow> bool" where
  "drained_to w = (\<lambda>(m, d) (m', d'). wm_shape m' \<and> worker_count m' = worker_count m \<and> pending_by_dst m' = pending_by_dst m \<and>
     source_word_count m' = source_word_count m \<and>
     (\<forall>dst. dst \<noteq> w \<longrightarrow> wake_queues m' ! dst = wake_queues m ! dst) \<and>
     (\<forall>dst word. dst \<noteq> w \<longrightarrow> word < source_word_count m \<longrightarrow>
        active_sources_by_dst m' ! (dst * source_word_count m + word) = active_sources_by_dst m ! (dst * source_word_count m + word)) \<and>
     mset (mini_woken m') + mset (inbound w m') = mset (mini_woken m) + mset (inbound w m) \<and>
     d' + of_nat (length (inbound w m')) = d + of_nat (length (inbound w m)) \<and>
     (\<forall>src < worker_count m. spsc_list (wake_queues m' ! w ! src) = [] \<or> spsc_list (wake_queues m' ! w ! src) = spsc_list (wake_queues m ! w ! src)))"

lemma drained_to_refl: "wm_shape m \<Longrightarrow> drained_to w (m, d) (m, d)"
  by (simp add: drained_to_def)

lemma drained_to_trans: "drained_to w a b \<Longrightarrow> drained_to w b c \<Longrightarrow> drained_to w a c"
  unfolding drained_to_def by (cases a; cases b; cases c) (auto, metis)

lemma drained_to_empty:
  assumes "drained_to w (m, d) (m', d')" and "src < worker_count m" and "spsc_list (wake_queues m ! w ! src) = []"
  shows "spsc_list (wake_queues m' ! w ! src) = []"
  using assms unfolding drained_to_def prod.case by metis

lemma inbound_set_channel:
  assumes "dst < length (wake_queues m)" and "src < length (wake_queues m ! dst)"
  shows "mset (inbound dst (set_channel src dst r m)) + mset (spsc_list (wake_queues m ! dst ! src)) = mset (inbound dst m) + mset (spsc_list r)"
  using mset_concat_update [of src "map spsc_list (wake_queues m ! dst)" "spsc_list r"] assms
  by (simp add: inbound_def set_channel_def map_update)

lemma inbound_set_other: "d \<noteq> dst \<Longrightarrow> inbound d (set_channel src dst r m) = inbound d m"
  by (simp add: inbound_def set_channel_def)

lemma wm_shape_set_channel:
  assumes "wm_shape m" and "spsc_inv r" and "length (spsc_buf r) = kCapacity" and "dst < worker_count m" and "src < worker_count m"
  shows "wm_shape (set_channel src dst r m)"
  using assms by (auto simp: wm_shape_def set_channel_def nth_list_update)

lemma drain_channel_drains:
  assumes sh: "wm_shape m" and w: "w < worker_count m" and src: "src < worker_count m"
  shows "\<exists>m' d'. drain_channel src w (m, d) = Inr (m', d') \<and> drained_to w (m, d) (m', d') \<and> spsc_list (wake_queues m' ! w ! src) = [] \<and>
    active_sources_by_dst m' = active_sources_by_dst m"
proof -
  let ?r = "wake_queues m ! w ! src"
  have len: "w < length (wake_queues m)" "src < length (wake_queues m ! w)" and inv: "spsc_inv ?r" "length (spsc_buf ?r) = kCapacity"
    using assms by (auto simp: wm_shape_def)
  have "length (spsc_list ?r) < kCapacity + 1" using inv by (simp add: spsc_inv_def ring_ok_def spsc_list_def)
  from pop_all_pops [OF inv(1) this] inv(2) obtain r' where r': "pop_all (kCapacity + 1) ?r = Inr (spsc_list ?r, r')" "spsc_inv r'"
    "spsc_list r' = []" "length (spsc_buf r') = kCapacity" by auto
  let ?m = "(set_channel src w r' m)\<lparr>mini_woken := mini_woken m @ spsc_list ?r\<rparr>"
  have e: "drain_channel src w (m, d) = Inr (?m, d + of_nat (length (spsc_list ?r)))"
    unfolding drain_channel_def prod.case wake_channel_def using len r'(1) by simp
  have in': "inbound w ?m = inbound w (set_channel src w r' m)" by (simp add: inbound_def)
  have i: "mset (inbound w ?m) + mset (spsc_list ?r) = mset (inbound w m)"
    using inbound_set_channel [OF len, of r'] r'(3) unfolding in' by simp
  then have "length (inbound w m) = length (inbound w ?m) + length (spsc_list ?r)" by (metis size_mset size_union)
  moreover have "wm_shape ?m" using wm_shape_set_channel [OF sh r'(2,4) w src] by (simp add: wm_shape_def)
  moreover have "mset (mini_woken ?m) + mset (inbound w ?m) = mset (mini_woken m) + mset (inbound w m)"
    using i by (simp add: ac_simps)
  ultimately have "drained_to w (m, d) (?m, d + of_nat (length (spsc_list ?r)))"
    using len r'(3) by (auto simp: drained_to_def set_channel_def nth_list_update)
  moreover have "spsc_list (wake_queues ?m ! w ! src) = []" "active_sources_by_dst ?m = active_sources_by_dst m"
    using len r'(3) by (simp_all add: set_channel_def)
  ultimately show ?thesis using e by blast
qed

lemma drain_active_drains:
  assumes "wm_shape m" and "w < worker_count m" and "card {i. bit active i} \<le> n"
  shows "\<exists>m' d'. drain_active n k w active (m, d) = Inr (m', d') \<and> drained_to w (m, d) (m', d') \<and>
    active_sources_by_dst m' = active_sources_by_dst m \<and>
    (\<forall>i. bit active i \<longrightarrow> k * 64 + i < worker_count m \<longrightarrow> spsc_list (wake_queues m' ! w ! (k * 64 + i)) = [])"
  using assms
proof (induction n arbitrary: active m d)
  case 0
  have "finite {i. bit active i}" by (rule finite_subset [of _ "{..<64}"]) (auto dest: bit_imp_le_length)
  with 0 have "active = 0" by (intro bit_word_eqI) auto
  then show ?case using drained_to_refl [OF 0(1)] by auto
next
  case (Suc n)
  show ?case
  proof (cases "active = 0")
    case True
    then show ?thesis using drained_to_refl [OF Suc.prems(1)] by auto
  next
    case False
    let ?b = "builtin_ctzll active" and ?a = "active AND (active - 1)"
    have bits: "bit ?a i \<longleftrightarrow> bit active i \<and> i \<noteq> ?b" for i
      by (rule clear_lowest_bit [OF ctz_correct(1) [OF False] ctz_correct(3) [OF False]])
    have "finite {i. bit active i}" by (rule finite_subset [of _ "{..<64}"]) (auto dest: bit_imp_le_length)
    moreover have "{i. bit active i} = insert ?b {i. bit ?a i}" using bits ctz_correct(1) [OF False] by auto
    moreover have "?b \<notin> {i. bit ?a i}" using bits by simp
    ultimately have card: "card {i. bit ?a i} \<le> n" using Suc.prems(3) by simp
    show ?thesis
    proof (cases "k * 64 + ?b \<ge> worker_count m")
      case True
      from Suc.IH [OF Suc.prems(1,2) card, of d] True False show ?thesis
        by (auto simp: Let_def bits)
    next
      case small: False
      then have "k * 64 + ?b < worker_count m" by simp
      from drain_channel_drains [OF Suc.prems(1,2) this, of d] obtain m1 d1 where
        1: "drain_channel (k * 64 + ?b) w (m, d) = Inr (m1, d1)" "drained_to w (m, d) (m1, d1)"
           "spsc_list (wake_queues m1 ! w ! (k * 64 + ?b)) = []" "active_sources_by_dst m1 = active_sources_by_dst m" by blast
      have sh: "wm_shape m1" "w < worker_count m1" and wc: "worker_count m1 = worker_count m"
        using 1(2) Suc.prems(2) by (auto simp: drained_to_def)
      from Suc.IH [OF sh card, of d1] obtain m2 d2 where
        2: "drain_active n k w ?a (m1, d1) = Inr (m2, d2)" "drained_to w (m1, d1) (m2, d2)"
           "active_sources_by_dst m2 = active_sources_by_dst m1"
           "\<forall>i. bit ?a i \<longrightarrow> k * 64 + i < worker_count m1 \<longrightarrow> spsc_list (wake_queues m2 ! w ! (k * 64 + i)) = []" by blast
      have "drain_active (Suc n) k w active (m, d) = Inr (m2, d2)" using False small 1(1) 2(1) by (simp add: Let_def)
      moreover have "spsc_list (wake_queues m2 ! w ! (k * 64 + ?b)) = []" using drained_to_empty [OF 2(2) _ 1(3)] small wc by simp
      then have "\<forall>i. bit active i \<longrightarrow> k * 64 + i < worker_count m \<longrightarrow> spsc_list (wake_queues m2 ! w ! (k * 64 + i)) = []"
        using 2(4) wc bits by (metis)
      ultimately show ?thesis using drained_to_trans [OF 1(2) 2(2)] 1(4) 2(3) by auto
    qed
  qed
qed

lemma row_index:
  fixes a b :: nat
  assumes "i < n" and "j < n"
  shows "a * n + i = b * n + j \<longleftrightarrow> a = b \<and> i = j"
proof
  assume e: "a * n + i = b * n + j"
  then have "(a * n + i) div n = (b * n + j) div n" "(a * n + i) mod n = (b * n + j) mod n" by simp_all
  then show "a = b \<and> i = j" using assms by simp
qed simp

text \<open>A ring of the words still to come that is not empty has its bit set.\<close>

definition bits_from :: "nat \<Rightarrow> nat \<Rightarrow> WakeMatrix \<Rightarrow> bool" where
  "bits_from k w m \<longleftrightarrow> (\<forall>src < worker_count m. spsc_list (wake_queues m ! w ! src) \<noteq> [] \<longrightarrow>
     k \<le> src div 64 \<and> bit (active_sources_by_dst m ! (w * source_word_count m + src div 64)) (src mod 64))"

lemma source_word: "wm_shape m \<Longrightarrow> src < worker_count m \<Longrightarrow> src div 64 < source_word_count m"
  unfolding wm_shape_def by linarith

lemma row_in_range:
  fixes w c k n :: nat
  assumes "w < c" and "k < n"
  shows "w * n + k < c * n"
proof -
  have "w * n + k < (w + 1) * n" using assms(2) by simp
  also have "\<dots> \<le> c * n" using assms(1) by (intro mult_right_mono) simp_all
  finally show ?thesis .
qed

lemma bits_from_step:
  assumes sh: "wm_shape m" and w: "w < worker_count m" and k: "k < source_word_count m" and b: "bits_from k w m"
    and m1: "m1 = m\<lparr>active_sources_by_dst := (active_sources_by_dst m)[w * source_word_count m + k := 0]\<rparr>"
    and d: "drained_to w (m1, d) (m2, d2)" and a: "active_sources_by_dst m2 = active_sources_by_dst m1"
    and e: "\<forall>i. bit (active_sources_by_dst m ! (w * source_word_count m + k)) i \<longrightarrow> k * 64 + i < worker_count m1 \<longrightarrow>
      spsc_list (wake_queues m2 ! w ! (k * 64 + i)) = []"
  shows "bits_from (Suc k) w m2"
  unfolding bits_from_def
proof (intro allI impI)
  fix src assume src: "src < worker_count m2" and ne: "spsc_list (wake_queues m2 ! w ! src) \<noteq> []"
  have s: "src < worker_count m" "source_word_count m2 = source_word_count m" using src d by (simp_all add: drained_to_def m1)
  then have "spsc_list (wake_queues m ! w ! src) \<noteq> []" using d ne by (auto simp: drained_to_def m1)
  with b s have b': "k \<le> src div 64" "bit (active_sources_by_dst m ! (w * source_word_count m + src div 64)) (src mod 64)"
    by (simp_all add: bits_from_def)
  have "k \<noteq> src div 64"
  proof
    assume k': "k = src div 64"
    then have "k * 64 + src mod 64 = src" by simp
    then show False using e b'(2) k' s ne by (auto simp: m1)
  qed
  then show "Suc k \<le> src div 64 \<and> bit (active_sources_by_dst m2 ! (w * source_word_count m2 + src div 64)) (src mod 64)"
    using b' by (simp add: a m1 s)
qed

lemma drain_words_drains:
  assumes "wm_shape m" and "w < worker_count m" and "k + n = source_word_count m" and "bits_from k w m"
  shows "\<exists>m' d'. drain_words n k w (m, d) = Inr (m', d') \<and> drained_to w (m, d) (m', d') \<and>
    (\<forall>src < worker_count m. spsc_list (wake_queues m' ! w ! src) = [])"
  using assms
proof (induction n arbitrary: k m d)
  case 0
  have "spsc_list (wake_queues m ! w ! src) = []" if "src < worker_count m" for src
    using source_word [OF 0(1) that] 0(3,4) that by (auto simp: bits_from_def)
  then show ?case using drained_to_refl [OF 0(1)] by simp
next
  case (Suc n)
  let ?i = "w * source_word_count m + k"
  let ?a = "active_sources_by_dst m ! ?i"
  obtain m1 where m1: "m1 = m\<lparr>active_sources_by_dst := (active_sources_by_dst m)[?i := 0]\<rparr>" by blast
  have k: "k < source_word_count m" using Suc.prems(3) by simp
  have sh1: "wm_shape m1" "w < worker_count m1" using Suc.prems(1,2) by (simp_all add: m1 wm_shape_def)
  have "{i. bit ?a i} \<subseteq> {..<64}" by (auto dest: bit_imp_le_length)
  then have "card {i. bit ?a i} \<le> 64" using card_mono [of "{..<64}" "{i. bit ?a i}"] by simp
  from drain_active_drains [OF sh1 this, of k d] obtain m2 d2 where
    2: "drain_active 64 k w ?a (m1, d) = Inr (m2, d2)" "drained_to w (m1, d) (m2, d2)" "active_sources_by_dst m2 = active_sources_by_dst m1"
       "\<forall>i. bit ?a i \<longrightarrow> k * 64 + i < worker_count m1 \<longrightarrow> spsc_list (wake_queues m2 ! w ! (k * 64 + i)) = []" by blast
  have "?i \<noteq> dst * source_word_count m + word" if "dst \<noteq> w" "word < source_word_count m" for dst word
    using row_index [OF k that(2)] that(1) by simp
  then have 1: "drained_to w (m, d) (m1, d)" using sh1(1) by (auto simp: drained_to_def m1 inbound_def)
  have sh2: "wm_shape m2" "w < worker_count m2" "Suc k + n = source_word_count m2" "worker_count m2 = worker_count m"
    using 2(2) Suc.prems by (simp_all add: drained_to_def m1)
  from Suc.IH [OF sh2(1-3) bits_from_step [OF Suc.prems(1,2) k Suc.prems(4) m1 2(2-4)], of d2] obtain m3 d3 where
    3: "drain_words n (Suc k) w (m2, d2) = Inr (m3, d3)" "drained_to w (m2, d2) (m3, d3)"
       "\<forall>src < worker_count m2. spsc_list (wake_queues m3 ! w ! src) = []" by blast
  have "drain_words (Suc n) k w (m, d) = Inr (m3, d3)"
    unfolding drain_words.simps Let_def active_sources_word_def m1 [symmetric] 2(1) using 3(1) by simp
  then show ?case using drained_to_trans [OF 1 drained_to_trans [OF 2(2) 3(2)]] 3(3) sh2(4) by auto
qed

lemma spsc_list_le: "wm_shape m \<Longrightarrow> dst < worker_count m \<Longrightarrow> src < worker_count m \<Longrightarrow> length (spsc_list (wake_queues m ! dst ! src)) \<le> kCapacity"
  unfolding wm_shape_def spsc_inv_def ring_ok_def spsc_list_def by (metis length_window)

lemma inbound_length:
  assumes sh: "wm_shape m" and w: "w < worker_count m"
  shows "length (inbound w m) < 2 ^ 64"
proof -
  have row: "length (wake_queues m ! w) = worker_count m" and wc: "worker_count m < 2 ^ 32" using assms by (auto simp: wm_shape_def)
  have "length (inbound w m) = sum_list (map (length \<circ> spsc_list) (wake_queues m ! w))" by (simp add: inbound_def length_concat)
  also have "\<dots> \<le> sum_list (map (\<lambda>_. kCapacity) (wake_queues m ! w))"
  proof (rule sum_list_mono)
    fix r assume "r \<in> set (wake_queues m ! w)"
    then show "(length \<circ> spsc_list) r \<le> kCapacity" using spsc_list_le [OF sh w] row by (auto simp: in_set_conv_nth)
  qed
  also have "\<dots> = worker_count m * kCapacity" by (simp add: sum_list_triv row)
  also have "\<dots> < 2 ^ 64" using wc by (simp add: kCapacity_def)
  finally show ?thesis .
qed

lemma inbound_empty_iff:
  assumes "wm_shape m" and "w < worker_count m"
  shows "inbound w m = [] \<longleftrightarrow> (\<forall>src < worker_count m. spsc_list (wake_queues m ! w ! src) = [])"
proof -
  have "length (wake_queues m ! w) = worker_count m" using assms by (simp add: wm_shape_def)
  then show ?thesis by (auto simp: inbound_def all_set_conv_all_nth)
qed

lemma drain_delivers:
  assumes inv: "wm_inv m" and w: "w < worker_count m"
  shows "\<exists>m'. drain_inbound_wakeups w m = Inr m' \<and> wm_inv m' \<and> worker_count m' = worker_count m \<and> inbound w m' = [] \<and>
    mset (mini_woken m') = mset (mini_woken m) + mset (inbound w m) \<and> (\<forall>d. d \<noteq> w \<longrightarrow> inbound d m' = inbound d m)"
proof (cases "pending_by_dst m ! w = 0")
  case True
  have "of_nat (length (inbound w m)) = (0 :: u64)" using inv w True by (simp add: wm_inv_def)
  moreover have "length (inbound w m) < 2 ^ 64" using inbound_length inv w by (simp add: wm_inv_def)
  ultimately have "inbound w m = []" by (simp add: word_unat_eq_iff unat_of_nat)
  then show ?thesis using True inv by (simp add: drain_inbound_wakeups_def)
next
  case False
  have sh: "wm_shape m" and p: "pending_by_dst m ! w = of_nat (length (inbound w m))" using inv w by (simp_all add: wm_inv_def)
  have "bits_from 0 w m" using inv w by (simp add: bits_from_def wm_inv_def active_sources_word_def)
  from drain_words_drains [OF sh w add_0 this, of 0] obtain m1 d where
    1: "drain_words (source_word_count m) 0 w (m, 0) = Inr (m1, d)" "drained_to w (m, 0) (m1, d)"
       "\<forall>src < worker_count m. spsc_list (wake_queues m1 ! w ! src) = []" by blast
  note d = 1(2) [unfolded drained_to_def prod.case]
  have e: "inbound w m1 = []" using inbound_empty_iff [of m1 w] d w 1(3) by simp
  then have dp: "d = pending_by_dst m ! w" using d p by simp
  obtain m2 where m2: "m2 = m1\<lparr>pending_by_dst := (pending_by_dst m1)[w := pending_by_dst m1 ! w - d]\<rparr>" by blast
  have "d > 0" using dp False by (simp add: word_gt_0)
  then have r: "drain_inbound_wakeups w m = Inr m2" using False 1(1) by (simp add: drain_inbound_wakeups_def m2)
  have q: "inbound x m2 = inbound x m1" for x by (simp add: inbound_def m2)
  have o: "inbound x m1 = inbound x m" if "x \<noteq> w" for x using d that by (simp add: inbound_def)
  have sh1: "wm_shape m1" using d by blast
  then have sh2: "wm_shape m2" by (simp add: m2 wm_shape_def)
  have "bit (active_sources_by_dst m2 ! active_sources_word dst (src div 64) m2) (src mod 64)"
    if l: "dst < worker_count m2" "src < worker_count m2" and ne: "spsc_list (wake_queues m2 ! dst ! src) \<noteq> []" for dst src
  proof -
    have l': "dst < worker_count m" "src < worker_count m" using l d by (simp_all add: m2)
    have x: "dst \<noteq> w" using ne 1(3) l' by (auto simp: m2)
    then have "spsc_list (wake_queues m ! dst ! src) \<noteq> []" using ne d by (simp add: m2)
    then have b: "bit (active_sources_by_dst m ! (dst * source_word_count m + src div 64)) (src mod 64)"
      using inv l' by (simp add: wm_inv_def active_sources_word_def)
    have "active_sources_by_dst m1 ! (dst * source_word_count m + src div 64) = active_sources_by_dst m ! (dst * source_word_count m + src div 64)"
      using d x source_word [OF sh l'(2)] by blast
    then show ?thesis using b d by (simp add: m2 active_sources_word_def)
  qed
  moreover have "pending_by_dst m2 ! dst = of_nat (length (inbound dst m2))" if "dst < worker_count m2" for dst
    using that inv d sh w dp e o [of dst] unfolding q
    by (cases "dst = w") (simp_all add: m2 wm_inv_def wm_shape_def)
  ultimately have "wm_inv m2" using sh2 by (simp add: wm_inv_def)
  moreover have "worker_count m2 = worker_count m" "mset (mini_woken m2) = mset (mini_woken m) + mset (inbound w m)"
    using d e by (simp_all add: m2)
  ultimately show ?thesis using r q e o by auto
qed

definition undelivered :: "WakeMatrix \<Rightarrow> nat multiset" where
  "undelivered m = (\<Sum>dst < worker_count m. mset (inbound dst m))"

lemma undelivered_update:
  assumes "w < worker_count m" and "worker_count m' = worker_count m" and "\<And>d. d \<noteq> w \<Longrightarrow> inbound d m' = inbound d m"
  shows "undelivered m' + mset (inbound w m) = undelivered m + mset (inbound w m')"
proof -
  have "{..<worker_count m} = insert w ({..<worker_count m} - {w})" using assms(1) by auto
  moreover have "(\<Sum>d \<in> {..<worker_count m} - {w}. mset (inbound d m')) = (\<Sum>d \<in> {..<worker_count m} - {w}. mset (inbound d m))"
    using assms(3) by (intro sum.cong) simp_all
  ultimately show ?thesis
    using assms(1,2) sum.remove [of "{..<worker_count m}" w "\<lambda>d. mset (inbound d m')"] sum.remove [of "{..<worker_count m}" w "\<lambda>d. mset (inbound d m)"]
    by (simp add: undelivered_def)
qed

lemma wake_pushes:
  assumes inv: "wm_inv m" and src: "src < worker_count m" and dst: "dst < worker_count m" and ring: "spsc_inv ring" "length (spsc_buf ring) = kCapacity"
    and l: "spsc_list ring = spsc_list (wake_queues m ! dst ! src) @ [f]"
    and m': "m' = (set_channel src dst ring m)\<lparr>active_sources_by_dst := (active_sources_by_dst m)[i := active_sources_by_dst m ! i OR push_bit (src mod 64) 1],
      pending_by_dst := (pending_by_dst m)[dst := pending_by_dst m ! dst + 1]\<rparr>"
    and i: "i = dst * source_word_count m + src div 64"
  shows "wm_inv m' \<and> worker_count m' = worker_count m \<and> mset (inbound dst m') = add_mset f (mset (inbound dst m)) \<and>
    (\<forall>d. d \<noteq> dst \<longrightarrow> inbound d m' = inbound d m)"
proof -
  have sh: "wm_shape m" using inv by (simp add: wm_inv_def)
  have len: "dst < length (wake_queues m)" "src < length (wake_queues m ! dst)" "dst < length (pending_by_dst m)"
    using sh src dst by (simp_all add: wm_shape_def)
  have il: "i < length (active_sources_by_dst m)"
    using row_in_range [OF dst source_word [OF sh src]] sh by (simp add: i wm_shape_def)
  have inb: "inbound x m' = inbound x (set_channel src dst ring m)" for x by (simp add: inbound_def m')
  have o: "inbound d m' = inbound d m" if "d \<noteq> dst" for d unfolding inb using that by (rule inbound_set_other)
  have a: "mset (inbound dst m') = add_mset f (mset (inbound dst m))"
    using inbound_set_channel [OF len(1,2), of ring] by (simp add: inb l)
  then have al: "length (inbound dst m') = Suc (length (inbound dst m))" by (metis size_mset size_add_mset)
  have sh': "wm_shape m'" using wm_shape_set_channel [OF sh ring dst src] by (simp add: m' wm_shape_def set_channel_def)
  have wc: "worker_count m' = worker_count m" "source_word_count m' = source_word_count m" by (simp_all add: m' set_channel_def)
  have "bit (active_sources_by_dst m' ! active_sources_word d (s div 64) m') (s mod 64)"
    if "d < worker_count m" "s < worker_count m" "spsc_list (wake_queues m' ! d ! s) \<noteq> []" for d s
  proof (cases "d = dst \<and> s = src")
    case True
    have "src mod 64 < 64" by simp
    then show ?thesis using True il by (simp add: m' active_sources_word_def i set_channel_def bit_simps)
  next
    case False
    then have "spsc_list (wake_queues m ! d ! s) \<noteq> []"
      using that(3) len by (cases "d = dst") (auto simp: m' set_channel_def nth_list_update)
    then have "bit (active_sources_by_dst m ! active_sources_word d (s div 64) m) (s mod 64)" using inv that by (simp add: wm_inv_def)
    then show ?thesis using il
      by (cases "active_sources_word d (s div 64) m = i") (simp_all add: m' active_sources_word_def set_channel_def bit_or_iff)
  qed
  moreover have "pending_by_dst m' ! d = of_nat (length (inbound d m'))" if "d < worker_count m" for d
    using inv that len al o [of d] by (cases "d = dst") (simp_all add: m' wm_inv_def)
  ultimately have "wm_inv m'" using sh' by (simp add: wm_inv_def wc)
  then show ?thesis using a o wc by blast
qed

lemma wake_arrives:
  assumes inv: "wm_inv m" and src: "src < worker_count m" and dst: "owner f < worker_count m"
  shows "(\<exists>m'. wake_fiber owner src (Some f) m = Inr m' \<and> wm_inv m' \<and> worker_count m' = worker_count m \<and>
      mset (mini_woken m') + undelivered m' = add_mset f (mset (mini_woken m) + undelivered m)) \<or>
    wake_fiber owner src (Some f) m = Inl OutOfSteps \<and> owner f \<noteq> src \<and> length (spsc_list (wake_queues m ! owner f ! src)) = kCapacity"
proof (cases "owner f = src")
  case True
  let ?m = "m\<lparr>mini_woken := mini_woken m @ [f]\<rparr>"
  have "wm_inv ?m = wm_inv m" by (simp add: wm_inv_def wm_shape_def inbound_def active_sources_word_def)
  then have "wm_inv ?m" using inv by simp
  moreover have "undelivered ?m = undelivered m" by (simp add: undelivered_def inbound_def)
  ultimately show ?thesis using True by (simp add: wake_fiber_def)
next
  case False
  let ?r = "wake_queues m ! owner f ! src"
  have c: "wake_channel src (owner f) m = Inr ?r" and r: "spsc_inv ?r" "length (spsc_buf ?r) = kCapacity"
    using inv src dst by (auto simp: wake_channel_def wm_inv_def wm_shape_def)
  obtain b ring where p: "spsc_push f ?r = (b, ring)" by fastforce
  note q = spsc_push_list [OF r(1), of f, unfolded p prod.case]
  show ?thesis
  proof (cases b)
    case True
    let ?i = "owner f * source_word_count m + src div 64"
    obtain m' where m': "m' = (set_channel src (owner f) ring m)\<lparr>active_sources_by_dst := (active_sources_by_dst m)[?i := active_sources_by_dst m ! ?i OR push_bit (src mod 64) 1],
      pending_by_dst := (pending_by_dst m)[owner f := pending_by_dst m ! owner f + 1]\<rparr>" by blast
    have e: "wake_fiber owner src (Some f) m = Inr m'"
      using False True c p by (simp add: wake_fiber_def Let_def m' active_sources_word_def set_channel_def)
    from wake_pushes [OF inv src dst _ _ _ m' refl] q True r(2)
    have k: "wm_inv m'" "worker_count m' = worker_count m" "mset (inbound (owner f) m') = add_mset f (mset (inbound (owner f) m))"
      "\<And>d. d \<noteq> owner f \<Longrightarrow> inbound d m' = inbound d m" by auto
    have "undelivered m' = add_mset f (undelivered m)" using undelivered_update [OF dst k(2,4)] k(3) by simp
    moreover have "mini_woken m' = mini_woken m" by (simp add: m' set_channel_def)
    ultimately show ?thesis using e k(1,2) by simp
  next
    case nb: False
    have "length (spsc_list ?r) \<le> kCapacity" using spsc_list_le inv src dst by (simp add: wm_inv_def)
    then have "length (spsc_list ?r) = kCapacity" using q nb r(2) by simp
    then show ?thesis using False nb c p by (simp add: wake_fiber_def Let_def)
  qed
qed

lemma wm_inv_new:
  assumes "workers < 2 ^ 32"
  shows "wm_inv (WakeMatrix_new workers)"
proof -
  have "is_power_of_two kCapacity" unfolding kCapacity_def by (simp add: is_power_of_two_iff) (rule exI [of _ 12], simp)
  then have "spsc_inv (spsc_new (replicate kCapacity (0 :: nat)))" by (simp add: spsc_inv_def spsc_new_def ring_ok_def kCapacity_def)
  moreover have "spsc_list (spsc_new (replicate kCapacity (0 :: nat))) = []" by (simp add: spsc_list_def spsc_new_def window_empty)
  moreover have "length (spsc_buf (spsc_new (replicate kCapacity (0 :: nat)))) = kCapacity" by (simp add: spsc_new_def)
  ultimately show ?thesis using assms by (simp add: wm_inv_def wm_shape_def WakeMatrix_new_def inbound_def)
qed

text \<open>
  The calls of the workers in the order in which they take effect. A call of \<^verbatim>\<open>wake_fiber\<close> that meets a full ring is still in
  its loop: it answers \<open>False\<close>, changes nothing, and may occur again later.
\<close>

datatype wake_op = Wake nat nat | Drain nat

fun wake_step :: "(nat \<Rightarrow> nat) \<Rightarrow> wake_op \<Rightarrow> WakeMatrix \<Rightarrow> (bool \<times> WakeMatrix) result" where
  "wake_step owner (Wake src f) m =
     (case wake_fiber owner src (Some f) m of Inl OutOfSteps \<Rightarrow> Inr (False, m) | Inl e \<Rightarrow> Inl e | Inr m' \<Rightarrow> Inr (True, m'))"
| "wake_step owner (Drain w) m = rbind (drain_inbound_wakeups w m) (\<lambda>m'. Inr (True, m'))"

fun wake_run :: "(nat \<Rightarrow> nat) \<Rightarrow> wake_op list \<Rightarrow> WakeMatrix \<Rightarrow> (bool list \<times> WakeMatrix) result" where
  "wake_run owner [] m = Inr ([], m)"
| "wake_run owner (x # xs) m = rbind (wake_step owner x m) (\<lambda>(b, m1). rbind (wake_run owner xs m1) (\<lambda>(bs, m2). Inr (b # bs, m2)))"

fun wake_op_ok :: "(nat \<Rightarrow> nat) \<Rightarrow> nat \<Rightarrow> wake_op \<Rightarrow> bool" where
  "wake_op_ok owner n (Wake src f) = (src < n \<and> owner f < n)"
| "wake_op_ok owner n (Drain w) = (w < n)"

fun handed :: "wake_op \<Rightarrow> bool \<Rightarrow> nat multiset" where
  "handed (Wake src f) True = {#f#}"
| "handed _ _ = {#}"

definition all_handed :: "wake_op list \<Rightarrow> bool list \<Rightarrow> nat multiset" where
  "all_handed ops bs = sum_list (map2 handed ops bs)"

lemma wake_step_keeps:
  assumes inv: "wm_inv m" and ok: "wake_op_ok owner (worker_count m) x"
  shows "\<exists>b m'. wake_step owner x m = Inr (b, m') \<and> wm_inv m' \<and> worker_count m' = worker_count m \<and>
    mset (mini_woken m') + undelivered m' = handed x b + (mset (mini_woken m) + undelivered m)"
proof (cases x)
  case (Wake src f)
  with wake_arrives [where m = m and src = src and f = f and owner = owner, OF inv] ok inv show ?thesis by (auto simp: ex_bool_eq)
next
  case (Drain w)
  with drain_delivers [OF inv, of w] ok obtain m' where d: "drain_inbound_wakeups w m = Inr m'" "wm_inv m'" "worker_count m' = worker_count m"
    "inbound w m' = []" "mset (mini_woken m') = mset (mini_woken m) + mset (inbound w m)" "\<And>d. d \<noteq> w \<Longrightarrow> inbound d m' = inbound d m" by auto
  have "undelivered m' + mset (inbound w m) = undelivered m" using undelivered_update [OF _ d(3,6)] d(4) ok Drain by simp
  then have "mset (mini_woken m') + undelivered m' = mset (mini_woken m) + undelivered m" unfolding d(5) by (metis add.assoc add.commute)
  then show ?thesis using d Drain by (simp add: ex_bool_eq)
qed

lemma wake_run_keeps:
  assumes "wm_inv m" and "list_all (wake_op_ok owner (worker_count m)) ops"
  shows "\<exists>bs m'. wake_run owner ops m = Inr (bs, m') \<and> wm_inv m' \<and> worker_count m' = worker_count m \<and> length bs = length ops \<and>
    mset (mini_woken m') + undelivered m' = all_handed ops bs + (mset (mini_woken m) + undelivered m)"
  using assms
proof (induction ops arbitrary: m)
  case (Cons x xs)
  from wake_step_keeps [OF Cons.prems(1), of owner x] Cons.prems(2) obtain b m1 where
    1: "wake_step owner x m = Inr (b, m1)" "wm_inv m1" "worker_count m1 = worker_count m"
       "mset (mini_woken m1) + undelivered m1 = handed x b + (mset (mini_woken m) + undelivered m)" by auto
  from Cons.IH [OF 1(2)] Cons.prems(2) 1(3) obtain bs m2 where
    2: "wake_run owner xs m1 = Inr (bs, m2)" "wm_inv m2" "worker_count m2 = worker_count m" "length bs = length xs"
       "mset (mini_woken m2) + undelivered m2 = all_handed xs bs + (mset (mini_woken m1) + undelivered m1)" by auto
  have "mset (mini_woken m2) + undelivered m2 = all_handed (x # xs) (b # bs) + (mset (mini_woken m) + undelivered m)"
    unfolding 2(5) 1(4) by (simp add: all_handed_def ac_simps)
  then show ?case using 1(1) 2(1-4) by simp
qed (simp add: all_handed_def)

text \<open>
  C19. No wake-up across workers is lost or doubled. In any sequence of \<^verbatim>\<open>wake_fiber\<close> and
  \<^verbatim>\<open>drain_inbound_wakeups\<close> calls of fewer than \<open>2 ^ 32\<close> workers on a new wake matrix, no call fails, and the
  fibers handed over are exactly the fibers woken and those still in a ring, each as often. When a worker drains, all fibers sent to it
  have been woken: the counter and the bits of the sources never hide a ring that is not empty.
\<close>

theorem wakeups_delivered:
  assumes "n < 2 ^ 32" and "list_all (wake_op_ok owner n) ops" and "w < n"
  shows "\<exists>bs m m'. wake_run owner ops (WakeMatrix_new n) = Inr (bs, m) \<and> drain_inbound_wakeups w m = Inr m' \<and>
    inbound w m' = [] \<and> mset (mini_woken m') + undelivered m' = all_handed ops bs"
proof -
  have wc: "worker_count (WakeMatrix_new n) = n" by (simp add: WakeMatrix_new_def)
  from wake_run_keeps [OF wm_inv_new [OF assms(1)], of owner ops] assms(2) obtain bs m where
    1: "wake_run owner ops (WakeMatrix_new n) = Inr (bs, m)" "wm_inv m" "worker_count m = n"
       "mset (mini_woken m) + undelivered m = all_handed ops bs + (mset (mini_woken (WakeMatrix_new n)) + undelivered (WakeMatrix_new n))"
    unfolding wc by blast
  have "inbound d (WakeMatrix_new n) = []" if "d < n" for d
    using that by (simp add: inbound_def WakeMatrix_new_def spsc_list_def spsc_new_def window_empty)
  then have z: "mset (mini_woken (WakeMatrix_new n)) + undelivered (WakeMatrix_new n) = {#}"
    unfolding undelivered_def wc by (simp add: WakeMatrix_new_def)
  have "wake_op_ok owner (worker_count m) (Drain w)" using assms(3) 1(3) by simp
  from wake_step_keeps [OF 1(2) this] obtain m' where 2: "drain_inbound_wakeups w m = Inr m'"
    "mset (mini_woken m') + undelivered m' = mset (mini_woken m) + undelivered m" by auto
  moreover have "inbound w m' = []" using drain_delivers [OF 1(2), of w] assms(3) 1(3) 2(1) by auto
  moreover have "mset (mini_woken m') + undelivered m' = all_handed ops bs" unfolding 2(2) 1(4) z by simp
  ultimately show ?thesis using 1(1) by blast
qed

theorem wakeups_delivered_witness:
  "\<exists>bs m m'. wake_run (\<lambda>f. f mod 3) [Wake 0 7, Wake 2 4, Drain 1, Wake 0 2] (WakeMatrix_new 3) = Inr (bs, m) \<and>
    drain_inbound_wakeups 2 m = Inr m' \<and> inbound 2 m' = [] \<and>
    mset (mini_woken m') + undelivered m' = all_handed [Wake 0 7, Wake 2 4, Drain 1, Wake 0 2] bs"
  by (rule wakeups_delivered) simp_all

subsection \<open>The waiters of a page that is being read\<close>

text \<open>
  The word \<^verbatim>\<open>waiting\<close> of a frame is 0 for an empty stack, 1 for a closed one and otherwise the address of the top node.
  \<open>op_next\<close> is the field \<^verbatim>\<open>next\<close> of the nodes, \<open>enq_head\<close> the local variable \<^verbatim>\<open>head\<close>
  of the thread that is publishing a node, \<open>walks\<close> the variables \<^verbatim>\<open>waiters\<close> of the threads that closed the list,
  each with its variable \<^verbatim>\<open>next\<close> from when it is read to the end of the round.
  \<open>published\<close> records the nodes for which \<^verbatim>\<open>enqueue_waiter\<close> returned true, \<open>waiter_woken\<close> the calls of
  \<^verbatim>\<open>wake_fiber\<close> for them. A node stands for its fiber.
\<close>

record FrameWaiters =
  waiting :: nat
  op_next :: "nat \<Rightarrow> nat"
  enq_head :: "nat \<Rightarrow> nat option"
  walks :: "(nat \<times> nat option) list"
  published :: "nat list"
  waiter_woken :: "nat list"

definition closed_waiters :: nat where "closed_waiters = 1"

definition BufferFrame_waiters :: FrameWaiters where
  "BufferFrame_waiters = \<lparr>waiting = closed_waiters, op_next = (\<lambda>_. 0), enq_head = (\<lambda>_. None), walks = [], published = [], waiter_woken = []\<rparr>"

definition begin_waiters :: "FrameWaiters \<Rightarrow> FrameWaiters" where
  "begin_waiters s = s\<lparr>waiting := 0\<rparr>"

definition close_waiters :: "FrameWaiters \<Rightarrow> nat \<times> FrameWaiters" where
  "close_waiters s = (let head = waiting s in (if head = closed_waiters then 0 else head, s\<lparr>waiting := closed_waiters\<rparr>))"

definition enqueue_load :: "nat \<Rightarrow> FrameWaiters \<Rightarrow> FrameWaiters" where
  "enqueue_load p s = s\<lparr>enq_head := (enq_head s)(p := Some (waiting s))\<rparr>"

text \<open>
  One round of the loop of \<^verbatim>\<open>enqueue_waiter\<close> with the local value \<open>head\<close>. \<open>spurious\<close> says that the weak
  compare-and-exchange fails though the values agree.
\<close>

definition enqueue_round :: "bool \<Rightarrow> nat \<Rightarrow> nat \<Rightarrow> FrameWaiters \<Rightarrow> FrameWaiters" where
  "enqueue_round spurious p head s =
     (if head = closed_waiters then s\<lparr>enq_head := (enq_head s)(p := None)\<rparr>
      else
        let s1 = s\<lparr>op_next := (op_next s)(p := head)\<rparr>
        in if waiting s1 = head \<and> \<not> spurious
           then s1\<lparr>waiting := p, enq_head := (enq_head s1)(p := None), published := published s1 @ [p]\<rparr>
           else s1\<lparr>enq_head := (enq_head s1)(p := Some (waiting s1))\<rparr>)"

text \<open>
  A round of the loop that wakes a detached stack, in two steps, between which other threads run: the next node is read,
  then the fiber is woken, which may publish its node again at once, and the loop goes on with the node that was read.
\<close>

definition wake_next :: "nat \<Rightarrow> FrameWaiters \<Rightarrow> FrameWaiters" where
  "wake_next i s =
     (case walks s ! i of
        (waiters, None) \<Rightarrow> if waiters = 0 then s else s\<lparr>walks := (walks s)[i := (waiters, Some (op_next s waiters))]\<rparr>
      | (waiters, Some next) \<Rightarrow> s)"

definition wake_waiter :: "nat \<Rightarrow> FrameWaiters \<Rightarrow> FrameWaiters" where
  "wake_waiter i s =
     (case walks s ! i of
        (waiters, None) \<Rightarrow> s
      | (waiters, Some next) \<Rightarrow> s\<lparr>waiter_woken := waiter_woken s @ [waiters], walks := (walks s)[i := (next, None)]\<rparr>)"

text \<open>
  The steps of the threads. A read starts on a closed list. A fiber publishes its node (an address other than 0 and 1) when it runs:
  not while a call of its own is in progress, and not while it sleeps, published and not yet woken.
\<close>

inductive waiter_step :: "FrameWaiters \<Rightarrow> FrameWaiters \<Rightarrow> bool" where
  begin_step: "waiting s = closed_waiters \<Longrightarrow> waiter_step s (begin_waiters s)"
| close_step: "close_waiters s = (p, s1) \<Longrightarrow> waiter_step s (s1\<lparr>walks := walks s1 @ [(p, None)]\<rparr>)"
| load_step: "1 < p \<Longrightarrow> enq_head s p = None \<Longrightarrow> count_list (published s) p = count_list (waiter_woken s) p \<Longrightarrow> waiter_step s (enqueue_load p s)"
| round_step: "enq_head s p = Some head \<Longrightarrow> waiter_step s (enqueue_round spurious p head s)"
| next_step: "i < length (walks s) \<Longrightarrow> waiter_step s (wake_next i s)"
| resume_step: "i < length (walks s) \<Longrightarrow> waiter_step s (wake_waiter i s)"

fun chain :: "(nat \<Rightarrow> nat) \<Rightarrow> nat \<Rightarrow> nat list \<Rightarrow> bool" where
  "chain nx p [] = (p = 0)"
| "chain nx p (x # xs) = (p = x \<and> 1 < x \<and> chain nx (nx x) xs)"

lemma chain_upd [simp]: "x \<notin> set xs \<Longrightarrow> chain (nx(x := v)) p xs = chain nx p xs"
  by (induction nx p xs rule: chain.induct) auto

lemma chain_zero: "chain nx 0 xs \<Longrightarrow> xs = []"
  by (cases xs) auto

text \<open>The published nodes \<open>S\<close>, the detached ones \<open>Ds\<close>: they are apart from each other and from the nodes being published.\<close>

definition walk_ok :: "(nat \<Rightarrow> nat) \<Rightarrow> nat \<times> nat option \<Rightarrow> nat list \<Rightarrow> bool" where
  "walk_ok nx w D \<longleftrightarrow> chain nx (fst w) D \<and> (\<forall>n. snd w = Some n \<longrightarrow> D \<noteq> [] \<and> n = nx (hd D))"

lemma walk_ok_upd [simp]: "x \<notin> set D \<Longrightarrow> walk_ok (nx(x := v)) w D = walk_ok nx w D"
  by (cases D) (auto simp: walk_ok_def)

definition waiters_inv :: "nat list \<Rightarrow> nat list list \<Rightarrow> FrameWaiters \<Rightarrow> bool" where
  "waiters_inv S Ds s \<longleftrightarrow> (if waiting s = closed_waiters then S = [] else chain (op_next s) (waiting s) S) \<and>
     list_all2 (walk_ok (op_next s)) (walks s) Ds \<and> distinct (S @ concat Ds) \<and>
     (\<forall>p. enq_head s p \<noteq> None \<longrightarrow> 1 < p \<and> p \<notin> set (S @ concat Ds)) \<and>
     mset (published s) = mset (waiter_woken s) + mset (S @ concat Ds)"

lemma chains_upd:
  assumes "x \<notin> set (concat Ds)"
  shows "list_all2 (walk_ok (nx(x := v))) ws Ds = list_all2 (walk_ok nx) ws Ds"
  using assms by (auto simp: list_all2_conv_all_nth)

lemma enqueue_round_inv:
  assumes inv: "waiters_inv S Ds s" and h: "enq_head s p = Some head"
  shows "\<exists>S'. waiters_inv S' Ds (enqueue_round b p head s)"
proof -
  have p: "1 < p" "p \<notin> set S" "p \<notin> set (concat Ds)" using inv h by (auto simp: waiters_inv_def)
  show ?thesis
  proof (cases "head \<noteq> closed_waiters \<and> waiting s = head \<and> \<not> b")
    case True
    then have "waiters_inv (p # S) Ds (enqueue_round b p head s)"
      using inv p chains_upd [OF p(3)] by (auto simp: waiters_inv_def enqueue_round_def closed_waiters_def)
    then show ?thesis ..
  next
    case False
    then have "waiters_inv S Ds (enqueue_round b p head s)"
      using inv p chains_upd [OF p(3)] by (auto simp: waiters_inv_def enqueue_round_def Let_def)
    then show ?thesis ..
  qed
qed

lemma wake_next_inv:
  assumes inv: "waiters_inv S Ds s" and i: "i < length (walks s)"
  shows "waiters_inv S Ds (wake_next i s)"
proof -
  obtain waiters r where w: "walks s ! i = (waiters, r)" by fastforce
  have c: "list_all2 (walk_ok (op_next s)) (walks s) Ds" and i': "i < length Ds"
    using inv i by (auto simp: waiters_inv_def dest: list_all2_lengthD)
  then have wi: "walk_ok (op_next s) (waiters, r) (Ds ! i)" using i w by (metis list_all2_nthD)
  have "list_all2 (walk_ok (op_next s)) ((walks s)[i := (waiters, Some (op_next s waiters))]) Ds" if "waiters \<noteq> 0"
  proof -
    have "walk_ok (op_next s) (waiters, Some (op_next s waiters)) (Ds ! i)" using wi that by (cases "Ds ! i") (auto simp: walk_ok_def)
    from list_all2_update_cong [OF c this, of i] show ?thesis by simp
  qed
  then show ?thesis using inv w by (auto simp: waiters_inv_def wake_next_def split: option.split)
qed

lemma wake_waiter_inv:
  assumes inv: "waiters_inv S Ds s" and i: "i < length (walks s)"
  shows "\<exists>Ds'. waiters_inv S Ds' (wake_waiter i s)"
proof (cases "snd (walks s ! i)")
  case None
  then show ?thesis using inv by (auto simp: wake_waiter_def split: prod.split)
next
  case (Some n)
  then obtain x where w: "walks s ! i = (x, Some n)" by (cases "walks s ! i") simp
  have c: "list_all2 (walk_ok (op_next s)) (walks s) Ds" and i': "i < length Ds"
    using inv i by (auto simp: waiters_inv_def dest: list_all2_lengthD)
  then have "walk_ok (op_next s) (x, Some n) (Ds ! i)" using i w by (metis list_all2_nthD)
  then obtain xs where xs: "Ds ! i = x # xs" "walk_ok (op_next s) (n, None) xs"
    by (cases "Ds ! i") (auto simp: walk_ok_def)
  have m: "mset (concat Ds) = add_mset x (mset (concat (Ds[i := xs])))"
    using mset_concat_update [OF i', of xs] by (simp add: xs(1))
  have "distinct (S @ concat Ds)" using inv by (simp add: waiters_inv_def)
  moreover have e: "mset (S @ concat Ds) = add_mset x (mset (S @ concat (Ds[i := xs])))" using m by simp
  then have "distinct (S @ concat Ds) = distinct (x # S @ concat (Ds[i := xs]))" by (intro mset_eq_imp_distinct_iff) simp
  ultimately have "distinct (S @ concat (Ds[i := xs]))" by simp
  moreover have "list_all2 (walk_ok (op_next s)) ((walks s)[i := (n, None)]) (Ds[i := xs])"
    using c xs(2) by (rule list_all2_update_cong)
  moreover have "set (S @ concat (Ds[i := xs])) \<subseteq> set (S @ concat Ds)"
    using arg_cong [OF e, of set_mset] by (simp only: set_mset_mset set_mset_add_mset_insert) blast
  ultimately have "waiters_inv S (Ds[i := xs]) (wake_waiter i s)"
    using inv w e by (auto simp: waiters_inv_def wake_waiter_def Let_def)
  then show ?thesis ..
qed

lemma waiter_step_inv:
  assumes "waiter_step s s'" and "waiters_inv S Ds s"
  shows "\<exists>S' Ds'. waiters_inv S' Ds' s'"
  using assms
proof (cases rule: waiter_step.cases)
  case begin_step
  then have "waiters_inv [] Ds s'" using assms(2) by (auto simp: waiters_inv_def begin_waiters_def closed_waiters_def)
  then show ?thesis by blast
next
  case (close_step p s1)
  then have "waiters_inv [] (Ds @ [S]) s'" using assms(2)
    by (auto simp: waiters_inv_def walk_ok_def close_waiters_def Let_def list_all2_appendI split: if_splits)
  then show ?thesis by blast
next
  case (load_step p)
  have "p \<notin> set (S @ concat Ds)"
  proof
    assume "p \<in> set (S @ concat Ds)"
    then have "count (mset (published s)) p > count (mset (waiter_woken s)) p" using assms(2) by (simp add: waiters_inv_def)
    then show False using load_step(4) by (simp add: count_mset count_list_eq_length_filter)
  qed
  then have "waiters_inv S Ds s'" using load_step assms(2) by (auto simp: waiters_inv_def enqueue_load_def)
  then show ?thesis by blast
next
  case (round_step p head b)
  then show ?thesis using enqueue_round_inv [OF assms(2) round_step(2)] by blast
next
  case (next_step i)
  then show ?thesis using wake_next_inv [OF assms(2) next_step(2)] by blast
next
  case (resume_step i)
  then show ?thesis using wake_waiter_inv [OF assms(2) resume_step(2)] by blast
qed

text \<open>
  C20. No waiter of a page read is lost. In every interleaving of threads that publish their nodes, start and finish reads and wake the
  detached stacks, where a fiber that is woken may publish its node again before the walk goes on, a fiber for which \<^verbatim>\<open>enqueue_waiter\<close> returned true has been woken exactly once, for each time it was
  published, as soon as the list is empty or closed and every detached stack has been walked.
\<close>

theorem no_waiter_lost:
  assumes "waiter_step\<^sup>*\<^sup>* BufferFrame_waiters s" and "waiting s \<le> 1" and "\<forall>w \<in> set (walks s). fst w = 0"
  shows "mset (waiter_woken s) = mset (published s)"
proof -
  have "\<exists>S Ds. waiters_inv S Ds s" using assms(1)
  proof (induction rule: rtranclp_induct)
    case base
    have "waiters_inv [] [] BufferFrame_waiters" by (simp add: waiters_inv_def BufferFrame_waiters_def)
    then show ?case by blast
  next
    case (step y z)
    then show ?case using waiter_step_inv by blast
  qed
  then obtain S Ds where inv: "waiters_inv S Ds s" by blast
  have "S = []" using inv assms(2) chain_zero by (cases "waiting s = 0") (auto simp: waiters_inv_def closed_waiters_def)
  moreover have "list_all2 (walk_ok (op_next s)) (walks s) Ds" using inv by (simp add: waiters_inv_def)
  then have "Ds ! i = []" if "i < length Ds" for i
    using assms(3) that chain_zero by (metis list_all2_conv_all_nth nth_mem walk_ok_def)
  then have "concat Ds = []" by (auto simp: in_set_conv_nth)
  ultimately show ?thesis using inv by (simp add: waiters_inv_def)
qed

definition one_waiter :: FrameWaiters where
  "one_waiter = wake_waiter 0 (wake_next 0
     (let (p, s) = close_waiters (enqueue_round False 5 0 (enqueue_load 5 (begin_waiters BufferFrame_waiters)))
      in s\<lparr>walks := walks s @ [(p, None)]\<rparr>))"

lemmas waiter_defs = BufferFrame_waiters_def begin_waiters_def enqueue_load_def enqueue_round_def close_waiters_def wake_next_def wake_waiter_def closed_waiters_def

lemma one_waiter_reached: "waiter_step\<^sup>*\<^sup>* BufferFrame_waiters one_waiter"
proof -
  let ?s1 = "begin_waiters BufferFrame_waiters"
  let ?s2 = "enqueue_load 5 ?s1"
  let ?s3 = "enqueue_round False 5 0 ?s2"
  obtain p s where c: "close_waiters ?s3 = (p, s)" by fastforce
  let ?s4 = "s\<lparr>walks := walks s @ [(p, None)]\<rparr>"
  have "waiter_step BufferFrame_waiters ?s1" by (rule begin_step) (simp add: waiter_defs)
  moreover have "waiter_step ?s1 ?s2" by (rule load_step) (simp_all add: waiter_defs)
  moreover have "waiter_step ?s2 ?s3" by (rule round_step) (simp add: waiter_defs)
  moreover have "waiter_step ?s3 ?s4" using c by (rule close_step)
  moreover have "waiter_step ?s4 (wake_next 0 ?s4)" by (rule next_step) simp
  moreover have "waiter_step (wake_next 0 ?s4) one_waiter"
    unfolding one_waiter_def c Let_def prod.case by (rule resume_step) (simp add: wake_next_def split: prod.split option.split)
  ultimately show ?thesis by (meson converse_rtranclp_into_rtranclp rtranclp.rtrancl_refl)
qed

theorem no_waiter_lost_witness:
  "waiter_step\<^sup>*\<^sup>* BufferFrame_waiters one_waiter \<and> published one_waiter = [5] \<and> mset (waiter_woken one_waiter) = mset (published one_waiter)"
proof -
  have e: "waiting one_waiter \<le> 1" "\<forall>w \<in> set (walks one_waiter). fst w = 0" "published one_waiter = [5]"
    by (simp_all add: one_waiter_def waiter_defs)
  from no_waiter_lost [OF one_waiter_reached e(1,2)] show ?thesis using one_waiter_reached e(3) by simp
qed

end
