(* ===== verification/Atomic_Page_Table.thy ===== *)
theory Atomic_Page_Table
  imports Rh_Map "HOL-Library.Code_Target_Nat"
begin

section \<open>The shared page table\<close>

text \<open>
  \<^verbatim>\<open>AtomicPageTable\<close> of \<^verbatim>\<open>src/src/buffer_mgr/mt/bm.hpp\<close>: open addressing with linear probing and tombstones,
  one 64-bit word per slot. A search for a slot reads and an insertion, an erasure or the collapse of tombstones
  ends in compare-and-exchange operations. The operations are written as the loops of the code; an
  insertion is split into the search of a round (\<open>insert_probe\<close>) and the exchanges that follow
  it (\<open>insert_commit\<close>), since other threads may change the table in between. The composed operations run
  without interference. \<^verbatim>\<open>std::hash\<close> is an argument.
\<close>

unbundle bit_operations_syntax

subsection \<open>Slots\<close>

definition BID_BITS :: nat where "BID_BITS = 24"
definition BID_MASK :: u64 where "BID_MASK = push_bit BID_BITS 1 - 1"
definition PID_LIMIT :: u64 where "PID_LIMIT = push_bit (64 - BID_BITS) 1 - 1"
definition EMPTY_SLOT :: u64 where "EMPTY_SLOT = 0"
definition TOMBSTONE_SLOT :: u64 where "TOMBSTONE_SLOT = 1"

definition slot_is_empty :: "u64 \<Rightarrow> bool" where "slot_is_empty raw \<longleftrightarrow> raw = EMPTY_SLOT"
definition slot_is_tombstone :: "u64 \<Rightarrow> bool" where "slot_is_tombstone raw \<longleftrightarrow> raw = TOMBSTONE_SLOT"
definition slot_pid :: "u64 \<Rightarrow> PID" where "slot_pid raw = drop_bit BID_BITS raw - 1"
definition slot_bid :: "u64 \<Rightarrow> BID" where "slot_bid raw = (raw AND BID_MASK)"

definition slot_pack :: "PID \<Rightarrow> BID \<Rightarrow> u64 result" where
  "slot_pack pid bid =
     rbind (check (pid < PID_LIMIT) (Ensure ''pid < PID_LIMIT'')) (\<lambda>_.
     rbind (check (bid \<le> BID_MASK) (Ensure ''bid <= BID_MASK'')) (\<lambda>_.
     Inr (push_bit BID_BITS (pid + 1) OR bid)))"

subsection \<open>The table\<close>

record AtomicPageTable =
  apt_slots :: "u64 list"
  slot_count :: nat
  slot_mask :: nat
  owner_partition_mask :: nat
  sweep_slot :: nat
  owner_sweep :: "nat list"
  owner_sweep_count :: nat

definition apt_new :: "nat \<Rightarrow> nat \<Rightarrow> AtomicPageTable result" where
  "apt_new total_capacity_pow2 owner_partition_count_pow2 =
     rbind (check (0 < total_capacity_pow2 \<and> (total_capacity_pow2 AND (total_capacity_pow2 - 1)) = 0)
       (Ensure ''total_capacity_pow2'')) (\<lambda>_.
     rbind (check (0 < owner_partition_count_pow2 \<and> (owner_partition_count_pow2 AND (owner_partition_count_pow2 - 1)) = 0)
       (Ensure ''owner_partition_count_pow2'')) (\<lambda>_.
     Inr \<lparr>apt_slots = replicate total_capacity_pow2 EMPTY_SLOT, slot_count = total_capacity_pow2, slot_mask = total_capacity_pow2 - 1,
       owner_partition_mask = owner_partition_count_pow2 - 1, sweep_slot = 0, owner_sweep = replicate owner_partition_count_pow2 0,
       owner_sweep_count = owner_partition_count_pow2\<rparr>))"

definition owner_partition :: "(u64 \<Rightarrow> u64) \<Rightarrow> AtomicPageTable \<Rightarrow> PID \<Rightarrow> nat" where
  "owner_partition std_hash t pid = (unat (std_hash pid) AND owner_partition_mask t)"

definition slot_idx :: "AtomicPageTable \<Rightarrow> PID \<Rightarrow> nat" where
  "slot_idx t pid = (unat (splitmix_hash pid) AND slot_mask t)"

definition slot_cas :: "nat \<Rightarrow> u64 \<Rightarrow> u64 \<Rightarrow> AtomicPageTable \<Rightarrow> bool \<times> AtomicPageTable" where
  "slot_cas i expected desired t =
     (if apt_slots t ! i = expected then (True, t\<lparr>apt_slots := (apt_slots t)[i := desired]\<rparr>) else (False, t))"

text \<open>The first argument of a loop counts the iterations left: \<^verbatim>\<open>slot_count - probed\<close>.\<close>

fun find_loop :: "nat \<Rightarrow> nat \<Rightarrow> PID \<Rightarrow> AtomicPageTable \<Rightarrow> BID option" where
  "find_loop 0 probed pid t = None"
| "find_loop (Suc n) probed pid t =
     (let raw = apt_slots t ! ((slot_idx t pid + probed) AND slot_mask t)
      in if slot_is_empty raw then None
         else if slot_is_tombstone raw then find_loop n (probed + 1) pid t
         else if slot_pid raw = pid then Some (slot_bid raw)
         else find_loop n (probed + 1) pid t)"

definition find_copy :: "PID \<Rightarrow> AtomicPageTable \<Rightarrow> BID option" where
  "find_copy pid t = find_loop (slot_count t) 0 pid t"

definition with_entry :: "PID \<Rightarrow> (BID option \<Rightarrow> 'r) \<Rightarrow> AtomicPageTable \<Rightarrow> 'r" where
  "with_entry pid fn t = (case find_copy pid t of Some bid \<Rightarrow> fn (Some bid) | None \<Rightarrow> fn None)"

text \<open>A round of \<^verbatim>\<open>insert\<close>: the page is there, a slot to exchange and what it is expected to hold, or no empty slot was seen.\<close>

datatype probe = Present | Attempt nat u64 "nat option" | Exhausted "nat option"

fun insert_loop :: "nat \<Rightarrow> nat \<Rightarrow> nat option \<Rightarrow> PID \<Rightarrow> AtomicPageTable \<Rightarrow> probe" where
  "insert_loop 0 probed first_tombstone pid t = Exhausted first_tombstone"
| "insert_loop (Suc n) probed first_tombstone pid t =
     (let idx = (slot_idx t pid + probed) AND slot_mask t;
          raw = apt_slots t ! idx
      in if slot_is_tombstone raw
         then insert_loop n (probed + 1) (if first_tombstone = None then Some idx else first_tombstone) pid t
         else if slot_is_empty raw
         then Attempt (case first_tombstone of Some i \<Rightarrow> i | None \<Rightarrow> idx)
                (if first_tombstone \<noteq> None then TOMBSTONE_SLOT else EMPTY_SLOT) first_tombstone
         else if slot_pid raw = pid then Present
         else insert_loop n (probed + 1) first_tombstone pid t)"

definition insert_probe :: "PID \<Rightarrow> AtomicPageTable \<Rightarrow> probe" where
  "insert_probe pid t = insert_loop (slot_count t) 0 None pid t"

text \<open>\<open>Some b\<close> is the result of \<^verbatim>\<open>insert\<close>, \<open>None\<close> another round.\<close>

definition insert_tombstone :: "nat option \<Rightarrow> u64 \<Rightarrow> AtomicPageTable \<Rightarrow> bool option \<times> AtomicPageTable" where
  "insert_tombstone first_tombstone packed t =
     (case first_tombstone of
        None \<Rightarrow> (None, t)
      | Some target \<Rightarrow>
          (let (ok, t1) = slot_cas target TOMBSTONE_SLOT packed t
           in if ok then (Some True, t1) else (None, t1)))"

fun insert_commit :: "probe \<Rightarrow> u64 \<Rightarrow> AtomicPageTable \<Rightarrow> bool option \<times> AtomicPageTable" where
  "insert_commit Present packed t = (Some False, t)"
| "insert_commit (Attempt target expected first_tombstone) packed t =
     (let (ok, t1) = slot_cas target expected packed t
      in if ok then (Some True, t1) else insert_tombstone first_tombstone packed t1)"
| "insert_commit (Exhausted first_tombstone) packed t = insert_tombstone first_tombstone packed t"

fun insert_rounds :: "nat \<Rightarrow> PID \<Rightarrow> u64 \<Rightarrow> AtomicPageTable \<Rightarrow> (bool \<times> AtomicPageTable) result" where
  "insert_rounds 0 pid packed t = Inl OutOfSteps"
| "insert_rounds (Suc n) pid packed t =
     (case insert_commit (insert_probe pid t) packed t of
        (Some b, t1) \<Rightarrow> Inr (b, t1)
      | (None, t1) \<Rightarrow> insert_rounds n pid packed t1)"

definition apt_insert :: "nat \<Rightarrow> PID \<Rightarrow> BID \<Rightarrow> AtomicPageTable \<Rightarrow> (bool \<times> AtomicPageTable) result" where
  "apt_insert rounds pid bid t = rbind (slot_pack pid bid) (\<lambda>packed. insert_rounds rounds pid packed t)"

text \<open>The tombstones from \<open>start_idx\<close> on, if an empty slot follows them: their number and the last of them.\<close>

fun collapse_scan :: "nat \<Rightarrow> nat \<Rightarrow> nat \<Rightarrow> AtomicPageTable \<Rightarrow> (nat \<times> nat) option" where
  "collapse_scan 0 run_len idx t = Some (run_len, idx)"
| "collapse_scan (Suc n) run_len idx t =
     (let nxt = (idx + 1) AND slot_mask t;
          next_raw = apt_slots t ! nxt
      in if slot_is_tombstone next_raw then collapse_scan n (run_len + 1) nxt t
         else if \<not> slot_is_empty next_raw then None
         else Some (run_len, idx))"

fun collapse_clear :: "nat \<Rightarrow> nat \<Rightarrow> AtomicPageTable \<Rightarrow> AtomicPageTable" where
  "collapse_clear 0 clear_idx t = t"
| "collapse_clear (Suc n) clear_idx t =
     (let (ok, t1) = slot_cas clear_idx TOMBSTONE_SLOT EMPTY_SLOT t
      in if \<not> ok then t1 else collapse_clear n (if clear_idx = 0 then slot_mask t else clear_idx - 1) t1)"

definition collapse_tombstone_run :: "nat \<Rightarrow> AtomicPageTable \<Rightarrow> AtomicPageTable" where
  "collapse_tombstone_run start_idx t =
     (case collapse_scan (slot_count t - 1) 1 start_idx t of
        None \<Rightarrow> t
      | Some (run_len, idx) \<Rightarrow> collapse_clear run_len idx t)"

text \<open>The search of \<^verbatim>\<open>erase\<close> and \<^verbatim>\<open>erase_if\<close>: \<open>Some None\<close> when an empty slot shows that the page is not there, the slot and its word when it is found, \<open>None\<close> at the end of the loop.\<close>

fun erase_loop :: "nat \<Rightarrow> nat \<Rightarrow> PID \<Rightarrow> AtomicPageTable \<Rightarrow> (nat \<times> u64) option option" where
  "erase_loop 0 probed pid t = None"
| "erase_loop (Suc n) probed pid t =
     (let idx = (slot_idx t pid + probed) AND slot_mask t;
          raw = apt_slots t ! idx
      in if slot_is_empty raw then Some None
         else if slot_is_tombstone raw \<or> slot_pid raw \<noteq> pid then erase_loop n (probed + 1) pid t
         else Some (Some (idx, raw)))"

fun apt_erase :: "nat \<Rightarrow> PID \<Rightarrow> AtomicPageTable \<Rightarrow> (bool \<times> AtomicPageTable) result" where
  "apt_erase 0 pid t = Inl OutOfSteps"
| "apt_erase (Suc rounds) pid t =
     (case erase_loop (slot_count t) 0 pid t of
        Some None \<Rightarrow> Inr (False, t)
      | Some (Some (idx, raw)) \<Rightarrow>
          (let (ok, t1) = slot_cas idx raw TOMBSTONE_SLOT t
           in if ok then Inr (True, collapse_tombstone_run idx t1) else apt_erase rounds pid t1)
      | None \<Rightarrow> apt_erase rounds pid t)"

text \<open>The result of \<^verbatim>\<open>erase_if\<close> is the frame for which \<^verbatim>\<open>postcommit\<close> is called, if it is.\<close>

definition erase_if :: "PID \<Rightarrow> (BID \<Rightarrow> bool) \<Rightarrow> AtomicPageTable \<Rightarrow> BID option \<times> AtomicPageTable" where
  "erase_if pid precheck t =
     (case erase_loop (slot_count t) 0 pid t of
        Some (Some (idx, raw)) \<Rightarrow>
          (let bid = slot_bid raw
           in if \<not> precheck bid then (None, t)
              else
                let (ok, t1) = slot_cas idx raw TOMBSTONE_SLOT t
                in if ok then (Some bid, collapse_tombstone_run idx t1) else (None, t1))
      | _ \<Rightarrow> (None, t))"

subsection \<open>Sweeps\<close>

text \<open>The callback has a state of its own and answers whether to stop.\<close>

fun apt_sweep_loop :: "nat \<Rightarrow> nat \<Rightarrow> (PID \<Rightarrow> BID \<Rightarrow> 's \<Rightarrow> bool \<times> 's) \<Rightarrow> AtomicPageTable \<Rightarrow> 's \<Rightarrow> bool \<times> AtomicPageTable \<times> 's" where
  "apt_sweep_loop 0 scanned cb t s = (False, t, s)"
| "apt_sweep_loop (Suc n) scanned cb t s =
     (let idx = (sweep_slot t + scanned) AND slot_mask t;
          raw = apt_slots t ! idx
      in if slot_is_empty raw \<or> slot_is_tombstone raw then apt_sweep_loop n (scanned + 1) cb t s
         else
           let (stop, s1) = cb (slot_pid raw) (slot_bid raw) s
           in if stop then (True, t\<lparr>sweep_slot := (idx + 1) AND slot_mask t\<rparr>, s1)
              else apt_sweep_loop n (scanned + 1) cb t s1)"

definition apt_clock_sweep_next :: "(PID \<Rightarrow> BID \<Rightarrow> 's \<Rightarrow> bool \<times> 's) \<Rightarrow> AtomicPageTable \<Rightarrow> 's \<Rightarrow> bool \<times> AtomicPageTable \<times> 's" where
  "apt_clock_sweep_next cb t s = (if slot_count t = 0 then (False, t, s) else apt_sweep_loop (slot_count t) 0 cb t s)"

fun owned_loop :: "(u64 \<Rightarrow> u64) \<Rightarrow> nat \<Rightarrow> nat \<Rightarrow> nat \<Rightarrow> nat \<Rightarrow> nat \<Rightarrow> (PID \<Rightarrow> BID \<Rightarrow> 's \<Rightarrow> bool \<times> 's) \<Rightarrow> AtomicPageTable \<Rightarrow> 's \<Rightarrow>
    nat option \<times> 's" where
  "owned_loop std_hash 0 scanned start owner_idx owner_count cb t s = (None, s)"
| "owned_loop std_hash (Suc n) scanned start owner_idx owner_count cb t s =
     (let idx = (start + scanned) AND slot_mask t;
          raw = apt_slots t ! idx
      in if slot_is_empty raw \<or> slot_is_tombstone raw then owned_loop std_hash n (scanned + 1) start owner_idx owner_count cb t s
         else if owner_partition std_hash t (slot_pid raw) mod owner_count \<noteq> owner_idx
         then owned_loop std_hash n (scanned + 1) start owner_idx owner_count cb t s
         else
           let (stop, s1) = cb (slot_pid raw) (slot_bid raw) s
           in if stop then (Some idx, s1) else owned_loop std_hash n (scanned + 1) start owner_idx owner_count cb t s1)"

definition sweep_window :: "nat \<Rightarrow> nat \<Rightarrow> nat \<Rightarrow> nat \<Rightarrow> nat" where
  "sweep_window slots owner_count batch_hint filled =
     (let slots_per_owned = (if filled > 0 then slots * owner_count mod 2 ^ 64 div filled else slots)
      in min slots (max (batch_hint * slots_per_owned * 8 mod 2 ^ 64) 1024))"

definition clock_sweep_next_owned :: "(u64 \<Rightarrow> u64) \<Rightarrow> nat \<Rightarrow> nat \<Rightarrow> nat \<Rightarrow> nat \<Rightarrow> (PID \<Rightarrow> BID \<Rightarrow> 's \<Rightarrow> bool \<times> 's) \<Rightarrow>
    AtomicPageTable \<Rightarrow> 's \<Rightarrow> (bool \<times> AtomicPageTable \<times> 's) result" where
  "clock_sweep_next_owned std_hash owner_idx0 owner_count batch_hint size_hint cb t s =
     (if slot_count t = 0 then Inr (False, t, s)
      else
        rbind (check (owner_count > 0) (Ensure ''owner_count > 0'')) (\<lambda>_.
        rbind (check (size_hint > 0) (Ensure ''size_hint > 0'')) (\<lambda>_.
        let owner_idx = owner_idx0 mod owner_count
        in rbind (check (owner_sweep_count t \<ge> owner_count) (Ensure ''owner_sweep_count >= owner_count'')) (\<lambda>_.
           let start = owner_sweep t ! owner_idx mod slot_count t;
               window = sweep_window (slot_count t) owner_count batch_hint size_hint;
               (found, s1) = owned_loop std_hash window 0 start owner_idx owner_count cb t s
           in case found of
                Some idx \<Rightarrow> Inr (True, t\<lparr>owner_sweep := (owner_sweep t)[owner_idx := (idx + 1) AND slot_mask t]\<rparr>, s1)
              | None \<Rightarrow> Inr (False, t\<lparr>owner_sweep := (owner_sweep t)[owner_idx := (start + window) AND slot_mask t]\<rparr>, s1)))))"

fun apt_dump_loop :: "nat \<Rightarrow> nat \<Rightarrow> (PID \<Rightarrow> BID \<Rightarrow> nat \<Rightarrow> nat \<Rightarrow> 's \<Rightarrow> 's) \<Rightarrow> AtomicPageTable \<Rightarrow> 's \<Rightarrow> 's" where
  "apt_dump_loop 0 idx cb t s = s"
| "apt_dump_loop (Suc n) idx cb t s =
     (let raw = apt_slots t ! idx
      in if slot_is_empty raw \<or> slot_is_tombstone raw then apt_dump_loop n (idx + 1) cb t s
         else apt_dump_loop n (idx + 1) cb t (cb (slot_pid raw) (slot_bid raw) (slot_idx t (slot_pid raw)) idx s))"

definition apt_dump :: "(PID \<Rightarrow> BID \<Rightarrow> nat \<Rightarrow> nat \<Rightarrow> 's \<Rightarrow> 's) \<Rightarrow> AtomicPageTable \<Rightarrow> 's \<Rightarrow> 's" where
  "apt_dump cb t s = apt_dump_loop (slot_count t) 0 cb t s"

definition apt_capacity :: "AtomicPageTable \<Rightarrow> nat" where "apt_capacity t = slot_count t"

subsection \<open>Packing\<close>

lemma word_bits_below: "x < 2 ^ m \<Longrightarrow> bit x n \<Longrightarrow> n < m" for x :: "'a::len word"
  using less_mask_eq [of x m] by (metis bit_and_iff bit_mask_iff)

lemma slot_pack_fields:
  assumes "slot_pack pid bid = Inr raw"
  shows "slot_pid raw = pid" "slot_bid raw = bid" "\<not> slot_is_empty raw" "\<not> slot_is_tombstone raw"
proof -
  have p: "pid < 2 ^ 40 - 1" and b: "bid < 2 ^ 24" and raw: "raw = (push_bit 24 (pid + 1) OR bid)"
    using assms by (auto simp: slot_pack_def check_def PID_LIMIT_def BID_MASK_def BID_BITS_def word_less_nat_alt word_le_nat_alt split: if_splits)
  have p1: "pid + 1 < 2 ^ 40" "pid + 1 \<noteq> 0"
    using p by (simp_all add: word_less_nat_alt word_unat_eq_iff unat_word_ariths(1))
  have d: "drop_bit 24 raw = pid + 1" unfolding raw
    by (rule bit_word_eqI) (auto simp: bit_simps dest: word_bits_below [OF b] word_bits_below [OF p1(1)])
  then show "slot_pid raw = pid" by (simp add: slot_pid_def BID_BITS_def)
  have m: "BID_MASK = mask 24" by (simp add: BID_MASK_def BID_BITS_def mask_eq_decr_exp push_bit_of_1)
  show "slot_bid raw = bid" unfolding slot_bid_def m raw
    by (rule bit_word_eqI) (auto simp: bit_simps dest: word_bits_below [OF b])
  show "\<not> slot_is_empty raw" "\<not> slot_is_tombstone raw"
    using d p1(2) by (auto simp: slot_is_empty_def slot_is_tombstone_def EMPTY_SLOT_def TOMBSTONE_SLOT_def)
qed

subsection \<open>Invariant\<close>

abbreviation pos :: "AtomicPageTable \<Rightarrow> PID \<Rightarrow> nat \<Rightarrow> nat" where
  "pos t pid d \<equiv> (slot_idx t pid + d) mod slot_count t"

definition entry :: "u64 \<Rightarrow> bool" where "entry raw \<longleftrightarrow> \<not> slot_is_empty raw \<and> \<not> slot_is_tombstone raw"

definition holds :: "AtomicPageTable \<Rightarrow> nat \<Rightarrow> PID \<Rightarrow> bool" where
  "holds t i pid \<longleftrightarrow> i < slot_count t \<and> entry (apt_slots t ! i) \<and> slot_pid (apt_slots t ! i) = pid"

definition apt_wf :: "AtomicPageTable \<Rightarrow> bool" where
  "apt_wf t \<longleftrightarrow> is_power_of_two (slot_count t) \<and> slot_mask t = slot_count t - 1 \<and> length (apt_slots t) = slot_count t"

text \<open>No empty slot lies between the home of a page and its slot, and no page has two.\<close>

definition apt_inv :: "AtomicPageTable \<Rightarrow> bool" where
  "apt_inv t \<longleftrightarrow> apt_wf t \<and>
     (\<forall>pid d. d < slot_count t \<and> holds t (pos t pid d) pid \<longrightarrow> (\<forall>e < d. \<not> slot_is_empty (apt_slots t ! pos t pid e))) \<and>
     (\<forall>i j pid. holds t i pid \<and> holds t j pid \<longrightarrow> i = j)"

definition apt_abs :: "AtomicPageTable \<Rightarrow> PID \<Rightarrow> BID option" where
  "apt_abs t = map_of (map (\<lambda>raw. (slot_pid raw, slot_bid raw)) (filter entry (apt_slots t)))"

lemma apt_wf_mask: "apt_wf t \<Longrightarrow> (i AND slot_mask t) = i mod slot_count t"
  by (simp add: apt_wf_def and_pow2_pred del: One_nat_def)

lemma apt_wf_pos: "apt_wf t \<Longrightarrow> i mod slot_count t < slot_count t"
  using is_power_of_two_pos by (simp add: apt_wf_def)

lemma pos_surj:
  assumes "apt_wf t" and "i < slot_count t"
  obtains d where "d < slot_count t" "i = pos t pid d"
proof -
  let ?n = "slot_count t" and ?h = "slot_idx t pid"
  have h: "?h < ?n" using apt_wf_mask [OF assms(1)] apt_wf_pos [OF assms(1)] by (simp add: slot_idx_def)
  have "(?h + (i + ?n - ?h) mod ?n) mod ?n = (?h + (i + ?n - ?h)) mod ?n" by (rule mod_add_right_eq)
  also have "\<dots> = i" using h assms(2) by simp
  finally show thesis using that [of "(i + ?n - ?h) mod ?n"] h by simp
qed

lemma mod_shift_inj:
  fixes n :: nat
  assumes "(h + d) mod n = (h + d') mod n" and "d < n" and "d' < n"
  shows "d = d'"
proof -
  obtain q q' where "h + d + n * q = h + d' + n * q'" using assms(1) unfolding nat_mod_eq_iff by blast
  then have "(d + n * q) mod n = (d' + n * q') mod n" by simp
  then show ?thesis using assms(2,3) by simp
qed

lemma apt_abs_Some:
  assumes inv: "apt_inv t" and h: "holds t i pid"
  shows "apt_abs t pid = Some (slot_bid (apt_slots t ! i))"
proof -
  have len: "length (apt_slots t) = slot_count t" using inv by (simp add: apt_inv_def apt_wf_def)
  let ?l = "map (\<lambda>raw. (slot_pid raw, slot_bid raw)) (filter entry (apt_slots t))"
  have "apt_slots t ! i \<in> set (apt_slots t)" using h len by (simp add: holds_def)
  then have "(pid, slot_bid (apt_slots t ! i)) \<in> set ?l" using h by (force simp: holds_def)
  then obtain b where b: "map_of ?l pid = Some b" using weak_map_of_SomeI by fast
  then have "(pid, b) \<in> set ?l" by (rule map_of_SomeD)
  then obtain raw where r: "raw \<in> set (apt_slots t)" "entry raw" "slot_pid raw = pid" "slot_bid raw = b" by auto
  then obtain j where "j < slot_count t" "apt_slots t ! j = raw" using len by (metis in_set_conv_nth)
  then have "holds t j pid" "slot_bid (apt_slots t ! j) = b" using r by (simp_all add: holds_def)
  moreover have "j = i" using inv h \<open>holds t j pid\<close> unfolding apt_inv_def by blast
  ultimately show ?thesis using b by (simp add: apt_abs_def)
qed

lemma apt_abs_None:
  assumes wf: "apt_wf t"
  shows "apt_abs t pid = None \<longleftrightarrow> (\<forall>i. \<not> holds t i pid)"
proof -
  have "apt_abs t pid = None \<longleftrightarrow> (\<forall>raw \<in> set (apt_slots t). entry raw \<longrightarrow> slot_pid raw \<noteq> pid)"
    by (auto simp: apt_abs_def map_of_eq_None_iff image_iff)
  also have "\<dots> \<longleftrightarrow> (\<forall>i. \<not> holds t i pid)" using wf by (auto simp: holds_def apt_wf_def all_set_conv_all_nth)
  finally show ?thesis .
qed

lemma apt_abs_same:
  assumes "apt_inv t" and "apt_inv t'" and "\<And>i. holds t' i pid \<longleftrightarrow> holds t i pid" and "\<And>i. holds t i pid \<Longrightarrow> apt_slots t' ! i = apt_slots t ! i"
  shows "apt_abs t' pid = apt_abs t pid"
proof (cases "\<exists>i. holds t i pid")
  case True
  then obtain i where i: "holds t i pid" ..
  then have "holds t' i pid" using assms(3) by blast
  then show ?thesis using apt_abs_Some [OF assms(1) i] apt_abs_Some [OF assms(2)] assms(4) [OF i] by simp
next
  case False
  then have "apt_abs t pid = None" "apt_abs t' pid = None"
    using apt_abs_None [of t] apt_abs_None [of t'] assms(1-3) by (auto simp: apt_inv_def)
  then show ?thesis by simp
qed

lemma apt_inv_path:
  "apt_inv t \<Longrightarrow> d < slot_count t \<Longrightarrow> holds t (pos t pid d) pid \<Longrightarrow> e < d \<Longrightarrow> \<not> slot_is_empty (apt_slots t ! pos t pid e)"
  unfolding apt_inv_def by blast

subsection \<open>Changing a slot\<close>

lemma holds_update:
  assumes "apt_wf t" and "k < slot_count t"
  shows "holds (t\<lparr>apt_slots := (apt_slots t)[k := raw]\<rparr>) i pid \<longleftrightarrow> (if i = k then entry raw \<and> slot_pid raw = pid else holds t i pid)"
  using assms by (auto simp: holds_def apt_wf_def nth_list_update)

lemma wf_update: "apt_wf t \<Longrightarrow> apt_wf (t\<lparr>apt_slots := (apt_slots t)[k := raw]\<rparr>)"
  by (simp add: apt_wf_def)

lemma slot_idx_update [simp]: "slot_idx (t\<lparr>apt_slots := xs\<rparr>) = slot_idx t"
  by (simp add: slot_idx_def fun_eq_iff)

lemma set_entry:
  assumes inv: "apt_inv t" and new: "\<And>i. \<not> holds t i pid" and d: "d < slot_count t" and path: "\<And>e. e < d \<Longrightarrow> \<not> slot_is_empty (apt_slots t ! pos t pid e)"
    and raw: "slot_pack pid bid = Inr raw" and old: "\<not> entry (apt_slots t ! pos t pid d)"
  shows "apt_inv (t\<lparr>apt_slots := (apt_slots t)[pos t pid d := raw]\<rparr>) \<and>
    apt_abs (t\<lparr>apt_slots := (apt_slots t)[pos t pid d := raw]\<rparr>) = (apt_abs t)(pid \<mapsto> bid)"
proof -
  let ?k = "pos t pid d" and ?t = "t\<lparr>apt_slots := (apt_slots t)[pos t pid d := raw]\<rparr>"
  note r = slot_pack_fields [OF raw]
  have wf: "apt_wf t" and len: "length (apt_slots t) = slot_count t" using inv by (simp_all add: apt_inv_def apt_wf_def)
  have k: "?k < slot_count t" by (rule apt_wf_pos [OF wf])
  have h: "holds ?t i p \<longleftrightarrow> (if i = ?k then p = pid else holds t i p)" for i p
    using holds_update [OF wf k, of raw i p] r by (auto simp: entry_def)
  have ne: "\<not> slot_is_empty (apt_slots ?t ! j)" if "\<not> slot_is_empty (apt_slots t ! j)" for j
    using that r(3) len k by (cases "j = ?k") simp_all
  have kn: "\<not> holds t ?k p" for p using old by (simp add: holds_def)
  have "apt_inv ?t" unfolding apt_inv_def
  proof (intro conjI allI impI)
    show "apt_wf ?t" by (rule wf_update [OF wf])
    show "\<not> slot_is_empty (apt_slots ?t ! pos ?t p e)" if "d' < slot_count ?t \<and> holds ?t (pos ?t p d') p" "e < d'" for p d' e
    proof (cases "pos t p d' = ?k")
      case True
      then have p: "p = pid" using that h by simp
      have "d' = d" using True [unfolded p] by (rule mod_shift_inj) (use that d in simp_all)
      then show ?thesis using ne path that p by simp
    next
      case False
      then have "holds t (pos t p d') p" using that h by simp
      then show ?thesis using ne apt_inv_path [OF inv, of d' p e] that by simp
    qed
    show "i = j" if "holds ?t i p \<and> holds ?t j p" for i j p
      using that inv new unfolding h apt_inv_def by (metis (no_types))
  qed
  moreover have "apt_abs ?t p = ((apt_abs t)(pid \<mapsto> bid)) p" for p
  proof (cases "p = pid")
    case True
    have "holds ?t ?k pid" by (simp add: h)
    from apt_abs_Some [OF calculation this] show ?thesis using True r(2) k len by simp
  next
    case False
    have up: "apt_slots ?t ! i = apt_slots t ! i" if "holds t i p" for i using that kn [of p] by (cases "i = ?k") simp_all
    have "apt_abs ?t p = apt_abs t p" using h kn False up by (intro apt_abs_same [OF inv calculation]) auto
    then show ?thesis using False by simp
  qed
  ultimately show ?thesis by blast
qed

lemma set_tombstone:
  assumes inv: "apt_inv t" and hk: "holds t k pid"
  shows "apt_inv (t\<lparr>apt_slots := (apt_slots t)[k := TOMBSTONE_SLOT]\<rparr>) \<and>
    apt_abs (t\<lparr>apt_slots := (apt_slots t)[k := TOMBSTONE_SLOT]\<rparr>) = (apt_abs t)(pid := None)"
proof -
  let ?t = "t\<lparr>apt_slots := (apt_slots t)[k := TOMBSTONE_SLOT]\<rparr>"
  have wf: "apt_wf t" and len: "length (apt_slots t) = slot_count t" using inv by (simp_all add: apt_inv_def apt_wf_def)
  have k: "k < slot_count t" using hk by (simp add: holds_def)
  have h: "holds ?t i p \<longleftrightarrow> i \<noteq> k \<and> holds t i p" for i p
    using holds_update [OF wf k, of TOMBSTONE_SLOT i p] by (auto simp: entry_def slot_is_tombstone_def)
  have ne: "\<not> slot_is_empty (apt_slots ?t ! j)" if "\<not> slot_is_empty (apt_slots t ! j)" for j
    using that len k by (cases "j = k") (simp_all add: slot_is_empty_def EMPTY_SLOT_def TOMBSTONE_SLOT_def)
  have "apt_inv ?t" unfolding apt_inv_def
  proof (intro conjI allI impI)
    show "apt_wf ?t" by (rule wf_update [OF wf])
    show "\<not> slot_is_empty (apt_slots ?t ! pos ?t p e)" if "d < slot_count ?t \<and> holds ?t (pos ?t p d) p" "e < d" for p d e
      using that h ne apt_inv_path [OF inv, of d p e] by simp
    show "i = j" if "holds ?t i p \<and> holds ?t j p" for i j p using that inv unfolding h apt_inv_def by blast
  qed
  moreover have "apt_abs ?t p = ((apt_abs t)(pid := None)) p" for p
  proof (cases "p = pid")
    case True
    have "\<forall>i. \<not> holds ?t i pid" using h hk inv unfolding apt_inv_def by blast
    then show ?thesis using apt_abs_None [OF wf_update [OF wf]] True by simp
  next
    case False
    then have kp: "\<not> holds t k p" using hk by (simp add: holds_def)
    have up: "apt_slots ?t ! i = apt_slots t ! i" if "holds t i p" for i using that kp by (cases "i = k") simp_all
    have "apt_abs ?t p = apt_abs t p" using h kp up by (intro apt_abs_same [OF inv calculation]) auto
    then show ?thesis using False by simp
  qed
  ultimately show ?thesis by blast
qed

text \<open>A tombstone before an empty slot is on no page's path.\<close>

lemma set_empty:
  assumes inv: "apt_inv t" and k: "k < slot_count t" and tomb: "apt_slots t ! k = TOMBSTONE_SLOT"
    and nxt: "slot_is_empty (apt_slots t ! ((k + 1) mod slot_count t)) \<or> (\<forall>i p. \<not> holds t i p)"
  shows "apt_inv (t\<lparr>apt_slots := (apt_slots t)[k := EMPTY_SLOT]\<rparr>) \<and>
    apt_abs (t\<lparr>apt_slots := (apt_slots t)[k := EMPTY_SLOT]\<rparr>) = apt_abs t \<and>
    (\<forall>i p. holds (t\<lparr>apt_slots := (apt_slots t)[k := EMPTY_SLOT]\<rparr>) i p \<longleftrightarrow> holds t i p)"
proof -
  let ?t = "t\<lparr>apt_slots := (apt_slots t)[k := EMPTY_SLOT]\<rparr>" and ?n = "slot_count t"
  have wf: "apt_wf t" and len: "length (apt_slots t) = slot_count t" using inv by (simp_all add: apt_inv_def apt_wf_def)
  have kn: "\<not> holds t k p" for p using tomb by (simp add: holds_def entry_def slot_is_tombstone_def)
  have h: "holds ?t i p \<longleftrightarrow> holds t i p" for i p
    using holds_update [OF wf k, of EMPTY_SLOT i p] kn by (auto simp: entry_def slot_is_empty_def)
  have "apt_inv ?t" unfolding apt_inv_def
  proof (intro conjI allI impI)
    show "apt_wf ?t" by (rule wf_update [OF wf])
    show "\<not> slot_is_empty (apt_slots ?t ! pos ?t p e)" if "d < slot_count ?t \<and> holds ?t (pos ?t p d) p" "e < d" for p d e
    proof -
      have d: "d < ?n" and hd: "holds t (pos t p d) p" using that(1) unfolding h by simp_all
      have full: "\<not> slot_is_empty (apt_slots t ! pos t p x)" if "x \<le> d" for x
      proof (cases "x = d")
        case True
        then show ?thesis using hd by (simp add: holds_def entry_def)
      qed (use apt_inv_path [OF inv d hd, of x] that in simp)
      have "pos t p e \<noteq> k"
      proof
        assume e: "pos t p e = k"
        have "(k + 1) mod ?n = pos t p (e + 1)" unfolding e [symmetric] by (simp add: mod_simps)
        then show False using full [of "e + 1"] that(2) nxt hd by auto
      qed
      then show ?thesis using full [of e] that(2) by simp
    qed
    show "i = j" if "holds ?t i p \<and> holds ?t j p" for i j p using that inv unfolding h apt_inv_def by blast
  qed
  moreover have "apt_abs ?t p = apt_abs t p" for p
  proof -
    have up: "apt_slots ?t ! i = apt_slots t ! i" if "holds t i p" for i using that kn [of p] by (cases "i = k") simp_all
    show ?thesis using h up by (intro apt_abs_same [OF inv calculation]) auto
  qed
  ultimately show ?thesis using h by blast
qed

subsection \<open>Collapsing tombstones\<close>

lemma collapse_clear_correct:
  assumes "apt_inv t" and "k < slot_count t"
    and "slot_is_empty (apt_slots t ! ((k + 1) mod slot_count t)) \<or> (\<forall>i p. \<not> holds t i p)"
  shows "apt_inv (collapse_clear n k t) \<and> apt_abs (collapse_clear n k t) = apt_abs t"
  using assms
proof (induction n arbitrary: k t)
  case (Suc n)
  show ?case
  proof (cases "apt_slots t ! k = TOMBSTONE_SLOT")
    case True
    let ?t = "t\<lparr>apt_slots := (apt_slots t)[k := EMPTY_SLOT]\<rparr>" and ?k = "if k = 0 then slot_mask t else k - 1"
    note s = set_empty [OF Suc.prems(1,2) True Suc.prems(3)]
    have wf: "apt_wf t" using Suc.prems(1) by (simp add: apt_inv_def)
    have "?k < slot_count t" "(?k + 1) mod slot_count t = k" using wf Suc.prems(2) by (auto simp: apt_wf_def)
    moreover have "slot_is_empty (apt_slots ?t ! k)" using wf Suc.prems(2) by (simp add: apt_wf_def slot_is_empty_def)
    ultimately have "apt_inv (collapse_clear n ?k ?t) \<and> apt_abs (collapse_clear n ?k ?t) = apt_abs ?t"
      using s by (intro Suc.IH) simp_all
    then show ?thesis using True s by (simp add: slot_cas_def)
  next
    case False
    then show ?thesis using Suc.prems(1) by (simp add: slot_cas_def)
  qed
qed simp

lemma collapse_scan_correct:
  assumes "collapse_scan n run_len idx t = Some (r, k)" and "apt_wf t" and "n + run_len = slot_count t" and "0 < run_len"
    and "idx = (start + run_len - 1) mod slot_count t" and "\<And>j. j < run_len \<Longrightarrow> apt_slots t ! ((start + j) mod slot_count t) = TOMBSTONE_SLOT"
  shows "k < slot_count t \<and> (slot_is_empty (apt_slots t ! ((k + 1) mod slot_count t)) \<or> (\<forall>i p. \<not> holds t i p))"
  using assms
proof (induction n arbitrary: run_len idx)
  case 0
  have all: "\<not> holds t i p" for i p
  proof
    assume h: "holds t i p"
    then have i: "i < slot_count t" by (simp add: holds_def)
    let ?n = "slot_count t" and ?h = "start mod slot_count t"
    have "?h < ?n" using i by simp
    have "(start + (i + ?n - ?h) mod ?n) mod ?n = (?h + (i + ?n - ?h)) mod ?n" by (simp add: mod_simps)
    also have "?h + (i + ?n - ?h) = i + ?n" using \<open>?h < ?n\<close> by linarith
    also have "(i + ?n) mod ?n = i" using i by simp
    finally have "apt_slots t ! i = TOMBSTONE_SLOT" using 0(6) [of "(i + ?n - ?h) mod ?n"] 0(3) i by simp
    then show False using h by (simp add: holds_def entry_def slot_is_tombstone_def)
  qed
  have "k = (start + run_len - 1) mod slot_count t" using 0(1,5) by auto
  then have "k < slot_count t" using apt_wf_pos [OF 0(2)] by simp
  with all show ?case by blast
next
  case (Suc n)
  let ?nxt = "(idx + 1) mod slot_count t"
  have nxt: "?nxt = (start + run_len) mod slot_count t" using Suc.prems(4,5) by (simp add: mod_simps)
  have raw: "((idx + 1) AND slot_mask t) = ?nxt" by (rule apt_wf_mask [OF Suc.prems(2)])
  show ?case
  proof (cases "slot_is_tombstone (apt_slots t ! ?nxt)")
    case True
    show ?thesis
    proof (rule Suc.IH)
      show "collapse_scan n (run_len + 1) ?nxt t = Some (r, k)" using Suc.prems(1) True raw by simp
      show "apt_wf t" "n + (run_len + 1) = slot_count t" "0 < run_len + 1" using Suc.prems(2,3) by simp_all
      show "?nxt = (start + (run_len + 1) - 1) mod slot_count t" using nxt by simp
      show "apt_slots t ! ((start + j) mod slot_count t) = TOMBSTONE_SLOT" if "j < run_len + 1" for j
        using that Suc.prems(6) [of j] True nxt by (cases "j = run_len") (auto simp: slot_is_tombstone_def)
    qed
  next
    case False
    then have "slot_is_empty (apt_slots t ! ?nxt)" "k = idx" using Suc.prems(1) raw by (auto split: if_splits)
    then show ?thesis using Suc.prems(5) apt_wf_pos [OF Suc.prems(2)] by simp
  qed
qed

lemma collapse_correct:
  assumes inv: "apt_inv t" and k: "k < slot_count t" and tomb: "apt_slots t ! k = TOMBSTONE_SLOT"
  shows "apt_inv (collapse_tombstone_run k t) \<and> apt_abs (collapse_tombstone_run k t) = apt_abs t"
proof (cases "collapse_scan (slot_count t - 1) 1 k t")
  case None
  then show ?thesis using inv by (simp add: collapse_tombstone_run_def)
next
  case (Some p)
  obtain r i where p: "p = (r, i)" by (cases p)
  have wf: "apt_wf t" using inv by (simp add: apt_inv_def)
  have "i < slot_count t \<and> (slot_is_empty (apt_slots t ! ((i + 1) mod slot_count t)) \<or> (\<forall>j p. \<not> holds t j p))"
    using Some unfolding p by (rule collapse_scan_correct [where start = k]) (use wf k tomb in simp_all)
  then show ?thesis using collapse_clear_correct [OF inv] Some p by (simp add: collapse_tombstone_run_def)
qed

subsection \<open>Searching\<close>

lemma find_is_erase_search:
  "find_loop n probed pid t = (case erase_loop n probed pid t of Some (Some (idx, raw)) \<Rightarrow> Some (slot_bid raw) | _ \<Rightarrow> None)"
  by (induction n arbitrary: probed) (auto simp: Let_def)

lemma not_behind_empty:
  assumes inv: "apt_inv t" and e: "slot_is_empty (apt_slots t ! pos t pid p)" and no: "\<And>e. e < p \<Longrightarrow> \<not> holds t (pos t pid e) pid"
  shows "\<not> holds t i pid"
proof
  assume h: "holds t i pid"
  have wf: "apt_wf t" using inv by (simp add: apt_inv_def)
  obtain d where d: "d < slot_count t" "i = pos t pid d" using pos_surj [OF wf, of i pid] h by (auto simp: holds_def)
  show False
  proof (cases d p rule: linorder_cases)
    case less
    then show False using no h d by blast
  next
    case equal
    then show False using h e d by (simp add: holds_def entry_def)
  next
    case greater
    then show False using apt_inv_path [OF inv d(1), of pid p] h d e by blast
  qed
qed

lemma erase_loop_correct:
  assumes "apt_inv t" and "n + probed = slot_count t" and "\<And>e. e < probed \<Longrightarrow> \<not> holds t (pos t pid e) pid \<and> \<not> slot_is_empty (apt_slots t ! pos t pid e)"
  shows "case erase_loop n probed pid t of
      Some (Some (idx, raw)) \<Rightarrow> holds t idx pid \<and> raw = apt_slots t ! idx
    | Some None \<Rightarrow> (\<forall>i. \<not> holds t i pid)
    | None \<Rightarrow> (\<forall>i < slot_count t. \<not> holds t i pid \<and> \<not> slot_is_empty (apt_slots t ! i))"
  using assms
proof (induction n arbitrary: probed)
  case 0
  have "\<not> holds t i pid \<and> \<not> slot_is_empty (apt_slots t ! i)" if le: "i < slot_count t" for i
  proof -
    have wf: "apt_wf t" using 0(1) by (simp add: apt_inv_def)
    obtain d where "d < slot_count t" "i = pos t pid d" using pos_surj [OF wf le, of pid] .
    then show ?thesis using 0(2) 0(3) [of d] by simp
  qed
  then show ?case by simp
next
  case (Suc n)
  have wf: "apt_wf t" using Suc.prems(1) by (simp add: apt_inv_def)
  let ?i = "pos t pid probed"
  have idx: "((slot_idx t pid + probed) AND slot_mask t) = ?i" by (rule apt_wf_mask [OF wf])
  have i: "?i < slot_count t" by (rule apt_wf_pos [OF wf])
  show ?case
  proof (cases "holds t ?i pid")
    case True
    then show ?thesis by (simp add: idx holds_def entry_def Let_def)
  next
    case False
    show ?thesis
    proof (cases "slot_is_empty (apt_slots t ! ?i)")
      case True
      then have "\<not> holds t i pid" for i by (rule not_behind_empty [OF Suc.prems(1)]) (use Suc.prems(3) in blast)
      then show ?thesis using True by (simp add: idx)
    next
      case ne: False
      have "\<not> holds t (pos t pid e) pid \<and> \<not> slot_is_empty (apt_slots t ! pos t pid e)" if "e < probed + 1" for e
        using that Suc.prems(3) [of e] False ne by (cases "e = probed") simp_all
      from Suc.IH [OF Suc.prems(1) _ this] Suc.prems(2) ne False i show ?thesis by (auto simp: idx Let_def holds_def entry_def)
    qed
  qed
qed

lemma find_copy_correct:
  assumes inv: "apt_inv t"
  shows "find_copy pid t = apt_abs t pid"
proof -
  have wf: "apt_wf t" using inv by (simp add: apt_inv_def)
  have "case erase_loop (slot_count t) 0 pid t of
      Some (Some (idx, raw)) \<Rightarrow> holds t idx pid \<and> raw = apt_slots t ! idx
    | Some None \<Rightarrow> (\<forall>i. \<not> holds t i pid)
    | None \<Rightarrow> (\<forall>i < slot_count t. \<not> holds t i pid \<and> \<not> slot_is_empty (apt_slots t ! i))"
    by (rule erase_loop_correct [OF inv]) simp_all
  moreover have "\<not> holds t i pid" if "\<not> i < slot_count t" for i using that by (simp add: holds_def)
  ultimately show ?thesis using apt_abs_None [OF wf, of pid] apt_abs_Some [OF inv, of _ pid]
    by (auto simp: find_copy_def find_is_erase_search split: option.splits)
qed

text \<open>What a round of an insertion finds: the page, the slot for it, or that no slot is empty, with the first tombstone.\<close>

fun probe_ok :: "PID \<Rightarrow> AtomicPageTable \<Rightarrow> probe \<Rightarrow> bool" where
  "probe_ok pid t Present \<longleftrightarrow> (\<exists>i. holds t i pid)"
| "probe_ok pid t (Attempt k expected ft) \<longleftrightarrow> (\<forall>i. \<not> holds t i pid) \<and> apt_slots t ! k = expected \<and> \<not> entry expected \<and>
     (\<exists>d < slot_count t. k = pos t pid d \<and> (\<forall>e < d. \<not> slot_is_empty (apt_slots t ! pos t pid e)))"
| "probe_ok pid t (Exhausted ft) \<longleftrightarrow> (\<forall>i. \<not> holds t i pid) \<and> (\<forall>i < slot_count t. \<not> slot_is_empty (apt_slots t ! i)) \<and>
     (case ft of None \<Rightarrow> \<forall>i < slot_count t. entry (apt_slots t ! i)
      | Some k \<Rightarrow> \<exists>d < slot_count t. k = pos t pid d \<and> apt_slots t ! k = TOMBSTONE_SLOT)"

lemma insert_loop_correct:
  assumes "apt_inv t" and "n + probed = slot_count t"
    and "\<And>e. e < probed \<Longrightarrow> \<not> holds t (pos t pid e) pid \<and> \<not> slot_is_empty (apt_slots t ! pos t pid e)"
    and "\<And>k. ft = Some k \<Longrightarrow> \<exists>e < probed. k = pos t pid e \<and> apt_slots t ! k = TOMBSTONE_SLOT"
    and "\<And>e. ft = None \<Longrightarrow> e < probed \<Longrightarrow> entry (apt_slots t ! pos t pid e)"
  shows "probe_ok pid t (insert_loop n probed ft pid t)"
  using assms
proof (induction n arbitrary: probed ft)
  case 0
  have "\<not> holds t i pid \<and> \<not> slot_is_empty (apt_slots t ! i) \<and> (ft = None \<longrightarrow> entry (apt_slots t ! i))" if le: "i < slot_count t" for i
  proof -
    have wf: "apt_wf t" using 0(1) by (simp add: apt_inv_def)
    obtain d where "d < slot_count t" "i = pos t pid d" using pos_surj [OF wf le, of pid] .
    then show ?thesis using 0(2) 0(3) [of d] 0(5) [of d] by simp
  qed
  moreover have "\<not> holds t i pid" if "\<not> i < slot_count t" for i using that by (simp add: holds_def)
  ultimately show ?case using 0(2,4) by (cases ft) auto
next
  case (Suc n)
  have wf: "apt_wf t" using Suc.prems(1) by (simp add: apt_inv_def)
  let ?i = "pos t pid probed"
  have idx: "((slot_idx t pid + probed) AND slot_mask t) = ?i" by (rule apt_wf_mask [OF wf])
  have i: "?i < slot_count t" by (rule apt_wf_pos [OF wf])
  have step: "probe_ok pid t (insert_loop n (probed + 1) ft' pid t)"
    if no: "\<not> holds t ?i pid" "\<not> slot_is_empty (apt_slots t ! ?i)"
      and ft: "\<And>k. ft' = Some k \<Longrightarrow> \<exists>e < probed + 1. k = pos t pid e \<and> apt_slots t ! k = TOMBSTONE_SLOT"
      and en: "ft' = None \<Longrightarrow> ft = None \<and> entry (apt_slots t ! ?i)" for ft'
  proof (rule Suc.IH [OF Suc.prems(1) _ _ ft])
    show "entry (apt_slots t ! pos t pid e)" if "ft' = None" "e < probed + 1" for e
      using en [OF that(1)] that(2) Suc.prems(5) [of e] by (cases "e = probed") simp_all
    show "n + (probed + 1) = slot_count t" using Suc.prems(2) by simp
    show "\<not> holds t (pos t pid e) pid \<and> \<not> slot_is_empty (apt_slots t ! pos t pid e)" if "e < probed + 1" for e
      using that no Suc.prems(3) [of e] by (cases "e = probed") simp_all
  qed
  have old: "\<exists>e < probed + 1. k = pos t pid e \<and> apt_slots t ! k = TOMBSTONE_SLOT" if "ft = Some k" for k
    using Suc.prems(4) [OF that] by (metis less_SucI Suc_eq_plus1)
  consider (tomb) "slot_is_tombstone (apt_slots t ! ?i)" | (empty) "slot_is_empty (apt_slots t ! ?i)" | (entry) "entry (apt_slots t ! ?i)"
    by (auto simp: entry_def)
  then show ?case
  proof cases
    case tomb
    have tf: "\<exists>e < probed + 1. k = pos t pid e \<and> apt_slots t ! k = TOMBSTONE_SLOT" if "(if ft = None then Some ?i else ft) = Some k" for k
    proof (cases "ft = None")
      case True
      then have "k = ?i" using that by simp
      then show ?thesis using tomb by (auto simp: slot_is_tombstone_def)
    next
      case False
      then have "ft = Some k" using that by (metis (full_types))
      then show ?thesis by (rule old)
    qed
    have no: "\<not> holds t ?i pid" "\<not> slot_is_empty (apt_slots t ! ?i)"
      using tomb by (simp_all add: holds_def entry_def slot_is_tombstone_def slot_is_empty_def TOMBSTONE_SLOT_def EMPTY_SLOT_def)
    have "probe_ok pid t (insert_loop n (probed + 1) (if ft = None then Some ?i else ft) pid t)"
      by (rule step [OF no tf]) (simp_all split: if_splits)
    then show ?thesis using tomb by (simp add: idx)
  next
    case empty
    then have nt: "\<not> slot_is_tombstone (apt_slots t ! ?i)"
      by (simp add: slot_is_tombstone_def slot_is_empty_def TOMBSTONE_SLOT_def EMPTY_SLOT_def)
    have none: "\<not> holds t i pid" for i
      by (rule not_behind_empty [OF Suc.prems(1) empty]) (use Suc.prems(3) in blast)
    show ?thesis
    proof (cases ft)
      case None
      have "probed < slot_count t" "\<forall>e < probed. \<not> slot_is_empty (apt_slots t ! pos t pid e)" using Suc.prems(2,3) by auto
      then show ?thesis using None nt empty none by (auto simp: idx Let_def entry_def slot_is_empty_def)
    next
      case (Some k)
      obtain e where e: "e < probed" "k = pos t pid e" "apt_slots t ! k = TOMBSTONE_SLOT" using Suc.prems(4) [OF Some] by blast
      then have "e < slot_count t" "\<forall>x < e. \<not> slot_is_empty (apt_slots t ! pos t pid x)" using Suc.prems(2,3) by auto
      then show ?thesis using Some nt empty none e by (auto simp: idx Let_def entry_def slot_is_tombstone_def)
    qed
  next
    case entry
    show ?thesis
    proof (cases "slot_pid (apt_slots t ! ?i) = pid")
      case True
      then have "holds t ?i pid" using entry i by (simp add: holds_def)
      then show ?thesis using True entry by (auto simp: idx Let_def entry_def)
    next
      case False
      then have "\<not> holds t ?i pid" "\<not> slot_is_empty (apt_slots t ! ?i)" using entry by (simp_all add: holds_def entry_def)
      then have "probe_ok pid t (insert_loop n (probed + 1) ft pid t)" by (rule step) (use old entry in simp_all)
      then show ?thesis using False entry by (simp add: idx Let_def entry_def)
    qed
  qed
qed

lemma insert_probe_ok: "apt_inv t \<Longrightarrow> probe_ok pid t (insert_probe pid t)"
  unfolding insert_probe_def by (rule insert_loop_correct) simp_all

lemma apt_insert_correct:
  assumes inv: "apt_inv t" and raw: "slot_pack pid bid = Inr raw" and room: "apt_abs t pid \<noteq> None \<or> (\<exists>x \<in> set (apt_slots t). \<not> entry x)"
  shows "\<exists>t'. apt_insert (Suc n) pid bid t = Inr (apt_abs t pid = None, t') \<and> apt_inv t' \<and>
    apt_abs t' = (if apt_abs t pid = None then (apt_abs t)(pid \<mapsto> bid) else apt_abs t)"
proof -
  have wf: "apt_wf t" using inv by (simp add: apt_inv_def)
  note ok = insert_probe_ok [OF inv, of pid]
  show ?thesis
  proof (cases "insert_probe pid t")
    case Present
    then show ?thesis using ok inv raw apt_abs_None [OF wf, of pid] by (auto simp: apt_insert_def)
  next
    case (Attempt k expected ft)
    then obtain d where a: "\<And>i. \<not> holds t i pid" "apt_slots t ! k = expected" "\<not> entry expected" "d < slot_count t" "k = pos t pid d"
      "\<And>e. e < d \<Longrightarrow> \<not> slot_is_empty (apt_slots t ! pos t pid e)"
      using ok by auto
    have "apt_abs t pid = None" using apt_abs_None [OF wf] a(1) by blast
    moreover have "\<not> entry (apt_slots t ! pos t pid d)" using a(2,3,5) by simp
    note s = set_entry [OF inv a(1,4,6) raw this]
    ultimately show ?thesis using s Attempt raw a(2,5) by (auto simp: apt_insert_def slot_cas_def)
  next
    case (Exhausted ft)
    have none: "\<not> holds t i pid" for i using ok Exhausted by simp
    then have n: "apt_abs t pid = None" using apt_abs_None [OF wf] by blast
    then obtain x where "x \<in> set (apt_slots t)" "\<not> entry x" using room by blast
    then have "\<not> (\<forall>i < slot_count t. entry (apt_slots t ! i))" using wf by (auto simp: in_set_conv_nth apt_wf_def)
    then obtain k d where k: "ft = Some k" "d < slot_count t" "k = pos t pid d" "apt_slots t ! k = TOMBSTONE_SLOT"
      using ok Exhausted by (cases ft) auto
    have "\<not> slot_is_empty (apt_slots t ! pos t pid e)" for e using ok Exhausted apt_wf_pos [OF wf] by simp
    moreover have "\<not> entry (apt_slots t ! pos t pid d)" using k(3,4) by (simp add: entry_def slot_is_tombstone_def)
    ultimately have "apt_inv (t\<lparr>apt_slots := (apt_slots t)[pos t pid d := raw]\<rparr>) \<and>
        apt_abs (t\<lparr>apt_slots := (apt_slots t)[pos t pid d := raw]\<rparr>) = (apt_abs t)(pid \<mapsto> bid)"
      using set_entry [OF inv none k(2) _ raw] by blast
    then show ?thesis using n Exhausted raw k by (simp add: apt_insert_def insert_tombstone_def slot_cas_def)
  qed
qed

text \<open>With an entry of another page in every slot an insertion never returns.\<close>

lemma insert_spins:
  assumes inv: "apt_inv t" and raw: "slot_pack pid bid = Inr raw" and none: "apt_abs t pid = None" and full: "\<forall>x \<in> set (apt_slots t). entry x"
  shows "apt_insert n pid bid t = Inl OutOfSteps"
proof -
  have wf: "apt_wf t" using inv by (simp add: apt_inv_def)
  have en: "entry (apt_slots t ! i)" if "i < slot_count t" for i using full that wf by (simp add: apt_wf_def)
  have no: "\<not> holds t i pid" for i using none apt_abs_None [OF wf] by blast
  have "insert_probe pid t = Exhausted None"
  proof (cases "insert_probe pid t")
    case Present
    then show ?thesis using insert_probe_ok [OF inv, of pid] no by simp
  next
    case (Attempt k expected ft)
    then show ?thesis using insert_probe_ok [OF inv, of pid] en apt_wf_pos [OF wf] by auto
  next
    case (Exhausted ft)
    then show ?thesis using insert_probe_ok [OF inv, of pid] en apt_wf_pos [OF wf]
      by (cases ft) (force simp: entry_def slot_is_tombstone_def)+
  qed
  then have "insert_rounds n pid raw t = Inl OutOfSteps" by (induction n) (simp_all add: insert_tombstone_def)
  then show ?thesis using raw by (simp add: apt_insert_def)
qed

lemma erase_commit:
  assumes inv: "apt_inv t" and h: "holds t idx pid"
  shows "apt_inv (collapse_tombstone_run idx (t\<lparr>apt_slots := (apt_slots t)[idx := TOMBSTONE_SLOT]\<rparr>)) \<and>
    apt_abs (collapse_tombstone_run idx (t\<lparr>apt_slots := (apt_slots t)[idx := TOMBSTONE_SLOT]\<rparr>)) = (apt_abs t)(pid := None)"
proof -
  let ?t = "t\<lparr>apt_slots := (apt_slots t)[idx := TOMBSTONE_SLOT]\<rparr>"
  have "idx < slot_count ?t" "apt_slots ?t ! idx = TOMBSTONE_SLOT" using h inv by (simp_all add: holds_def apt_inv_def apt_wf_def)
  then show ?thesis using collapse_correct [of ?t idx] set_tombstone [OF inv h] by simp
qed

lemma apt_erase_correct:
  assumes inv: "apt_inv t" and room: "apt_abs t pid \<noteq> None \<or> EMPTY_SLOT \<in> set (apt_slots t)"
  shows "\<exists>t'. apt_erase (Suc n) pid t = Inr (apt_abs t pid \<noteq> None, t') \<and> apt_inv t' \<and> apt_abs t' = (apt_abs t)(pid := None)"
proof -
  have wf: "apt_wf t" using inv by (simp add: apt_inv_def)
  have e: "case erase_loop (slot_count t) 0 pid t of
      Some (Some (idx, raw)) \<Rightarrow> holds t idx pid \<and> raw = apt_slots t ! idx
    | Some None \<Rightarrow> (\<forall>i. \<not> holds t i pid)
    | None \<Rightarrow> (\<forall>i < slot_count t. \<not> holds t i pid \<and> \<not> slot_is_empty (apt_slots t ! i))"
    by (rule erase_loop_correct [OF inv]) simp_all
  show ?thesis
  proof (cases "erase_loop (slot_count t) 0 pid t")
    case None
    then have ne: "\<not> holds t i pid \<and> \<not> slot_is_empty (apt_slots t ! i)" if "i < slot_count t" for i using e that by simp
    then have "\<not> holds t i pid" for i by (cases "i < slot_count t") (simp_all add: holds_def)
    then have "apt_abs t pid = None" using apt_abs_None [OF wf] by blast
    then show ?thesis using room ne wf by (auto simp: in_set_conv_nth apt_wf_def slot_is_empty_def)
  next
    case (Some r)
    show ?thesis
    proof (cases r)
      case None
      then have "apt_abs t pid = None" using e Some apt_abs_None [OF wf] by auto
      then show ?thesis using Some None inv by (auto simp: fun_eq_iff)
    next
      case (Some p)
      obtain idx raw where p: "p = (idx, raw)" by (cases p)
      then have h: "holds t idx pid" "raw = apt_slots t ! idx" using e \<open>erase_loop (slot_count t) 0 pid t = Some r\<close> Some by auto
      then show ?thesis using erase_commit [OF inv h(1)] apt_abs_Some [OF inv h(1)] \<open>erase_loop (slot_count t) 0 pid t = Some r\<close> Some p
        by (simp add: slot_cas_def)
    qed
  qed
qed

text \<open>\<^verbatim>\<open>erase_if\<close> asks about the frame the page is in, and removes the page only when the answer is yes.\<close>

lemma erase_if_correct:
  assumes inv: "apt_inv t"
  shows "\<exists>t'. erase_if pid precheck t =
      (case apt_abs t pid of Some bid \<Rightarrow> if precheck bid then Some bid else None | None \<Rightarrow> None, t') \<and> apt_inv t' \<and>
    apt_abs t' = (case apt_abs t pid of Some bid \<Rightarrow> if precheck bid then (apt_abs t)(pid := None) else apt_abs t | None \<Rightarrow> apt_abs t)"
proof -
  have wf: "apt_wf t" using inv by (simp add: apt_inv_def)
  have e: "case erase_loop (slot_count t) 0 pid t of
      Some (Some (idx, raw)) \<Rightarrow> holds t idx pid \<and> raw = apt_slots t ! idx
    | Some None \<Rightarrow> (\<forall>i. \<not> holds t i pid)
    | None \<Rightarrow> (\<forall>i < slot_count t. \<not> holds t i pid \<and> \<not> slot_is_empty (apt_slots t ! i))"
    by (rule erase_loop_correct [OF inv]) simp_all
  show ?thesis
  proof (cases "\<exists>idx raw. erase_loop (slot_count t) 0 pid t = Some (Some (idx, raw))")
    case True
    then obtain idx raw where r: "erase_loop (slot_count t) 0 pid t = Some (Some (idx, raw))" by blast
    then have h: "holds t idx pid" "raw = apt_slots t ! idx" using e by auto
    then show ?thesis using erase_commit [OF inv h(1)] apt_abs_Some [OF inv h(1)] r inv by (simp add: erase_if_def slot_cas_def Let_def)
  next
    case False
    have "\<not> holds t i pid" for i
      using e False by (cases "i < slot_count t") (auto simp: holds_def split: option.splits)
    then have "apt_abs t pid = None" using apt_abs_None [OF wf] by blast
    then show ?thesis using False inv by (auto simp: erase_if_def split: option.splits)
  qed
qed

text \<open>Without an empty slot, \<^verbatim>\<open>erase\<close> of a page that is not there never returns, while \<^verbatim>\<open>find_copy\<close> and \<^verbatim>\<open>erase_if\<close> do.\<close>

lemma erase_spins:
  assumes inv: "apt_inv t" and full: "EMPTY_SLOT \<notin> set (apt_slots t)" and none: "apt_abs t pid = None"
  shows "apt_erase n pid t = Inl OutOfSteps"
proof -
  have wf: "apt_wf t" using inv by (simp add: apt_inv_def)
  have ne: "\<not> slot_is_empty (apt_slots t ! i)" if "i < slot_count t" for i
  proof -
    have "apt_slots t ! i \<in> set (apt_slots t)" using wf that by (intro nth_mem) (simp add: apt_wf_def)
    then show ?thesis using full unfolding slot_is_empty_def by metis
  qed
  have no: "\<not> holds t i pid" for i using none apt_abs_None [OF wf] by blast
  have "erase_loop m probed pid t = None" for m probed
  proof (induction m arbitrary: probed)
    case (Suc m)
    have "((slot_idx t pid + probed) AND slot_mask t) = pos t pid probed" "pos t pid probed < slot_count t"
      by (rule apt_wf_mask [OF wf], rule apt_wf_pos [OF wf])
    then show ?case using Suc ne no [of "pos t pid probed"] by (auto simp: Let_def holds_def entry_def)
  qed simp
  then show ?thesis by (induction n) simp_all
qed

text \<open>A sweep only moves its hand, and offers entries of the table.\<close>

lemma sweep_keeps_slots: "apt_slots (fst (snd (apt_sweep_loop n scanned cb t s))) = apt_slots t"
  by (induction n arbitrary: scanned s) (auto simp: Let_def split: prod.splits)

lemma owned_sweep_finds:
  assumes "owned_loop std_hash n scanned start owner_idx owner_count cb t s = (Some idx, s')"
  shows "entry (apt_slots t ! idx) \<and> owner_partition std_hash t (slot_pid (apt_slots t ! idx)) mod owner_count = owner_idx"
  using assms
proof (induction n arbitrary: scanned s)
  case (Suc n)
  then show ?case by (auto simp: Let_def entry_def split: if_splits prod.splits)
qed simp

lemma apt_new_correct:
  assumes "apt_new n k = Inr t"
  shows "apt_inv t" "apt_abs t = Map.empty" "EMPTY_SLOT \<in> set (apt_slots t)"
proof -
  have t: "is_power_of_two n" "slot_count t = n" "slot_mask t = n - 1" "apt_slots t = replicate n EMPTY_SLOT"
    using assms by (auto simp: apt_new_def check_def is_power_of_two_def split: if_splits)
  have "0 < n" using t(1) by auto
  have "\<not> holds t i p" for i p using t(2,4) by (simp add: holds_def entry_def slot_is_empty_def)
  then show "apt_inv t" using t by (simp add: apt_inv_def apt_wf_def)
  show "apt_abs t = Map.empty" by (simp add: apt_abs_def t(4) entry_def slot_is_empty_def)
  show "EMPTY_SLOT \<in> set (apt_slots t)" using \<open>0 < n\<close> by (simp add: t(4))
qed

text \<open>
  C17. Without interference, the shared page table is a map from pages to frames. \<^verbatim>\<open>find_copy\<close> returns what the map
  holds. One round of \<^verbatim>\<open>insert\<close> adds a page that is not there and leaves one that is, unless the page is not there
  and every slot has an entry: then it never returns. One round of \<^verbatim>\<open>erase\<close> removes a page and nothing else,
  whatever tombstones it collapses, and leaves the table when the page is not there and a slot is empty; when the page is not there
  and no slot is empty, which tombstones can bring about, it never returns. The invariant of the probe sequences is kept.
\<close>

theorem page_table_is_a_map:
  assumes "apt_inv t" and "pid < PID_LIMIT" and "bid \<le> BID_MASK"
  shows "find_copy pid t = apt_abs t pid \<and>
    (if apt_abs t pid = None \<and> (\<forall>x \<in> set (apt_slots t). entry x) then \<forall>n. apt_insert n pid bid t = Inl OutOfSteps
     else \<exists>t'. apt_insert 1 pid bid t = Inr (apt_abs t pid = None, t') \<and> apt_inv t' \<and>
       apt_abs t' = (if apt_abs t pid = None then (apt_abs t)(pid \<mapsto> bid) else apt_abs t)) \<and>
    (if apt_abs t pid = None \<and> EMPTY_SLOT \<notin> set (apt_slots t) then \<forall>n. apt_erase n pid t = Inl OutOfSteps
     else \<exists>t'. apt_erase 1 pid t = Inr (apt_abs t pid \<noteq> None, t') \<and> apt_inv t' \<and> apt_abs t' = (apt_abs t)(pid := None))"
proof -
  obtain raw where raw: "slot_pack pid bid = Inr raw" using assms(2,3) by (simp add: slot_pack_def check_def)
  note ins = insert_spins [OF assms(1) raw] apt_insert_correct [OF assms(1) raw, of 0, folded One_nat_def]
  note era = erase_spins [OF assms(1)] apt_erase_correct [OF assms(1), of pid 0, folded One_nat_def]
  from find_copy_correct [OF assms(1)] ins era show ?thesis unfolding if_bool_eq_conj by (intro conjI) blast+
qed

theorem page_table_is_a_map_witness:
  "\<exists>t t1 t2. apt_new 8 2 = Inr t \<and> apt_insert 1 5 3 t = Inr (True, t1) \<and> find_copy 5 t1 = Some 3 \<and> apt_erase 1 5 t = Inr (False, t2)"
proof -
  obtain t where t: "apt_new 8 2 = Inr t" by (simp add: apt_new_def check_def)
  note n = apt_new_correct [OF t]
  have l: "(5 :: u64) < PID_LIMIT" "(3 :: u64) \<le> BID_MASK" by (simp_all add: PID_LIMIT_def BID_MASK_def BID_BITS_def)
  have "\<not> (\<forall>x \<in> set (apt_slots t). entry x)" using n(3) by (auto simp: entry_def slot_is_empty_def)
  with page_table_is_a_map [OF n(1) l] n(2,3)
  obtain t1 t2 where t1: "apt_insert 1 5 3 t = Inr (True, t1)" "apt_inv t1" "apt_abs t1 = [5 \<mapsto> 3]" and t2: "apt_erase 1 5 t = Inr (False, t2)" by auto
  have "find_copy 5 t1 = Some 3" using find_copy_correct [OF t1(2)] t1(3) by simp
  then show ?thesis using t t1(1) t2 by blast
qed

subsection \<open>Interference\<close>

text \<open>
  C40. Two threads that fault on the same page can both publish it. The first searches and finds page 2 in the home
  slot and the slot behind it empty; before its exchange another thread erases page 2, which leaves the home slot
  empty, and a second thread inserts the page there. The exchange of the first still succeeds: both insertions
  have answered that they were first, and the table holds the page twice, with two frames.
\<close>

definition demo_table :: "u64 list \<Rightarrow> AtomicPageTable" where
  "demo_table slots = \<lparr>apt_slots = slots, slot_count = 4, slot_mask = 3, owner_partition_mask = 0, sweep_slot = 0, owner_sweep = [0], owner_sweep_count = 1\<rparr>"

lemma demo_idx: "slot_idx (demo_table xs) 2 = 2" "slot_idx (demo_table xs) 4 = 2"
proof -
  have "unat (splitmix_hash 2) AND 3 = (2 :: nat)" "unat (splitmix_hash 4) AND 3 = (2 :: nat)" by code_simp+
  then show "slot_idx (demo_table xs) 2 = 2" "slot_idx (demo_table xs) 4 = 2" by (simp_all add: slot_idx_def demo_table_def)
qed

lemma demo_fields [simp]:
  "apt_slots (demo_table xs) = xs" "slot_count (demo_table xs) = 4" "slot_mask (demo_table xs) = 3"
  "(demo_table xs)\<lparr>apt_slots := ys\<rparr> = demo_table ys"
  by (simp_all add: demo_table_def)

lemma suc_numerals: "Suc 3 = 4" "Suc 2 = 3"
  by simp_all

lemmas loop_unfold =
  insert_loop.simps(2) [of 3, unfolded suc_numerals] insert_loop.simps(2) [of 2, unfolded suc_numerals]
  erase_loop.simps(2) [of 3, unfolded suc_numerals] collapse_scan.simps(2) [of 2, unfolded suc_numerals]

lemmas slot_tests = slot_is_empty_def slot_is_tombstone_def EMPTY_SLOT_def TOMBSTONE_SLOT_def slot_pid_def slot_bid_def BID_BITS_def BID_MASK_def

lemma demo_runs:
  "insert_probe 2 (demo_table [0, 0, 0, 0]) = Attempt 2 EMPTY_SLOT None"
  "insert_probe 4 (demo_table [0, 0, 0, 0]) = Attempt 2 EMPTY_SLOT None"
  "insert_probe 4 (demo_table [0, 0, 50331649, 0]) = Attempt 3 EMPTY_SLOT None"
  "apt_erase 1 2 (demo_table [0, 0, 50331649, 0]) = Inr (True, demo_table [0, 0, 0, 0])"
  by (simp_all add: insert_probe_def loop_unfold demo_idx slot_tests collapse_tombstone_run_def slot_cas_def)

lemma demo_inv: "apt_inv (demo_table [0, 0, 50331649, 0])"
proof -
  have n: "apt_new 4 1 = Inr (demo_table [0, 0, 0, 0])" by code_simp
  have r: "slot_pack 2 1 = Inr 50331649" by (simp add: slot_pack_def check_def PID_LIMIT_def BID_MASK_def BID_BITS_def)
  have "apt_insert 1 2 1 (demo_table [0, 0, 0, 0]) = Inr (True, demo_table [0, 0, 50331649, 0])"
    by (simp add: apt_insert_def r demo_runs slot_cas_def EMPTY_SLOT_def)
  moreover have "\<exists>x \<in> set (apt_slots (demo_table [0, 0, 0, 0])). \<not> entry x" by (simp add: entry_def slot_is_empty_def EMPTY_SLOT_def)
  ultimately show ?thesis using apt_insert_correct [OF apt_new_correct(1) [OF n] r, of 0] by auto
qed

theorem page_published_twice:
  "\<exists>t t1 t2 t3 packed. apt_inv t \<and> slot_pack 4 11 = Inr packed \<and>
     apt_erase 1 2 t = Inr (True, t1) \<and> apt_insert 1 4 22 t1 = Inr (True, t2) \<and>
     insert_commit (insert_probe 4 t) packed t2 = (Some True, t3) \<and>
     (\<exists>i j. i \<noteq> j \<and> holds t3 i 4 \<and> holds t3 j 4 \<and> slot_bid (apt_slots t3 ! i) = 22 \<and> slot_bid (apt_slots t3 ! j) = 11)"
proof -
  let ?t = "demo_table [0, 0, 50331649, 0]" and ?t1 = "demo_table [0, 0, 0, 0]" and ?t2 = "demo_table [0, 0, 83886102, 0]" and ?t3 = "demo_table [0, 0, 83886102, 83886091]"
  have r: "slot_pack 4 11 = Inr 83886091" "slot_pack 4 22 = Inr 83886102"
    by (simp_all add: slot_pack_def check_def PID_LIMIT_def BID_MASK_def BID_BITS_def)
  have i: "apt_insert 1 4 22 ?t1 = Inr (True, ?t2)" by (simp add: apt_insert_def r demo_runs slot_cas_def EMPTY_SLOT_def)
  have c: "insert_commit (insert_probe 4 ?t) 83886091 ?t2 = (Some True, ?t3)" by (simp add: demo_runs slot_cas_def EMPTY_SLOT_def)
  have h: "holds ?t3 2 4" "holds ?t3 3 4" "slot_bid (apt_slots ?t3 ! 2) = 22" "slot_bid (apt_slots ?t3 ! 3) = 11"
    by (simp_all add: holds_def entry_def slot_tests)
  have "(2 :: nat) \<noteq> 3" by simp
  with demo_inv r(1) demo_runs(4) i c h show ?thesis by blast
qed

end
