(* ===== verification/Mersenne.thy ===== *)
theory Mersenne
  imports Prelude
begin

section \<open>The Mersenne twister\<close>

text \<open>
  The generator of \<^verbatim>\<open>src/src/utils/random.hpp\<close>, which \<^verbatim>\<open>src/src/buffer_mgr/tpcc/random_generator.cpp\<close> repeats with a seed per
  thread, and the uniform numbers and strings the TPC-C workload draws from it. The generator refills its array of 312
  words in place; the reference definition \<open>mt_seq\<close> is the linear recurrence it stands for.
\<close>

unbundle bit_operations_syntax

subsection \<open>The generator\<close>

definition NN :: nat where "NN = 312"
definition MM :: nat where "MM = 156"
definition MATRIX_A :: u64 where "MATRIX_A = 0xB5026F5AA96619E9"
definition UM :: u64 where "UM = 0xFFFFFFFF80000000"
definition LM :: u64 where "LM = 0x7FFFFFFF"
definition mag01 :: "u64 list" where "mag01 = [0, MATRIX_A]"

record MersenneTwister =
  mt :: "u64 list"
  mti :: nat

text \<open>The loop of \<^verbatim>\<open>init\<close>, which starts from an array with any contents.\<close>

definition mt_init_next :: "u64 \<Rightarrow> nat \<Rightarrow> u64" where
  "mt_init_next prev i = 6364136223846793005 * (prev XOR drop_bit 62 prev) + of_nat i"

definition mt_init :: "u64 list \<Rightarrow> u64 \<Rightarrow> MersenneTwister" where
  "mt_init memory seed =
     (let m0 = memory[0 := seed];
          m1 = fold (\<lambda>i m. m[i := mt_init_next (m ! (i - 1)) i]) [1..<NN] m0
      in \<lparr>mt = m1, mti = NN\<rparr>)"

definition mt_twist :: "u64 \<Rightarrow> u64 \<Rightarrow> u64 \<Rightarrow> u64" where
  "mt_twist far upper lower =
     (let x = (upper AND UM) OR (lower AND LM)
      in far XOR drop_bit 1 x XOR mag01 ! unat (x AND 1))"

definition mt_generate :: "u64 list \<Rightarrow> u64 list" where
  "mt_generate m0 =
     (let m1 = fold (\<lambda>i m. m[i := mt_twist (m ! (i + MM)) (m ! i) (m ! (i + 1))]) [0..<NN - MM] m0;
          m2 = fold (\<lambda>i m. m[i := mt_twist (m ! (i + MM - NN)) (m ! i) (m ! (i + 1))]) [NN - MM..<NN - 1] m1
      in m2[NN - 1 := mt_twist (m2 ! (MM - 1)) (m2 ! (NN - 1)) (m2 ! 0)])"

definition mt_temper :: "u64 \<Rightarrow> u64" where
  "mt_temper x0 =
     (let x1 = x0 XOR (drop_bit 29 x0 AND 0x5555555555555555);
          x2 = x1 XOR (push_bit 17 x1 AND 0x71D67FFFEDA60000);
          x3 = x2 XOR (push_bit 37 x2 AND 0xFFF7EEE000000000)
      in x3 XOR drop_bit 43 x3)"

definition rnd :: "MersenneTwister \<Rightarrow> u64 \<times> MersenneTwister" where
  "rnd g =
     (let g1 = (if NN \<le> mti g then \<lparr>mt = mt_generate (mt g), mti = 0\<rparr> else g)
      in (mt_temper (mt g1 ! mti g1), g1\<lparr>mti := mti g1 + 1\<rparr>))"

text \<open>\<open>n\<close> calls in a row.\<close>

fun rnds :: "nat \<Rightarrow> MersenneTwister \<Rightarrow> u64 list \<times> MersenneTwister" where
  "rnds 0 g = ([], g)"
| "rnds (Suc n) g = (let (x, g1) = rnd g; (xs, g2) = rnds n g1 in (x # xs, g2))"

subsection \<open>The generators of the workload\<close>

text \<open>The constructor draws a seed from the counter shared by the threads.\<close>

definition tpcc_generator :: "u64 list \<Rightarrow> u64 \<Rightarrow> u64 \<Rightarrow> MersenneTwister \<times> u64" where
  "tpcc_generator memory seed mt_counter = (mt_init memory (seed + mt_counter), mt_counter + 1)"

text \<open>A remainder by zero is undefined behaviour: the model fails.\<close>

definition getRandU64 :: "u64 \<Rightarrow> u64 \<Rightarrow> MersenneTwister \<Rightarrow> (u64 \<times> MersenneTwister) result" where
  "getRandU64 mn mx g =
     (if mx - mn = 0 then Inl (Throw ''division by zero'')
      else
        let (r, g1) = rnd g;
            rand = mn + r mod (mx - mn)
        in rbind (check (rand < mx) (Assert ''rand < max'')) (\<lambda>_.
           rbind (check (mn \<le> rand) (Assert ''rand >= min'')) (\<lambda>_.
           Inr (rand, g1))))"

fun getRandString :: "nat \<Rightarrow> MersenneTwister \<Rightarrow> (u8 list \<times> MersenneTwister) result" where
  "getRandString 0 g = Inr ([], g)"
| "getRandString (Suc len) g =
     rbind (getRandU64 48 123 g) (\<lambda>(r, g1).
     rbind (getRandString len g1) (\<lambda>(rs, g2).
     Inr (ucast r # rs, g2)))"

subsection \<open>The recurrence\<close>

fun mt_seq :: "u64 \<Rightarrow> nat \<Rightarrow> u64" where
  "mt_seq seed k =
     (if k = 0 then seed
      else if k < 312 then mt_init_next (mt_seq seed (k - 1)) k
      else mt_twist (mt_seq seed (k - 156)) (mt_seq seed (k - 312)) (mt_seq seed (k - 311)))"

declare mt_seq.simps [simp del]

lemma fold_upt_inv:
  assumes "a \<le> b" and "\<And>i. a \<le> i \<Longrightarrow> i < b \<Longrightarrow> f i (L i) = L (Suc i)"
  shows "fold f [a..<b] (L a) = L b"
  using assms by (induction b rule: dec_induct) auto

text \<open>The array while it is refilled: the first \<open>i\<close> words are already those of the next block.\<close>

definition block :: "u64 \<Rightarrow> nat \<Rightarrow> nat \<Rightarrow> u64 list" where
  "block seed c i = map (\<lambda>j. mt_seq seed (if j < i then c + 312 + j else c + j)) [0..<312]"

lemma block_nth: "j < 312 \<Longrightarrow> block seed c i ! j = mt_seq seed (if j < i then c + 312 + j else c + j)"
  and block_length [simp]: "length (block seed c i) = 312"
  by (simp_all add: block_def)

lemma block_step:
  assumes "i < 312" and "v = mt_seq seed (c + 312 + i)"
  shows "(block seed c i)[i := v] = block seed c (Suc i)"
  using assms by (intro nth_equalityI) (auto simp: block_nth nth_list_update)

lemma mt_seq_step: "mt_seq seed (c + 312 + i) = mt_twist (mt_seq seed (c + i + 156)) (mt_seq seed (c + i)) (mt_seq seed (c + i + 1))"
proof -
  have "c + 312 + i - 156 = c + i + 156" "c + 312 + i - 312 = c + i" "c + 312 + i - 311 = c + i + 1" by simp_all
  then show ?thesis by (subst mt_seq.simps) (simp add: add.commute)
qed

lemma mt_generate_block: "mt_generate (block seed c 0) = block seed (c + 312) 0"
proof -
  let ?f1 = "\<lambda>i m. m[i := mt_twist (m ! (i + MM)) (m ! i) (m ! (i + 1))]"
  let ?f2 = "\<lambda>i m. m[i := mt_twist (m ! (i + MM - NN)) (m ! i) (m ! (i + 1))]"
  have 1: "fold ?f1 [0..<156] (block seed c 0) = block seed c 156"
  proof (rule fold_upt_inv)
    fix i :: nat
    assume i: "0 \<le> i" "i < 156"
    then have "mt_twist (block seed c i ! (i + MM)) (block seed c i ! i) (block seed c i ! (i + 1)) = mt_seq seed (c + 312 + i)"
      unfolding mt_seq_step by (simp add: block_nth MM_def add.assoc)
    then show "?f1 i (block seed c i) = block seed c (Suc i)" using i by (intro block_step) simp_all
  qed simp
  have 2: "fold ?f2 [156..<311] (block seed c 156) = block seed c 311"
  proof (rule fold_upt_inv)
    fix i :: nat
    assume i: "156 \<le> i" "i < 311"
    then have "c + 312 + (i + MM - NN) = c + i + 156" by (simp add: MM_def NN_def)
    then have "mt_twist (block seed c i ! (i + MM - NN)) (block seed c i ! i) (block seed c i ! (i + 1)) = mt_seq seed (c + 312 + i)"
      unfolding mt_seq_step using i by (simp add: block_nth MM_def NN_def ac_simps)
    then show "?f2 i (block seed c i) = block seed c (Suc i)" using i by (intro block_step) simp_all
  qed simp
  have 3: "(block seed c 311)[311 := mt_twist (block seed c 311 ! 155) (block seed c 311 ! 311) (block seed c 311 ! 0)] = block seed c (Suc 311)"
    using mt_seq_step [of seed c 311] by (intro block_step) (simp_all add: block_nth add.commute)
  have 4: "block seed c (Suc 311) = block seed (c + 312) 0"
    by (rule nth_equalityI) (simp_all add: block_nth)
  have n: "NN - MM = 156" "NN - 1 = 311" "MM - 1 = 155" by (simp_all add: NN_def MM_def)
  show ?thesis unfolding mt_generate_def Let_def n 1 2 3 4 by (rule refl)
qed

text \<open>The array while it is filled for the first time.\<close>

definition filled :: "u64 list \<Rightarrow> u64 \<Rightarrow> nat \<Rightarrow> u64 list" where
  "filled memory seed i = map (\<lambda>j. if j < i then mt_seq seed j else memory ! j) [0..<312]"

lemma filled_nth: "j < 312 \<Longrightarrow> filled memory seed i ! j = (if j < i then mt_seq seed j else memory ! j)"
  and filled_length [simp]: "length (filled memory seed i) = 312"
  by (simp_all add: filled_def)

lemma mt_init_block:
  assumes "length memory = NN"
  shows "mt_init memory seed = \<lparr>mt = block seed 0 0, mti = NN\<rparr>"
proof -
  have 1: "memory[0 := seed] = filled memory seed 1"
    using assms mt_seq.simps [of seed 0] by (intro nth_equalityI) (auto simp: nth_list_update NN_def filled_nth)
  have 2: "fold (\<lambda>i m. m[i := mt_init_next (m ! (i - 1)) i]) [1..<NN] (filled memory seed 1) = filled memory seed NN"
  proof (rule fold_upt_inv)
    fix i :: nat
    assume i: "1 \<le> i" "i < NN"
    then have "mt_init_next (mt_seq seed (i - 1)) i = mt_seq seed i" using mt_seq.simps [of seed i] by (simp add: NN_def)
    then show "(filled memory seed i)[i := mt_init_next (filled memory seed i ! (i - 1)) i] = filled memory seed (Suc i)"
      using i by (intro nth_equalityI) (auto simp: nth_list_update filled_nth NN_def)
  qed (simp add: NN_def)
  have 3: "filled memory seed NN = block seed 0 0" by (rule nth_equalityI) (simp_all add: block_nth filled_nth NN_def)
  show ?thesis unfolding mt_init_def Let_def 1 2 3 by (rule refl)
qed

definition mt_at :: "u64 \<Rightarrow> nat \<Rightarrow> MersenneTwister \<Rightarrow> bool" where
  "mt_at seed k g \<longleftrightarrow> (\<exists>c. mt g = block seed c 0 \<and> mti g \<le> 312 \<and> c + mti g = k)"

lemma rnd_next:
  assumes "mt_at seed k g"
  shows "\<exists>g'. rnd g = (mt_temper (mt_seq seed k), g') \<and> mt_at seed (Suc k) g'"
proof -
  obtain c where c: "mt g = block seed c 0" "mti g \<le> 312" "c + mti g = k" using assms by (auto simp: mt_at_def)
  show ?thesis
  proof (cases "mti g = 312")
    case True
    have "block seed (c + 312) 0 ! 0 = mt_seq seed k" using c(3) True by (simp add: block_nth)
    then show ?thesis using True c mt_generate_block [of seed c] by (auto simp: rnd_def NN_def mt_at_def Let_def intro!: exI [of _ "c + 312"])
  next
    case False
    then show ?thesis using c by (auto simp: rnd_def NN_def mt_at_def block_nth)
  qed
qed

lemma rnds_correct:
  assumes "mt_at seed k g"
  shows "fst (rnds n g) = map (\<lambda>i. mt_temper (mt_seq seed (k + i))) [0..<n] \<and> mt_at seed (k + n) (snd (rnds n g))"
  using assms
proof (induction n arbitrary: k g)
  case (Suc n)
  obtain g' where g: "rnd g = (mt_temper (mt_seq seed k), g')" "mt_at seed (Suc k) g'" using rnd_next [OF Suc.prems] by blast
  have "map (\<lambda>i. mt_temper (mt_seq seed (k + i))) [0..<Suc n] = mt_temper (mt_seq seed k) # map (\<lambda>i. mt_temper (mt_seq seed (Suc k + i))) [0..<n]"
    by (simp add: upt_conv_Cons map_Suc_upt [symmetric] del: upt_Suc)
  then show ?case using Suc.IH [OF g(2)] g(1) by (simp add: split_beta)
qed simp

text \<open>
  C35. The generator computes its recurrence: whatever the array held before, the \<open>n\<close>-th number a fresh generator returns is
  the tempered term \<open>312 + n\<close> of the linear recurrence, although the array is refilled in place and in blocks.
\<close>

theorem twister_is_recurrence:
  assumes "length memory = NN"
  shows "fst (rnds n (mt_init memory seed)) = map (\<lambda>i. mt_temper (mt_seq seed (312 + i))) [0..<n]"
proof -
  have "mt_at seed 312 (mt_init memory seed)"
    unfolding mt_init_block [OF assms] mt_at_def by (rule exI [of _ 0]) (simp add: NN_def)
  then show ?thesis by (rule conjunct1 [OF rnds_correct])
qed

theorem twister_is_recurrence_witness:
  "fst (rnds 400 (mt_init (replicate NN 0) 19650218)) ! 399 = mt_temper (mt_seq 19650218 711)"
  using twister_is_recurrence [of "replicate NN 0" 400 19650218] by simp

text \<open>A number drawn from a range lies in it, and no assertion fails, when the range is not empty.\<close>

lemma getRandU64_in_range:
  assumes "mn < mx"
  shows "\<exists>r g'. getRandU64 mn mx g = Inr (r, g') \<and> mn \<le> r \<and> r < mx"
proof -
  obtain x g' where x: "rnd g = (x, g')" by fastforce
  have d: "unat (mx - mn) = unat mx - unat mn" "unat mn < unat mx"
    using unat_sub [OF less_imp_le [OF assms]] assms by (simp_all add: word_less_nat_alt)
  have m: "unat (x mod (mx - mn)) < unat mx - unat mn" unfolding unat_mod_distrib d(1) using d(2) by simp
  then have "unat mn + unat (x mod (mx - mn)) < unat mx" using d(2) by linarith
  moreover have "unat mx < 2 ^ 64" using unsigned_less [of mx] by simp
  ultimately have "unat (mn + x mod (mx - mn)) = unat mn + unat (x mod (mx - mn))" by (simp add: unat_word_ariths(1))
  then have "mn + x mod (mx - mn) < mx" "mn \<le> mn + x mod (mx - mn)" using m d by (simp_all add: word_less_nat_alt word_le_nat_alt)
  moreover have "mx - mn \<noteq> 0" using assms by auto
  ultimately show ?thesis by (simp add: getRandU64_def x check_def)
qed

lemma getRandString_length: "\<exists>rs g'. getRandString len g = Inr (rs, g') \<and> length rs = len"
proof (induction len arbitrary: g)
  case (Suc len)
  have "(48 :: u64) < 123" by simp
  then obtain r g1 where r: "getRandU64 48 123 g = Inr (r, g1)" using getRandU64_in_range [of 48 123 g] by blast
  then show ?case using Suc [of g1] by fastforce
qed simp

end
