(* ===== verification/Small_Utils.thy ===== *)
theory Small_Utils
  imports Prelude
begin

section \<open>Small utilities\<close>

text \<open>
  \<^verbatim>\<open>src/src/utils/range_helper.hpp\<close>, \<^verbatim>\<open>src/src/utils/tagged_pointer.hpp\<close>, \<^verbatim>\<open>src/src/shuffle/mini_alloc.hpp\<close> and the integer
  functions of \<^verbatim>\<open>src/src/utils/utils.hpp\<close>: how a range is cut into chunks, pointers that carry a tag, the bump allocator of the
  shuffle, powers of two and logarithms. Addresses and sizes are 64-bit words and wrap.
\<close>

unbundle bit_operations_syntax

subsection \<open>\<^verbatim>\<open>RangeHelper\<close>\<close>

definition nth_chunk :: "u64 \<Rightarrow> u64 \<Rightarrow> u64 \<Rightarrow> u64 \<Rightarrow> u64 \<times> u64" where
  "nth_chunk start end' chunks n =
     (let total_size = end' - start;
          left = total_size mod chunks;
          p_size = (total_size - left) div chunks;
          offset = start + min n left;
          s = offset + p_size * n;
          e = offset + p_size * (n + 1) + (if n < left then 1 else 0)
      in (s, e))"

text \<open>Where a chunk starts, in natural numbers.\<close>

definition chunk_start :: "nat \<Rightarrow> nat \<Rightarrow> nat \<Rightarrow> nat \<Rightarrow> nat" where
  "chunk_start a b c k = a + min k ((b - a) mod c) + (b - a) div c * k"

lemma chunk_start_0: "chunk_start a b c 0 = a"
  by (simp add: chunk_start_def)

lemma chunk_start_all:
  assumes "0 < c" and "a \<le> b"
  shows "chunk_start a b c c = b"
proof -
  have "(b - a) mod c < c" using assms(1) by simp
  then have "min c ((b - a) mod c) = (b - a) mod c" by simp
  then show ?thesis using assms(2) div_mult_mod_eq [of "b - a" c] by (simp add: chunk_start_def)
qed

lemma chunk_start_Suc: "chunk_start a b c (Suc k) = chunk_start a b c k + (b - a) div c + (if k < (b - a) mod c then 1 else 0)"
  by (simp add: chunk_start_def)

lemma chunk_start_mono: "k \<le> l \<Longrightarrow> chunk_start a b c k \<le> chunk_start a b c l"
  unfolding chunk_start_def by (intro add_mono mult_le_mono2) auto

lemma nth_chunk_value:
  assumes "start \<le> end'" and "0 < chunks" and "n < chunks"
  shows "nth_chunk start end' chunks n =
    (of_nat (chunk_start (unat start) (unat end') (unat chunks) (unat n)), of_nat (chunk_start (unat start) (unat end') (unat chunks) (Suc (unat n))))"
proof -
  let ?t = "end' - start"
  have t: "unat ?t = unat end' - unat start" using assms(1) by (rule unat_sub)
  have l: "unat (?t mod chunks) = unat ?t mod unat chunks" by (rule unat_mod_distrib)
  have le: "?t mod chunks \<le> ?t" by (simp add: word_le_nat_alt l)
  have d: "unat ((?t - ?t mod chunks) div chunks) = unat ?t div unat chunks"
    unfolding unat_div_distrib unat_sub [OF le] l by (cases "unat chunks = 0") (simp_all add: minus_mod_eq_div_mult)
  have p: "(?t - ?t mod chunks) div chunks = of_nat (unat ?t div unat chunks)" unfolding d [symmetric] by simp
  have "of_nat (unat ?t mod unat chunks) = ?t mod chunks" unfolding l [symmetric] by simp
  then have m: "min n (?t mod chunks) = of_nat (min (unat n) (unat ?t mod unat chunks))"
    by (simp add: min_def word_le_nat_alt l)
  have c: "n < ?t mod chunks \<longleftrightarrow> unat n < unat ?t mod unat chunks" by (simp add: word_less_nat_alt l)
  have n: "n = of_nat (unat n)" "start = of_nat (unat start)" by simp_all
  show ?thesis
    unfolding nth_chunk_def Let_def p m c chunk_start_Suc
    by (subst (1 2 3) n(1), subst (1 2) n(2)) (simp add: chunk_start_def t algebra_simps)
qed

text \<open>The chunks of a range tile it: each ends where the next starts, the first starts and the last ends with the range, and sizes differ by at most one.\<close>

lemma chunks_tile:
  assumes "start \<le> end'" and "0 < chunks"
  shows "fst (nth_chunk start end' chunks 0) = start" "snd (nth_chunk start end' chunks (chunks - 1)) = end'"
    "n + 1 < chunks \<Longrightarrow> n < n + 1 \<Longrightarrow> snd (nth_chunk start end' chunks n) = fst (nth_chunk start end' chunks (n + 1))"
proof -
  have c: "0 < unat chunks" using assms(2) by (simp add: word_less_nat_alt)
  show "fst (nth_chunk start end' chunks 0) = start"
    using nth_chunk_value [OF assms, of 0] assms(2) by (simp add: chunk_start_0)
  have "unat (chunks - 1) = unat chunks - 1" using c by (simp add: unat_sub word_le_nat_alt)
  moreover have "chunks - 1 < chunks" using c by (simp add: word_less_nat_alt calculation)
  ultimately show "snd (nth_chunk start end' chunks (chunks - 1)) = end'"
    using nth_chunk_value [OF assms, of "chunks - 1"] c chunk_start_all [OF c] assms(1) by (simp add: word_le_nat_alt)
  show "n + 1 < chunks \<Longrightarrow> n < n + 1 \<Longrightarrow> snd (nth_chunk start end' chunks n) = fst (nth_chunk start end' chunks (n + 1))"
  proof -
    assume n: "n + 1 < chunks" "n < n + 1"
    then have "unat (n + 1) = Suc (unat n)" by (simp add: word_less_nat_alt unat_word_ariths(1) mod_Suc split: if_splits)
    then show ?thesis using nth_chunk_value [OF assms, of n] nth_chunk_value [OF assms n(1)] n by simp
  qed
qed

subsection \<open>\<^verbatim>\<open>TaggedPointer\<close>\<close>

definition tagMask :: "u64 \<Rightarrow> u64" where "tagMask alignedTo = alignedTo - 1"
definition pointerMask :: "u64 \<Rightarrow> u64" where "pointerMask alignedTo = NOT (tagMask alignedTo)"

definition tp_set :: "u64 \<Rightarrow> u64 \<Rightarrow> u64 \<Rightarrow> u64 result" where
  "tp_set alignedTo pointer tag =
     rbind (check ((pointer AND tagMask alignedTo) = 0) (Assert ''pointer & tagMask'')) (\<lambda>_.
     rbind (check ((tag AND pointerMask alignedTo) = 0) (Assert ''tag & pointerMask'')) (\<lambda>_.
     Inr (pointer OR tag)))"

definition tp_from_u64 :: "u64 \<Rightarrow> u64" where "tp_from_u64 v = v"
definition tp_as_u64 :: "u64 \<Rightarrow> u64" where "tp_as_u64 bits = bits"
definition getPointer :: "u64 \<Rightarrow> u64 \<Rightarrow> u64" where "getPointer alignedTo bits = (bits AND pointerMask alignedTo)"
definition getTag :: "u64 \<Rightarrow> u64 \<Rightarrow> u64" where "getTag alignedTo bits = (bits AND tagMask alignedTo)"

text \<open>What goes in comes out.\<close>

lemma tagged_pointer_roundtrip:
  assumes "tp_set alignedTo pointer tag = Inr bits"
  shows "getPointer alignedTo (tp_from_u64 (tp_as_u64 bits)) = pointer" "getTag alignedTo (tp_from_u64 (tp_as_u64 bits)) = tag"
proof -
  have b: "(pointer AND tagMask alignedTo) = 0" "(tag AND NOT (tagMask alignedTo)) = 0" "bits = (pointer OR tag)"
    using assms by (auto simp: tp_set_def check_def pointerMask_def split: if_splits)
  have p: "\<not> (bit pointer n \<and> bit (tagMask alignedTo) n)" for n using b(1) by (metis bit_0_eq bit_and_iff bot_apply bot_bool_def)
  have t: "n < 64 \<Longrightarrow> bit tag n \<Longrightarrow> bit (tagMask alignedTo) n" for n
    using b(2) by (metis (mono_tags) bit_0_eq bit_and_iff bit_not_iff bot_apply bot_bool_def possible_bit_word len_num0 len_num1 len_bit0 bit_imp_possible_bit)
  show "getPointer alignedTo (tp_from_u64 (tp_as_u64 bits)) = pointer"
    by (rule bit_word_eqI) (use p t in \<open>auto simp: getPointer_def tp_from_u64_def tp_as_u64_def pointerMask_def b(3) bit_simps\<close>)
  show "getTag alignedTo (tp_from_u64 (tp_as_u64 bits)) = tag"
    by (rule bit_word_eqI) (use p t in \<open>auto simp: getTag_def tp_from_u64_def tp_as_u64_def b(3) bit_simps\<close>)
qed

subsection \<open>\<^verbatim>\<open>MiniAlloc\<close>\<close>

record MiniAlloc =
  ma_offset :: u64
  ma_max_size :: u64
  ma_mem :: u64

definition ma_new :: "u64 \<Rightarrow> u64 \<Rightarrow> u64 \<Rightarrow> MiniAlloc" where
  "ma_new mem max_size offset = \<lparr>ma_offset = offset, ma_max_size = max_size, ma_mem = mem\<rparr>"

text \<open>A call returns the local address and the remote offset.\<close>

definition ma_allocate :: "u64 \<Rightarrow> MiniAlloc \<Rightarrow> ((u64 \<times> u64) \<times> MiniAlloc) result" where
  "ma_allocate sz a =
     (let local_ptr = ma_mem a + ma_offset a;
          remote_offset = ma_offset a;
          a1 = a\<lparr>ma_offset := ma_offset a + sz\<rparr>
      in rbind (check (ma_offset a1 \<le> ma_max_size a1) (Ensure ''Out of bounds'')) (\<lambda>_.
         Inr ((local_ptr, remote_offset), a1)))"

definition allocate_memory :: "u64 \<Rightarrow> u64 \<Rightarrow> MiniAlloc \<Rightarrow> ((u64 \<times> u64) \<times> MiniAlloc) result" where
  "allocate_memory alignment sz a =
     (let padding = (alignment - (ma_offset a mod alignment)) mod alignment;
          a1 = a\<lparr>ma_offset := ma_offset a + padding\<rparr>;
          local_ptr = ma_mem a1 + ma_offset a1;
          remote_offset = ma_offset a1;
          a2 = a1\<lparr>ma_offset := ma_offset a1 + sz\<rparr>
      in rbind (check (ma_offset a2 \<le> ma_max_size a2) (Ensure ''Out of bounds'')) (\<lambda>_.
         Inr ((local_ptr, remote_offset), a2)))"

text \<open>The three typed allocations; the alignment and the size of the type are arguments.\<close>

definition create_flexible :: "u64 \<Rightarrow> u64 \<Rightarrow> MiniAlloc \<Rightarrow> ((u64 \<times> u64) \<times> MiniAlloc) result" where
  "create_flexible align_of total_size a = allocate_memory align_of total_size a"

definition allocate_array :: "u64 \<Rightarrow> u64 \<Rightarrow> u64 \<Rightarrow> MiniAlloc \<Rightarrow> ((u64 \<times> u64) \<times> MiniAlloc) result" where
  "allocate_array align_of size_of items a = allocate_memory align_of (size_of * items) a"

definition ma_create :: "u64 \<Rightarrow> u64 \<Rightarrow> MiniAlloc \<Rightarrow> ((u64 \<times> u64) \<times> MiniAlloc) result" where
  "ma_create align_of size_of a = allocate_memory align_of size_of a"

lemma padding_aligns: "0 < m \<Longrightarrow> (x + (m - x mod m) mod m) mod m = 0 \<and> (m - x mod m) mod m < m" for m x :: nat
proof -
  assume m: "0 < m"
  have "(x + (m - x mod m) mod m) mod m = (x mod m + (m - x mod m)) mod m" by (simp add: mod_simps)
  also have "x mod m + (m - x mod m) = m" using m mod_less_divisor [OF m, of x] by linarith
  finally show ?thesis using m by simp
qed

text \<open>
  While no sum wraps, an allocation is aligned, starts at or after the end of the one before, ends at the new offset, and fails
  exactly when it would end behind the memory.
\<close>

lemma allocate_memory_correct:
  assumes al: "0 < alignment" and nowrap: "unat (ma_offset a) + unat alignment + unat sz < 2 ^ 64"
  shows "\<exists>r. unat r mod unat alignment = 0 \<and> unat (ma_offset a) \<le> unat r \<and> unat r < unat (ma_offset a) + unat alignment \<and>
    allocate_memory alignment sz a =
      (if unat r + unat sz \<le> unat (ma_max_size a) then Inr ((ma_mem a + r, r), a\<lparr>ma_offset := r + sz\<rparr>) else Inl (Ensure ''Out of bounds''))
    \<and> unat (r + sz) = unat r + unat sz"
proof -
  let ?o = "ma_offset a" and ?p = "(alignment - (ma_offset a mod alignment)) mod alignment"
  let ?r = "?o + ?p"
  have m: "0 < unat alignment" using al by (simp add: word_less_nat_alt)
  have om: "unat (?o mod alignment) = unat ?o mod unat alignment" by (rule unat_mod_distrib)
  have "?o mod alignment \<le> alignment" using m by (simp add: word_le_nat_alt om less_imp_le)
  then have p: "unat ?p = (unat alignment - unat ?o mod unat alignment) mod unat alignment"
    unfolding unat_mod_distrib by (simp add: unat_sub om)
  note pa = padding_aligns [OF m, of "unat ?o"]
  have r: "unat ?r = unat ?o + unat ?p" using nowrap pa p by (simp add: unat_word_ariths(1))
  have s: "unat (?r + sz) = unat ?r + unat sz" using nowrap pa p r by (simp add: unat_word_ariths(1))
  show ?thesis
  proof (intro exI [of _ ?r] conjI)
    show "unat ?r mod unat alignment = 0" "unat ?o \<le> unat ?r" "unat ?r < unat ?o + unat alignment" using r pa p by simp_all
    show "allocate_memory alignment sz a =
      (if unat ?r + unat sz \<le> unat (ma_max_size a) then Inr ((ma_mem a + ?r, ?r), a\<lparr>ma_offset := ?r + sz\<rparr>) else Inl (Ensure ''Out of bounds''))"
      using s by (simp add: allocate_memory_def Let_def check_def word_le_nat_alt)
  qed (rule s)
qed

subsection \<open>Powers of two, logarithms, differences\<close>

text \<open>\<^verbatim>\<open>std::bit_width\<close>: the number of binary digits.\<close>

fun bit_width :: "nat \<Rightarrow> nat" where
  "bit_width n = (if n = 0 then 0 else Suc (bit_width (n div 2)))"

declare bit_width.simps [simp del]

definition ceil_pow2 :: "u64 \<Rightarrow> u64" where
  "ceil_pow2 n =
     (if n \<le> 1 then 1
      else if n > push_bit 63 1 then 0
      else push_bit (bit_width (unat (n - 1))) 1)"

fun ilog2_loop :: "nat \<Rightarrow> int \<Rightarrow> int" where
  "ilog2_loop i l = (if i = 0 then l else ilog2_loop (i div 2) (l + 1))"

declare ilog2_loop.simps [simp del]

definition ilog2 :: "u32 \<Rightarrow> int" where "ilog2 i = ilog2_loop (unat i) (- 1)"

definition diff_call :: "u64 \<Rightarrow> u64 \<Rightarrow> u64 \<times> u64" where
  "diff_call current last' = (current - last', current)"

definition count_true :: "bool list \<Rightarrow> nat" where
  "count_true args = sum_list (map (\<lambda>a. if a then 1 else 0) args)"

lemma bit_width_bounds: "n < 2 ^ bit_width n \<and> (0 < n \<longrightarrow> 2 ^ bit_width n \<le> 2 * n)"
proof (induction n rule: bit_width.induct)
  case (1 n)
  show ?case
  proof (cases "n = 0")
    case False
    have ih: "n div 2 < 2 ^ bit_width (n div 2)" "0 < n div 2 \<longrightarrow> 2 ^ bit_width (n div 2) \<le> 2 * (n div 2)" using 1 False by simp_all
    have b: "bit_width n = Suc (bit_width (n div 2))" using False by (simp add: bit_width.simps [of n])
    show ?thesis
    proof (cases "n = 1")
      case True
      then show ?thesis by (simp add: bit_width.simps)
    next
      case ne: False
      then have "0 < n div 2" using False by simp
      then have "2 ^ bit_width (n div 2) \<le> 2 * (n div 2)" using ih(2) by simp
      moreover have "n = 2 * (n div 2) + n mod 2" "n mod 2 < 2" by simp_all
      ultimately show ?thesis unfolding b power_Suc using ih(1) by linarith
    qed
  qed (simp add: bit_width.simps)
qed

text \<open>\<^verbatim>\<open>next_pow2\<close> gives the least power of two that is not below its argument.\<close>

lemma ceil_pow2_correct:
  assumes "n \<le> push_bit 63 1"
  shows "\<exists>k. unat (ceil_pow2 n) = 2 ^ k \<and> unat n \<le> 2 ^ k \<and> (1 < n \<longrightarrow> 2 ^ k < 2 * unat n)"
proof (cases "n \<le> 1")
  case True
  then have "unat (ceil_pow2 n) = 2 ^ 0" "unat n \<le> 2 ^ 0" "\<not> 1 < n"
    by (simp_all add: ceil_pow2_def word_le_nat_alt linorder_not_less)
  then show ?thesis by blast
next
  case False
  let ?k = "bit_width (unat (n - 1))"
  have n: "1 < unat n" "unat n \<le> 2 ^ 63" using False assms by (simp_all add: word_le_nat_alt)
  have m: "unat (n - 1) = unat n - 1" using n by (simp add: unat_sub word_le_nat_alt)
  have b: "unat n - 1 < 2 ^ ?k" "2 ^ ?k \<le> 2 * (unat n - 1)" using bit_width_bounds [of "unat n - 1"] n m by simp_all
  then have "(2 :: nat) ^ ?k < 2 ^ LENGTH(64)" using n by simp
  moreover have "of_nat (2 ^ ?k) = (push_bit ?k 1 :: u64)" by (simp add: push_bit_of_1)
  ultimately have "unat (push_bit ?k 1 :: u64) = 2 ^ ?k" by (intro of_nat_inverse)
  then have "unat (ceil_pow2 n) = 2 ^ ?k" using False assms by (simp add: ceil_pow2_def not_less)
  moreover have "unat n \<le> 2 ^ ?k" "2 ^ ?k < 2 * unat n" using b n(1) by linarith+
  ultimately show ?thesis by blast
qed

lemma ilog2_loop_width: "ilog2_loop i l = l + int (bit_width i)"
  by (induction i l rule: ilog2_loop.induct) (subst ilog2_loop.simps, subst bit_width.simps, simp)

lemma ilog2_correct:
  assumes "0 < i"
  shows "0 \<le> ilog2 i" "2 ^ nat (ilog2 i) \<le> unat i" "unat i < 2 ^ Suc (nat (ilog2 i))"
proof -
  have i: "0 < unat i" using assms by (simp add: word_less_nat_alt)
  have w: "bit_width (unat i) = Suc (bit_width (unat i div 2))" using i by (simp add: bit_width.simps [of "unat i"])
  have "ilog2 i = int (bit_width (unat i div 2))" by (simp add: ilog2_def ilog2_loop_width w)
  then show "0 \<le> ilog2 i" "2 ^ nat (ilog2 i) \<le> unat i" "unat i < 2 ^ Suc (nat (ilog2 i))"
    using bit_width_bounds [of "unat i"] i w by simp_all
qed

end
