(* ===== verification/Spec2Isabelle.thy ===== *)
theory Spec2Isabelle
  imports Ring_Buffers Tree_On_Buffer Tpcc_Keys Remote_Scan Latency Chained_Batch Page_State Free_Frames Wake_Paths Atomic_Page_Table Mersenne Small_Utils
begin

text \<open>
  A verification library for the storage engines and utilities of this repository: a buffer manager on io_uring with a
  B-tree, for one thread (\<^verbatim>\<open>src/src/buffer_mgr\<close>) and for many (\<^verbatim>\<open>src/src/buffer_mgr/mt\<close>), the
  address arithmetic of a remote scan (\<^verbatim>\<open>src/src/remotescan\<close>), the hash table and allocator of a shuffle
  (\<^verbatim>\<open>src/src/shuffle\<close>, \<^verbatim>\<open>src/src/utils\<close>) and the data structures they share.

  \<^bold>\<open>How the parts fit together.\<close> The single-threaded engine is a stack of layers. The page table
  \<^verbatim>\<open>RHBSU64Map\<close> maps pages to frames; the buffer manager fixes, loads and evicts pages; guards fix a page for the time of
  a scope; the B-tree descends through guards and changes slotted pages. Each layer is proved against an interface of the layer below
  it: \<open>u64_map\<close> for the hash tables, \<open>page_buffer\<close>, \<open>page_frames\<close> and \<open>frame_buffer\<close> for the
  buffer manager. The buffer manager of \<^verbatim>\<open>bm.cpp\<close> interprets the last three, so the theorems on the tree hold for the
  tree on this buffer manager. Of the multi-threaded engine the parts that threads share are modelled one by one: the lock word of a
  page, the page table, the free frames and the wake-ups of fibers.

  \<^bold>\<open>Conventions.\<close> Structs are records, enumerations datatypes, fixed-width integers words. A failed
  \<^verbatim>\<open>ensure\<close> or \<^verbatim>\<open>assert\<close> and a C++ exception are values of \<open>fail\<close>; fallible code returns
  \<open>'a result\<close>. Memory is a list of bytes where the code computes with addresses (the slotted page), and otherwise the values it
  holds. Definitions keep the names of the code; a prefix such as \<open>rh_\<close>, \<open>spsc_\<close>, \<open>apt_\<close> or
  \<open>bm_\<close> tells apart methods of the same name. Floating-point numbers of the configuration, the hash \<^verbatim>\<open>std::hash\<close>,
  uninitialised memory and the contents of devices are arguments.

  \<^bold>\<open>Theories of the single-threaded engine.\<close>
  \<^item> \<open>Prelude\<close>, \<open>Bytes\<close>, \<open>Map_Interface\<close>: machine types, failures, masks and windows; byte strings,
    \<^verbatim>\<open>memcmp\<close>, \<^verbatim>\<open>head\<close> and \<^verbatim>\<open>loadUnaligned\<close> of \<^verbatim>\<open>utils.hpp\<close>; the
    interface of a map with 64-bit keys.
  \<^item> \<open>Ring_Buffers\<close>: \<^verbatim>\<open>spsc_ring.hpp\<close>, \<^verbatim>\<open>ring.hpp\<close>, \<^verbatim>\<open>stack.hpp\<close>. The
    rings are bounded queues, also when their counters wrap.
  \<^item> \<open>Rh_Map\<close>, \<open>Rh_Map_Proofs\<close>, \<open>Rh_Map_Sweep\<close>: \<^verbatim>\<open>rh_backshift_u64_map.hpp\<close>. Robin-hood
    insertion and backshift deletion implement a map, an insertion succeeds while a slot is free and there are fewer than 254 entries,
    the clock sweep offers every entry once.
  \<^item> \<open>Btree_Node\<close>, \<open>Btree_Search\<close>, \<open>Btree_Update\<close>, \<open>Btree_Remove\<close>, \<open>Btree_Split\<close>,
    \<open>Btree_Merge\<close>, \<open>Btree_Page\<close>: the slotted page of \<^verbatim>\<open>btree_node.hpp\<close>, byte by byte. Its operations
    are operations on a sorted list of entries between two fence keys. Their assertions hold but for one: a leaf with two entries cannot be
    split, and two of the largest entries the code accepts can fill a leaf.
  \<^item> \<open>Page_Guards\<close>, \<open>Btree_Ops\<close>: \<^verbatim>\<open>guards.hpp\<close>, \<^verbatim>\<open>types.hpp\<close>,
    \<^verbatim>\<open>btree.hpp\<close> and \<^verbatim>\<open>btree.cpp\<close>, over any provider of pages.
  \<^item> \<open>Btree_Tree\<close>, \<open>Btree_Grow\<close>, \<open>Btree_Shrink\<close>, \<open>Btree_Find\<close>, \<open>Btree_Walk\<close>,
    \<open>Btree_Insert\<close>, \<open>Btree_Delete\<close>, \<open>Btree_Run\<close>, \<open>Btree_New\<close>: what a tree of pages is and that lookup,
    update, insertion with splits, removal with merges and construction do what they do on a map from keys to values. Such a tree has keys of one length, and entries
    of at most 789 bytes of key and value where the code accepts 995: up to 789 bytes a full leaf has at least three entries, so that it can be
    split, and the length of a separator is bounded by that of a key.
  \<^item> \<open>Buffer_Manager\<close>, \<open>Buffer_Proofs\<close>, \<open>Buffer_Laws\<close>: \<^verbatim>\<open>bm.hpp\<close> and \<^verbatim>\<open>bm.cpp\<close>; the
    invariant of page table, frames and free list, the contents of the pages whether cached or on the device, and the interpretation of
    the interfaces.
  \<^item> \<open>Tree_Idle\<close>, \<open>Tree_On_Buffer\<close>: the properties of the tree on the buffer manager.

  \<^bold>\<open>Theories of the multi-threaded engine.\<close>
  \<^item> \<open>Page_State\<close>: \<^verbatim>\<open>mt/concurrency.hpp\<close>. A step relation with one atomic access per step gives mutual exclusion
    and the validity of optimistic reads, as long as a frame is rebound only while no thread has it locked and nothing happens between the two
    accesses of \<^verbatim>\<open>rebind_locked\<close>. The code does not enforce this, and both fail without it.
  \<^item> \<open>Atomic_Page_Table\<close>: \<^verbatim>\<open>AtomicPageTable\<close> of \<^verbatim>\<open>mt/bm.hpp\<close>. Without interference it is a map,
    as long as a slot is empty; with interference a page can be published twice.
  \<^item> \<open>Free_Frames\<close>: the free lists, pools and waiters of \<^verbatim>\<open>mt/bm.cpp\<close>. Frames and fibers are conserved.
  \<^item> \<open>Wake_Paths\<close>: the wake matrix and the waiters of a page read in \<^verbatim>\<open>mt/bm.hpp\<close> and
    \<^verbatim>\<open>mt/bm.cpp\<close>. No wake-up is lost or doubled.
  \<^item> \<open>Chained_Map\<close>, \<open>Chained_Batch\<close>: \<^verbatim>\<open>mt/rh_chained_u64_map.hpp\<close> and \<^verbatim>\<open>utils/hashtable.hpp\<close>. Both
    tables are maps, and a batched build gives the table of single insertions.

  \<^bold>\<open>Theories of the other parts.\<close>
  \<^item> \<open>Fold_Types\<close>, \<open>Tpcc_Keys\<close>: \<^verbatim>\<open>tpcc/types.hpp\<close>, \<^verbatim>\<open>tpcc/types.cpp\<close>,
    \<^verbatim>\<open>tpcc/schema.hpp\<close>. Folded keys compare as the keys do and unfold to them, through the interface
    \<open>key_codec\<close>.
  \<^item> \<open>Remote_Scan\<close>: \<^verbatim>\<open>remotescan/config.cpp\<close>, \<^verbatim>\<open>remotescan/raid.cpp\<close>,
    \<^verbatim>\<open>utils/types.cpp\<close>. The workers share the scan without gap or overlap; the striping is injective and stays within the
    drives. A request fails if the request size does not divide the stripe size.
  \<^item> \<open>Latency\<close>: \<^verbatim>\<open>utils/latency.hpp\<close>; range, order and relative error of the histogram, with everything from
    \<open>2 ^ 34\<close> nanoseconds on in the last counter.
  \<^item> \<open>Mersenne\<close>: \<^verbatim>\<open>utils/random.hpp\<close> and \<^verbatim>\<open>tpcc/random_generator.cpp\<close>; the block-wise generator
    computes the recurrence.
  \<^item> \<open>Small_Utils\<close>: \<^verbatim>\<open>range_helper.hpp\<close>, \<^verbatim>\<open>tagged_pointer.hpp\<close>, \<^verbatim>\<open>mini_alloc.hpp\<close>
    and the integer functions of \<^verbatim>\<open>utils.hpp\<close>.

  \<^bold>\<open>Bounds on loops.\<close> Loops over a table have as many steps as the code's loop bound, or the capacity where the code has no
  bound; running out is \<open>OutOfSteps\<close>, and the theorems exclude it: \<open>insert_ends\<close> for the hash tables, a bound of the
  height of the tree on a descent, \<open>insert_fuel\<close> on the rounds of an insertion, the capacity of a ring and the width of a word
  when wake-ups are drained. Three loops of the program need not end and are stated so: \<^verbatim>\<open>AtomicPageTable::insert\<close>
  on a full table (\<open>insert_spins\<close>), \<^verbatim>\<open>AtomicPageTable::erase\<close> (\<open>erase_spins\<close>) and \<^verbatim>\<open>wake_fiber\<close> on a full ring.

  \<^bold>\<open>Concurrency.\<close> Fibers of one thread switch only where the code suspends, so an attempt of a tree operation is atomic and a
  suspension ends it. For threads, \<open>Page_State\<close> and the waiters of \<open>Wake_Paths\<close> take every atomic access as a step;
  \<open>Free_Frames\<close> and the wake matrix take a call as a step. Memory is sequentially consistent throughout.

  \<^bold>\<open>Not modelled.\<close> The fiber runtime (\<^verbatim>\<open>kuring.hpp\<close>, \<^verbatim>\<open>jmp.hpp\<close>) switches stacks and makes
  system calls. The branches of \<^verbatim>\<open>bm.cpp\<close> that wait for the disk in place (\<^verbatim>\<open>sync_variant\<close>,
  \<^verbatim>\<open>posix_variant\<close>), the range scans of the B-tree, the multi-threaded B-tree with its guards, and the functions of
  \<^verbatim>\<open>mt/bm.cpp\<close> that combine the modelled parts with asynchronous I/O are not covered. Of the TPC-C and YCSB workloads only keys
  and random numbers are. The network and storage benchmarks, the clients and servers, the shuffle's transfer code, and the utilities for
  devices, huge pages, clocks, logging and command lines consist of system calls. \<^verbatim>\<open>src/fio\<close> is a third-party program.
\<close>

end
